(* ===== verification/Prelude.thy ===== *)
theory Prelude
  imports Main "HOL-Library.Word"
begin

text \<open>
  Shared vocabulary of the development: the machine types of the library's headers, the
  result of an operation that may return, throw, spin for ever or leave the language's
  defined behaviour, raw memory copies, and the arithmetic of sequence numbers and ring
  indexes.
\<close>

unbundle bit_operations_syntax

named_theorems seq_simps \<open>facts that move 64-bit sequence arithmetic to the naturals\<close>
named_theorems ring_simps \<open>facts about slots of a ring after an update\<close>

section \<open>Machine types and outcomes\<close>

text \<open>\<open>size_t\<close>, \<open>uint64_t\<close> and \<open>HMBDC_SEQ_TYPE\<close> are 64 bits wide.\<close>

type_synonym u8 = "8 word"
type_synonym u16 = "16 word"
type_synonym u32 = "32 word"
type_synonym u64 = "64 word"
type_synonym bytes = "u8 list"

text \<open>The exceptions the modelled code throws, by their C++ type.\<close>

datatype exn =
    DeadConsumer nat
  | OutOfRange
  | RuntimeError
  | LogicError
  | ItemTooBig
  | MessageTooBig
  | UnknownException

text \<open>
  \<open>Ret\<close> is a normal return, \<open>Throw\<close> an exception, \<open>Spins\<close> a loop that waits for
  another thread (run alone, it never returns), \<open>Undefined\<close> an access C++ gives no meaning to.
\<close>

datatype 'a outcome = Ret 'a | Throw exn | Spins | Undefined

fun obind :: "'a outcome \<Rightarrow> ('a \<Rightarrow> 'b outcome) \<Rightarrow> 'b outcome" where
  "obind (Ret a) f = f a"
| "obind (Throw e) f = Throw e"
| "obind Spins f = Spins"
| "obind Undefined f = Undefined"

lemma obind_Ret_iff:
  "obind m f = Ret b \<longleftrightarrow> (\<exists>a. m = Ret a \<and> f a = Ret b)"
  by (cases m) auto

lemma obind_assoc: "obind (obind m f) g = obind m (\<lambda>a. obind (f a) g)"
  by (cases m) auto

text \<open>\<^verbatim>\<open>std::numeric_limits<HMBDC_SEQ_TYPE>::max()\<close>, "no sequence number".\<close>

definition noSeq :: u64 where "noSeq = - 1"

section \<open>Raw memory\<close>

text \<open>\<open>memcpy(dst, src, n)\<close>: the first \<open>n\<close> bytes are replaced, the rest stays.\<close>

definition memcpy :: "bytes \<Rightarrow> bytes \<Rightarrow> nat \<Rightarrow> bytes" where
  "memcpy dst src n = take n src @ drop n dst"

lemma length_memcpy [simp]:
  "n \<le> length src \<Longrightarrow> n \<le> length dst \<Longrightarrow> length (memcpy dst src n) = length dst"
  by (simp add: memcpy_def)

lemma take_memcpy [simp]:
  "m \<le> n \<Longrightarrow> n \<le> length src \<Longrightarrow> take m (memcpy dst src n) = take m src"
  by (simp add: memcpy_def)

section \<open>Sequence numbers and ring indexes\<close>

text \<open>An addition of naturals that stays below the width is not wrapped.\<close>

lemma unat_add_small [seq_simps]:
  "unat a + unat b < 2 ^ 64 \<Longrightarrow> unat (a + b) = unat a + unat b" for a b :: u64
  by (simp add: unat_word_ariths)

lemma unat_inc [seq_simps]:
  "Suc (unat a) < 2 ^ 64 \<Longrightarrow> unat (a + 1) = Suc (unat a)" for a :: u64
  by (simp add: unat_word_ariths)

lemma unat_u64_lt: "unat (a :: u64) < 2 ^ 64"
  using unsigned_less [of a] by simp

lemma unat_u16_lt: "unat (a :: u16) < 2 ^ 16"
  using unsigned_less [of a] by simp

lemma unat_u16_u64 [seq_simps]: "unat (ucast w :: u64) = unat w" for w :: u16
  using unat_u16_lt [of w] by (simp add: unsigned_ucast_eq take_bit_nat_eq_self)

lemma unat_of_nat_small: "n < 2 ^ 63 \<Longrightarrow> unat (of_nat n :: u64) = n"
  by (simp add: unsigned_of_nat take_bit_nat_eq_self)

text \<open>\<open>seq & (2^k - 1)\<close> is the sequence number modulo the capacity \<open>2^k\<close>.\<close>

lemma unat_and_mask [seq_simps]:
  "k < 64 \<Longrightarrow> unat (s AND (2 ^ k - 1)) = unat s mod 2 ^ k" for s :: u64
proof -
  have "s AND (2 ^ k - 1) = take_bit k s"
    by (simp add: take_bit_eq_mask mask_eq_exp_minus_1)
  then show ?thesis
    by (simp add: unsigned_take_bit_eq flip: take_bit_eq_mod)
qed

lemma unat_pow2 [seq_simps]: "k < 64 \<Longrightarrow> unat ((2 :: u64) ^ k) = 2 ^ k"
proof -
  assume "k < 64"
  then have "unat (word_of_nat (2 ^ k) :: u64) = 2 ^ k"
    by (simp only: unsigned_of_nat) (simp add: take_bit_nat_eq_self)
  then show ?thesis by simp
qed

lemma unat_drop_bit_div [seq_simps]: "unat (drop_bit n x) = unat x div 2 ^ n" for x :: u64
  by (rule trans [OF unat_drop_bit_eq drop_bit_eq_div])

text \<open>Two numbers of one window of \<open>m\<close> that share their residue are equal.\<close>

lemma window_mod_inj:
  assumes "lo \<le> a" "a < lo + m" "lo \<le> b" "b < lo + m" "a mod m = b mod m"
  shows "a = (b :: nat)"
proof -
  have "a mod m = b mod m \<Longrightarrow> a < b \<Longrightarrow> lo \<le> a \<Longrightarrow> b < lo + m \<Longrightarrow> False" for a b :: nat
    using mod_eq_dvd_iff_nat [of a b m] nat_dvd_not_less [of "b - a" m] by auto
  with assms show ?thesis by (metis linorder_neqE_nat)
qed

end
