(* ===== verification/BitMath.thy ===== *)
theory BitMath
  imports Prelude
begin

text \<open>
  Bit arithmetic of \<^verbatim>\<open>hmbdc/numeric/BitMath.hpp\<close> and the slot-size computation the ring
  buffers share (\<^verbatim>\<open>itemSizePower2Num\<close> of \<^verbatim>\<open>MonoLockFreeBuffer.hpp\<close>, \<^verbatim>\<open>LockFreeBufferT.ipp\<close>
  and \<^verbatim>\<open>RingBuffer.hpp\<close>). The loops are recursive functions over machine words; the lemmas
  describe them by the set of bits that are on.
\<close>

section \<open>Definitions\<close>

text \<open>The compile-time recursion \<^verbatim>\<open>set_bits_count<v>\<close>.\<close>

fun set_bits_count :: "nat \<Rightarrow> nat" where
  "set_bits_count v = (if v = 0 then 0 else set_bits_count (v div 2) + v mod 2)"

declare set_bits_count.simps [simp del]

text \<open>Clearing the lowest bit that is on: \<^verbatim>\<open>x & (x - 1)\<close>.\<close>

definition clearLowest :: "'a::len word \<Rightarrow> 'a word" where
  "clearLowest x = x AND (x - 1)"

lemma clearLowest_less: "x \<noteq> 0 \<Longrightarrow> clearLowest x < x"
proof -
  assume "x \<noteq> 0"
  then have "x - 1 < x" by (simp add: word_less_nat_alt unat_minus_one unat_gt_0)
  moreover have "clearLowest x \<le> x - 1"
    unfolding clearLowest_def by (simp add: word_and_le1)
  ultimately show ?thesis by simp
qed

text \<open>\<^verbatim>\<open>for (c = 0; x; c++, x &= x-1);\<close>\<close>

function setBitsCount :: "'a::len word \<Rightarrow> nat" where
  "setBitsCount x = (if x = 0 then 0 else Suc (setBitsCount (clearLowest x)))"
  by pat_completeness auto
termination
  by (relation "measure unat") (auto simp: clearLowest_less simp flip: word_less_nat_alt)

declare setBitsCount.simps [simp del]

text \<open>\<^verbatim>\<open>do { res = x - (x & (x-1)); x -= res; } while (n--)\<close>, returning the last \<^verbatim>\<open>res\<close>.\<close>

fun nthSetBitFromLsb :: "'a::len word \<Rightarrow> nat \<Rightarrow> 'a word" where
  "nthSetBitFromLsb x 0 = x - clearLowest x"
| "nthSetBitFromLsb x (Suc n) = nthSetBitFromLsb (x - (x - clearLowest x)) n"

lemma unat_half: "unat (drop_bit 1 (x :: u64)) = unat x div 2"
  using unat_drop_bit_div [of 1 x] by (simp only: power_one_right)

text \<open>\<^verbatim>\<open>while (xx >>= 1u) ++l; return (1ul << l) == x ? l : ++l\<close>.\<close>

function log2Loop :: "u64 \<Rightarrow> nat \<Rightarrow> nat" where
  "log2Loop xx l = (if drop_bit 1 xx \<noteq> 0 then log2Loop (drop_bit 1 xx) (Suc l) else l)"
  by pat_completeness auto
termination
proof (relation "measure (\<lambda>(xx, l). unat xx)", goal_cases)
  case (2 xx l)
  then have "unat (drop_bit 1 xx) \<noteq> 0" by (simp only: unat_eq_zero not_False_eq_True)
  then show ?case by (simp only: unat_half in_measure prod.case)
qed simp

declare log2Loop.simps [simp del]

definition log2Upper :: "u64 \<Rightarrow> nat" where
  "log2Upper x = (let l = log2Loop x 0 in if push_bit l 1 = x then l else Suc l)"

text \<open>\<^verbatim>\<open>for (auto i : indexes) res |= (1u << i)\<close>: the shifted constant is a 32-bit one.\<close>

definition fromSetBitIndexes :: "nat list \<Rightarrow> u64 outcome" where
  "fromSetBitIndexes is =
     (if \<forall>i \<in> set is. i < 32
      then Ret (fold (\<lambda>i res. res OR ucast (push_bit i (1 :: u32))) is 0)
      else Undefined)"

text \<open>\<^verbatim>\<open>while ((1ul << res) < valueTypeSize) res++\<close>, started at 1 with the header added.\<close>

function itemSizeLoop :: "nat \<Rightarrow> nat \<Rightarrow> nat" where
  "itemSizeLoop res sz = (if 2 ^ res < sz then itemSizeLoop (Suc res) sz else res)"
  by pat_completeness auto
termination
  by (relation "measure (\<lambda>(res, sz). sz - 2 ^ res)")
     (auto intro!: diff_less_mono2)

declare itemSizeLoop.simps [simp del]

abbreviation seqBytes :: nat where \<comment> \<open>\<^verbatim>\<open>sizeof(Sequence)\<close>\<close>
  "seqBytes \<equiv> 8"

definition itemSizePower2Num :: "nat \<Rightarrow> nat" where
  "itemSizePower2Num valueTypeSize = itemSizeLoop 1 (valueTypeSize + seqBytes)"

section \<open>The bits that are on\<close>

definition onBits :: "'a::len word \<Rightarrow> nat set" where
  "onBits x = {i. bit x i}"

lemma finite_onBits [simp]: "finite (onBits (x :: 'a::len word))"
proof (rule finite_subset)
  show "onBits x \<subseteq> {..< LENGTH('a)}"
    by (auto simp: onBits_def dest: bit_imp_le_length)
qed simp

lemma onBits_empty_iff: "onBits x = {} \<longleftrightarrow> x = 0"
  by (auto simp: onBits_def bit_eq_iff dest: bit_imp_le_length)

lemma nat_and_pred_bits:
  "n \<noteq> 0 \<Longrightarrow> \<exists>j. bit n j \<and> (\<forall>i < j. \<not> bit n i) \<and> (\<forall>i. bit (n AND (n - 1)) i \<longleftrightarrow> bit n i \<and> i \<noteq> j)"
  for n :: nat
proof (induction n rule: less_induct)
  case (less n)
  show ?case
  proof (cases "even n")
    case True
    then obtain m where n: "n = 2 * m" by blast
    with less.prems have "m < n" "m \<noteq> 0" by auto
    then obtain j where j: "bit m j" "\<forall>i < j. \<not> bit m i"
      "\<forall>i. bit (m AND (m - 1)) i \<longleftrightarrow> bit m i \<and> i \<noteq> j"
      using less.IH by blast
    have half: "n div 2 = m" "(n - 1) div 2 = m - 1" using n by presburger+
    have n0: "\<not> bit n 0" using n by (simp add: bit_0)
    have nS: "bit n (Suc k) \<longleftrightarrow> bit m k" for k
      using half by (simp only: bit_Suc)
    have aS: "bit (n AND (n - 1)) (Suc k) \<longleftrightarrow> bit (m AND (m - 1)) k" for k
      unfolding bit_and_iff by (simp only: bit_Suc half)
    have "bit (n AND (n - 1)) i \<longleftrightarrow> bit n i \<and> i \<noteq> Suc j" for i
    proof (cases i)
      case 0
      with n0 show ?thesis by (simp add: bit_and_iff)
    next
      case (Suc k)
      from j(3) [rule_format, of k] show ?thesis unfolding Suc aS nS by simp
    qed
    moreover have "bit n (Suc j)" using j(1) nS by simp
    moreover have "\<forall>i < Suc j. \<not> bit n i"
    proof (intro allI impI)
      fix i assume "i < Suc j"
      then show "\<not> bit n i" using j(2) n0 nS by (cases i) auto
    qed
    ultimately show ?thesis by blast
  next
    case False
    then have "bit (n AND (n - 1)) i \<longleftrightarrow> bit n i \<and> i \<noteq> 0" for i
    proof (cases i)
      case (Suc k)
      have "(n - 1) div 2 = n div 2" using False by presburger
      then show ?thesis unfolding Suc bit_and_iff by (simp only: bit_Suc) simp
    qed (simp add: bit_0 bit_and_iff even_and_iff)
    moreover have "bit n 0" using False by (simp add: bit_0)
    ultimately show ?thesis by (intro exI [of _ 0]) auto
  qed
qed

lemma clearLowest_bits:
  assumes "x \<noteq> 0"
  obtains j where "j \<in> onBits x" "\<forall>i \<in> onBits x. j \<le> i" "onBits (clearLowest x) = onBits x - {j}"
proof -
  have "unat x \<noteq> 0" using assms unat_eq_zero [of x] by blast
  then obtain j where j: "bit (unat x) j" "\<forall>i < j. \<not> bit (unat x) i"
    "\<forall>i. bit (unat x AND (unat x - 1)) i \<longleftrightarrow> bit (unat x) i \<and> i \<noteq> j"
    using nat_and_pred_bits by blast
  have u: "bit (unat y) i = bit y i" for y :: "'a word" and i
    by (simp add: bit_unsigned_iff)
  have "unat (clearLowest x) = unat x AND (unat x - 1)"
    using assms by (simp add: clearLowest_def unsigned_and_eq unat_minus_one)
  then have "bit (clearLowest x) i \<longleftrightarrow> bit x i \<and> i \<noteq> j" for i
    using j(3) by (simp only: u [symmetric])
  then have "onBits (clearLowest x) = onBits x - {j}" by (auto simp: onBits_def)
  moreover have "j \<in> onBits x" "\<forall>i \<in> onBits x. j \<le> i"
    using j(1,2) unfolding u onBits_def by (auto simp flip: not_less)
  ultimately show ?thesis using that by blast
qed

lemma mask_minus_clearLowest:
  "x - (x - clearLowest x) = clearLowest x"
  by simp

lemma lowest_bit_isolated:
  assumes "j \<in> onBits x" "\<forall>i \<in> onBits x. j \<le> i" "onBits (clearLowest x) = onBits x - {j}"
  shows "x - clearLowest x = 2 ^ j"
proof -
  have c: "bit (clearLowest x) i \<longleftrightarrow> bit x i \<and> i \<noteq> j" for i
    using assms(3) by (auto simp: onBits_def set_eq_iff)
  have j: "bit x j" using assms(1) by (simp add: onBits_def)
  have "clearLowest x AND 2 ^ j = 0"
    by (rule bit_eqI) (auto simp: bit_and_iff bit_exp_iff c)
  moreover have "x = clearLowest x OR 2 ^ j"
    using j by (intro bit_eqI) (auto simp: bit_or_iff bit_exp_iff c)
  ultimately have "x = clearLowest x + 2 ^ j"
    using disjunctive_add_eq_or by metis
  then show ?thesis by (metis add_diff_cancel_left')
qed

theorem setBitsCount_card: "setBitsCount x = card (onBits x)"
proof (induction x rule: setBitsCount.induct)
  case (1 x)
  show ?case
  proof (cases "x = 0")
    case False
    then obtain j where "j \<in> onBits x" "onBits (clearLowest x) = onBits x - {j}"
      by (rule clearLowest_bits)
    then have "card (onBits x) = Suc (card (onBits (clearLowest x)))"
      by (metis card.remove finite_onBits)
    with 1 False show ?thesis
      by (subst setBitsCount.simps) presburger
  qed (subst setBitsCount.simps, simp add: onBits_empty_iff [THEN iffD2])
qed

theorem nthSetBitFromLsb_spec:
  "n < card (onBits x) \<Longrightarrow>
   \<exists>j \<in> onBits x. nthSetBitFromLsb x n = 2 ^ j \<and> card {i \<in> onBits x. i < j} = n"
proof (induction n arbitrary: x)
  case 0
  then have "x \<noteq> 0" using onBits_empty_iff [of x] by auto
  then obtain j where j: "j \<in> onBits x" "\<forall>i \<in> onBits x. j \<le> i"
    "onBits (clearLowest x) = onBits x - {j}" by (rule clearLowest_bits)
  then have "{i \<in> onBits x. i < j} = {}" by auto
  with j lowest_bit_isolated [OF j] show ?case by (intro bexI [of _ j]) simp_all
next
  case (Suc n)
  then have "x \<noteq> 0" using onBits_empty_iff [of x] by auto
  then obtain l where l: "l \<in> onBits x" "\<forall>i \<in> onBits x. l \<le> i"
    "onBits (clearLowest x) = onBits x - {l}" by (rule clearLowest_bits)
  with Suc.prems have "n < card (onBits (clearLowest x))" by simp
  then obtain j where "j \<in> onBits (clearLowest x)"
    "nthSetBitFromLsb (clearLowest x) n = 2 ^ j"
    "card {i \<in> onBits (clearLowest x). i < j} = n"
    using Suc.IH by blast
  then have j: "j \<in> onBits x" "j \<noteq> l" "nthSetBitFromLsb (clearLowest x) n = 2 ^ j"
    "card {i \<in> onBits x - {l}. i < j} = n"
    unfolding l(3) by simp_all
  have "{i \<in> onBits x. i < j} = insert l {i \<in> onBits x - {l}. i < j}"
    using l(1,2) j(1,2) by (auto simp: order.strict_iff_order)
  with j show ?case by (intro bexI [of _ j]) simp_all
qed


lemma nat_bits_rec:
  "{i. bit n i} = (if odd n then {0} else {}) \<union> Suc ` {i. bit (n div 2) i}" for n :: nat
proof (rule set_eqI)
  fix i
  show "i \<in> {i. bit n i} \<longleftrightarrow> i \<in> (if odd n then {0} else {}) \<union> Suc ` {i. bit (n div 2) i}"
    by (cases i) (auto simp: bit_0 bit_Suc)
qed

lemma set_bits_count_card: "finite {i. bit v i} \<and> set_bits_count v = card {i. bit v i}"
proof (induction v rule: set_bits_count.induct)
  case (1 v)
  show ?case
  proof (cases "v = 0")
    case False
    with 1 have IH: "finite {i. bit (v div 2) i}"
      "set_bits_count (v div 2) = card {i. bit (v div 2) i}" by blast+
    then have "card (Suc ` {i. bit (v div 2) i}) = set_bits_count (v div 2)"
      by (simp add: card_image)
    with False IH(1) show ?thesis
      by (subst set_bits_count.simps) (auto simp: nat_bits_rec [of v] card_insert_if mod2_eq_if)
  qed (simp add: set_bits_count.simps)
qed

lemma log2Loop_spec:
  "xx \<noteq> 0 \<Longrightarrow> \<exists>d. log2Loop xx l = l + d \<and> 2 ^ d \<le> unat xx \<and> unat xx < 2 ^ Suc d"
proof (induction xx l rule: log2Loop.induct)
  case (1 xx l)
  have pos: "0 < unat xx" using "1.prems" unat_gt_0 [of xx] by blast
  show ?case
  proof (cases "drop_bit 1 xx = 0")
    case True
    then have "unat xx div 2 = 0" using unat_half [of xx] by (simp only: unat_0)
    with pos have "unat xx = 1" by linarith
    moreover have "log2Loop xx l = l" using True by (subst log2Loop.simps) (simp only: if_False refl not_True_eq_False)
    ultimately show ?thesis by (intro exI [of _ 0]) simp
  next
    case False
    then obtain d where d: "log2Loop (drop_bit 1 xx) (Suc l) = Suc l + d"
      "2 ^ d \<le> unat xx div 2" "unat xx div 2 < 2 ^ Suc d"
      using "1.IH" unfolding unat_half by blast
    have "log2Loop xx l = Suc l + d"
      using False d(1) by (subst log2Loop.simps) (simp only: if_True refl not_False_eq_True)
    moreover have "2 ^ Suc d \<le> unat xx" "unat xx < 2 ^ Suc (Suc d)" using d(2,3) by auto
    ultimately show ?thesis by (intro exI [of _ "Suc d"]) simp
  qed
qed

lemma log2Upper_spec:
  assumes "x \<noteq> 0"
  shows "unat x \<le> 2 ^ log2Upper x \<and> (\<forall>m. unat x \<le> 2 ^ m \<longrightarrow> log2Upper x \<le> m)"
proof -
  obtain d where d: "log2Loop x 0 = d" "2 ^ d \<le> unat x" "unat x < 2 ^ Suc d"
    using log2Loop_spec [OF assms, of 0] by auto
  have "(2::nat) ^ d < 2 ^ 64" using d(2) unat_u64_lt [of x] by (rule le_less_trans)
  then have "d < 64" by (rule power_less_imp_less_exp [rotated]) simp
  then have "push_bit d 1 = x \<longleftrightarrow> unat x = 2 ^ d"
    using unat_pow2 [of d] by (metis push_bit_of_1 word_unat_eq_iff)
  then have l: "log2Upper x = (if unat x = 2 ^ d then d else Suc d)"
    by (simp only: log2Upper_def d(1) Let_def)
  have "d \<le> m" if "unat x \<le> 2 ^ m" for m
    using le_trans [OF d(2) that] by simp
  moreover have "Suc d \<le> m" if "unat x \<le> 2 ^ m" "unat x \<noteq> 2 ^ d" for m
  proof -
    from d(2) that have "(2::nat) ^ d < 2 ^ m" by linarith
    then show ?thesis by simp
  qed
  ultimately show ?thesis using d(3) unfolding l by auto
qed

lemma itemSizeLoop_spec:
  "sz \<le> 2 ^ itemSizeLoop res sz \<and> res \<le> itemSizeLoop res sz \<and>
   (itemSizeLoop res sz = res \<or> 2 ^ (itemSizeLoop res sz - 1) < sz)"
proof (induction res sz rule: itemSizeLoop.induct)
  case (1 res sz)
  show ?case
  proof (cases "2 ^ res < sz")
    case True
    with 1 have "sz \<le> 2 ^ itemSizeLoop (Suc res) sz" "Suc res \<le> itemSizeLoop (Suc res) sz"
      "itemSizeLoop (Suc res) sz = Suc res \<or> 2 ^ (itemSizeLoop (Suc res) sz - 1) < sz" by auto
    with True show ?thesis by (subst itemSizeLoop.simps, subst (2) itemSizeLoop.simps,
          subst (3) itemSizeLoop.simps, subst (4) itemSizeLoop.simps) auto
  next
    case False
    then have "itemSizeLoop res sz = res" by (subst itemSizeLoop.simps) simp
    with False show ?thesis by simp
  qed
qed

end
