(* ===== verification/LockFreeBufferMisc.thy ===== *)
theory LockFreeBufferMisc
  imports BitMath
begin

text \<open>
  \<^verbatim>\<open>hmbdc/pattern/LockFreeBufferMisc.hpp\<close>: the chunk of memory behind every ring buffer and
  the iterators over it. The chunk is \<open>2^r\<close> slots of \<open>2^v\<close> bytes; a slot starts with an
  8-byte sequence number and the rest is the value. Addresses are offsets from the start of
  the chunk, so the pointer arithmetic of \<^verbatim>\<open>operator+\<close> and \<^verbatim>\<open>operator-\<close> is kept.
\<close>

section \<open>The chunk\<close>

record slot =
  slotSeq :: u64
  slotData :: bytes

record chunk_base_ptr =
  space :: "slot list"
  chunkMASK :: u64
  valueTypeSizePower2Num :: nat

text \<open>The constructor; what \<^verbatim>\<open>memalign\<close> returns is uninitialised, the parameter \<open>junk\<close>.\<close>

definition chunk_base_ptr :: "(nat \<Rightarrow> slot) \<Rightarrow> nat \<Rightarrow> nat \<Rightarrow> chunk_base_ptr outcome" where
  "chunk_base_ptr junk v r =
     (if v + r > 32 then Throw OutOfRange
      else Ret \<lparr>space = map junk [0..<2 ^ r], chunkMASK = push_bit r 1 - 1,
                valueTypeSizePower2Num = v\<rparr>)"

text \<open>\<^verbatim>\<open>operator+\<close>: the offset of the value of slot \<open>index\<close>; \<^verbatim>\<open>operator-\<close>: back to the index.\<close>

definition chunkPlus :: "chunk_base_ptr \<Rightarrow> u64 \<Rightarrow> u64" where
  "chunkPlus c index = push_bit (valueTypeSizePower2Num c) index + 8"

definition chunkMinus :: "u64 \<Rightarrow> chunk_base_ptr \<Rightarrow> u64" where
  "chunkMinus off c = drop_bit (valueTypeSizePower2Num c) (off - 8)"

definition getSeq :: "chunk_base_ptr \<Rightarrow> u64 \<Rightarrow> u64" where
  "getSeq c index = slotSeq (space c ! unat index)"

definition setSeq :: "chunk_base_ptr \<Rightarrow> u64 \<Rightarrow> u64 \<Rightarrow> chunk_base_ptr" where
  "setSeq c index s =
     c\<lparr>space := (space c)[unat index := (space c ! unat index)\<lparr>slotSeq := s\<rparr>]\<rparr>"

text \<open>Copying \<open>n\<close> bytes into and out of the value of a slot.\<close>

definition copyIn :: "chunk_base_ptr \<Rightarrow> u64 \<Rightarrow> bytes \<Rightarrow> nat \<Rightarrow> chunk_base_ptr" where
  "copyIn c index item n =
     c\<lparr>space := (space c)[unat index :=
        (space c ! unat index)\<lparr>slotData := memcpy (slotData (space c ! unat index)) item n\<rparr>]\<rparr>"

definition copyOut :: "chunk_base_ptr \<Rightarrow> u64 \<Rightarrow> nat \<Rightarrow> bytes" where
  "copyOut c index n = take n (slotData (space c ! unat index))"

section \<open>Iterators\<close>

record lf_iterator =
  start :: bool \<comment> \<open>\<^verbatim>\<open>start_ != nullptr\<close>\<close>
  seq :: u64

definition iteratorAt :: "u64 \<Rightarrow> lf_iterator" where
  "iteratorAt s = \<lparr>start = True, seq = s\<rparr>"

definition nullIterator :: lf_iterator where
  "nullIterator = \<lparr>start = False, seq = 0\<rparr>"

definition iterClear :: "lf_iterator \<Rightarrow> lf_iterator" where
  "iterClear it = it\<lparr>start := False\<rparr>"

definition iterInc :: "lf_iterator \<Rightarrow> lf_iterator" where
  "iterInc it = it\<lparr>seq := seq it + 1\<rparr>"

definition iterPlus :: "lf_iterator \<Rightarrow> u64 \<Rightarrow> lf_iterator" where
  "iterPlus it dis = it\<lparr>seq := seq it + dis\<rparr>"

definition iterMinus :: "lf_iterator \<Rightarrow> lf_iterator \<Rightarrow> u64" where
  "iterMinus it other = seq it - seq other"

definition iterLess :: "lf_iterator \<Rightarrow> lf_iterator \<Rightarrow> bool" where
  "iterLess it other \<longleftrightarrow> seq it < seq other"

definition iterEq :: "lf_iterator \<Rightarrow> lf_iterator \<Rightarrow> bool" where
  "iterEq it other \<longleftrightarrow> seq it = seq other"

text \<open>\<^verbatim>\<open>operator*\<close>: the address of the value the iterator stands on.\<close>

definition iterDeref :: "chunk_base_ptr \<Rightarrow> lf_iterator \<Rightarrow> u64" where
  "iterDeref c it = chunkPlus c (seq it AND chunkMASK c)"

section \<open>Well-formed chunks and what the operations do to the slots\<close>

definition chunk_wf :: "chunk_base_ptr \<Rightarrow> nat \<Rightarrow> bool" where
  "chunk_wf c r \<longleftrightarrow>
     valueTypeSizePower2Num c + r \<le> 32 \<and> chunkMASK c = 2 ^ r - 1 \<and> length (space c) = 2 ^ r \<and>
     (\<forall>s \<in> set (space c). length (slotData s) + seqBytes = 2 ^ valueTypeSizePower2Num c)"

text \<open>The slot of sequence number \<open>n\<close> is slot \<open>n mod 2^r\<close>.\<close>

definition slotOf :: "chunk_base_ptr \<Rightarrow> nat \<Rightarrow> slot" where
  "slotOf c n = space c ! (n mod length (space c))"

lemma chunk_index:
  assumes "chunk_wf c r"
  shows "unat (s AND chunkMASK c) = unat s mod length (space c)"
    "unat (s AND chunkMASK c) < length (space c)"
  using assms by (auto simp: chunk_wf_def unat_and_mask)

lemma chunk_mask_slots:
  assumes "chunk_wf c r"
  shows "getSeq c (s AND chunkMASK c) = slotSeq (slotOf c (unat s))"
    "copyOut c (s AND chunkMASK c) n = take n (slotData (slotOf c (unat s)))"
  by (simp_all add: getSeq_def copyOut_def slotOf_def chunk_index [OF assms])

lemma length_slots [simp]:
  "length (space (setSeq c i s)) = length (space c)"
  "length (space (copyIn c i item n)) = length (space c)"
  by (simp_all add: setSeq_def copyIn_def)

lemma chunk_consts [simp]:
  "chunkMASK (setSeq c i s) = chunkMASK c"
  "chunkMASK (copyIn c i item n) = chunkMASK c"
  "valueTypeSizePower2Num (setSeq c i s) = valueTypeSizePower2Num c"
  "valueTypeSizePower2Num (copyIn c i item n) = valueTypeSizePower2Num c"
  by (simp_all add: setSeq_def copyIn_def)

lemma slotOf_setSeq [ring_simps]:
  assumes "chunk_wf c r"
  shows "slotOf (setSeq c (s AND chunkMASK c) x) n =
     (if n mod 2 ^ r = unat s mod 2 ^ r then (slotOf c n)\<lparr>slotSeq := x\<rparr> else slotOf c n)"
proof -
  have "length (space c) = 2 ^ r" using assms by (simp add: chunk_wf_def)
  then show ?thesis
    by (auto simp: slotOf_def setSeq_def chunk_index [OF assms] nth_list_update)
qed

lemma slotOf_copyIn [ring_simps]:
  assumes "chunk_wf c r"
  shows "slotOf (copyIn c (s AND chunkMASK c) item k) n =
     (if n mod 2 ^ r = unat s mod 2 ^ r
      then (slotOf c n)\<lparr>slotData := memcpy (slotData (slotOf c n)) item k\<rparr> else slotOf c n)"
proof -
  have "length (space c) = 2 ^ r" using assms by (simp add: chunk_wf_def)
  then show ?thesis
    by (auto simp: slotOf_def copyIn_def chunk_index [OF assms] nth_list_update)
qed

lemma chunk_wf_setSeq [ring_simps]:
  assumes "chunk_wf c r"
  shows "chunk_wf (setSeq c (s AND chunkMASK c) x) r"
  using assms chunk_index(2) [OF assms, of s]
  by (auto simp: chunk_wf_def setSeq_def dest!: set_update_subset_insert [THEN subsetD])

lemma chunk_wf_copyIn [ring_simps]:
  assumes "chunk_wf c r" "k \<le> length item" "k + seqBytes \<le> 2 ^ valueTypeSizePower2Num c"
  shows "chunk_wf (copyIn c (s AND chunkMASK c) item k) r"
proof -
  have len: "length (slotData (space c ! unat (s AND chunkMASK c))) + seqBytes
    = 2 ^ valueTypeSizePower2Num c"
    using assms(1) chunk_index(2) [OF assms(1), of s] by (auto simp: chunk_wf_def)
  then show ?thesis
    using assms
    by (auto simp: chunk_wf_def copyIn_def dest!: set_update_subset_insert [THEN subsetD])
qed

text \<open>
  \<^verbatim>\<open>*it - buffer_\<close>, the index \<^verbatim>\<open>commit\<close> uses, is the index of the slot the iterator was
  dereferenced at: nothing overflows, since the whole chunk is at most \<open>2^32\<close> bytes.
\<close>

lemma chunk_address_roundtrip:
  assumes "chunk_wf c r" "unat index < 2 ^ r"
  shows "chunkMinus (chunkPlus c index) c = index"
proof -
  let ?v = "valueTypeSizePower2Num c"
  have vr: "?v + r \<le> 32" using assms(1) by (simp add: chunk_wf_def)
  have "unat index * 2 ^ ?v < 2 ^ r * 2 ^ ?v" using assms(2) by simp
  also have "\<dots> \<le> (2::nat) ^ 32" using vr power_increasing [of "r + ?v" 32 "2::nat"]
    by (simp add: power_add add.commute)
  finally have small: "unat index * 2 ^ ?v < 2 ^ 32" .
  have "unat ((2::u64) ^ ?v) = 2 ^ ?v" using vr by (intro unat_pow2) simp
  then have "unat (push_bit ?v index) = unat index * 2 ^ ?v"
    using small by (simp add: push_bit_eq_mult unat_word_ariths)
  moreover have "unat (drop_bit ?v (push_bit ?v index)) = unat (push_bit ?v index) div 2 ^ ?v"
    by (rule unat_drop_bit_div)
  ultimately have "unat (drop_bit ?v (push_bit ?v index)) = unat index" by simp
  then have "drop_bit ?v (push_bit ?v index) = index" by (simp only: word_unat_eq_iff)
  then show ?thesis by (simp add: chunkMinus_def chunkPlus_def)
qed

end
