(* ===== verification/MemRingBuffer.thy ===== *)
theory MemRingBuffer
  imports LockFreeBufferMisc
begin

text \<open>
  \<^verbatim>\<open>hmbdc/pattern/MemRingBuffer.hpp\<close>: the multi-producer ring buffer in which each of
  \<open>PARALLEL_CONSUMER_COUNT\<close> consumers sees every message. An operation is written as the
  code runs it without interruption; a loop that waits for another thread is \<open>Spins\<close>.
  The interleaved executions are in theory \<open>RingConcurrency\<close>, which reuses these steps.
\<close>

section \<open>State\<close>

record MemRingBuffer =
  CAPACITY :: u64
  VALUE_TYPE_SIZE :: nat
  READ_SEQ_MAX :: u64
  MASK :: u64
  buffer :: chunk_base_ptr
  toBeClaimedSeq :: u64
  readSeqs :: "u64 list"
  readSeqLastPurge :: "u64 list"
  locks :: "bool list"

text \<open>\<^verbatim>\<open>std::min_element\<close>: the index of the first smallest element.\<close>

fun min_element :: "u64 list \<Rightarrow> nat" where
  "min_element [] = 0"
| "min_element [x] = 0"
| "min_element (x # y # ys) =
     (let j = min_element (y # ys) in if (y # ys) ! j < x then Suc j else 0)"

definition findSlowestReader :: "MemRingBuffer \<Rightarrow> nat" where
  "findSlowestReader b = min_element (readSeqs b)"

definition readSeqLow :: "MemRingBuffer \<Rightarrow> u64" where
  "readSeqLow b = readSeqs b ! min_element (readSeqs b)"

text \<open>The constructor, for \<open>n\<close> parallel consumers.\<close>

definition newMemRingBuffer :: "(nat \<Rightarrow> slot) \<Rightarrow> nat \<Rightarrow> nat \<Rightarrow> nat \<Rightarrow> MemRingBuffer outcome" where
  "newMemRingBuffer junk n v r =
     obind (chunk_base_ptr junk v r) (\<lambda>c.
       let cap = push_bit r 1 in
       Ret \<lparr>CAPACITY = cap, VALUE_TYPE_SIZE = 2 ^ v - seqBytes,
            READ_SEQ_MAX = - 1 - cap - 1000, MASK = cap - 1,
            buffer = c\<lparr>space := map (\<lambda>s. s\<lparr>slotSeq := - 1\<rparr>) (space c)\<rparr>,
            toBeClaimedSeq = 0, readSeqs = replicate n 0,
            readSeqLastPurge = replicate n (- 1 - cap - 1000), locks = replicate n False\<rparr>)"

section \<open>Producers\<close>

text \<open>\<^verbatim>\<open>fetch_add\<close> on \<^verbatim>\<open>toBeClaimedSeq_\<close>.\<close>

definition fetchAddClaim :: "MemRingBuffer \<Rightarrow> u64 \<Rightarrow> u64 \<times> MemRingBuffer" where
  "fetchAddClaim b n = (toBeClaimedSeq b, b\<lparr>toBeClaimedSeq := toBeClaimedSeq b + n\<rparr>)"

text \<open>The condition the waiting loops test: is there no room yet for \<open>seq\<close>?\<close>

definition noRoom :: "MemRingBuffer \<Rightarrow> u64 \<Rightarrow> bool" where
  "noRoom b s \<longleftrightarrow> s \<ge> CAPACITY b + readSeqLow b"

definition noRoomN :: "MemRingBuffer \<Rightarrow> u64 \<Rightarrow> u64 \<Rightarrow> bool" where
  "noRoomN b s n \<longleftrightarrow> s + n > CAPACITY b + readSeqLow b"

definition hintSize :: "MemRingBuffer \<Rightarrow> nat \<Rightarrow> nat" where
  "hintSize b sizeHint = (if sizeHint \<noteq> 0 then sizeHint else VALUE_TYPE_SIZE b)"

text \<open>
  \<^verbatim>\<open>memcpy(buffer_ + index, item, ...)\<close>. Copying more than the slot or the item holds is
  undefined behaviour.
\<close>

definition writeItem :: "MemRingBuffer \<Rightarrow> u64 \<Rightarrow> bytes \<Rightarrow> nat \<Rightarrow> MemRingBuffer outcome" where
  "writeItem b s item sizeHint =
     (let n = hintSize b sizeHint in
      if n \<le> VALUE_TYPE_SIZE b \<and> n \<le> length item
      then Ret (b\<lparr>buffer := copyIn (buffer b) (s AND MASK b) item n\<rparr>) else Undefined)"

text \<open>\<^verbatim>\<open>*buffer_.getSeq(index) = seq\<close>: the slot is published.\<close>

definition publish :: "MemRingBuffer \<Rightarrow> u64 \<Rightarrow> MemRingBuffer" where
  "publish b s = b\<lparr>buffer := setSeq (buffer b) (s AND MASK b) s\<rparr>"

definition put :: "MemRingBuffer \<Rightarrow> bytes \<Rightarrow> nat \<Rightarrow> MemRingBuffer outcome" where
  "put b item sizeHint =
     (let (s, b1) = fetchAddClaim b 1 in
      if noRoom b1 s then Spins
      else obind (writeItem b1 s item sizeHint) (\<lambda>b2. Ret (publish b2 s)))"

text \<open>\<^verbatim>\<open>tryPut\<close>: alone, the compare-and-swap of the sequence just read succeeds.\<close>

definition tryPut :: "MemRingBuffer \<Rightarrow> bytes \<Rightarrow> nat \<Rightarrow> (bool \<times> MemRingBuffer) outcome" where
  "tryPut b item sizeHint =
     (let s = toBeClaimedSeq b in
      if s < CAPACITY b + readSeqLow b
      then obind (writeItem (b\<lparr>toBeClaimedSeq := s + 1\<rparr>) s item sizeHint)
             (\<lambda>b2. Ret (True, publish b2 s))
      else Ret (False, b))"

definition isFull :: "MemRingBuffer \<Rightarrow> bool" where
  "isFull b \<longleftrightarrow> toBeClaimedSeq b \<ge> CAPACITY b + readSeqLow b"

definition claim :: "MemRingBuffer \<Rightarrow> (lf_iterator \<times> MemRingBuffer) outcome" where
  "claim b = (let (s, b1) = fetchAddClaim b 1 in
     if noRoom b1 s then Spins else Ret (iteratorAt s, b1))"

definition tryClaim :: "MemRingBuffer \<Rightarrow> lf_iterator \<times> MemRingBuffer" where
  "tryClaim b = (let s = toBeClaimedSeq b in
     if s < CAPACITY b + readSeqLow b
     then (iteratorAt s, b\<lparr>toBeClaimedSeq := s + 1\<rparr>) else (nullIterator, b))"

definition tryClaimN :: "MemRingBuffer \<Rightarrow> u64 \<Rightarrow> lf_iterator \<times> MemRingBuffer" where
  "tryClaimN b n = (let s = toBeClaimedSeq b in
     if s + n - 1 < CAPACITY b + readSeqLow b
     then (iteratorAt s, b\<lparr>toBeClaimedSeq := s + n\<rparr>) else (nullIterator, b))"

definition claimN :: "MemRingBuffer \<Rightarrow> u64 \<Rightarrow> (lf_iterator \<times> MemRingBuffer) outcome" where
  "claimN b n = (let (s, b1) = fetchAddClaim b n in
     if noRoomN b1 s n then Spins else Ret (iteratorAt s, b1))"

definition commit :: "MemRingBuffer \<Rightarrow> lf_iterator \<Rightarrow> MemRingBuffer" where
  "commit b it =
     b\<lparr>buffer := setSeq (buffer b) (chunkMinus (iterDeref (buffer b) it) (buffer b)) (seq it)\<rparr>"

fun commitN :: "MemRingBuffer \<Rightarrow> lf_iterator \<Rightarrow> nat \<Rightarrow> MemRingBuffer" where
  "commitN b from 0 = b"
| "commitN b from (Suc n) = commitN (commit b from) (iterInc from) n"

section \<open>Killing consumers\<close>

definition markDead :: "MemRingBuffer \<Rightarrow> nat \<Rightarrow> MemRingBuffer" where
  "markDead b i =
     (if i < length (readSeqs b)
      then b\<lparr>readSeqs := (readSeqs b)[i := READ_SEQ_MAX b]\<rparr> else b)"

text \<open>\<^verbatim>\<open>while (...) markDead(findSlowestReader())\<close>; \<open>None\<close>: the loop never ends.\<close>

partial_function (option) killUntilRoom :: "MemRingBuffer \<Rightarrow> u64 \<Rightarrow> MemRingBuffer option" where
  "killUntilRoom b s =
     (if noRoom b s then killUntilRoom (markDead b (findSlowestReader b)) s else Some b)"

partial_function (option) killUntilRoomN ::
    "MemRingBuffer \<Rightarrow> u64 \<Rightarrow> u64 \<Rightarrow> MemRingBuffer option" where
  "killUntilRoomN b s n =
     (if noRoomN b s n then killUntilRoomN (markDead b (findSlowestReader b)) s n else Some b)"

definition killPut :: "MemRingBuffer \<Rightarrow> bytes \<Rightarrow> nat \<Rightarrow> MemRingBuffer outcome" where
  "killPut b item sizeHint =
     (let (s, b1) = fetchAddClaim b 1 in
      case killUntilRoom b1 s of None \<Rightarrow> Spins
      | Some b2 \<Rightarrow> obind (writeItem b2 s item sizeHint) (\<lambda>b3. Ret (publish b3 s)))"

definition killClaim :: "MemRingBuffer \<Rightarrow> (lf_iterator \<times> MemRingBuffer) outcome" where
  "killClaim b =
     (let (s, b1) = fetchAddClaim b 1 in
      case killUntilRoom b1 s of None \<Rightarrow> Spins | Some b2 \<Rightarrow> Ret (iteratorAt s, b2))"

definition killClaimN :: "MemRingBuffer \<Rightarrow> u64 \<Rightarrow> (lf_iterator \<times> MemRingBuffer) outcome" where
  "killClaimN b n =
     (let (s, b1) = fetchAddClaim b n in
      case killUntilRoomN b1 s n of None \<Rightarrow> Spins | Some b2 \<Rightarrow> Ret (iteratorAt s, b2))"

definition unusedConsumerIndexes :: "MemRingBuffer \<Rightarrow> nat list" where
  "unusedConsumerIndexes b =
     filter (\<lambda>i. readSeqs b ! i = READ_SEQ_MAX b) [0..<length (readSeqs b)]"

definition parallelConsumerAlive :: "MemRingBuffer \<Rightarrow> nat" where
  "parallelConsumerAlive b = length (filter (\<lambda>s. s < READ_SEQ_MAX b) (readSeqs b))"

section \<open>Consumers\<close>

text \<open>
  The consumer index selects an element of a C array; outside of it the access is undefined.
  \<open>liveConsumer\<close> is the check at the start of the reading operations.
\<close>

definition liveConsumer :: "MemRingBuffer \<Rightarrow> nat \<Rightarrow> u64 outcome" where
  "liveConsumer b i =
     (if i < length (readSeqs b)
      then if readSeqs b ! i \<ge> READ_SEQ_MAX b then Throw (DeadConsumer i) else Ret (readSeqs b ! i)
      else Undefined)"

text \<open>\<^verbatim>\<open>fetch_add\<close> on a consumer's read sequence.\<close>

definition advance :: "MemRingBuffer \<Rightarrow> nat \<Rightarrow> u64 \<Rightarrow> MemRingBuffer" where
  "advance b i n = b\<lparr>readSeqs := (readSeqs b)[i := readSeqs b ! i + n]\<rparr>"

definition available :: "MemRingBuffer \<Rightarrow> u64 \<Rightarrow> bool" where
  "available b s \<longleftrightarrow> s = getSeq (buffer b) (s AND MASK b)"

definition readItem :: "MemRingBuffer \<Rightarrow> u64 \<Rightarrow> nat \<Rightarrow> bytes outcome" where
  "readItem b s sizeHint =
     (let n = hintSize b sizeHint in
      if n \<le> VALUE_TYPE_SIZE b then Ret (copyOut (buffer b) (s AND MASK b) n) else Undefined)"

definition take_one :: "MemRingBuffer \<Rightarrow> nat \<Rightarrow> nat \<Rightarrow> (bytes \<times> MemRingBuffer) outcome" where
  "take_one b i sizeHint =
     obind (liveConsumer b i) (\<lambda>s.
       if \<not> available b s then Spins
       else obind (readItem b s sizeHint) (\<lambda>item. Ret (item, advance b i 1)))"

text \<open>\<^verbatim>\<open>takeReentrant\<close> holds the consumer's spin lock during \<^verbatim>\<open>take\<close> and releases it.\<close>

definition takeReentrant :: "MemRingBuffer \<Rightarrow> nat \<Rightarrow> nat \<Rightarrow> (bytes \<times> MemRingBuffer) outcome" where
  "takeReentrant b i sizeHint =
     (if i \<ge> length (locks b) then Undefined
      else if locks b ! i then Spins
      else obind (take_one (b\<lparr>locks := (locks b)[i := True]\<rparr>) i sizeHint)
             (\<lambda>(item, b'). Ret (item, b'\<lparr>locks := (locks b')[i := False]\<rparr>)))"

definition peek_one :: "MemRingBuffer \<Rightarrow> nat \<Rightarrow> lf_iterator outcome" where
  "peek_one b i = obind (liveConsumer b i)
     (\<lambda>s. Ret (if available b s then iteratorAt s else nullIterator))"

text \<open>\<^verbatim>\<open>while (available && maxPeekSize--) ++readSeq\<close>: the sequence it stops at.\<close>

fun peekLoop :: "MemRingBuffer \<Rightarrow> u64 \<Rightarrow> nat \<Rightarrow> u64" where
  "peekLoop b s maxPeekSize =
     (if available b s \<and> maxPeekSize \<noteq> 0 then peekLoop b (s + 1) (maxPeekSize - 1) else s)"

declare peekLoop.simps [simp del]

definition peek :: "MemRingBuffer \<Rightarrow> nat \<Rightarrow> u64 \<Rightarrow> (lf_iterator \<times> lf_iterator \<times> u64) outcome" where
  "peek b i maxPeekSize = obind (liveConsumer b i)
     (\<lambda>s. let e = peekLoop b s (unat maxPeekSize)
          in Ret (iteratorAt s, iteratorAt e, e - readSeqs b ! i))"

text \<open>
  \<^verbatim>\<open>peekSome\<close> repeats an empty \<^verbatim>\<open>peek\<close> up to 64 times with a yield between; the buffer
  does not change under it when it runs alone.
\<close>

fun peekSomeLoop :: "nat \<Rightarrow> MemRingBuffer \<Rightarrow> nat \<Rightarrow> u64 \<Rightarrow> (lf_iterator \<times> lf_iterator \<times> u64) outcome" where
  "peekSomeLoop fuel b i m = obind (peek b i m)
     (\<lambda>(p, e, res). if res = 0 \<and> fuel \<noteq> 0 then peekSomeLoop (fuel - 1) b i m else Ret (p, e, res))"

definition peekSome :: "MemRingBuffer \<Rightarrow> nat \<Rightarrow> u64 \<Rightarrow> (lf_iterator \<times> lf_iterator \<times> u64) outcome" where
  "peekSome = peekSomeLoop 64"

definition waste :: "MemRingBuffer \<Rightarrow> nat \<Rightarrow> u64 \<Rightarrow> MemRingBuffer outcome" where
  "waste b i n = obind (liveConsumer b i)
     (\<lambda>s. if s + n > toBeClaimedSeq b then Spins else Ret (advance b i n))"

definition wasteAfterPeek :: "MemRingBuffer \<Rightarrow> nat \<Rightarrow> u64 \<Rightarrow> MemRingBuffer outcome" where
  "wasteAfterPeek b i n =
     (if n = 0 then Ret b else if i < length (readSeqs b) then Ret (advance b i n) else Undefined)"

definition catchUpWith :: "MemRingBuffer \<Rightarrow> nat \<Rightarrow> nat \<Rightarrow> (u64 \<times> MemRingBuffer) outcome" where
  "catchUpWith b i j =
     (if i < length (readSeqs b) \<and> j < length (readSeqs b)
      then Ret (readSeqs b ! j, b\<lparr>readSeqs := (readSeqs b)[i := readSeqs b ! j]\<rparr>) else Undefined)"

definition catchUpTo :: "MemRingBuffer \<Rightarrow> nat \<Rightarrow> u64 \<Rightarrow> MemRingBuffer outcome" where
  "catchUpTo b i newSeq =
     (if i < length (readSeqs b)
      then Ret (if readSeqs b ! i \<le> newSeq then b\<lparr>readSeqs := (readSeqs b)[i := newSeq]\<rparr> else b)
      else Undefined)"

definition remainingSizeOf :: "MemRingBuffer \<Rightarrow> nat \<Rightarrow> u64 outcome" where
  "remainingSizeOf b i =
     (if i < length (readSeqs b)
      then let r = readSeqs b ! i; w = toBeClaimedSeq b in Ret (if w > r then w - r else 0)
      else Undefined)"

definition remainingSize :: "MemRingBuffer \<Rightarrow> u64" where
  "remainingSize b = (let r = readSeqLow b; w = toBeClaimedSeq b in if w > r then w - r else 0)"

text \<open>\<^verbatim>\<open>do { readSeq_ = toBeClaimedSeq_; } while (the slot already holds that sequence)\<close>.\<close>

definition resetConsumer :: "MemRingBuffer \<Rightarrow> nat \<Rightarrow> MemRingBuffer outcome" where
  "resetConsumer b i =
     (if i \<ge> length (readSeqs b) then Undefined
      else let b1 = b\<lparr>readSeqs := (readSeqs b)[i := toBeClaimedSeq b]\<rparr> in
           if available b1 (toBeClaimedSeq b) then Spins else Ret b1)"

text \<open>
  \<^verbatim>\<open>purge\<close>: a live consumer that stands where the last purge saw it and is the slowest is
  marked; then the marked ones are killed. \<open>purgeScan\<close> is the first loop from index \<open>i\<close> on,
  with the mask so far; bit \<open>1ul << i\<close> exists for \<open>i < 64\<close>.
\<close>

definition purgeOne :: "MemRingBuffer \<Rightarrow> nat \<Rightarrow> u64 \<Rightarrow> u64 \<times> MemRingBuffer" where
  "purgeOne b i res =
     (let s = readSeqs b ! i in
      if s < READ_SEQ_MAX b
      then if readSeqLastPurge b ! i = s
           then (if i = findSlowestReader b then res OR push_bit i 1 else res, b)
           else if available b s
           then (res, b\<lparr>readSeqLastPurge := (readSeqLastPurge b)[i := s]\<rparr>) else (res, b)
      else (res, b))"

definition purge :: "MemRingBuffer \<Rightarrow> u64 \<times> MemRingBuffer" where
  "purge b =
     (let is = [0..<length (readSeqs b)];
          (res, b1) = fold (\<lambda>i (res, b). purgeOne b i res) is (0, b)
      in (res, fold (\<lambda>i b. if bit res i then markDead b i else b) is b1))"

end
