(* ===== verification/MemRingBufferSpec.thy ===== *)
theory MemRingBufferSpec
  imports MemRingBuffer
begin

text \<open>
  What the ring buffer promises. \<open>ring_inv r P H b\<close> is the invariant of a buffer of \<open>2^r\<close>
  slots: \<open>P\<close> is the set of sequence numbers that are claimed and not yet published, \<open>H n\<close>
  the value published under sequence \<open>n\<close>. It is shared by the sequential lemmas (where
  \<open>P\<close> is empty) and the interleaved executions of \<open>RingConcurrency\<close>.
\<close>

section \<open>The slowest reader\<close>

lemma min_element_spec:
  "xs \<noteq> [] \<Longrightarrow> min_element xs < length xs \<and> (\<forall>i < length xs. xs ! min_element xs \<le> xs ! i)"
proof (induction xs rule: min_element.induct)
  case (3 x y ys)
  then have IH: "min_element (y # ys) < length (y # ys)"
    "\<forall>i < length (y # ys). (y # ys) ! min_element (y # ys) \<le> (y # ys) ! i" by blast+
  show ?case
  proof (cases "(y # ys) ! min_element (y # ys) < x")
    case True
    have "(x # y # ys) ! Suc (min_element (y # ys)) \<le> (x # y # ys) ! i"
      if "i < length (x # y # ys)" for i
      using that IH(2) True by (cases i) auto
    with True IH(1) show ?thesis by (simp add: Let_def)
  next
    case False
    have "x \<le> (x # y # ys) ! i" if "i < length (x # y # ys)" for i
      using that IH(2) False by (cases i) (auto simp: not_less intro: order_trans)
    with False show ?thesis by (simp add: Let_def)
  qed
qed auto

lemma min_element_first: "i < min_element xs \<Longrightarrow> xs ! min_element xs < xs ! i"
proof (induction xs arbitrary: i rule: min_element.induct)
  case (3 x y ys)
  show ?case
  proof (cases "(y # ys) ! min_element (y # ys) < x")
    case True
    with "3" show ?thesis by (cases i) (auto simp: Let_def)
  qed (use "3.prems" in \<open>simp add: Let_def\<close>)
qed simp_all

section \<open>Shape and numbers\<close>

definition claimedN :: "MemRingBuffer \<Rightarrow> nat" where
  "claimedN b = unat (toBeClaimedSeq b)"

definition readN :: "MemRingBuffer \<Rightarrow> nat \<Rightarrow> nat" where
  "readN b i = unat (readSeqs b ! i)"

definition consumers :: "MemRingBuffer \<Rightarrow> nat" where
  "consumers b = length (readSeqs b)"

definition live :: "MemRingBuffer \<Rightarrow> nat \<Rightarrow> bool" where
  "live b i \<longleftrightarrow> i < consumers b \<and> readSeqs b ! i < READ_SEQ_MAX b"

text \<open>\<open>READ_SEQ_MAX\<close> of a buffer of \<open>2^r\<close> slots, as a number.\<close>

definition maxN :: "nat \<Rightarrow> nat" where
  "maxN r = 2 ^ 64 - 1001 - 2 ^ r"

definition ring_shape :: "nat \<Rightarrow> MemRingBuffer \<Rightarrow> bool" where
  "ring_shape r b \<longleftrightarrow>
     chunk_wf (buffer b) r \<and> CAPACITY b = 2 ^ r \<and> MASK b = chunkMASK (buffer b) \<and>
     READ_SEQ_MAX b = - 1 - 2 ^ r - 1000 \<and>
     VALUE_TYPE_SIZE b + seqBytes = 2 ^ valueTypeSizePower2Num (buffer b) \<and>
     0 < consumers b \<and> length (readSeqLastPurge b) = consumers b \<and> length (locks b) = consumers b"

lemma ring_shapeD:
  assumes "ring_shape r b"
  shows "chunk_wf (buffer b) r" "r \<le> 32" "unat (CAPACITY b) = 2 ^ r" "(2::nat) ^ r \<le> 2 ^ 32"
    "MASK b = chunkMASK (buffer b)" "unat (READ_SEQ_MAX b) = maxN r"
    "VALUE_TYPE_SIZE b + seqBytes = 2 ^ valueTypeSizePower2Num (buffer b)" "0 < consumers b"
proof -
  show r: "r \<le> 32" using assms by (simp add: ring_shape_def chunk_wf_def)
  then show "unat (CAPACITY b) = 2 ^ r" using assms unat_pow2 [of r] by (simp add: ring_shape_def)
  show p: "(2::nat) ^ r \<le> 2 ^ 32" using r power_increasing [of r 32 "2::nat"] by simp
  have "READ_SEQ_MAX b = word_of_nat (2 ^ 64 - 1001 - 2 ^ r)"
    using assms p by (simp add: ring_shape_def of_nat_diff)
  then show "unat (READ_SEQ_MAX b) = maxN r"
    by (simp add: unsigned_of_nat take_bit_nat_eq_self maxN_def)
qed (use assms in \<open>simp_all add: ring_shape_def\<close>)

lemma maxN_small: "ring_shape r b \<Longrightarrow> maxN r + 1000 + 2 ^ r < 2 ^ 64"
  using ring_shapeD(4) [of r b] by (simp add: maxN_def)

lemma live_iff: "ring_shape r b \<Longrightarrow> live b i \<longleftrightarrow> i < consumers b \<and> readN b i < maxN r"
  by (simp add: live_def readN_def word_less_nat_alt ring_shapeD)

text \<open>The value a slot publishes and the sequence number it carries.\<close>

definition slotN :: "MemRingBuffer \<Rightarrow> nat \<Rightarrow> slot" where
  "slotN b n = slotOf (buffer b) n"

lemma slotN_ops [ring_simps]:
  assumes "ring_shape r b"
  shows "slotN (publish b s) n = (if n mod 2 ^ r = unat s mod 2 ^ r
      then (slotN b n)\<lparr>slotSeq := s\<rparr> else slotN b n)"
    "slotN (b\<lparr>buffer := copyIn (buffer b) (s AND MASK b) item k\<rparr>) n =
      (if n mod 2 ^ r = unat s mod 2 ^ r
       then (slotN b n)\<lparr>slotData := memcpy (slotData (slotN b n)) item k\<rparr> else slotN b n)"
proof -
  note c = ring_shapeD(1) [OF assms]
  show "slotN (publish b s) n = (if n mod 2 ^ r = unat s mod 2 ^ r
      then (slotN b n)\<lparr>slotSeq := s\<rparr> else slotN b n)"
    by (simp add: slotN_def publish_def ring_shapeD(5) [OF assms] slotOf_setSeq [OF c])
  show "slotN (b\<lparr>buffer := copyIn (buffer b) (s AND MASK b) item k\<rparr>) n =
      (if n mod 2 ^ r = unat s mod 2 ^ r
       then (slotN b n)\<lparr>slotData := memcpy (slotData (slotN b n)) item k\<rparr> else slotN b n)"
    by (simp add: slotN_def ring_shapeD(5) [OF assms] slotOf_copyIn [OF c])
qed

lemma available_iff:
  assumes "ring_shape r b"
  shows "available b s \<longleftrightarrow> slotSeq (slotN b (unat s)) = s"
  by (auto simp: available_def slotN_def ring_shapeD(5) [OF assms]
      chunk_mask_slots(1) [OF ring_shapeD(1) [OF assms]])

section \<open>The invariant\<close>

definition ring_inv :: "nat \<Rightarrow> nat set \<Rightarrow> (nat \<Rightarrow> bytes) \<Rightarrow> MemRingBuffer \<Rightarrow> bool" where
  "ring_inv r P H b \<longleftrightarrow>
     ring_shape r b \<and> claimedN b \<le> maxN r \<and> (\<forall>i < consumers b. readN b i \<le> maxN r + 1000) \<and>
     (\<forall>i. live b i \<longrightarrow> readN b i \<le> claimedN b \<and> (\<forall>n < readN b i. n \<notin> P)) \<and>
     (\<forall>n \<in> P. n < claimedN b) \<and>
     (\<forall>n. slotSeq (slotN b n) = - 1 \<or>
        unat (slotSeq (slotN b n)) < claimedN b \<and> unat (slotSeq (slotN b n)) \<notin> P) \<and>
     (\<forall>i n. live b i \<and> readN b i \<le> n \<and> n < claimedN b \<and> n \<notin> P \<longrightarrow>
        n < readN b i + 2 ^ r \<and> unat (slotSeq (slotN b n)) = n \<and> slotData (slotN b n) = H n)"

lemma ring_invD:
  assumes "ring_inv r P H b"
  shows "ring_shape r b" "claimedN b \<le> maxN r" "i < consumers b \<Longrightarrow> readN b i \<le> maxN r + 1000"
    "live b i \<Longrightarrow> readN b i \<le> claimedN b" "live b i \<Longrightarrow> n < readN b i \<Longrightarrow> n \<notin> P"
    "n \<in> P \<Longrightarrow> n < claimedN b"
    "slotSeq (slotN b n) = - 1 \<or>
       unat (slotSeq (slotN b n)) < claimedN b \<and> unat (slotSeq (slotN b n)) \<notin> P"
    "live b i \<Longrightarrow> readN b i \<le> n \<Longrightarrow> n < claimedN b \<Longrightarrow> n \<notin> P \<Longrightarrow> n < readN b i + 2 ^ r"
    "live b i \<Longrightarrow> readN b i \<le> n \<Longrightarrow> n < claimedN b \<Longrightarrow> n \<notin> P \<Longrightarrow>
       unat (slotSeq (slotN b n)) = n"
    "live b i \<Longrightarrow> readN b i \<le> n \<Longrightarrow> n < claimedN b \<Longrightarrow> n \<notin> P \<Longrightarrow> slotData (slotN b n) = H n"
  using assms unfolding ring_inv_def by blast+

text \<open>
  Waiting for room is waiting for every live consumer to be less than \<open>2^r\<close> behind: the
  additions do not wrap, and dead consumers stand too high to matter.
\<close>

lemma readSeqLow_spec:
  assumes "0 < consumers b"
  shows "\<exists>m < consumers b. readSeqLow b = readSeqs b ! m"
    "i < consumers b \<Longrightarrow> readSeqLow b \<le> readSeqs b ! i"
  using assms min_element_spec [of "readSeqs b"] by (auto simp: readSeqLow_def consumers_def)

lemma unat_low:
  assumes "ring_inv r P H b"
  shows "unat (CAPACITY b + readSeqLow b) = 2 ^ r + unat (readSeqLow b)"
    "unat (readSeqLow b) \<le> maxN r + 1000"
proof -
  note D = ring_invD [OF assms]
  from readSeqLow_spec(1) ring_shapeD(8) [OF D(1)]
  obtain m where "m < consumers b" "readSeqLow b = readSeqs b ! m" by blast
  then show le: "unat (readSeqLow b) \<le> maxN r + 1000" using D(3) by (metis readN_def)
  have "unat (CAPACITY b) + unat (readSeqLow b) < 2 ^ 64"
    using le maxN_small [OF D(1)] ring_shapeD(3) [OF D(1)] by linarith
  then show "unat (CAPACITY b + readSeqLow b) = 2 ^ r + unat (readSeqLow b)"
    using ring_shapeD(3) [OF D(1)] unat_add_small by simp
qed

lemma room_iff:
  assumes "ring_inv r P H b" "unat s \<le> maxN r"
  shows "s < CAPACITY b + readSeqLow b \<longleftrightarrow> (\<forall>i. live b i \<longrightarrow> unat s < 2 ^ r + readN b i)"
proof -
  note D = ring_invD [OF assms(1)]
  have iff: "s < CAPACITY b + readSeqLow b \<longleftrightarrow> unat s < 2 ^ r + unat (readSeqLow b)"
    by (simp add: word_less_nat_alt unat_low [OF assms(1)])
  from readSeqLow_spec ring_shapeD(8) [OF D(1)] obtain m where
    m: "m < consumers b" "readSeqLow b = readSeqs b ! m" by blast
  show ?thesis
  proof
    assume "s < CAPACITY b + readSeqLow b"
    then have "unat s < 2 ^ r + unat (readSeqLow b)" using iff by blast
    moreover have "unat (readSeqLow b) \<le> readN b i" if "live b i" for i
      using that readSeqLow_spec(2) [of b i] ring_shapeD(8) [OF D(1)]
      by (simp add: live_def readN_def word_le_nat_alt)
    ultimately show "\<forall>i. live b i \<longrightarrow> unat s < 2 ^ r + readN b i"
      by (meson add_le_cancel_left less_le_trans)
  next
    assume room: "\<forall>i. live b i \<longrightarrow> unat s < 2 ^ r + readN b i"
    show "s < CAPACITY b + readSeqLow b"
    proof (cases "live b m")
      case True
      with room m iff show ?thesis by (simp add: readN_def)
    next
      case False
      with m(1) live_iff [OF D(1), of m] have "maxN r \<le> readN b m" by simp
      moreover have "(0::nat) < 2 ^ r" by simp
      ultimately have "unat s < 2 ^ r + unat (readSeqLow b)"
        using assms(2) unfolding m(2) readN_def by linarith
      with iff show ?thesis by blast
    qed
  qed
qed


section \<open>What each primitive step does to the invariant\<close>

lemma shape_updates [simp]:
  "ring_shape r (b\<lparr>toBeClaimedSeq := x\<rparr>) = ring_shape r b"
  "consumers (b\<lparr>toBeClaimedSeq := x\<rparr>) = consumers b"
  "readN (b\<lparr>toBeClaimedSeq := x\<rparr>) i = readN b i"
  "live (b\<lparr>toBeClaimedSeq := x\<rparr>) i = live b i"
  "slotN (b\<lparr>toBeClaimedSeq := x\<rparr>) n = slotN b n"
  "claimedN (b\<lparr>toBeClaimedSeq := x\<rparr>) = unat x"
  "consumers (b\<lparr>buffer := c\<rparr>) = consumers b"
  "readN (b\<lparr>buffer := c\<rparr>) i = readN b i"
  "live (b\<lparr>buffer := c\<rparr>) i = live b i"
  "claimedN (b\<lparr>buffer := c\<rparr>) = claimedN b"
  by (simp_all add: ring_shape_def consumers_def readN_def live_def slotN_def claimedN_def)

lemma shape_publish:
  "ring_shape r b \<Longrightarrow> ring_shape r (publish b s)"
  by (auto simp: ring_shape_def publish_def consumers_def chunk_wf_setSeq)

lemma shape_copyIn:
  assumes "ring_shape r b" "k \<le> length item" "k \<le> VALUE_TYPE_SIZE b"
  shows "ring_shape r (b\<lparr>buffer := copyIn (buffer b) (s AND MASK b) item k\<rparr>)"
proof -
  have "k + seqBytes \<le> 2 ^ valueTypeSizePower2Num (buffer b)"
    using assms(3) ring_shapeD(7) [OF assms(1)] by linarith
  then show ?thesis
    using assms chunk_wf_copyIn [of "buffer b" r k item s]
    by (auto simp: ring_shape_def consumers_def)
qed

text \<open>Claiming: the new numbers become pending, nothing else changes.\<close>

lemma ring_inv_claim:
  assumes "ring_inv r P H b" "claimedN b + k \<le> maxN r"
  shows "ring_inv r (P \<union> {claimedN b ..< claimedN b + k}) H
           (b\<lparr>toBeClaimedSeq := toBeClaimedSeq b + of_nat k\<rparr>)"
    "claimedN (b\<lparr>toBeClaimedSeq := toBeClaimedSeq b + of_nat k\<rparr>) = claimedN b + k"
proof -
  note D = ring_invD [OF assms(1)]
  have k: "unat (of_nat k :: u64) = k"
    using assms(2) maxN_small [OF D(1)] by (simp add: unsigned_of_nat take_bit_nat_eq_self)
  have c: "unat (toBeClaimedSeq b + of_nat k) = claimedN b + k"
    using assms(2) maxN_small [OF D(1)] unat_add_small [of "toBeClaimedSeq b" "of_nat k"]
    unfolding k claimedN_def by linarith
  then show "claimedN (b\<lparr>toBeClaimedSeq := toBeClaimedSeq b + of_nat k\<rparr>) = claimedN b + k"
    by simp
  have "\<forall>n. slotSeq (slotN b n) = - 1 \<or> unat (slotSeq (slotN b n)) < claimedN b + k \<and>
      unat (slotSeq (slotN b n)) \<notin> P \<union> {claimedN b ..< claimedN b + k}"
    using D(7) by (meson UnE atLeastLessThan_iff not_le trans_less_add1)
  with assms c show "ring_inv r (P \<union> {claimedN b ..< claimedN b + k}) H
           (b\<lparr>toBeClaimedSeq := toBeClaimedSeq b + of_nat k\<rparr>)"
    unfolding ring_inv_def by (auto simp: trans_less_add1 dest: order_trans)
qed

text \<open>Writing a pending slot that every live consumer leaves room for.\<close>

definition hasRoom :: "nat \<Rightarrow> MemRingBuffer \<Rightarrow> nat \<Rightarrow> bool" where
  "hasRoom r b n \<longleftrightarrow> (\<forall>i. live b i \<longrightarrow> n < 2 ^ r + readN b i)"

lemma pending_slot_apart:
  assumes "ring_inv r P H b" "s \<in> P" "hasRoom r b s"
    and "live b i" "readN b i \<le> n" "n < readN b i + 2 ^ r" "n \<notin> P"
  shows "n mod 2 ^ r \<noteq> s mod 2 ^ r"
proof
  assume "n mod 2 ^ r = s mod 2 ^ r"
  moreover have "readN b i \<le> s" using ring_invD(5) [OF assms(1,4)] assms(2) by (meson not_le)
  moreover have "s < readN b i + 2 ^ r" using assms(3,4) by (simp add: hasRoom_def add.commute)
  ultimately have "n = s" using assms(5,6) window_mod_inj by blast
  with assms(2,7) show False by simp
qed

lemma ring_inv_write:
  assumes inv: "ring_inv r P H b" and s: "unat s \<in> P" "hasRoom r b (unat s)"
    and k: "k \<le> length item" "k \<le> VALUE_TYPE_SIZE b"
  shows "ring_inv r P H (b\<lparr>buffer := copyIn (buffer b) (s AND MASK b) item k\<rparr>)"
proof -
  note D = ring_invD [OF inv]
  let ?b = "b\<lparr>buffer := copyIn (buffer b) (s AND MASK b) item k\<rparr>"
  have sh: "ring_shape r ?b" using shape_copyIn [OF D(1) k] .
  have seq: "slotSeq (slotN ?b n) = slotSeq (slotN b n)" for n
    by (simp add: slotN_ops [OF D(1)])
  have dat: "slotData (slotN ?b n) = slotData (slotN b n)"
    if "live b i" "readN b i \<le> n" "n < readN b i + 2 ^ r" "n \<notin> P" for i n
    using pending_slot_apart [OF inv s that] by (simp add: slotN_ops [OF D(1)])
  show ?thesis unfolding ring_inv_def
    using sh D(2,3,4,5,6,7,8,9,10) dat by (auto simp: seq)
qed

text \<open>Publishing it: the number leaves the pending set and its value becomes readable.\<close>

lemma ring_inv_publish:
  assumes inv: "ring_inv r P H b" and s: "unat s \<in> P" "hasRoom r b (unat s)"
  shows "ring_inv r (P - {unat s}) (H(unat s := slotData (slotN b (unat s)))) (publish b s)"
proof -
  note D = ring_invD [OF inv]
  let ?b = "publish b s"
  have [simp]: "consumers ?b = consumers b" "readN ?b i = readN b i" "live ?b i = live b i"
    "claimedN ?b = claimedN b" for i by (simp_all add: publish_def)
  have win: "n < readN b i + 2 ^ r \<and> unat (slotSeq (slotN ?b n)) = n \<and>
      slotData (slotN ?b n) = (H(unat s := slotData (slotN b (unat s)))) n"
    if "live b i" "readN b i \<le> n" "n < claimedN b" "n \<notin> P - {unat s}" for i n
  proof (cases "n = unat s")
    case True
    with s(2) that(1) show ?thesis by (simp add: slotN_ops [OF D(1)] hasRoom_def add.commute)
  next
    case False
    then have nP: "n \<notin> P" using that(4) by blast
    then have "n mod 2 ^ r \<noteq> unat s mod 2 ^ r"
      using pending_slot_apart [OF inv s that(1,2)] D(8) [OF that(1,2,3)] by blast
    with False that nP D(8,9,10) [of i n] show ?thesis by (simp add: slotN_ops [OF D(1)])
  qed
  have "slotSeq (slotN ?b n) = - 1 \<or>
      unat (slotSeq (slotN ?b n)) < claimedN b \<and> unat (slotSeq (slotN ?b n)) \<notin> P - {unat s}" for n
    using D(7) [of n] D(6) [OF s(1)] by (auto simp: slotN_ops [OF D(1)])
  with win show ?thesis unfolding ring_inv_def
    using shape_publish [OF D(1)] D(2,3,4,5,6) by auto
qed


section \<open>Consumer steps\<close>

lemma shape_readSeqs [simp]:
  "length xs = consumers b \<Longrightarrow> ring_shape r (b\<lparr>readSeqs := xs\<rparr>) = ring_shape r b"
  "consumers (b\<lparr>readSeqs := xs\<rparr>) = length xs"
  "claimedN (b\<lparr>readSeqs := xs\<rparr>) = claimedN b"
  "slotN (b\<lparr>readSeqs := xs\<rparr>) n = slotN b n"
  by (simp_all add: ring_shape_def consumers_def claimedN_def slotN_def)

lemma advance_views:
  assumes "ring_inv r P H b" "live b i" "readN b i + unat k \<le> maxN r"
  shows "readN (advance b i k) j = (if j = i then readN b i + unat k else readN b j)"
    "live (advance b i k) j \<longleftrightarrow> (if j = i then readN b i + unat k < maxN r else live b j)"
    "ring_shape r (advance b i k)"
proof -
  note D = ring_invD [OF assms(1)]
  have "unat (readSeqs b ! i + k) = readN b i + unat k"
    using assms(3) maxN_small [OF D(1)] unat_add_small [of "readSeqs b ! i" k]
    by (simp add: readN_def)
  then show r: "readN (advance b i k) j = (if j = i then readN b i + unat k else readN b j)" for j
    using assms(2) by (simp add: readN_def advance_def live_def consumers_def nth_list_update)
  show sh: "ring_shape r (advance b i k)"
    using D(1) by (simp add: advance_def consumers_def [symmetric])
  show "live (advance b i k) j \<longleftrightarrow> (if j = i then readN b i + unat k < maxN r else live b j)"
    using assms(2) by (auto simp: live_iff [OF sh] live_iff [OF D(1)] r) (simp_all add: advance_def consumers_def)
qed

text \<open>Reading on past published messages keeps the invariant.\<close>

lemma ring_inv_advance:
  assumes inv: "ring_inv r P H b" and i: "live b i" and k: "readN b i + unat k \<le> claimedN b"
    and pub: "\<forall>n. readN b i \<le> n \<and> n < readN b i + unat k \<longrightarrow> n \<notin> P"
  shows "ring_inv r P H (advance b i k)"
proof -
  note D = ring_invD [OF inv]
  have km: "readN b i + unat k \<le> maxN r" using k D(2) by linarith
  note V = advance_views [OF inv i km]
  have [simp]: "claimedN (advance b i k) = claimedN b" "slotN (advance b i k) n = slotN b n"
    "consumers (advance b i k) = consumers b" for n by (simp_all add: advance_def consumers_def claimedN_def slotN_def)
  have "n < readN (advance b i k) j + 2 ^ r \<and> unat (slotSeq (slotN b n)) = n \<and> slotData (slotN b n) = H n"
    if "live (advance b i k) j" "readN (advance b i k) j \<le> n" "n < claimedN b" "n \<notin> P" for j n
    using that D(8,9,10) [of j n] i by (auto simp: V split: if_splits)
  moreover have "readN (advance b i k) j \<le> claimedN b \<and> (\<forall>n < readN (advance b i k) j. n \<notin> P)"
    if "live (advance b i k) j" for j
    using that D(4,5) [of j] k pub i by (auto simp: V split: if_splits) (meson not_le)
  moreover have "readN (advance b i k) j \<le> maxN r + 1000" if "j < consumers b" for j
    using D(3) [OF that] km by (simp add: V)
  ultimately show ?thesis unfolding ring_inv_def
    using V(3) D(2,6,7) by auto
qed

lemma markDead_views [simp]:
  "consumers (markDead b i) = consumers b" "claimedN (markDead b i) = claimedN b"
  "slotN (markDead b i) n = slotN b n" "READ_SEQ_MAX (markDead b i) = READ_SEQ_MAX b"
  "toBeClaimedSeq (markDead b i) = toBeClaimedSeq b"
  "live (markDead b i) j \<longleftrightarrow> live b j \<and> j \<noteq> i"
  "ring_shape r (markDead b i) = ring_shape r b"
  by (auto simp: markDead_def consumers_def claimedN_def slotN_def live_def ring_shape_def nth_list_update)

lemma markDead_readN: "j \<noteq> i \<Longrightarrow> readN (markDead b i) j = readN b j"
  by (simp add: markDead_def readN_def)

lemma ring_inv_markDead:
  assumes "ring_inv r P H b"
  shows "ring_inv r P H (markDead b i)"
proof -
  note D = ring_invD [OF assms]
  have "readN (markDead b i) j \<le> maxN r + 1000" if "j < consumers b" for j
    using D(3) [OF that] ring_shapeD(6) [OF D(1)] that
    by (auto simp: markDead_def readN_def consumers_def nth_list_update)
  then show ?thesis unfolding ring_inv_def
    using D by (auto simp: markDead_readN)
qed

text \<open>A killed consumer leaves room where it stood.\<close>

lemma hasRoom_mono:
  assumes "hasRoom r b n" "\<forall>j. live b' j \<longrightarrow> live b j \<and> readN b j \<le> readN b' j"
  shows "hasRoom r b' n"
  using assms unfolding hasRoom_def by (meson add_le_cancel_left less_le_trans)


section \<open>The operations run alone\<close>

text \<open>
  Between operations that ran to completion nothing is pending. \<open>pendingFor b i\<close> is what
  consumer \<open>i\<close> has still to read, oldest first.
\<close>

definition seq_inv :: "nat \<Rightarrow> MemRingBuffer \<Rightarrow> bool" where
  "seq_inv r b \<longleftrightarrow> (\<exists>H. ring_inv r {} H b)"

definition pendingFor :: "MemRingBuffer \<Rightarrow> nat \<Rightarrow> bytes list" where
  "pendingFor b i = map (\<lambda>n. slotData (slotN b n)) [readN b i ..< claimedN b]"

definition fits :: "MemRingBuffer \<Rightarrow> bytes \<Rightarrow> nat \<Rightarrow> bool" where
  "fits b item sizeHint \<longleftrightarrow>
     hintSize b sizeHint \<le> VALUE_TYPE_SIZE b \<and> hintSize b sizeHint \<le> length item"

lemma seq_invD:
  assumes "seq_inv r b"
  shows "ring_shape r b" "live b i \<Longrightarrow> readN b i \<le> claimedN b"
    "live b i \<Longrightarrow> readN b i \<le> n \<Longrightarrow> n < claimedN b \<Longrightarrow> n < readN b i + 2 ^ r"
    "live b i \<Longrightarrow> readN b i \<le> n \<Longrightarrow> n < claimedN b \<Longrightarrow> unat (slotSeq (slotN b n)) = n"
    "slotSeq (slotN b n) = - 1 \<or> unat (slotSeq (slotN b n)) < claimedN b"
  using assms ring_invD(1,4,7,8,9) [where P = "{}" and r = r and b = b] unfolding seq_inv_def by blast+

lemma pendingFor_bound:
  assumes "seq_inv r b" "live b i"
  shows "length (pendingFor b i) \<le> 2 ^ r"
  using seq_invD(3) [OF assms, of "claimedN b - 1"] seq_invD(2) [OF assms]
  by (cases "readN b i < claimedN b") (simp_all add: pendingFor_def, linarith)

lemma isFull_iff:
  assumes "seq_inv r b" 
  shows "isFull b \<longleftrightarrow> (\<exists>i. live b i \<and> length (pendingFor b i) = 2 ^ r)"
proof -
  obtain H where inv: "ring_inv r {} H b" using assms by (auto simp: seq_inv_def)
  have "isFull b \<longleftrightarrow> (\<exists>i. live b i \<and> 2 ^ r + readN b i \<le> claimedN b)"
    using room_iff [OF inv, of "toBeClaimedSeq b"] ring_invD(2) [OF inv]
    by (auto simp: isFull_def claimedN_def not_le [symmetric])
  moreover have "2 ^ r + readN b i \<le> claimedN b \<longleftrightarrow> length (pendingFor b i) = 2 ^ r" if "live b i" for i
    using seq_invD(2) [OF assms that] pendingFor_bound [OF assms that]
    by (auto simp: pendingFor_def)
  ultimately show ?thesis by blast
qed

text \<open>The value a completed write leaves in its slot.\<close>

definition putState :: "MemRingBuffer \<Rightarrow> bytes \<Rightarrow> nat \<Rightarrow> MemRingBuffer" where
  "putState b item sizeHint =
     publish (b\<lparr>toBeClaimedSeq := toBeClaimedSeq b + 1,
                buffer := copyIn (buffer b) (toBeClaimedSeq b AND MASK b) item (hintSize b sizeHint)\<rparr>)
       (toBeClaimedSeq b)"

lemma put_eq:
  "put b item sizeHint =
     (if isFull b then Spins else if fits b item sizeHint then Ret (putState b item sizeHint) else Undefined)"
  by (simp add: put_def fetchAddClaim_def noRoom_def isFull_def readSeqLow_def writeItem_def fits_def
      hintSize_def putState_def Let_def)

lemma tryPut_eq:
  "tryPut b item sizeHint =
     (if isFull b then Ret (False, b)
      else if fits b item sizeHint then Ret (True, putState b item sizeHint) else Undefined)"
  by (simp add: tryPut_def isFull_def writeItem_def fits_def hintSize_def putState_def Let_def not_le)

lemma putState_slot:
  assumes "ring_shape r b" "fits b item sizeHint"
  shows "slotN (putState b item sizeHint) n =
     (if n mod 2 ^ r = claimedN b mod 2 ^ r
      then (slotN b n)\<lparr>slotSeq := toBeClaimedSeq b,
             slotData := memcpy (slotData (slotN b n)) item (hintSize b sizeHint)\<rparr>
      else slotN b n)"
proof -
  let ?b = "b\<lparr>toBeClaimedSeq := toBeClaimedSeq b + 1\<rparr>"
  have "ring_shape r ?b" using assms(1) by simp
  moreover from this have "ring_shape r
      (?b\<lparr>buffer := copyIn (buffer ?b) (toBeClaimedSeq b AND MASK ?b) item (hintSize b sizeHint)\<rparr>)"
    using assms(2) by (intro shape_copyIn) (auto simp: fits_def)
  ultimately have "slotN (publish (?b\<lparr>buffer := copyIn (buffer ?b) (toBeClaimedSeq b AND MASK ?b)
      item (hintSize b sizeHint)\<rparr>) (toBeClaimedSeq b)) n =
     (if n mod 2 ^ r = claimedN b mod 2 ^ r
      then (slotN b n)\<lparr>slotSeq := toBeClaimedSeq b,
             slotData := memcpy (slotData (slotN b n)) item (hintSize b sizeHint)\<rparr>
      else slotN b n)"
    by (simp only: slotN_ops) (simp add: claimedN_def)
  then show ?thesis by (simp add: putState_def)
qed

lemma putState_spec:
  assumes "seq_inv r b" "\<not> isFull b" "fits b item sizeHint" "claimedN b < maxN r"
  shows "seq_inv r (putState b item sizeHint)"
    "live (putState b item sizeHint) i \<longleftrightarrow> live b i"
    "claimedN (putState b item sizeHint) = Suc (claimedN b)"
    "live b i \<Longrightarrow> \<exists>d. pendingFor (putState b item sizeHint) i = pendingFor b i @ [d] \<and>
       take (hintSize b sizeHint) d = take (hintSize b sizeHint) item \<and>
       (hintSize b sizeHint = VALUE_TYPE_SIZE b \<longrightarrow> d = take (VALUE_TYPE_SIZE b) item)"
proof -
  obtain H where inv: "ring_inv r {} H b" using assms(1) by (auto simp: seq_inv_def)
  let ?s = "toBeClaimedSeq b" and ?k = "hintSize b sizeHint"
  let ?b1 = "b\<lparr>toBeClaimedSeq := ?s + 1\<rparr>"
  let ?b2 = "?b1\<lparr>buffer := copyIn (buffer ?b1) (?s AND MASK ?b1) item ?k\<rparr>"
  have c1: "ring_inv r {claimedN b} H ?b1" "claimedN ?b1 = Suc (claimedN b)"
    using ring_inv_claim [OF inv, of 1] assms(4) by (simp_all add: atLeastLessThanSuc)
  have room: "hasRoom r b (claimedN b)"
    using room_iff [OF inv, of ?s] assms(2,4) by (simp add: isFull_def hasRoom_def claimedN_def not_le)
  have k: "?k \<le> length item" "?k \<le> VALUE_TYPE_SIZE ?b1" using assms(3) by (simp_all add: fits_def)
  have room1: "hasRoom r ?b1 (unat ?s)" "hasRoom r ?b2 (unat ?s)"
    using room by (simp_all add: hasRoom_def claimedN_def)
  have sP: "unat ?s \<in> {claimedN b}" by (simp add: claimedN_def)
  have c2: "ring_inv r {claimedN b} H ?b2"
    using ring_inv_write [OF c1(1) sP room1(1) k] by simp
  have p: "putState b item sizeHint = publish ?b2 ?s" by (simp add: putState_def hintSize_def)
  show "seq_inv r (putState b item sizeHint)"
    using ring_inv_publish [OF c2 sP room1(2)] unfolding p seq_inv_def by (auto simp: claimedN_def)
  show "live (putState b item sizeHint) i \<longleftrightarrow> live b i"
    by (simp add: p publish_def live_def consumers_def)
  have cl: "claimedN (putState b item sizeHint) = Suc (claimedN b)"
    using c1(2) by (simp add: p publish_def claimedN_def)
  then show "claimedN (putState b item sizeHint) = Suc (claimedN b)" .
  show "\<exists>d. pendingFor (putState b item sizeHint) i = pendingFor b i @ [d] \<and>
       take ?k d = take ?k item \<and> (?k = VALUE_TYPE_SIZE b \<longrightarrow> d = take (VALUE_TYPE_SIZE b) item)"
    if l: "live b i"
  proof -
    have "n mod 2 ^ r \<noteq> unat ?s mod 2 ^ r" if "readN b i \<le> n" "n < claimedN b" for n
      using pending_slot_apart [OF c1(1) sP room1(1), of i n] that seq_invD(3) [OF assms(1) l that] l
      by (simp add: claimedN_def)
    then have old: "slotData (slotN (putState b item sizeHint) n) = slotData (slotN b n)"
      if "readN b i \<le> n" "n < claimedN b" for n
      using that by (simp add: putState_slot [OF ring_invD(1) [OF inv] assms(3)] claimedN_def)
    let ?d = "slotData (slotN (putState b item sizeHint) (claimedN b))"
    have d: "?d = memcpy (slotData (slotN b (claimedN b))) item ?k"
      by (simp add: putState_slot [OF ring_invD(1) [OF inv] assms(3)])
    have "length (slotData (slotN b (claimedN b))) = VALUE_TYPE_SIZE b"
    proof -
      have "slotN b (claimedN b) \<in> set (space (buffer b))"
        using ring_shapeD(1) [OF ring_invD(1) [OF inv]]
        by (auto simp: slotN_def slotOf_def chunk_wf_def intro!: nth_mem mod_less_divisor)
      then show ?thesis
        using ring_shapeD(1,7) [OF ring_invD(1) [OF inv]] by (auto simp: chunk_wf_def)
    qed
    then have "?k = VALUE_TYPE_SIZE b \<longrightarrow> ?d = take (VALUE_TYPE_SIZE b) item"
      by (simp add: d memcpy_def)
    moreover have "take ?k ?d = take ?k item" using k by (simp add: d memcpy_def)
    moreover have "pendingFor (putState b item sizeHint) i = pendingFor b i @ [?d]"
    proof -
      have "readN (putState b item sizeHint) i = readN b i" by (simp add: p publish_def readN_def)
      then show ?thesis
        using seq_invD(2) [OF assms(1) l] by (simp add: pendingFor_def cl old)
    qed
    ultimately show ?thesis by blast
  qed
qed

end
