(* ===== verification/RingOperations.thy ===== *)
theory RingOperations
  imports MemRingBufferSpec
begin

text \<open>
  The remaining operations of \<^verbatim>\<open>MemRingBuffer.hpp\<close>, run alone: construction, in-place writes
  through \<^verbatim>\<open>claim\<close> and \<^verbatim>\<open>commit\<close>, killing slow consumers, reading, resetting and purging.
\<close>

section \<open>Construction\<close>

lemma newMemRingBuffer_spec:
  assumes "newMemRingBuffer junk n v r = Ret b" "0 < n" "3 \<le> v"
    and "\<And>i. length (slotData (junk i)) + seqBytes = 2 ^ v"
  shows "seq_inv r b" "consumers b = n" "\<And>i. i < n \<Longrightarrow> live b i \<and> pendingFor b i = []"
    "VALUE_TYPE_SIZE b = 2 ^ v - seqBytes" "claimedN b = 0"
proof -
  from assms(1) have vr: "v + r \<le> 32"
    by (auto simp: newMemRingBuffer_def chunk_base_ptr_def split: if_splits)
  let ?sp = "map (\<lambda>s. s\<lparr>slotSeq := - 1\<rparr>) (map junk [0..<2 ^ r])"
  have b: "b = \<lparr>CAPACITY = 2 ^ r, VALUE_TYPE_SIZE = 2 ^ v - seqBytes,
      READ_SEQ_MAX = - 1 - 2 ^ r - 1000, MASK = 2 ^ r - 1,
      buffer = \<lparr>space = ?sp, chunkMASK = 2 ^ r - 1, valueTypeSizePower2Num = v\<rparr>,
      toBeClaimedSeq = 0, readSeqs = replicate n 0,
      readSeqLastPurge = replicate n (- 1 - 2 ^ r - 1000), locks = replicate n False\<rparr>"
    using assms(1) vr by (simp add: newMemRingBuffer_def chunk_base_ptr_def Let_def)
  have v8: "(8::nat) \<le> 2 ^ v" using power_increasing [of 3 v "2::nat"] assms(3) by simp
  have shape: "ring_shape r b"
    using vr assms(2,4) v8 by (auto simp: b ring_shape_def chunk_wf_def consumers_def)
  have slots: "slotSeq (slotN b k) = - 1" for k
  proof -
    have "k mod 2 ^ r < (2::nat) ^ r" by simp
    then show ?thesis by (simp add: b slotN_def slotOf_def)
  qed
  show n: "consumers b = n" and c: "claimedN b = 0" "VALUE_TYPE_SIZE b = 2 ^ v - seqBytes"
    by (simp_all add: b consumers_def claimedN_def)
  have rd: "i < n \<Longrightarrow> readN b i = 0" for i by (simp add: b readN_def)
  have pos: "0 < maxN r" using ring_shapeD(4) [OF shape] by (simp add: maxN_def)
  show "\<And>i. i < n \<Longrightarrow> live b i \<and> pendingFor b i = []"
    using pos by (simp add: live_iff [OF shape] n rd pendingFor_def c)
  have "ring_inv r {} (\<lambda>_. []) b"
    unfolding ring_inv_def using shape by (auto simp: c n rd slots live_iff [OF shape])
  then show "seq_inv r b" by (auto simp: seq_inv_def)
qed

section \<open>Claim, write, commit\<close>

text \<open>\<^verbatim>\<open>commit\<close> finds the slot again from the iterator's address, so it publishes what
  \<^verbatim>\<open>put\<close> would.\<close>

lemma commit_eq_publish:
  assumes "ring_shape r b"
  shows "commit b (iteratorAt s) = publish b s"
proof -
  have "unat (s AND chunkMASK (buffer b)) < 2 ^ r"
    using chunk_index(2) [OF ring_shapeD(1) [OF assms], of s] ring_shapeD(1) [OF assms]
    by (simp add: chunk_wf_def)
  then show ?thesis
    using chunk_address_roundtrip [OF ring_shapeD(1) [OF assms]]
    by (simp add: commit_def publish_def iterDeref_def iteratorAt_def ring_shapeD(5) [OF assms])
qed

lemma iteratorAt_sel [simp]: "seq (iteratorAt s) = s" "start (iteratorAt s)"
  by (simp_all add: iteratorAt_def)

lemma hintSize_claim: "hintSize (b\<lparr>toBeClaimedSeq := x\<rparr>) h = hintSize b h"
  by (simp add: hintSize_def)

lemma claim_write_commit_eq_put:
  assumes "ring_shape r b" "fits b item sizeHint"
  shows "put b item sizeHint =
     obind (claim b) (\<lambda>(it, b1). obind (writeItem b1 (seq it) item sizeHint)
       (\<lambda>b2. Ret (commit b2 it)))"
proof (cases "isFull b")
  case True
  then show ?thesis
    by (simp add: put_eq claim_def fetchAddClaim_def noRoom_def isFull_def readSeqLow_def)
next
  case False
  let ?b1 = "b\<lparr>toBeClaimedSeq := toBeClaimedSeq b + 1\<rparr>"
  let ?b2 = "?b1\<lparr>buffer := copyIn (buffer ?b1) (toBeClaimedSeq b AND MASK ?b1) item (hintSize b sizeHint)\<rparr>"
  have "ring_shape r ?b2"
    using assms by (intro shape_copyIn) (auto simp: fits_def)
  then have "commit ?b2 (iteratorAt (toBeClaimedSeq b)) = publish ?b2 (toBeClaimedSeq b)"
    by (rule commit_eq_publish)
  with False assms(2) show ?thesis
    by (simp add: put_eq claim_def fetchAddClaim_def noRoom_def isFull_def readSeqLow_def
        writeItem_def fits_def putState_def hintSize_claim)
qed

section \<open>Killing the slowest\<close>

lemma slowest_blocks:
  assumes "ring_inv r P H b" "noRoom b s" "unat s < maxN r"
  shows "live b (findSlowestReader b)" "2 ^ r + readN b (findSlowestReader b) \<le> unat s"
proof -
  note sh = ring_invD(1) [OF assms(1)]
  let ?m = "findSlowestReader b"
  have m: "?m < consumers b" "readSeqLow b = readSeqs b ! ?m"
    using min_element_spec [of "readSeqs b"] ring_shapeD(8) [OF sh]
    by (auto simp: findSlowestReader_def readSeqLow_def consumers_def)
  show le: "2 ^ r + readN b ?m \<le> unat s"
  proof -
    have "unat (CAPACITY b + readSeqLow b) \<le> unat s"
      using assms(2) by (simp add: noRoom_def word_le_nat_alt)
    then show ?thesis unfolding unat_low(1) [OF assms(1)] by (simp add: m(2) readN_def)
  qed
  with assms(3) m(1) show "live b ?m" by (simp add: live_iff [OF sh])
qed

lemma card_live_markDead:
  assumes "live b m"
  shows "card {i. live (markDead b m) i} < card {i. live b i}"
proof (rule psubset_card_mono)
  show "finite {i. live b i}"
    by (rule finite_subset [of _ "{..<consumers b}"]) (auto simp: live_def)
qed (use assms in auto)

text \<open>
  The loop ends, and the consumers it kills are exactly those that are a whole ring behind.
\<close>

lemma killUntilRoom_spec:
  assumes "ring_inv r P H b" "unat s < maxN r"
  shows "\<exists>b'. killUntilRoom b s = Some b' \<and> ring_inv r P H b' \<and> \<not> noRoom b' s \<and>
     (\<forall>j. live b' j \<longleftrightarrow> live b j \<and> unat s < 2 ^ r + readN b j) \<and>
     (\<forall>j. live b' j \<longrightarrow> readN b' j = readN b j) \<and>
     buffer b' = buffer b \<and> toBeClaimedSeq b' = toBeClaimedSeq b \<and>
     MASK b' = MASK b \<and> VALUE_TYPE_SIZE b' = VALUE_TYPE_SIZE b"
  using assms(1)
proof (induction "card {i. live b i}" arbitrary: b rule: less_induct)
  case less
  show ?case
  proof (cases "noRoom b s")
    case False
    then have "\<forall>i. live b i \<longrightarrow> unat s < 2 ^ r + readN b i"
      using room_iff [OF less.prems, of s] assms(2) by (simp add: noRoom_def not_le)
    with False less.prems show ?thesis by (subst killUntilRoom.simps) auto
  next
    case True
    let ?m = "findSlowestReader b"
    note m = slowest_blocks [OF less.prems True assms(2)]
    from less.hyps [OF card_live_markDead [OF m(1)] ring_inv_markDead [OF less.prems]]
    obtain b' where b': "killUntilRoom (markDead b ?m) s = Some b'" "ring_inv r P H b'" "\<not> noRoom b' s"
      "\<forall>j. live b' j \<longleftrightarrow> live (markDead b ?m) j \<and> unat s < 2 ^ r + readN (markDead b ?m) j"
      "\<forall>j. live b' j \<longrightarrow> readN b' j = readN (markDead b ?m) j"
      "buffer b' = buffer (markDead b ?m)" "toBeClaimedSeq b' = toBeClaimedSeq b"
      "MASK b' = MASK (markDead b ?m)" "VALUE_TYPE_SIZE b' = VALUE_TYPE_SIZE (markDead b ?m)"
      by auto
    have "killUntilRoom b s = Some b'" using True b'(1) by (subst killUntilRoom.simps) simp
    moreover have "live b' j \<longleftrightarrow> live b j \<and> unat s < 2 ^ r + readN b j" for j
      using b'(4) m(2) by (cases "j = ?m") (auto simp: markDead_readN)
    moreover have "live b' j \<longrightarrow> readN b' j = readN b j" for j
      using b'(4,5) by (cases "j = ?m") (auto simp: markDead_readN)
    ultimately show ?thesis using b'(2,3,6,7,8,9) by (simp add: markDead_def)
  qed
qed

text \<open>Killing does not depend on the claim made before it.\<close>

lemma killUntilRoom_claim:
  assumes "ring_inv r P H b" "unat s < maxN r"
  shows "killUntilRoom (b\<lparr>toBeClaimedSeq := t\<rparr>) s =
     map_option (\<lambda>b'. b'\<lparr>toBeClaimedSeq := t\<rparr>) (killUntilRoom b s)"
  using assms(1)
proof (induction "card {i. live b i}" arbitrary: b rule: less_induct)
  case less
  have nr: "noRoom (b\<lparr>toBeClaimedSeq := t\<rparr>) s = noRoom b s"
    "markDead (b\<lparr>toBeClaimedSeq := t\<rparr>) i = (markDead b i)\<lparr>toBeClaimedSeq := t\<rparr>"
    "findSlowestReader (b\<lparr>toBeClaimedSeq := t\<rparr>) = findSlowestReader b" for i
    by (simp_all add: noRoom_def readSeqLow_def markDead_def findSlowestReader_def)
  show ?case
  proof (cases "noRoom b s")
    case True
    note l = slowest_blocks(1) [OF less.prems True assms(2)]
    from less.hyps [OF card_live_markDead [OF l] ring_inv_markDead [OF less.prems]] True
    show ?thesis by (subst killUntilRoom.simps, subst (2) killUntilRoom.simps) (simp add: nr)
  qed (subst killUntilRoom.simps, subst (2) killUntilRoom.simps, simp add: nr)
qed

text \<open>\<^verbatim>\<open>killPut\<close> never waits; it kills the consumers that are full and then writes like \<^verbatim>\<open>put\<close>.\<close>

lemma killPut_spec:
  assumes "seq_inv r b" "fits b item sizeHint" "claimedN b + 1 < maxN r"
  shows "\<exists>b'. killPut b item sizeHint = Ret b' \<and> seq_inv r b' \<and>
     (\<forall>j. live b' j \<longleftrightarrow> live b j \<and> length (pendingFor b j) < 2 ^ r) \<and>
     (\<forall>j. live b' j \<longrightarrow> (\<exists>d. pendingFor b' j = pendingFor b j @ [d] \<and>
        take (hintSize b sizeHint) d = take (hintSize b sizeHint) item \<and>
        (hintSize b sizeHint = VALUE_TYPE_SIZE b \<longrightarrow> d = take (VALUE_TYPE_SIZE b) item)))"
proof -
  obtain H where inv: "ring_inv r {} H b" using assms(1) by (auto simp: seq_inv_def)
  let ?s = "toBeClaimedSeq b"
  have s: "unat ?s < maxN r" using assms(3) by (simp add: claimedN_def)
  obtain k where k: "killUntilRoom b ?s = Some k" "ring_inv r {} H k" "\<not> noRoom k ?s"
    "\<forall>j. live k j \<longleftrightarrow> live b j \<and> unat ?s < 2 ^ r + readN b j"
    "\<forall>j. live k j \<longrightarrow> readN k j = readN b j"
    "buffer k = buffer b" "toBeClaimedSeq k = ?s" "MASK k = MASK b" "VALUE_TYPE_SIZE k = VALUE_TYPE_SIZE b"
    using killUntilRoom_spec [OF inv s] by blast
  have c: "claimedN k = claimedN b" using k(7) by (simp add: claimedN_def)
  have nf: "\<not> isFull k" using k(3,7) by (simp add: noRoom_def isFull_def)
  have fk: "fits k item sizeHint" "hintSize k sizeHint = hintSize b sizeHint"
    using assms(2) k(9) by (auto simp: fits_def hintSize_def)
  have kp: "killPut b item sizeHint = Ret (putState k item sizeHint)"
    using killUntilRoom_claim [OF inv s, of "?s + 1"] k(1,7) fk(1) [unfolded fits_def]
    by (simp add: killPut_def fetchAddClaim_def writeItem_def putState_def hintSize_claim)
  have sk: "seq_inv r k" using k(2) by (auto simp: seq_inv_def)
  have ck: "claimedN k < maxN r" using assms(3) c by linarith
  note P = putState_spec [OF sk nf fk(1) ck]
  have lk: "live k j \<longleftrightarrow> live b j \<and> length (pendingFor b j) < 2 ^ r" for j
  proof -
    have "live k j \<longleftrightarrow> live b j \<and> claimedN b < 2 ^ r + readN b j"
      using k(4) unfolding claimedN_def by blast
    moreover have "length (pendingFor b j) = claimedN b - readN b j" by (simp add: pendingFor_def)
    moreover have "live b j \<Longrightarrow> readN b j \<le> claimedN b" by (rule seq_invD(2) [OF assms(1)])
    ultimately show ?thesis by linarith
  qed
  have pk: "\<exists>d. pendingFor (putState k item sizeHint) j = pendingFor b j @ [d] \<and>
      take (hintSize b sizeHint) d = take (hintSize b sizeHint) item \<and>
      (hintSize b sizeHint = VALUE_TYPE_SIZE b \<longrightarrow> d = take (VALUE_TYPE_SIZE b) item)"
    if "live (putState k item sizeHint) j" for j
  proof -
    have l: "live k j" using that P(2) by blast
    moreover have "pendingFor k j = pendingFor b j"
      using k(5) l by (simp add: pendingFor_def c slotN_def k(6))
    ultimately show ?thesis using P(4) [OF l] unfolding fk(2) k(9) by metis
  qed
  show ?thesis
    by (intro exI [of _ "putState k item sizeHint"] conjI allI impI)
       (simp_all only: kp P(1,2) lk pk)
qed

section \<open>Reading\<close>

lemma live_consumer [simp]: "live b i \<Longrightarrow> liveConsumer b i = Ret (readSeqs b ! i)"
  by (simp add: live_def liveConsumer_def consumers_def not_le [symmetric])

lemma dead_consumer: "i < consumers b \<Longrightarrow> \<not> live b i \<Longrightarrow> liveConsumer b i = Throw (DeadConsumer i)"
  by (simp add: live_def liveConsumer_def consumers_def)

text \<open>A sequence number a live consumer has not read is available exactly when it is claimed.\<close>

lemma available_seq:
  assumes "seq_inv r b" "live b i" "readN b i \<le> unat s" "unat s \<le> claimedN b"
    "claimedN b \<le> maxN r"
  shows "available b s \<longleftrightarrow> unat s < claimedN b"
proof -
  note sh = seq_invD(1) [OF assms(1)]
  have "s \<noteq> - 1"
  proof
    assume "s = - 1"
    then have "unat s = 2 ^ 64 - 1" by (simp add: unsigned_minus_1_eq_mask mask_eq_exp_minus_1)
    with assms(4,5) maxN_small [OF sh] show False by simp
  qed
  then have "slotSeq (slotN b (unat s)) = s \<Longrightarrow> unat s < claimedN b"
    using seq_invD(5) [OF assms(1), of "unat s"] by auto
  moreover have "unat s < claimedN b \<Longrightarrow> slotSeq (slotN b (unat s)) = s"
    using seq_invD(4) [OF assms(1,2,3)] by (simp add: word_unat_eq_iff)
  ultimately show ?thesis by (auto simp: available_iff [OF sh])
qed

lemma seq_inv_claimed: "seq_inv r b \<Longrightarrow> claimedN b \<le> maxN r"
  by (auto simp: seq_inv_def dest: ring_invD(2))

lemma pendingFor_Cons:
  "readN b i < claimedN b \<Longrightarrow>
   pendingFor b i = slotData (slotN b (readN b i)) # map (\<lambda>n. slotData (slotN b n)) [Suc (readN b i) ..< claimedN b]"
  by (simp add: pendingFor_def upt_conv_Cons)

lemma seq_inv_advance:
  assumes "seq_inv r b" "live b i" "unat k \<le> length (pendingFor b i)" "claimedN b < maxN r"
  shows "seq_inv r (advance b i k)" "live (advance b i k) j \<longleftrightarrow> live b j"
    "pendingFor (advance b i k) j = (if j = i then drop (unat k) (pendingFor b i) else pendingFor b j)"
    "claimedN (advance b i k) = claimedN b"
proof -
  obtain H where inv: "ring_inv r {} H b" using assms(1) by (auto simp: seq_inv_def)
  have k: "readN b i + unat k \<le> claimedN b"
    using assms(3) seq_invD(2) [OF assms(1,2)] by (simp add: pendingFor_def)
  have km: "readN b i + unat k \<le> maxN r" using k assms(4) by linarith
  note V = advance_views [OF inv assms(2) km]
  show "seq_inv r (advance b i k)"
    using ring_inv_advance [OF inv assms(2) k] by (auto simp: seq_inv_def)
  show "live (advance b i k) j \<longleftrightarrow> live b j" using k assms(2,4) by (simp add: V)
  have [simp]: "claimedN (advance b i k) = claimedN b" "slotN (advance b i k) n = slotN b n" for n
    by (simp_all add: advance_def claimedN_def slotN_def)
  show "claimedN (advance b i k) = claimedN b" by simp
  show "pendingFor (advance b i k) j =
      (if j = i then drop (unat k) (pendingFor b i) else pendingFor b j)"
    by (simp add: pendingFor_def V drop_map)
qed

lemma take_one_spec:
  assumes "seq_inv r b" "live b i" "claimedN b < maxN r"
  shows "pendingFor b i = [] \<Longrightarrow> take_one b i h = Spins"
    "pendingFor b i = d # ds \<Longrightarrow> hintSize b h \<le> VALUE_TYPE_SIZE b \<Longrightarrow>
     take_one b i h = Ret (take (hintSize b h) d, advance b i 1)"
proof -
  note sh = seq_invD(1) [OF assms(1)]
  have av: "available b (readSeqs b ! i) \<longleftrightarrow> readN b i < claimedN b"
    using available_seq [OF assms(1,2), of "readSeqs b ! i"] seq_invD(2) [OF assms(1,2)] assms(3)
    by (simp add: readN_def)
  show "pendingFor b i = [] \<Longrightarrow> take_one b i h = Spins"
    using av assms(2) by (auto simp: take_one_def pendingFor_def)
  assume p: "pendingFor b i = d # ds" and h: "hintSize b h \<le> VALUE_TYPE_SIZE b"
  then have lt: "readN b i < claimedN b" by (cases "readN b i < claimedN b") (simp_all add: pendingFor_def)
  with p have "d = slotData (slotN b (readN b i))" by (simp add: pendingFor_Cons)
  then have "copyOut (buffer b) (readSeqs b ! i AND MASK b) (hintSize b h) = take (hintSize b h) d"
    by (simp add: ring_shapeD(5) [OF sh] chunk_mask_slots(2) [OF ring_shapeD(1) [OF sh]]
        slotN_def readN_def)
  with av lt assms(2) h show "take_one b i h = Ret (take (hintSize b h) d, advance b i 1)"
    by (simp add: take_one_def readItem_def)
qed

text \<open>\<^verbatim>\<open>peek\<close> sees everything published, up to the caller's limit; it stops by itself.\<close>

lemma peekLoop_spec:
  assumes "seq_inv r b" "live b i" "claimedN b < maxN r"
  shows "readN b i \<le> unat s \<Longrightarrow> unat s \<le> claimedN b \<Longrightarrow>
    unat (peekLoop b s m) = unat s + min m (claimedN b - unat s)"
proof (induction m arbitrary: s)
  case 0
  then show ?case by (simp add: peekLoop.simps)
next
  case (Suc m)
  have av: "available b s \<longleftrightarrow> unat s < claimedN b"
    using available_seq [OF assms(1,2) Suc.prems] assms(3) by simp
  show ?case
  proof (cases "unat s < claimedN b")
    case True
    then have s1: "unat (s + 1) = Suc (unat s)"
      using unat_u64_lt [of "toBeClaimedSeq b"] by (intro unat_inc) (simp add: claimedN_def)
    with Suc.IH [of "s + 1"] Suc.prems True
    have "unat (peekLoop b (s + 1) m) = Suc (unat s) + min m (claimedN b - Suc (unat s))" by simp
    moreover have "peekLoop b s (Suc m) = peekLoop b (s + 1) m"
      using True av by (subst peekLoop.simps) simp
    ultimately show ?thesis using True by simp
  next
    case False
    with av Suc.prems show ?thesis by (subst peekLoop.simps) simp
  qed
qed

lemma peek_spec:
  assumes "seq_inv r b" "live b i" "claimedN b < maxN r"
  shows "\<exists>p e cnt. peek b i m = Ret (p, e, cnt) \<and> unat (seq p) = readN b i \<and>
     unat cnt = min (unat m) (length (pendingFor b i)) \<and> unat (seq e) = readN b i + unat cnt \<and>
     cnt = iterMinus e p"
proof -
  let ?s = "readSeqs b ! i"
  let ?e = "peekLoop b ?s (unat m)"
  have le: "readN b i \<le> claimedN b" using seq_invD(2) [OF assms(1,2)] .
  then have e: "unat ?e = readN b i + min (unat m) (claimedN b - readN b i)"
    using peekLoop_spec [OF assms, of ?s "unat m"] by (simp add: readN_def)
  then have "unat (?e - ?s) = unat ?e - unat ?s"
    by (simp add: unat_sub word_le_nat_alt readN_def)
  then have "unat (?e - ?s) = min (unat m) (claimedN b - readN b i)" using e by (simp add: readN_def)
  with e show ?thesis using assms(2)
    by (intro exI [of _ "iteratorAt ?s"] exI [of _ "iteratorAt ?e"] exI [of _ "?e - ?s"])
       (simp add: peek_def readN_def pendingFor_def iterMinus_def Let_def)
qed

section \<open>Recycling and purging\<close>

text \<open>\<^verbatim>\<open>reset\<close> brings a consumer back, dead or alive, with nothing pending and no wait.\<close>

lemma resetConsumer_spec:
  assumes "seq_inv r b" "i < consumers b" "claimedN b < maxN r"
  shows "\<exists>b'. resetConsumer b i = Ret b' \<and> seq_inv r b' \<and> live b' i \<and> pendingFor b' i = [] \<and>
     (\<forall>j. j \<noteq> i \<longrightarrow> (live b' j \<longleftrightarrow> live b j) \<and> pendingFor b' j = pendingFor b j)"
proof -
  obtain H where inv: "ring_inv r {} H b" using assms(1) by (auto simp: seq_inv_def)
  note D = ring_invD [OF inv]
  let ?b = "b\<lparr>readSeqs := (readSeqs b)[i := toBeClaimedSeq b]\<rparr>"
  have sh: "ring_shape r ?b" using D(1) by (simp add: consumers_def)
  have rd: "readN ?b j = (if j = i then claimedN b else readN b j)" for j
    using assms(2) by (simp add: readN_def claimedN_def consumers_def nth_list_update)
  have n: "consumers ?b = consumers b" by (simp add: consumers_def)
  have lv: "live ?b j \<longleftrightarrow> j = i \<or> live b j" for j
    using assms(2,3) by (auto simp: live_iff [OF sh] live_iff [OF D(1)] rd consumers_def)
  have "readN ?b j \<le> maxN r + 1000" if "j < consumers b" for j using D(2) D(3) [OF that] by (simp add: rd)
  moreover have "n < readN ?b j + 2 ^ r \<and> unat (slotSeq (slotN b n)) = n \<and> slotData (slotN b n) = H n"
    if "live ?b j" "readN ?b j \<le> n" "n < claimedN b" for j n
    using that D(8,9,10) [of j n] by (auto simp: lv rd split: if_splits)
  moreover have "readN ?b j \<le> claimedN b" if "live ?b j" for j
    using that D(4) [of j] by (auto simp: lv rd)
  ultimately have inv': "ring_inv r {} H ?b"
    unfolding ring_inv_def using sh D(2,7) n by auto
  then have s': "seq_inv r ?b" by (auto simp: seq_inv_def)
  have "\<not> available ?b (toBeClaimedSeq b)"
    using available_seq [OF s', of i "toBeClaimedSeq b"] assms(3) by (simp add: lv rd claimedN_def)
  then have "resetConsumer b i = Ret ?b"
    using assms(2) by (simp add: resetConsumer_def consumers_def Let_def)
  with s' show ?thesis by (auto simp: lv rd pendingFor_def)
qed

text \<open>
  \<^verbatim>\<open>purge\<close> never marks a consumer that is not the slowest, so it kills at most one, and only
  one that stood still since the purge before and is live.
\<close>

definition stuckSlowest :: "MemRingBuffer \<Rightarrow> nat \<Rightarrow> bool" where
  "stuckSlowest b j \<longleftrightarrow> j = findSlowestReader b \<and> live b j \<and> readSeqLastPurge b ! j = readSeqs b ! j"

lemma purgeOne_frame:
  "readSeqs (snd (purgeOne b i res)) = readSeqs b" "READ_SEQ_MAX (snd (purgeOne b i res)) = READ_SEQ_MAX b"
  "j \<noteq> i \<Longrightarrow> readSeqLastPurge (snd (purgeOne b i res)) ! j = readSeqLastPurge b ! j"
  "buffer (snd (purgeOne b i res)) = buffer b" "toBeClaimedSeq (snd (purgeOne b i res)) = toBeClaimedSeq b"
  by (simp_all add: purgeOne_def Let_def)

lemma purgeOne_bits:
  assumes "i < 64" "i < consumers b"
  shows "bit (fst (purgeOne b i res)) j \<longleftrightarrow> bit res j \<or> j = i \<and> stuckSlowest b i"
  using assms
  by (auto simp: purgeOne_def Let_def bit_or_iff bit_exp_iff stuckSlowest_def live_def)

lemma purge_scan:
  fixes b :: MemRingBuffer
  defines "scan n \<equiv> fold (\<lambda>i (res, b). purgeOne b i res) [0..<n] (0, b)"
  assumes "n \<le> consumers b" "consumers b \<le> 64"
  shows "readSeqs (snd (scan n)) = readSeqs b \<and> READ_SEQ_MAX (snd (scan n)) = READ_SEQ_MAX b \<and>
     buffer (snd (scan n)) = buffer b \<and> toBeClaimedSeq (snd (scan n)) = toBeClaimedSeq b \<and>
     (\<forall>j \<ge> n. readSeqLastPurge (snd (scan n)) ! j = readSeqLastPurge b ! j) \<and>
     (\<forall>j. bit (fst (scan n)) j \<longleftrightarrow> j < n \<and> stuckSlowest b j)"
  using assms(2)
proof (induction n)
  case 0
  then show ?case by (simp add: scan_def)
next
  case (Suc n)
  have step: "scan (Suc n) = purgeOne (snd (scan n)) n (fst (scan n))"
    by (simp add: scan_def case_prod_beta)
  note IH = Suc.IH [OF Suc_leD [OF Suc.prems]]
  have "stuckSlowest (snd (scan n)) n = stuckSlowest b n"
    using IH by (simp add: stuckSlowest_def live_def consumers_def findSlowestReader_def)
  moreover have "n < consumers (snd (scan n))" using IH Suc.prems by (simp add: consumers_def)
  ultimately have "bit (fst (scan (Suc n))) j \<longleftrightarrow> j < Suc n \<and> stuckSlowest b j" for j
    using purgeOne_bits [of n "snd (scan n)"] IH Suc.prems assms(3) unfolding step
    by (auto simp: less_Suc_eq)
  with IH show ?case unfolding step by (simp add: purgeOne_frame)
qed

lemma kill_marked:
  "readSeqs (fold (\<lambda>i b. if bit m i then markDead b i else b) is b) =
     map (\<lambda>i. if bit m i \<and> i \<in> set is then READ_SEQ_MAX b else readSeqs b ! i) [0..<consumers b]
   \<and> READ_SEQ_MAX (fold (\<lambda>i b. if bit m i then markDead b i else b) is b) = READ_SEQ_MAX b
   \<and> buffer (fold (\<lambda>i b. if bit m i then markDead b i else b) is b) = buffer b
   \<and> toBeClaimedSeq (fold (\<lambda>i b. if bit m i then markDead b i else b) is b) = toBeClaimedSeq b"
proof (induction "is" arbitrary: b)
  case Nil
  then show ?case by (simp add: consumers_def map_nth)
next
  case (Cons i "is")
  let ?b = "if bit m i then markDead b i else b"
  have rd: "readSeqs ?b ! j = (if bit m i \<and> j = i then READ_SEQ_MAX b else readSeqs b ! j)"
    if "j < consumers b" for j
    using that by (auto simp: markDead_def consumers_def)
  have c: "consumers ?b = consumers b" "READ_SEQ_MAX ?b = READ_SEQ_MAX b"
    "toBeClaimedSeq ?b = toBeClaimedSeq b" by simp_all
  have bf: "buffer ?b = buffer b" by (simp add: markDead_def)
  show ?case
    using Cons.IH [of ?b] rd unfolding fold_Cons comp_apply c bf by (auto simp del: markDead_views)
qed

lemma purge_spec:
  assumes "consumers b \<le> 64" "j < consumers b"
  shows "live (snd (purge b)) j \<longleftrightarrow> live b j \<and> \<not> stuckSlowest b j"
    "\<not> stuckSlowest b j \<Longrightarrow> pendingFor (snd (purge b)) j = pendingFor b j"
    "bit (fst (purge b)) j \<longleftrightarrow> stuckSlowest b j"
proof -
  let ?n = "consumers b"
  let ?sc = "fold (\<lambda>i (res, b). purgeOne b i res) [0..<?n] (0, b)"
  note S = purge_scan [OF le_refl assms(1)]
  have pg: "purge b = (fst ?sc, fold (\<lambda>i b. if bit (fst ?sc) i then markDead b i else b) [0..<?n] (snd ?sc))"
    by (simp add: purge_def consumers_def case_prod_beta Let_def)
  have st: "consumers (snd ?sc) = ?n" using S by (simp add: consumers_def)
  note K = kill_marked [of "fst ?sc" "[0..<?n]" "snd ?sc"]
  show b: "bit (fst (purge b)) j \<longleftrightarrow> stuckSlowest b j" using S assms(2) by (simp add: pg)
  have rs: "readSeqs (snd (purge b)) = map (\<lambda>i. if bit (fst ?sc) i \<and> i < ?n
      then READ_SEQ_MAX b else readSeqs b ! i) [0..<?n]"
    and rm: "READ_SEQ_MAX (snd (purge b)) = READ_SEQ_MAX b" "buffer (snd (purge b)) = buffer b"
      "toBeClaimedSeq (snd (purge b)) = toBeClaimedSeq b"
    using K S st by (simp_all add: pg)
  have rj: "readSeqs (snd (purge b)) ! j = (if stuckSlowest b j then READ_SEQ_MAX b else readSeqs b ! j)"
    using S assms(2) by (simp add: rs)
  show "live (snd (purge b)) j \<longleftrightarrow> live b j \<and> \<not> stuckSlowest b j"
    using assms(2) rj rm by (auto simp: live_def consumers_def rs)
  show "\<not> stuckSlowest b j \<Longrightarrow> pendingFor (snd (purge b)) j = pendingFor b j"
    using rj rm by (simp add: pendingFor_def readN_def claimedN_def slotN_def)
qed

end
