(* ===== verification/RingConcurrency.thy ===== *)
theory RingConcurrency
  imports RingOperations
begin

text \<open>
  Interleaved executions of \<^verbatim>\<open>MemRingBuffer\<close>: any number of producer threads and one thread
  per consumer, each moving by the atomic steps of the code (a \<^verbatim>\<open>fetch_add\<close> or successful
  compare-and-swap, one test of a waiting loop, one \<^verbatim>\<open>memcpy\<close>, one store of a sequence
  number). Memory is sequentially consistent here; the fences of the code are not modelled.
\<close>

section \<open>Threads and steps\<close>

text \<open>Where a producer is inside \<^verbatim>\<open>put\<close>, \<^verbatim>\<open>tryPut\<close> or \<^verbatim>\<open>killPut\<close>.\<close>

datatype producer =
    PIdle
  | PClaimed u64 bytes nat \<comment> \<open>claimed, in the waiting loop\<close>
  | PReady u64 bytes nat   \<comment> \<open>has seen room\<close>
  | PWritten u64 bytes nat \<comment> \<open>value copied, sequence not stored\<close>

text \<open>
  Where a consumer is inside \<^verbatim>\<open>take\<close>, or between \<^verbatim>\<open>peek\<close> and \<^verbatim>\<open>wasteAfterPeek\<close>: looking how
  far it can read, or reading the values found.
\<close>

datatype consumer =
    CIdle
  | CPeek u64 u64
  | CCopy u64 u64 "bytes list"

text \<open>
  \<open>sent\<close>, \<open>hist\<close> and \<open>got\<close> are history: the bytes handed over with each sequence number,
  the slot contents published under it, and what each consumer has read and released.
\<close>

record ring_sys =
  ring :: MemRingBuffer
  prod :: "nat \<Rightarrow> producer"
  cons :: "nat \<Rightarrow> consumer"
  sent :: "nat \<Rightarrow> bytes"
  hist :: "nat \<Rightarrow> bytes"
  got :: "nat \<Rightarrow> bytes list"

definition init_sys :: "MemRingBuffer \<Rightarrow> ring_sys" where
  "init_sys b = \<lparr>ring = b, prod = (\<lambda>_. PIdle), cons = (\<lambda>_. CIdle),
     sent = (\<lambda>_. []), hist = (\<lambda>_. []), got = (\<lambda>_. [])\<rparr>"

text \<open>
  The first two rules carry the bound under which the sequence numbers stay apart from
  \<^verbatim>\<open>READ_SEQ_MAX\<close>; rule \<open>c_see\<close> looks at most 1000 messages ahead, the slack \<^verbatim>\<open>READ_SEQ_MAX\<close>
  leaves above itself.
\<close>

inductive ring_step :: "ring_sys \<Rightarrow> ring_sys \<Rightarrow> bool" where
  p_claim: "prod s p = PIdle \<Longrightarrow> claimedN (ring s) + 1 < unat (READ_SEQ_MAX (ring s)) \<Longrightarrow>
     fits (ring s) item h \<Longrightarrow> fetchAddClaim (ring s) 1 = (sq, b') \<Longrightarrow>
     ring_step s (s\<lparr>ring := b', prod := (prod s)(p := PClaimed sq item h),
       sent := (sent s)(unat sq := take (hintSize (ring s) h) item)\<rparr>)"
| p_try: "prod s p = PIdle \<Longrightarrow> claimedN (ring s) + 1 < unat (READ_SEQ_MAX (ring s)) \<Longrightarrow>
     fits (ring s) item h \<Longrightarrow> tryClaim (ring s) = (it, b') \<Longrightarrow> start it \<Longrightarrow>
     ring_step s (s\<lparr>ring := b', prod := (prod s)(p := PReady (seq it) item h),
       sent := (sent s)(unat (seq it) := take (hintSize (ring s) h) item)\<rparr>)"
| p_room: "prod s p = PClaimed sq item h \<Longrightarrow> \<not> noRoom (ring s) sq \<Longrightarrow>
     ring_step s (s\<lparr>prod := (prod s)(p := PReady sq item h)\<rparr>)"
| p_kill: "prod s p = PClaimed sq item h \<Longrightarrow> noRoom (ring s) sq \<Longrightarrow>
     ring_step s (s\<lparr>ring := markDead (ring s) (findSlowestReader (ring s))\<rparr>)"
| p_copy: "prod s p = PReady sq item h \<Longrightarrow> writeItem (ring s) sq item h = Ret b' \<Longrightarrow>
     ring_step s (s\<lparr>ring := b', prod := (prod s)(p := PWritten sq item h)\<rparr>)"
| p_publish: "prod s p = PWritten sq item h \<Longrightarrow>
     ring_step s (s\<lparr>ring := publish (ring s) sq, prod := (prod s)(p := PIdle),
       hist := (hist s)(unat sq := slotData (slotN (ring s) (unat sq)))\<rparr>)"
| c_begin: "cons s i = CIdle \<Longrightarrow> liveConsumer (ring s) i = Ret sq \<Longrightarrow>
     ring_step s (s\<lparr>cons := (cons s)(i := CPeek sq sq)\<rparr>)"
| c_see: "cons s i = CPeek st e \<Longrightarrow> available (ring s) e \<Longrightarrow> unat e < unat st + 1000 \<Longrightarrow>
     ring_step s (s\<lparr>cons := (cons s)(i := CPeek st (e + 1))\<rparr>)"
| c_stop: "cons s i = CPeek st e \<Longrightarrow>
     ring_step s (s\<lparr>cons := (cons s)(i := CCopy st e [])\<rparr>)"
| c_copy: "cons s i = CCopy st e ds \<Longrightarrow> unat st + length ds < unat e \<Longrightarrow>
     readItem (ring s) (st + of_nat (length ds)) 0 = Ret d \<Longrightarrow>
     ring_step s (s\<lparr>cons := (cons s)(i := CCopy st e (ds @ [d]))\<rparr>)"
| c_waste: "cons s i = CCopy st e ds \<Longrightarrow> unat st + length ds = unat e \<Longrightarrow>
     ring_step s (s\<lparr>ring := advance (ring s) i (e - st), cons := (cons s)(i := CIdle),
       got := (got s)(i := got s i @ ds)\<rparr>)"
| kill: "ring_step s (s\<lparr>ring := markDead (ring s) i\<rparr>)"

text \<open>Reachable states of a buffer that starts as \<open>b\<close>.\<close>

inductive reachable :: "MemRingBuffer \<Rightarrow> ring_sys \<Rightarrow> bool" for b where
  reach_init: "reachable b (init_sys b)"
| reach_step: "reachable b s \<Longrightarrow> ring_step s t \<Longrightarrow> reachable b t"

section \<open>The invariant of the system\<close>

fun inflight :: "producer \<Rightarrow> nat option" where
  "inflight PIdle = None"
| "inflight (PClaimed sq item h) = Some (unat sq)"
| "inflight (PReady sq item h) = Some (unat sq)"
| "inflight (PWritten sq item h) = Some (unat sq)"

fun pastRoom :: "producer \<Rightarrow> bool" where
  "pastRoom (PReady sq item h) = True"
| "pastRoom (PWritten sq item h) = True"
| "pastRoom _ = False"

definition pendingSet :: "ring_sys \<Rightarrow> nat set" where
  "pendingSet s = {n. \<exists>p. inflight (prod s p) = Some n}"

text \<open>What a producer knows: its message is the one recorded, it fits, and once written the
  slot holds it (as long as some consumer is alive).\<close>

fun producer_ok :: "nat \<Rightarrow> ring_sys \<Rightarrow> producer \<Rightarrow> bool" where
  "producer_ok r s PIdle = True"
| "producer_ok r s (PClaimed sq item h) =
     (fits (ring s) item h \<and> sent s (unat sq) = take (hintSize (ring s) h) item)"
| "producer_ok r s (PReady sq item h) =
     (fits (ring s) item h \<and> sent s (unat sq) = take (hintSize (ring s) h) item \<and>
      hasRoom r (ring s) (unat sq))"
| "producer_ok r s (PWritten sq item h) =
     (fits (ring s) item h \<and> sent s (unat sq) = take (hintSize (ring s) h) item \<and>
      hasRoom r (ring s) (unat sq) \<and>
      ((\<exists>i. live (ring s) i) \<longrightarrow> take (length (sent s (unat sq))) (slotData (slotN (ring s) (unat sq)))
         = sent s (unat sq)))"

text \<open>A consumer at work: what it has seen is published, what it copied is what was published.\<close>

definition window_ok :: "ring_sys \<Rightarrow> nat \<Rightarrow> u64 \<Rightarrow> u64 \<Rightarrow> bool" where
  "window_ok s i st e \<longleftrightarrow>
     i < consumers (ring s) \<and> unat st \<le> unat e \<and> unat e \<le> unat st + 1000 \<and>
     unat e \<le> claimedN (ring s) \<and>
     (if live (ring s) i
      then readSeqs (ring s) ! i = st \<and>
           (\<forall>n. unat st \<le> n \<and> n < unat e \<longrightarrow> n \<notin> pendingSet s)
      else readSeqs (ring s) ! i = READ_SEQ_MAX (ring s))"

fun consumer_ok :: "ring_sys \<Rightarrow> nat \<Rightarrow> consumer \<Rightarrow> bool" where
  "consumer_ok s i CIdle = True"
| "consumer_ok s i (CPeek st e) = window_ok s i st e"
| "consumer_ok s i (CCopy st e ds) =
     (window_ok s i st e \<and> unat st + length ds \<le> unat e \<and>
      (live (ring s) i \<longrightarrow> ds = map (hist s) [unat st ..< unat st + length ds]))"

definition sys_inv :: "nat \<Rightarrow> ring_sys \<Rightarrow> bool" where
  "sys_inv r s \<longleftrightarrow>
     ring_inv r (pendingSet s) (hist s) (ring s) \<and>
     (\<forall>p q n. inflight (prod s p) = Some n \<and> inflight (prod s q) = Some n \<longrightarrow> p = q) \<and>
     (\<forall>p. producer_ok r s (prod s p)) \<and>
     (\<forall>i. consumer_ok s i (cons s i)) \<and>
     ((\<exists>i. live (ring s) i) \<longrightarrow> (\<forall>n < claimedN (ring s). n \<notin> pendingSet s \<longrightarrow>
        take (length (sent s n)) (hist s n) = sent s n)) \<and>
     (\<forall>i. live (ring s) i \<longrightarrow> got s i = map (hist s) [0 ..< readN (ring s) i])"

lemma sys_invD:
  assumes "sys_inv r s"
  shows "ring_inv r (pendingSet s) (hist s) (ring s)"
    "inflight (prod s p) = Some n \<Longrightarrow> inflight (prod s q) = Some n \<Longrightarrow> p = q"
    "producer_ok r s (prod s p)" "consumer_ok s i (cons s i)"
    "live (ring s) i \<Longrightarrow> n < claimedN (ring s) \<Longrightarrow> n \<notin> pendingSet s \<Longrightarrow>
       take (length (sent s n)) (hist s n) = sent s n"
    "live (ring s) i \<Longrightarrow> got s i = map (hist s) [0 ..< readN (ring s) i]"
  using assms unfolding sys_inv_def by blast+

lemma sys_invI:
  assumes "ring_inv r (pendingSet s) (hist s) (ring s)"
    and "\<And>p q n. inflight (prod s p) = Some n \<Longrightarrow> inflight (prod s q) = Some n \<Longrightarrow> p = q"
    and "\<And>p. producer_ok r s (prod s p)" "\<And>i. consumer_ok s i (cons s i)"
    and "\<And>i n. live (ring s) i \<Longrightarrow> n < claimedN (ring s) \<Longrightarrow> n \<notin> pendingSet s \<Longrightarrow>
       take (length (sent s n)) (hist s n) = sent s n"
    and "\<And>i. live (ring s) i \<Longrightarrow> got s i = map (hist s) [0 ..< readN (ring s) i]"
  shows "sys_inv r s"
  using assms unfolding sys_inv_def by blast

lemma pendingSetI: "inflight (prod s p) = Some n \<Longrightarrow> n \<in> pendingSet s"
  by (auto simp: pendingSet_def)


section \<open>Preservation, step by step\<close>

lemma producer_ok_mono:
  assumes "producer_ok r s x"
    and "VALUE_TYPE_SIZE (ring t) = VALUE_TYPE_SIZE (ring s)"
    and "\<And>j. live (ring t) j \<Longrightarrow> live (ring s) j \<and> readN (ring s) j \<le> readN (ring t) j"
    and "\<And>n. inflight x = Some n \<Longrightarrow> sent t n = sent s n"
    and "\<And>n j. inflight x = Some n \<Longrightarrow> pastRoom x \<Longrightarrow> live (ring t) j \<Longrightarrow>
          slotData (slotN (ring t) n) = slotData (slotN (ring s) n)"
  shows "producer_ok r t x"
proof -
  have "fits (ring t) item h = fits (ring s) item h" "hintSize (ring t) h = hintSize (ring s) h" for item h
    using assms(2) by (simp_all add: fits_def hintSize_def)
  moreover have "hasRoom r (ring s) n \<Longrightarrow> hasRoom r (ring t) n" for n
    using assms(3) by (blast intro: hasRoom_mono)
  moreover have "\<exists>j. live (ring t) j \<Longrightarrow> \<exists>j. live (ring s) j" using assms(3) by blast
  ultimately show ?thesis using assms(1,4,5) by (cases x) auto
qed

lemma consumer_ok_mono:
  assumes "consumer_ok s i x"
    and "consumers (ring t) = consumers (ring s)" "claimedN (ring s) \<le> claimedN (ring t)"
    and "live (ring t) i \<Longrightarrow> live (ring s) i \<and> readSeqs (ring t) ! i = readSeqs (ring s) ! i"
    and "i < consumers (ring s) \<Longrightarrow> \<not> live (ring t) i \<Longrightarrow>
         live (ring s) i \<or> readSeqs (ring s) ! i = READ_SEQ_MAX (ring s) \<Longrightarrow>
         readSeqs (ring t) ! i = READ_SEQ_MAX (ring t)"
    and "\<And>n. n < claimedN (ring s) \<Longrightarrow> n \<notin> pendingSet s \<Longrightarrow> n \<notin> pendingSet t \<and> hist t n = hist s n"
  shows "consumer_ok t i x"
proof -
  have w: "window_ok t i st e" if "window_ok s i st e" for st e
    using that assms(2-5) assms(6) unfolding window_ok_def
    by (auto split: if_splits)
  have h: "map (hist s) [unat st ..< m] = map (hist t) [unat st ..< m]"
    if "window_ok s i st e" "live (ring s) i" "m \<le> unat e" for st e m
    using that assms(6) by (auto simp: window_ok_def)
  show ?thesis
  proof (cases x)
    case (CCopy st e ds)
    with assms(1) have c: "window_ok s i st e" "unat st + length ds \<le> unat e"
      "live (ring s) i \<longrightarrow> ds = map (hist s) [unat st ..< unat st + length ds]" by simp_all
    then have "ds = map (hist t) [unat st ..< unat st + length ds]" if "live (ring t) i"
      using assms(4) [OF that] h [OF c(1) _ c(2)] by metis
    with c(2) w [OF c(1)] CCopy show ?thesis by simp
  qed (use assms(1) w in auto)
qed

lemma tryClaim_start:
  "start (fst (tryClaim b)) \<Longrightarrow>
   tryClaim b = (iteratorAt (toBeClaimedSeq b), b\<lparr>toBeClaimedSeq := toBeClaimedSeq b + 1\<rparr>) \<and>
   toBeClaimedSeq b < CAPACITY b + readSeqLow b"
  by (auto simp: tryClaim_def Let_def nullIterator_def split: if_splits)

lemma pendingSet_claim:
  "prod s p = PIdle \<Longrightarrow> inflight x = Some n \<Longrightarrow>
   {m. \<exists>q. inflight (((prod s)(p := x)) q) = Some m} = insert n (pendingSet s)"
  by (auto simp: pendingSet_def split: if_splits) (metis inflight.simps(1) option.distinct(1))

lemma pendingSet_move:
  "inflight x = inflight (prod s p) \<Longrightarrow>
   {m. \<exists>q. inflight (((prod s)(p := x)) q) = Some m} = pendingSet s"
  by (auto simp: pendingSet_def split: if_splits)

text \<open>Both ways of claiming: the new sequence number is the first one free.\<close>

lemma sys_inv_claim:
  assumes inv: "sys_inv r s" and p: "prod s p = PIdle"
    and bnd: "claimedN (ring s) + 1 < unat (READ_SEQ_MAX (ring s))"
    and x: "inflight x = Some (claimedN (ring s))"
    and t: "t = s\<lparr>ring := (ring s)\<lparr>toBeClaimedSeq := toBeClaimedSeq (ring s) + 1\<rparr>,
               prod := (prod s)(p := x), sent := (sent s)(claimedN (ring s) := m)\<rparr>"
    and ok: "producer_ok r t x"
  shows "sys_inv r t"
proof -
  note I = sys_invD [OF inv] and D = ring_invD [OF sys_invD(1) [OF inv]]
  let ?n = "claimedN (ring s)"
  have P: "pendingSet t = insert ?n (pendingSet s)"
    using pendingSet_claim [OF p x] by (simp add: t pendingSet_def)
  have lt: "n < ?n" if "n \<in> pendingSet s" for n using D(6) that by blast
  have "ring_inv r (insert ?n (pendingSet s)) (hist t) (ring t) \<and> claimedN (ring t) = Suc ?n"
    using ring_inv_claim [OF I(1), of 1] bnd ring_shapeD(6) [OF D(1)]
    by (simp add: t atLeastLessThanSuc)
  then have c: "ring_inv r (pendingSet t) (hist t) (ring t)" "claimedN (ring t) = Suc ?n"
    unfolding P by blast+
  have "producer_ok r t (prod t q)" for q
  proof (cases "q = p")
    case False
    have "n \<noteq> ?n" if "inflight (prod s q) = Some n" for n
      using lt pendingSetI [OF that] by blast
    then have "producer_ok r t (prod s q)"
      by (intro producer_ok_mono [OF I(3)]) (simp_all add: t)
    with False show ?thesis by (simp add: t)
  qed (use ok in \<open>simp add: t\<close>)
  moreover have "consumer_ok t i (cons t i)" for i
  proof -
    have "consumer_ok t i (cons s i)"
      using c(2) P by (intro consumer_ok_mono [OF I(4)]) (simp_all add: t)
    then show ?thesis by (simp add: t)
  qed
  moreover have "q = q'" if "inflight (prod t q) = Some n" "inflight (prod t q') = Some n" for q q' n
    using that I(2) [of q n q'] lt pendingSetI [of s q n] pendingSetI [of s q' n] x
    by (auto simp: t split: if_splits)
  moreover have "take (length (sent t n)) (hist t n) = sent t n"
    if "live (ring t) i" "n < claimedN (ring t)" "n \<notin> pendingSet t" for i n
    using that I(5) [of i n] c(2) P by (auto simp: t)
  moreover have "got t i = map (hist t) [0 ..< readN (ring t) i]" if "live (ring t) i" for i
    using that I(6) [of i] by (simp add: t)
  ultimately show ?thesis unfolding sys_inv_def using c(1) by blast
qed


text \<open>Seeing room.\<close>

lemma sys_inv_room:
  assumes inv: "sys_inv r s" and p: "prod s p = PClaimed sq item h" and room: "\<not> noRoom (ring s) sq"
  shows "sys_inv r (s\<lparr>prod := (prod s)(p := PReady sq item h)\<rparr>)"
proof -
  note I = sys_invD [OF inv] and D = ring_invD [OF sys_invD(1) [OF inv]]
  let ?t = "s\<lparr>prod := (prod s)(p := PReady sq item h)\<rparr>"
  have P: "pendingSet ?t = pendingSet s"
    using pendingSet_move [of "PReady sq item h" s p] p by (simp add: pendingSet_def)
  have "unat sq < claimedN (ring s)" using D(6) pendingSetI [of s p] p by simp
  then have "hasRoom r (ring s) (unat sq)"
    using room room_iff [OF I(1), of sq] D(2) by (simp add: noRoom_def hasRoom_def not_le)
  then have "producer_ok r ?t (prod ?t q)" for q
    using I(3) [of p] p producer_ok_mono [OF I(3) [of q], of ?t] by simp
  moreover have "consumer_ok ?t i (cons ?t i)" for i
    using consumer_ok_mono [OF I(4) [of i], of ?t] P by simp
  moreover have "inflight (prod ?t q) = inflight (prod s q)" for q using p by simp
  ultimately show ?thesis
    by (intro sys_invI) (use I(1,2,5,6) P in simp_all)
qed

text \<open>Killing a consumer, by a producer or by anyone else.\<close>

lemma sys_inv_markDead:
  assumes inv: "sys_inv r s"
  shows "sys_inv r (s\<lparr>ring := markDead (ring s) i\<rparr>)"
proof -
  note I = sys_invD [OF inv]
  let ?t = "s\<lparr>ring := markDead (ring s) i\<rparr>"
  have P: "pendingSet ?t = pendingSet s" by (simp add: pendingSet_def)
  have "VALUE_TYPE_SIZE (markDead (ring s) i) = VALUE_TYPE_SIZE (ring s)" by (simp add: markDead_def)
  then have "producer_ok r ?t (prod ?t q)" for q
    using producer_ok_mono [OF I(3) [of q], of ?t] by (simp add: markDead_readN)
  moreover have "consumer_ok ?t j (cons ?t j)" for j
  proof -
    have other: "readSeqs (markDead (ring s) i) ! j = readSeqs (ring s) ! j" if "j \<noteq> i"
      using that by (simp add: markDead_def)
    moreover have "readSeqs (markDead (ring s) i) ! j = READ_SEQ_MAX (ring s)"
      if "j < consumers (ring s)" "live (ring s) j \<longrightarrow> j = i"
        "live (ring s) j \<or> readSeqs (ring s) ! j = READ_SEQ_MAX (ring s)"
      using that other by (cases "j = i") (auto simp: markDead_def consumers_def)
    ultimately show ?thesis
      using consumer_ok_mono [OF I(4) [of j], of ?t] P by simp
  qed
  moreover have "take (length (sent ?t n)) (hist ?t n) = sent ?t n"
    if "live (ring ?t) j" "n < claimedN (ring ?t)" "n \<notin> pendingSet ?t" for j n
    using that I(5) [of j n] P by simp
  moreover have "got ?t j = map (hist ?t) [0 ..< readN (ring ?t) j]" if "live (ring ?t) j" for j
    using that I(6) [of j] by (simp add: markDead_readN)
  moreover have "ring_inv r (pendingSet ?t) (hist ?t) (ring ?t)"
    using ring_inv_markDead [OF I(1)] P by simp
  ultimately show ?thesis using I(2) by (intro sys_invI) simp_all
qed

text \<open>Copying the value: no other slot somebody may read or has written is touched.\<close>

lemma past_room_apart:
  assumes inv: "sys_inv r s" and "live (ring s) i" "p \<noteq> q"
    and "inflight (prod s p) = Some m" "inflight (prod s q) = Some n"
    and "hasRoom r (ring s) m" "hasRoom r (ring s) n"
  shows "m mod 2 ^ r \<noteq> n mod 2 ^ r"
proof
  note D = ring_invD [OF sys_invD(1) [OF inv]]
  assume eq: "m mod 2 ^ r = n mod 2 ^ r"
  have "readN (ring s) i \<le> m" "readN (ring s) i \<le> n"
    using D(5) [OF assms(2)] pendingSetI assms(4,5) by (meson not_le)+
  moreover have "m < readN (ring s) i + 2 ^ r" "n < readN (ring s) i + 2 ^ r"
    using assms(2,6,7) by (auto simp: hasRoom_def add.commute)
  ultimately have "m = n" using eq window_mod_inj by blast
  with sys_invD(2) [OF inv] assms(3,4,5) show False by blast
qed

lemma sys_inv_copy:
  assumes inv: "sys_inv r s" and p: "prod s p = PReady sq item h"
    and w: "writeItem (ring s) sq item h = Ret b'"
  shows "sys_inv r (s\<lparr>ring := b', prod := (prod s)(p := PWritten sq item h)\<rparr>)"
proof -
  note I = sys_invD [OF inv] and D = ring_invD [OF sys_invD(1) [OF inv]]
  let ?t = "s\<lparr>ring := b', prod := (prod s)(p := PWritten sq item h)\<rparr>"
  let ?k = "hintSize (ring s) h"
  have k: "?k \<le> length item" "?k \<le> VALUE_TYPE_SIZE (ring s)"
    and b': "b' = (ring s)\<lparr>buffer := copyIn (buffer (ring s)) (sq AND MASK (ring s)) item ?k\<rparr>"
    using w by (auto simp: writeItem_def Let_def split: if_splits)
  have P: "pendingSet ?t = pendingSet s"
    using pendingSet_move [of "PWritten sq item h" s p] p by (simp add: pendingSet_def)
  have room: "hasRoom r (ring s) (unat sq)" and snt: "sent s (unat sq) = take ?k item"
    and fit: "fits (ring s) item h" using I(3) [of p] p by simp_all
  have sP: "unat sq \<in> pendingSet s" using pendingSetI [of s p] p by simp
  have ri: "ring_inv r (pendingSet ?t) (hist ?t) (ring ?t)"
    using ring_inv_write [OF I(1) sP room k] unfolding P by (simp add: b')
  have hr: "hasRoom r b' n = hasRoom r (ring s) n" for n by (simp add: hasRoom_def b')
  have "producer_ok r ?t (prod ?t q)" for q
  proof (cases "q = p")
    case True
    have "take (length (sent s (unat sq))) (slotData (slotN b' (unat sq))) = sent s (unat sq)"
      using k unfolding b' slotN_ops(2) [OF D(1)] by (simp add: snt)
    moreover have "fits b' item h = fits (ring s) item h" "hintSize b' h = ?k"
      by (simp_all add: fits_def hintSize_def b')
    ultimately show ?thesis using True room snt fit by (simp add: hr)
  next
    case False
    have "slotData (slotN b' n) = slotData (slotN (ring s) n)"
      if "inflight (prod s q) = Some n" "pastRoom (prod s q)" "live (ring s) j" for n j
    proof -
      have "hasRoom r (ring s) n" using I(3) [of q] that(1,2) by (cases "prod s q") auto
      then have "n mod 2 ^ r \<noteq> unat sq mod 2 ^ r"
        using past_room_apart [OF inv that(3) False that(1), of "unat sq"] p room by simp
      then show ?thesis unfolding b' slotN_ops(2) [OF D(1)] by simp
    qed
    then have "producer_ok r ?t (prod s q)"
      by (intro producer_ok_mono [OF I(3)]) (simp_all add: b')
    with False show ?thesis by simp
  qed
  moreover have "consumer_ok ?t i (cons ?t i)" for i
    using consumer_ok_mono [OF I(4) [of i], of ?t] P by (simp add: b')
  moreover have "inflight (prod ?t q) = inflight (prod s q)" for q using p by simp
  moreover have "got ?t i = map (hist ?t) [0 ..< readN (ring ?t) i]" if "live (ring ?t) i" for i
    using that I(6) [of i] by (simp add: b')
  moreover have "take (length (sent ?t n)) (hist ?t n) = sent ?t n"
    if "live (ring ?t) i" "n < claimedN (ring ?t)" "n \<notin> pendingSet ?t" for i n
    using that I(5) [of i n] P by (simp add: b')
  ultimately show ?thesis
    using ri I(2) by (intro sys_invI) (simp_all only: )
qed


text \<open>Publishing.\<close>

lemma sys_inv_publish:
  assumes inv: "sys_inv r s" and p: "prod s p = PWritten sq item h"
  shows "sys_inv r (s\<lparr>ring := publish (ring s) sq, prod := (prod s)(p := PIdle),
       hist := (hist s)(unat sq := slotData (slotN (ring s) (unat sq)))\<rparr>)"
proof -
  note I = sys_invD [OF inv] and D = ring_invD [OF sys_invD(1) [OF inv]]
  let ?t = "s\<lparr>ring := publish (ring s) sq, prod := (prod s)(p := PIdle),
       hist := (hist s)(unat sq := slotData (slotN (ring s) (unat sq)))\<rparr>"
  let ?n = "unat sq"
  have [simp]: "consumers (publish (ring s) sq) = consumers (ring s)"
    "readN (publish (ring s) sq) i = readN (ring s) i" "live (publish (ring s) sq) i = live (ring s) i"
    "claimedN (publish (ring s) sq) = claimedN (ring s)"
    "readSeqs (publish (ring s) sq) = readSeqs (ring s)"
    "READ_SEQ_MAX (publish (ring s) sq) = READ_SEQ_MAX (ring s)"
    "VALUE_TYPE_SIZE (publish (ring s) sq) = VALUE_TYPE_SIZE (ring s)" for i
    by (simp_all add: publish_def)
  have uniq: "q = p" if "inflight (prod s q) = Some ?n" for q
    using I(2) [of q ?n p] that p by simp
  have ip: "inflight (prod s p) = Some ?n" using p by simp
  have P: "pendingSet ?t = pendingSet s - {?n}"
  proof (rule set_eqI)
    fix n
    have "n \<in> pendingSet ?t \<longleftrightarrow> (\<exists>q. q \<noteq> p \<and> inflight (prod s q) = Some n)"
      by (auto simp: pendingSet_def)
    also have "\<dots> \<longleftrightarrow> n \<in> pendingSet s - {?n}"
      using uniq ip unfolding pendingSet_def mem_Collect_eq Diff_iff singleton_iff
      by (metis option.inject)
    finally show "n \<in> pendingSet ?t \<longleftrightarrow> n \<in> pendingSet s - {?n}" .
  qed
  have room: "hasRoom r (ring s) ?n"
    and wr: "live (ring s) i \<Longrightarrow> take (length (sent s ?n)) (slotData (slotN (ring s) ?n)) = sent s ?n" for i
    using I(3) [of p] p by auto
  have sP: "?n \<in> pendingSet s" using pendingSetI [of s p] p by simp
  have "slotData (slotN (publish (ring s) sq) n) = slotData (slotN (ring s) n)" for n
    by (simp add: slotN_ops(1) [OF D(1)])
  then have "producer_ok r ?t (prod ?t q)" for q
    using producer_ok_mono [OF I(3) [of q], of ?t] by simp
  moreover have "consumer_ok ?t i (cons ?t i)" for i
    using consumer_ok_mono [OF I(4) [of i], of ?t] P sP by fastforce
  moreover have "q = q'" if "inflight (prod ?t q) = Some n" "inflight (prod ?t q') = Some n" for q q' n
    using that I(2) [of q n q'] by (auto split: if_splits)
  moreover have "take (length (sent ?t n)) (hist ?t n) = sent ?t n"
    if "live (ring ?t) i" "n < claimedN (ring ?t)" "n \<notin> pendingSet ?t" for i n
    using that I(5) [of i n] wr [of i] P by (cases "n = ?n") auto
  moreover have "got ?t i = map (hist ?t) [0 ..< readN (ring ?t) i]" if "live (ring ?t) i" for i
    using that I(6) [of i] D(5) [of i ?n] sP by auto
  moreover have "ring_inv r (pendingSet ?t) (hist ?t) (ring ?t)"
    using ring_inv_publish [OF I(1) sP room] unfolding P by simp
  ultimately show ?thesis by (intro sys_invI) blast+
qed

section \<open>Consumer moves\<close>

text \<open>A move that changes only where one consumer stands.\<close>

lemma sys_inv_cons:
  assumes inv: "sys_inv r s" and ok: "consumer_ok s i x"
  shows "sys_inv r (s\<lparr>cons := (cons s)(i := x)\<rparr>)"
proof -
  note I = sys_invD [OF inv]
  let ?t = "s\<lparr>cons := (cons s)(i := x)\<rparr>"
  have P: "pendingSet ?t = pendingSet s" by (simp add: pendingSet_def)
  have "producer_ok r ?t (prod ?t q)" for q
    using producer_ok_mono [OF I(3) [of q], of ?t] by simp
  moreover have "consumer_ok ?t j (cons ?t j)" for j
    using consumer_ok_mono [OF ok, of ?t] consumer_ok_mono [OF I(4) [of j], of ?t] P by simp
  moreover have "take (length (sent ?t n)) (hist ?t n) = sent ?t n"
    if "live (ring ?t) j" "n < claimedN (ring ?t)" "n \<notin> pendingSet ?t" for j n
    using that I(5) [of j n] P by simp
  ultimately show ?thesis using I(1,2,6) P by (intro sys_invI) simp_all
qed

lemma available_published:
  assumes inv: "ring_inv r P H b" and "available b e" "unat e \<le> claimedN b"
  shows "unat e < claimedN b \<and> unat e \<notin> P"
proof -
  note D = ring_invD [OF inv]
  have "e \<noteq> - 1"
  proof
    assume "e = - 1"
    then have "unat e = 2 ^ 64 - 1" by (simp add: unsigned_minus_1_eq_mask mask_eq_exp_minus_1)
    with assms(3) D(2) maxN_small [OF D(1)] show False by simp
  qed
  with assms(2) D(7) [of "unat e"] show ?thesis by (simp add: available_iff [OF D(1)])
qed

lemma sys_inv_see:
  assumes inv: "sys_inv r s" and c: "cons s i = CPeek st e"
    and av: "available (ring s) e" and lim: "unat e < unat st + 1000"
  shows "sys_inv r (s\<lparr>cons := (cons s)(i := CPeek st (e + 1))\<rparr>)"
proof (rule sys_inv_cons [OF inv])
  note I = sys_invD [OF inv]
  have w: "window_ok s i st e" using I(4) [of i] c by simp
  then have e: "unat e < claimedN (ring s)" "unat e \<notin> pendingSet s"
    using available_published [OF I(1) av] by (simp_all add: window_ok_def)
  then have "unat (e + 1) = Suc (unat e)"
    using unat_u64_lt [of "toBeClaimedSeq (ring s)"] by (intro unat_inc) (simp add: claimedN_def)
  with w e lim show "consumer_ok s i (CPeek st (e + 1))"
    by (auto simp: window_ok_def less_Suc_eq)
qed

lemma sys_inv_read:
  assumes inv: "sys_inv r s" and c: "cons s i = CCopy st e ds"
    and lt: "unat st + length ds < unat e"
    and rd: "readItem (ring s) (st + of_nat (length ds)) 0 = Ret d"
  shows "sys_inv r (s\<lparr>cons := (cons s)(i := CCopy st e (ds @ [d]))\<rparr>)"
proof (rule sys_inv_cons [OF inv])
  note I = sys_invD [OF inv] and D = ring_invD [OF sys_invD(1) [OF inv]]
  have w: "window_ok s i st e" "live (ring s) i \<longrightarrow> ds = map (hist s) [unat st ..< unat st + length ds]"
    using I(4) [of i] c by simp_all
  let ?n = "unat st + length ds"
  have n: "unat (st + of_nat (length ds)) = ?n"
    using lt unat_u64_lt [of e] unat_add_small [of st "of_nat (length ds)"]
    by (simp add: unsigned_of_nat take_bit_nat_eq_self)
  have "d = hist s ?n" if l: "live (ring s) i"
  proof -
    have "unat st = readN (ring s) i" "?n < claimedN (ring s)" "?n \<notin> pendingSet s"
      using w(1) l lt by (auto simp: window_ok_def readN_def)
    then have h: "slotData (slotN (ring s) ?n) = hist s ?n" using D(10) [OF l] by simp
    have "length (slotData (slotN (ring s) ?n)) = VALUE_TYPE_SIZE (ring s)"
    proof -
      have "slotN (ring s) ?n \<in> set (space (buffer (ring s)))"
        using ring_shapeD(1) [OF D(1)]
        by (auto simp: slotN_def slotOf_def chunk_wf_def intro!: nth_mem mod_less_divisor)
      then show ?thesis using ring_shapeD(1,7) [OF D(1)] by (auto simp: chunk_wf_def)
    qed
    then have "copyOut (buffer (ring s)) ((st + of_nat (length ds)) AND MASK (ring s))
        (VALUE_TYPE_SIZE (ring s)) = hist s ?n"
      using h chunk_mask_slots(2) [OF ring_shapeD(1) [OF D(1)], of "st + of_nat (length ds)"]
      by (simp add: ring_shapeD(5) [OF D(1)] n slotN_def)
    with rd show ?thesis by (simp add: readItem_def hintSize_def)
  qed
  with w lt show "consumer_ok s i (CCopy st e (ds @ [d]))" by auto
qed


lemma ring_inv_advance_dead:
  assumes inv: "ring_inv r P H b" and i: "i < consumers b" "readSeqs b ! i = READ_SEQ_MAX b"
    and k: "unat k \<le> 1000"
  shows "ring_inv r P H (advance b i k)" "live (advance b i k) j \<longleftrightarrow> live b j"
    "j \<noteq> i \<Longrightarrow> readN (advance b i k) j = readN b j"
proof -
  note D = ring_invD [OF inv]
  have m: "readN b i = maxN r" using i ring_shapeD(6) [OF D(1)] by (simp add: readN_def)
  have "unat (readSeqs b ! i + k) = maxN r + unat k"
    using k m maxN_small [OF D(1)] unat_add_small [of "readSeqs b ! i" k] by (simp add: readN_def)
  then have r: "readN (advance b i k) j = (if j = i then maxN r + unat k else readN b j)" for j
    using i(1) by (simp add: readN_def advance_def consumers_def nth_list_update)
  then show "j \<noteq> i \<Longrightarrow> readN (advance b i k) j = readN b j" by simp
  have sh: "ring_shape r (advance b i k)"
    using D(1) by (simp add: advance_def consumers_def [symmetric])
  have n: "consumers (advance b i k) = consumers b" by (simp add: advance_def consumers_def)
  have l: "live (advance b i k) j \<longleftrightarrow> live b j" for j
    by (auto simp: live_iff [OF sh] live_iff [OF D(1)] r n m)
  then show "live (advance b i k) j \<longleftrightarrow> live b j" .
  have "\<not> live b i" using m by (simp add: live_iff [OF D(1)])
  then have lr: "live b j \<Longrightarrow> readN (advance b i k) j = readN b j" for j by (cases "j = i") (auto simp: r)
  have [simp]: "claimedN (advance b i k) = claimedN b" "slotN (advance b i k) n = slotN b n" for n
    by (simp_all add: advance_def claimedN_def slotN_def)
  have "readN (advance b i k) j \<le> maxN r + 1000" if "j < consumers b" for j
    using D(3) [OF that] k by (simp add: r)
  then show "ring_inv r P H (advance b i k)"
    unfolding ring_inv_def using sh D(2,4-10) by (auto simp: n l lr)
qed

lemma sys_inv_waste:
  assumes inv: "sys_inv r s" and c: "cons s i = CCopy st e ds" and len: "unat st + length ds = unat e"
  shows "sys_inv r (s\<lparr>ring := advance (ring s) i (e - st), cons := (cons s)(i := CIdle),
       got := (got s)(i := got s i @ ds)\<rparr>)"
proof -
  note I = sys_invD [OF inv] and D = ring_invD [OF sys_invD(1) [OF inv]]
  let ?k = "e - st" and ?b = "advance (ring s) i (e - st)"
  let ?t = "s\<lparr>ring := ?b, cons := (cons s)(i := CIdle), got := (got s)(i := got s i @ ds)\<rparr>"
  have w: "window_ok s i st e" and ds: "live (ring s) i \<longrightarrow> ds = map (hist s) [unat st ..< unat e]"
    using I(4) [of i] c len by auto
  have k: "unat ?k = unat e - unat st" using w by (simp add: unat_sub word_le_nat_alt window_ok_def)
  have P: "pendingSet ?t = pendingSet s" by (simp add: pendingSet_def)
  have [simp]: "consumers ?b = consumers (ring s)" "claimedN ?b = claimedN (ring s)"
    "slotN ?b n = slotN (ring s) n" "READ_SEQ_MAX ?b = READ_SEQ_MAX (ring s)"
    "VALUE_TYPE_SIZE ?b = VALUE_TYPE_SIZE (ring s)" for n
    by (simp_all add: advance_def consumers_def claimedN_def slotN_def)
  have other: "j \<noteq> i \<Longrightarrow> readSeqs ?b ! j = readSeqs (ring s) ! j" for j by (simp add: advance_def)
  have main: "ring_inv r (pendingSet s) (hist s) ?b \<and>
     (\<forall>j. live ?b j \<longrightarrow> live (ring s) j \<and> readN (ring s) j \<le> readN ?b j) \<and>
     (\<forall>j. j \<noteq> i \<longrightarrow> live ?b j = live (ring s) j) \<and>
     (live (ring s) i \<longrightarrow> readN ?b i = unat e \<and> readN (ring s) i = unat st)"
  proof (cases "live (ring s) i")
    case True
    then have st: "readN (ring s) i = unat st" using w by (simp add: window_ok_def readN_def)
    have le: "readN (ring s) i + unat ?k \<le> claimedN (ring s)" using w st k by (simp add: window_ok_def)
    have "ring_inv r (pendingSet s) (hist s) ?b"
      using w True st k by (intro ring_inv_advance [OF I(1) True le]) (auto simp: window_ok_def)
    moreover have "readN (ring s) i + unat ?k \<le> maxN r" using le D(2) by linarith
    note V = advance_views [OF I(1) True this]
    ultimately show ?thesis using True st k w by (auto simp: V window_ok_def split: if_splits)
  next
    case False
    then have "readSeqs (ring s) ! i = READ_SEQ_MAX (ring s)" "i < consumers (ring s)" "unat ?k \<le> 1000"
      using w k by (auto simp: window_ok_def)
    note A = ring_inv_advance_dead [OF I(1) this(2,1,3)]
    have "readN (ring s) j \<le> readN ?b j" if "live (ring s) j" for j
      using A(3) [of j] that False by (cases "j = i") auto
    then show ?thesis using A(1,2) False by auto
  qed
  have "producer_ok r ?t (prod ?t q)" for q
    using producer_ok_mono [OF I(3) [of q], of ?t] main by simp
  moreover have "consumer_ok ?t j (cons ?t j)" for j
  proof (cases "j = i")
    case False
    then have "consumer_ok ?t j (cons s j)"
      using main other P by (intro consumer_ok_mono [OF I(4) [of j]]) auto
    with False show ?thesis by simp
  qed simp
  moreover have "take (length (sent ?t n)) (hist ?t n) = sent ?t n"
    if "live (ring ?t) j" "n < claimedN (ring ?t)" "n \<notin> pendingSet ?t" for j n
    using that I(5) [of j n] main P by simp
  moreover have "got ?t j = map (hist ?t) [0 ..< readN (ring ?t) j]" if "live (ring ?t) j" for j
  proof (cases "j = i")
    case True
    with that main have "live (ring s) i" by simp
    with ds main I(6) [of i] w have "got s i @ ds = map (hist s) ([0 ..< unat st] @ [unat st ..< unat e])"
      by simp
    also have "[0 ..< unat st] @ [unat st ..< unat e] = [0 ..< unat e]"
      using w upt_add_eq_append [of 0 "unat st" "unat e - unat st"] by (simp add: window_ok_def)
    finally show ?thesis using True main \<open>live (ring s) i\<close> by simp
  next
    case False
    then have "readN ?b j = readN (ring s) j" by (simp add: readN_def other)
    with False that main I(6) [of j] show ?thesis by simp
  qed
  ultimately show ?thesis
    using main P I(2) by (intro sys_invI) simp_all
qed

section \<open>Every reachable state\<close>

lemma sys_inv_try:
  assumes "sys_inv r s" "prod s p = PIdle" "claimedN (ring s) + 1 < unat (READ_SEQ_MAX (ring s))"
    "fits (ring s) item h" "tryClaim (ring s) = (it, b')" "start it"
  shows "sys_inv r (s\<lparr>ring := b', prod := (prod s)(p := PReady (seq it) item h),
       sent := (sent s)(unat (seq it) := take (hintSize (ring s) h) item)\<rparr>)"
proof -
  note I = sys_invD [OF assms(1)]
  have t: "it = iteratorAt (toBeClaimedSeq (ring s))"
    "b' = (ring s)\<lparr>toBeClaimedSeq := toBeClaimedSeq (ring s) + 1\<rparr>"
    "toBeClaimedSeq (ring s) < CAPACITY (ring s) + readSeqLow (ring s)"
    using tryClaim_start [of "ring s"] assms(5,6) by auto
  have "hasRoom r (ring s) (claimedN (ring s))"
    using room_iff [OF I(1), of "toBeClaimedSeq (ring s)"] ring_invD(2) [OF I(1)] t(3)
    by (simp add: hasRoom_def claimedN_def)
  with assms(4) show ?thesis
    unfolding t by (intro sys_inv_claim [OF assms(1-3), where x = "PReady (toBeClaimedSeq (ring s)) item h"
        and m = "take (hintSize (ring s) h) item"])
      (auto simp: claimedN_def hasRoom_def fits_def hintSize_claim)
qed

lemma sys_inv_fetch:
  assumes "sys_inv r s" "prod s p = PIdle" "claimedN (ring s) + 1 < unat (READ_SEQ_MAX (ring s))"
    "fits (ring s) item h" "fetchAddClaim (ring s) 1 = (sq, b')"
  shows "sys_inv r (s\<lparr>ring := b', prod := (prod s)(p := PClaimed sq item h),
       sent := (sent s)(unat sq := take (hintSize (ring s) h) item)\<rparr>)"
proof -
  have t: "sq = toBeClaimedSeq (ring s)" "b' = (ring s)\<lparr>toBeClaimedSeq := toBeClaimedSeq (ring s) + 1\<rparr>"
    using assms(5) by (auto simp: fetchAddClaim_def)
  show ?thesis
    using assms(4) unfolding t
    by (intro sys_inv_claim [OF assms(1-3), where x = "PClaimed (toBeClaimedSeq (ring s)) item h"
        and m = "take (hintSize (ring s) h) item"])
      (auto simp: claimedN_def fits_def hintSize_claim)
qed

lemma sys_inv_begin:
  assumes inv: "sys_inv r s" and "liveConsumer (ring s) i = Ret sq"
  shows "sys_inv r (s\<lparr>cons := (cons s)(i := CPeek sq sq)\<rparr>)"
proof (rule sys_inv_cons [OF inv])
  have "live (ring s) i" "sq = readSeqs (ring s) ! i"
    using assms(2) by (auto simp: liveConsumer_def live_def consumers_def not_le split: if_splits)
  then show "consumer_ok s i (CPeek sq sq)"
    using ring_invD(4) [OF sys_invD(1) [OF inv], of i]
    by (auto simp: window_ok_def live_def readN_def)
qed

lemma ring_step_inv: "ring_step s t \<Longrightarrow> sys_inv r s \<Longrightarrow> sys_inv r t"
proof (induction rule: ring_step.induct)
  case (p_claim s p item h sq b')
  then show ?case by (intro sys_inv_fetch)
next
  case (p_try s p item h it b')
  then show ?case by (intro sys_inv_try)
next
  case (c_stop s i st e)
  then have "consumer_ok s i (CCopy st e [])" using sys_invD(4) [of r s i] by (auto simp: window_ok_def)
  then show ?case using c_stop.prems by (rule sys_inv_cons [rotated])
qed (blast intro: sys_inv_room sys_inv_markDead sys_inv_copy sys_inv_publish sys_inv_begin
       sys_inv_see sys_inv_read sys_inv_waste)+

lemma sys_inv_init:
  assumes "seq_inv r b" "claimedN b = 0"
  shows "sys_inv r (init_sys b)"
proof -
  obtain H where "ring_inv r {} H b" using assms(1) by (auto simp: seq_inv_def)
  then have "ring_inv r {} (\<lambda>_. []) b"
    unfolding ring_inv_def using assms(2) by auto
  moreover have "readN b i = 0" if "live b i" for i using seq_invD(2) [OF assms(1) that] assms(2) by simp
  ultimately show ?thesis
    using assms(2) by (intro sys_invI) (auto simp: init_sys_def pendingSet_def)
qed

lemma reachable_inv:
  assumes "seq_inv r b" "claimedN b = 0"
  shows "reachable b s \<Longrightarrow> sys_inv r s"
  by (induction rule: reachable.induct) (auto intro: sys_inv_init assms ring_step_inv)

lemma live_consumer_got:
  assumes "seq_inv r b" "claimedN b = 0" "reachable b s" "live (ring s) i"
  shows "list_all2 (\<lambda>d m. take (length m) d = m) (got s i) (map (sent s) [0 ..< readN (ring s) i])"
proof -
  note I = sys_invD [OF reachable_inv [OF assms(1,2,3)]] 
  note D = ring_invD [OF I(1)]
  have "n < claimedN (ring s) \<and> n \<notin> pendingSet s" if "n < readN (ring s) i" for n
    using that D(4,5) [OF assms(4)] by (meson less_le_trans)
  then show ?thesis
    using I(5) [OF assms(4)] by (auto simp: I(6) [OF assms(4)] list_all2_conv_all_nth)
qed

end
