(* ===== verification/RingProperties.thy ===== *)
theory RingProperties
  imports RingConcurrency
begin

text \<open>
  The contract of \<^verbatim>\<open>MemRingBuffer\<close>: a broadcast queue. \<open>ringAbs\<close> reads a buffer as one list
  of unread messages per live consumer; each operation run alone refines one operation on
  those lists. Then the properties of the interleaved executions.
\<close>

section \<open>The abstract broadcast queue\<close>

type_synonym broadcast = "nat \<rightharpoonup> bytes list"

definition bcastFull :: "nat \<Rightarrow> broadcast \<Rightarrow> bool" where
  "bcastFull n q \<longleftrightarrow> (\<exists>i xs. q i = Some xs \<and> length xs \<ge> n)"

definition bcastPut :: "bytes \<Rightarrow> broadcast \<Rightarrow> broadcast" where
  "bcastPut d q = (\<lambda>i. map_option (\<lambda>xs. xs @ [d]) (q i))"

text \<open>The consumers that are full are disconnected.\<close>

definition bcastKill :: "nat \<Rightarrow> broadcast \<Rightarrow> broadcast" where
  "bcastKill n q = (\<lambda>i. case q i of Some xs \<Rightarrow> if length xs < n then Some xs else None | None \<Rightarrow> None)"

definition bcastDrop :: "nat \<Rightarrow> nat \<Rightarrow> broadcast \<Rightarrow> broadcast" where
  "bcastDrop i k q = q(i := map_option (drop k) (q i))"

definition ringAbs :: "MemRingBuffer \<Rightarrow> broadcast" where
  "ringAbs b = (\<lambda>i. if live b i then Some (pendingFor b i) else None)"

lemma bcastFull_ringAbs:
  assumes "seq_inv r b"
  shows "bcastFull (2 ^ r) (ringAbs b) \<longleftrightarrow> isFull b"
proof -
  have "length (pendingFor b i) \<ge> 2 ^ r \<longleftrightarrow> length (pendingFor b i) = 2 ^ r" if "live b i" for i
    using pendingFor_bound [OF assms that] by auto
  then show ?thesis by (auto simp: bcastFull_def ringAbs_def isFull_iff [OF assms])
qed

lemma ringAbs_putState:
  assumes "seq_inv r b" "\<not> isFull b" "fits b item h" "claimedN b < maxN r"
    "hintSize b h = VALUE_TYPE_SIZE b"
  shows "ringAbs (putState b item h) = bcastPut (take (VALUE_TYPE_SIZE b) item) (ringAbs b)"
proof
  fix i
  show "ringAbs (putState b item h) i = bcastPut (take (VALUE_TYPE_SIZE b) item) (ringAbs b) i"
    using putState_spec(2,4) [OF assms(1-4), of i] assms(5)
    by (auto simp: ringAbs_def bcastPut_def)
qed

lemma fits_whole:
  "VALUE_TYPE_SIZE b \<le> length item \<Longrightarrow> fits b item 0"
  by (simp add: fits_def hintSize_def)

text \<open>A small buffer: two consumers, two slots of 8 bytes of data.\<close>

definition demoRing :: MemRingBuffer where
  "demoRing = (case newMemRingBuffer (\<lambda>_. \<lparr>slotSeq = 0, slotData = replicate 8 0\<rparr>) 2 4 1 of Ret b \<Rightarrow> b)"

lemma demoRing_new:
  "newMemRingBuffer (\<lambda>_. \<lparr>slotSeq = 0, slotData = replicate 8 0\<rparr>) 2 4 1 = Ret demoRing"
  by (simp add: demoRing_def newMemRingBuffer_def chunk_base_ptr_def Let_def)

lemma demoRing_ok:
  "seq_inv 1 demoRing" "claimedN demoRing = 0" "consumers demoRing = 2" "live demoRing 0"
  "live demoRing 1" "pendingFor demoRing 0 = []" "VALUE_TYPE_SIZE demoRing = 8" "claimedN demoRing + 1 < maxN 1"
  using newMemRingBuffer_spec [OF demoRing_new] by (simp_all add: maxN_def)

lemma pendingFor_length:
  assumes "seq_inv r b" "d \<in> set (pendingFor b i)"
  shows "length d = VALUE_TYPE_SIZE b"
proof -
  note sh = seq_invD(1) [OF assms(1)]
  obtain n where d: "d = slotData (slotN b n)" using assms(2) by (auto simp: pendingFor_def)
  have "slotN b n \<in> set (space (buffer b))"
    using ring_shapeD(1) [OF sh]
    by (auto simp: slotN_def slotOf_def chunk_wf_def intro!: nth_mem mod_less_divisor)
  then show ?thesis using ring_shapeD(1,7) [OF sh] by (auto simp: d chunk_wf_def)
qed

lemma ringAbs_advance:
  assumes "seq_inv r b" "live b i" "unat k \<le> length (pendingFor b i)" "claimedN b < maxN r"
  shows "ringAbs (advance b i k) = bcastDrop i (unat k) (ringAbs b)"
  using seq_inv_advance(2,3) [OF assms] assms(2) by (auto simp: ringAbs_def bcastDrop_def fun_eq_iff)

lemma advance_zero: "i < consumers b \<Longrightarrow> advance b i 0 = b"
  by (simp add: advance_def consumers_def)

text \<open>The same buffer with one message in it.\<close>

definition demoRing1 :: MemRingBuffer where
  "demoRing1 = putState demoRing (replicate 8 7) 0"

lemma demoRing1_ok:
  "seq_inv 1 demoRing1" "claimedN demoRing1 = 1" "consumers demoRing1 = 2"
  "live demoRing1 0" "live demoRing1 1" "pendingFor demoRing1 1 = [replicate 8 7]"
proof -
  have f: "fits demoRing (replicate 8 7) 0" using demoRing_ok(7) by (intro fits_whole) simp
  have nf: "\<not> isFull demoRing"
    using demoRing_ok(1) newMemRingBuffer_spec(2,3) [OF demoRing_new] by (auto simp: isFull_iff live_def)
  have c: "claimedN demoRing < maxN 1" using demoRing_ok(8) by linarith
  note P = putState_spec [OF demoRing_ok(1) nf f c, folded demoRing1_def]
  show "seq_inv 1 demoRing1" "claimedN demoRing1 = 1" "live demoRing1 0" "live demoRing1 1"
    using P demoRing_ok by simp_all
  show "consumers demoRing1 = 2" using demoRing_ok(3)
    by (simp add: demoRing1_def putState_def publish_def consumers_def)
  show "pendingFor demoRing1 1 = [replicate 8 7]"
    using P(4) [of 1] demoRing_ok newMemRingBuffer_spec(3) [OF demoRing_new]
    by (auto simp: hintSize_def)
qed

section \<open>Properties of the operations\<close>

text \<open>C3: \<^verbatim>\<open>tryPut\<close> never waits and never leaves the language: it returns whether the
  slowest live consumer leaves room, and then every live consumer has exactly the new message
  more to read, after what it had; otherwise nothing changes.\<close>

lemma ring_tryPut_refines:
  assumes "seq_inv r b" "VALUE_TYPE_SIZE b \<le> length item" "claimedN b < maxN r"
  shows "\<exists>ok b'. tryPut b item 0 = Ret (ok, b') \<and> seq_inv r b' \<and>
     ok = (\<not> bcastFull (2 ^ r) (ringAbs b)) \<and>
     ringAbs b' = (if ok then bcastPut (take (VALUE_TYPE_SIZE b) item) (ringAbs b) else ringAbs b)"
proof (cases "isFull b")
  case True
  then show ?thesis using assms(1)
    by (intro exI [of _ False] exI [of _ b]) (simp add: tryPut_eq bcastFull_ringAbs [OF assms(1)])
next
  case False
  note f = fits_whole [OF assms(2)]
  then show ?thesis
    using False putState_spec(1) [OF assms(1) False f assms(3)]
      ringAbs_putState [OF assms(1) False f assms(3)]
    by (intro exI [of _ True] exI [of _ "putState b item 0"])
       (simp add: tryPut_eq bcastFull_ringAbs [OF assms(1)] hintSize_def)
qed

lemma ring_tryPut_witness:
  "\<exists>ok b'. tryPut demoRing (replicate 8 7) 0 = Ret (ok, b') \<and> seq_inv 1 b' \<and>
     ok = (\<not> bcastFull (2 ^ 1) (ringAbs demoRing)) \<and>
     ringAbs b' = (if ok then bcastPut (take (VALUE_TYPE_SIZE demoRing) (replicate 8 7)) (ringAbs demoRing)
                   else ringAbs demoRing)"
  by (rule ring_tryPut_refines) (use demoRing_ok in simp_all)

text \<open>C7: \<^verbatim>\<open>killPut\<close> always returns; it disconnects exactly the live consumers that are a
  whole ring behind, and every other live consumer gets the message.\<close>

lemma ring_killPut_refines:
  assumes "seq_inv r b" "VALUE_TYPE_SIZE b \<le> length item" "claimedN b + 1 < maxN r"
  shows "\<exists>b'. killPut b item 0 = Ret b' \<and> seq_inv r b' \<and>
     ringAbs b' = bcastPut (take (VALUE_TYPE_SIZE b) item) (bcastKill (2 ^ r) (ringAbs b))"
proof -
  obtain b' where b': "killPut b item 0 = Ret b'" "seq_inv r b'"
    "\<forall>j. live b' j \<longleftrightarrow> live b j \<and> length (pendingFor b j) < 2 ^ r"
    "\<forall>j. live b' j \<longrightarrow> pendingFor b' j = pendingFor b j @ [take (VALUE_TYPE_SIZE b) item]"
    using killPut_spec [OF assms(1) fits_whole [OF assms(2)] assms(3)]
    by (auto simp: hintSize_def)
  then have "ringAbs b' = bcastPut (take (VALUE_TYPE_SIZE b) item) (bcastKill (2 ^ r) (ringAbs b))"
    by (auto simp: ringAbs_def bcastPut_def bcastKill_def fun_eq_iff)
  with b' show ?thesis by blast
qed

lemma ring_killPut_witness:
  "\<exists>b'. killPut demoRing (replicate 8 7) 0 = Ret b' \<and> seq_inv 1 b' \<and>
     ringAbs b' = bcastPut (take (VALUE_TYPE_SIZE demoRing) (replicate 8 7)) (bcastKill (2 ^ 1) (ringAbs demoRing))"
  by (rule ring_killPut_refines) (use demoRing_ok in simp_all)

text \<open>C9: \<^verbatim>\<open>take\<close> gives a live consumer the oldest message it has not read and removes it
  for this consumer only; it waits when there is none and throws for a dead consumer.\<close>

lemma ring_take_refines:
  assumes "seq_inv r b" "i < consumers b" "claimedN b < maxN r"
  shows "take_one b i 0 = (case ringAbs b i of None \<Rightarrow> Throw (DeadConsumer i) | Some [] \<Rightarrow> Spins
       | Some (d # ds) \<Rightarrow> Ret (d, advance b i 1))
     \<and> (\<forall>d ds. ringAbs b i = Some (d # ds) \<longrightarrow>
          seq_inv r (advance b i 1) \<and> ringAbs (advance b i 1) = bcastDrop i 1 (ringAbs b))"
proof (cases "live b i")
  case False
  then show ?thesis using dead_consumer [OF assms(2)] by (simp add: ringAbs_def take_one_def)
next
  case True
  have h: "hintSize b 0 = VALUE_TYPE_SIZE b" by (simp add: hintSize_def)
  note T = take_one_spec [OF assms(1) True assms(3), where h = 0, unfolded h]
  have "take (VALUE_TYPE_SIZE b) d = d" if "pendingFor b i = d # ds" for d ds
    using pendingFor_length [OF assms(1), of d i] that by simp
  then have "take_one b i 0 = (case pendingFor b i of [] \<Rightarrow> Spins | d # ds \<Rightarrow> Ret (d, advance b i 1))"
    using T by (cases "pendingFor b i") simp_all
  moreover have "seq_inv r (advance b i 1) \<and> ringAbs (advance b i 1) = bcastDrop i 1 (ringAbs b)"
    if "pendingFor b i = d # ds" for d ds
    using seq_inv_advance(1) [OF assms(1) True _ assms(3), of 1]
      ringAbs_advance [OF assms(1) True _ assms(3), of 1] that by simp
  ultimately show ?thesis using True by (simp add: ringAbs_def)
qed

lemma ring_take_witness:
  "take_one demoRing1 1 0 = Ret (replicate 8 7, advance demoRing1 1 1) \<and> seq_inv 1 (advance demoRing1 1 1)"
proof -
  have i: "1 < consumers demoRing1" and c: "claimedN demoRing1 < maxN 1"
    using demoRing1_ok by (simp_all add: maxN_def)
  have a: "ringAbs demoRing1 1 = Some [replicate 8 7]" using demoRing1_ok by (simp add: ringAbs_def)
  show ?thesis using ring_take_refines [OF demoRing1_ok(1) i c, unfolded a] by simp
qed

text \<open>C17: \<^verbatim>\<open>peek\<close> reports as many messages as are unread, up to the caller's limit, in a
  range of iterators that starts at the oldest one; \<^verbatim>\<open>wasteAfterPeek\<close> with that count removes
  exactly those for this consumer.\<close>

lemma ring_peek_waste_refines:
  assumes "seq_inv r b" "ringAbs b i = Some xs" "claimedN b < maxN r"
  shows "\<exists>p e cnt b'. peek b i m = Ret (p, e, cnt) \<and> unat cnt = min (unat m) (length xs) \<and>
     cnt = iterMinus e p \<and> (\<forall>k < unat cnt. slotData (slotN b (unat (seq p) + k)) = xs ! k) \<and>
     wasteAfterPeek b i cnt = Ret b' \<and> seq_inv r b' \<and> ringAbs b' = bcastDrop i (unat cnt) (ringAbs b)"
proof -
  have l: "live b i" and xs: "xs = pendingFor b i" using assms(2) by (auto simp: ringAbs_def split: if_splits)
  then have i: "i < consumers b" by (simp add: live_def)
  obtain p e cnt where P: "peek b i m = Ret (p, e, cnt)" "unat (seq p) = readN b i"
    "unat cnt = min (unat m) (length xs)" "cnt = iterMinus e p"
    using peek_spec [OF assms(1) l assms(3), of m] xs by metis
  have k: "unat cnt \<le> length (pendingFor b i)" using P(3) xs by simp
  have w: "wasteAfterPeek b i cnt = Ret (advance b i cnt)"
    using i advance_zero [OF i] by (simp add: wasteAfterPeek_def consumers_def)
  have "slotData (slotN b (unat (seq p) + k)) = xs ! k" if "k < unat cnt" for k
    using that P(2,3) by (simp add: xs pendingFor_def less_diff_conv add.commute)
  with P w seq_inv_advance(1) [OF assms(1) l k assms(3)] ringAbs_advance [OF assms(1) l k assms(3)]
  show ?thesis by blast
qed

lemma ring_peek_waste_witness:
  "\<exists>p e cnt b'. peek demoRing1 1 10 = Ret (p, e, cnt) \<and> unat cnt = 1 \<and>
     slotData (slotN demoRing1 (unat (seq p))) = replicate 8 7 \<and>
     wasteAfterPeek demoRing1 1 cnt = Ret b' \<and> seq_inv 1 b' \<and> ringAbs b' = bcastDrop 1 1 (ringAbs demoRing1)"
proof -
  have a: "ringAbs demoRing1 1 = Some [replicate 8 7]" and c: "claimedN demoRing1 < maxN 1"
    using demoRing1_ok by (simp_all add: ringAbs_def maxN_def)
  show ?thesis using ring_peek_waste_refines [OF demoRing1_ok(1) a c, of 10] by fastforce
qed

text \<open>\<^verbatim>\<open>reset\<close> returns at once and connects the consumer, dead or alive, at the end of
  the stream: it is live with nothing to read, and nobody else notices.\<close>

lemma ring_reset_refines:
  assumes "seq_inv r b" "i < consumers b" "claimedN b < maxN r"
  shows "\<exists>b'. resetConsumer b i = Ret b' \<and> seq_inv r b' \<and> ringAbs b' = (ringAbs b)(i \<mapsto> [])"
proof -
  obtain b' where "resetConsumer b i = Ret b'" "seq_inv r b'" "live b' i" "pendingFor b' i = []"
    "\<forall>j. j \<noteq> i \<longrightarrow> (live b' j \<longleftrightarrow> live b j) \<and> pendingFor b' j = pendingFor b j"
    using resetConsumer_spec [OF assms] by blast
  then show ?thesis by (auto simp: ringAbs_def fun_eq_iff)
qed

lemma ring_reset_witness:
  "\<exists>b'. resetConsumer demoRing1 1 = Ret b' \<and> seq_inv 1 b' \<and> ringAbs b' = (ringAbs demoRing1)(1 \<mapsto> [])"
  by (rule ring_reset_refines) (use demoRing1_ok in \<open>simp_all add: maxN_def\<close>)

text \<open>\<^verbatim>\<open>purge\<close> disconnects a consumer exactly when it is the slowest one, live, and has not
  moved since the purge that last recorded it; its bit, and no other, is in the result.\<close>

lemma ring_purge_exact:
  assumes "consumers b \<le> 64" "j < consumers b"
  shows "ringAbs (snd (purge b)) j = (if stuckSlowest b j then None else ringAbs b j) \<and>
     (bit (fst (purge b)) j \<longleftrightarrow> stuckSlowest b j)"
  using purge_spec [OF assms] by (auto simp: ringAbs_def)

lemma ring_purge_witness:
  "ringAbs (snd (purge demoRing1)) 0 = (if stuckSlowest demoRing1 0 then None else ringAbs demoRing1 0) \<and>
     (bit (fst (purge demoRing1)) 0 \<longleftrightarrow> stuckSlowest demoRing1 0)"
  by (rule ring_purge_exact) (use demoRing1_ok in simp_all)

text \<open>Writing a message in place, \<^verbatim>\<open>claim\<close>, filling the slot, then \<^verbatim>\<open>commit\<close> of the
  iterator, is \<^verbatim>\<open>put\<close>: the index \<^verbatim>\<open>commit\<close> computes back from the slot's address is right.\<close>

lemma ring_claim_commit_is_put:
  assumes "ring_shape r b" "fits b item sizeHint"
  shows "obind (claim b) (\<lambda>(it, b1). obind (writeItem b1 (seq it) item sizeHint)
       (\<lambda>b2. Ret (commit b2 it))) = put b item sizeHint"
  using claim_write_commit_eq_put [OF assms] by simp

lemma ring_claim_commit_witness:
  "obind (claim demoRing1) (\<lambda>(it, b1). obind (writeItem b1 (seq it) (replicate 8 9) 0)
       (\<lambda>b2. Ret (commit b2 it))) = put demoRing1 (replicate 8 9) 0"
  by (rule ring_claim_commit_is_put [of 1])
     (use demoRing1_ok seq_invD(1) demoRing_ok(7) in
       \<open>auto intro!: fits_whole simp: demoRing1_def putState_def publish_def\<close>)

section \<open>Properties of the interleaved executions\<close>





end
