(* ===== verification/MemRingBuffer0.thy ===== *)
theory MemRingBuffer0
  imports LockFreeBufferMisc
begin

text \<open>
  \<^verbatim>\<open>hmbdc/pattern/MemRingBuffer2.hpp\<close>: the specialisation \<^verbatim>\<open>MemRingBuffer<0>\<close>, a queue in which
  every message goes to exactly one of many consumers. A consumer first moves \<^verbatim>\<open>readSeq_\<close>
  past what it takes and later marks the slots free; a producer waits for both. Operations
  are written as the code runs them without interruption.
\<close>

section \<open>State\<close>

record MemRingBuffer0 =
  CAPACITY0 :: u64
  VALUE_TYPE_SIZE0 :: nat
  MASK0 :: u64
  buffer0 :: chunk_base_ptr
  toBeClaimedSeq0 :: u64
  readSeq0 :: u64

definition seqAt :: "MemRingBuffer0 \<Rightarrow> u64 \<Rightarrow> u64" where
  "seqAt b s = getSeq (buffer0 b) (s AND MASK0 b)"

definition readyToWriteOver :: "MemRingBuffer0 \<Rightarrow> u64 \<Rightarrow> bool" where
  "readyToWriteOver b s \<longleftrightarrow> seqAt b s = - 1"

text \<open>\<^verbatim>\<open>readyToWriteOver(seq, n)\<close>: the loop tests the slot of \<open>seq\<close> in each of its \<open>n\<close> rounds.\<close>

fun readyToWriteOverN :: "MemRingBuffer0 \<Rightarrow> u64 \<Rightarrow> nat \<Rightarrow> bool" where
  "readyToWriteOverN b s 0 = True"
| "readyToWriteOverN b s (Suc n) = (if seqAt b s \<noteq> - 1 then False else readyToWriteOverN b s n)"

definition markAsToWriteOver :: "MemRingBuffer0 \<Rightarrow> u64 \<Rightarrow> MemRingBuffer0" where
  "markAsToWriteOver b s = b\<lparr>buffer0 := setSeq (buffer0 b) (s AND MASK0 b) (- 1)\<rparr>"

definition newMemRingBuffer0 :: "(nat \<Rightarrow> slot) \<Rightarrow> nat \<Rightarrow> nat \<Rightarrow> MemRingBuffer0 outcome" where
  "newMemRingBuffer0 junk v r =
     obind (chunk_base_ptr junk v r) (\<lambda>c.
       let cap = push_bit r 1 in
       Ret \<lparr>CAPACITY0 = cap, VALUE_TYPE_SIZE0 = 2 ^ v - seqBytes, MASK0 = cap - 1,
            buffer0 = c\<lparr>space := map (\<lambda>s. s\<lparr>slotSeq := - 1\<rparr>) (space c)\<rparr>,
            toBeClaimedSeq0 = 0, readSeq0 = 0\<rparr>)"

section \<open>Producers\<close>

definition hintSize0 :: "MemRingBuffer0 \<Rightarrow> nat \<Rightarrow> nat" where
  "hintSize0 b sizeHint = (if sizeHint \<noteq> 0 then sizeHint else VALUE_TYPE_SIZE0 b)"

definition writeItem0 :: "MemRingBuffer0 \<Rightarrow> u64 \<Rightarrow> bytes \<Rightarrow> nat \<Rightarrow> MemRingBuffer0 outcome" where
  "writeItem0 b s item sizeHint =
     (let n = hintSize0 b sizeHint in
      if n \<le> VALUE_TYPE_SIZE0 b \<and> n \<le> length item
      then Ret (b\<lparr>buffer0 := copyIn (buffer0 b) (s AND MASK0 b) item n\<rparr>) else Undefined)"

definition publish0 :: "MemRingBuffer0 \<Rightarrow> u64 \<Rightarrow> MemRingBuffer0" where
  "publish0 b s = b\<lparr>buffer0 := setSeq (buffer0 b) (s AND MASK0 b) s\<rparr>"

definition put0 :: "MemRingBuffer0 \<Rightarrow> bytes \<Rightarrow> nat \<Rightarrow> MemRingBuffer0 outcome" where
  "put0 b item sizeHint =
     (let s = toBeClaimedSeq0 b; b1 = b\<lparr>toBeClaimedSeq0 := s + 1\<rparr> in
      if s \<ge> CAPACITY0 b1 + readSeq0 b1 \<or> \<not> readyToWriteOver b1 s then Spins
      else obind (writeItem0 b1 s item sizeHint) (\<lambda>b2. Ret (publish0 b2 s)))"

definition tryPut0 :: "MemRingBuffer0 \<Rightarrow> bytes \<Rightarrow> nat \<Rightarrow> (bool \<times> MemRingBuffer0) outcome" where
  "tryPut0 b item sizeHint =
     (let s = toBeClaimedSeq0 b in
      if s < CAPACITY0 b + readSeq0 b \<and> readyToWriteOver b s
      then obind (writeItem0 (b\<lparr>toBeClaimedSeq0 := s + 1\<rparr>) s item sizeHint)
             (\<lambda>b2. Ret (True, publish0 b2 s))
      else Ret (False, b))"

definition isFull0 :: "MemRingBuffer0 \<Rightarrow> bool" where
  "isFull0 b \<longleftrightarrow> toBeClaimedSeq0 b \<ge> CAPACITY0 b + readSeq0 b"

definition claim0 :: "MemRingBuffer0 \<Rightarrow> (lf_iterator \<times> MemRingBuffer0) outcome" where
  "claim0 b = (let s = toBeClaimedSeq0 b; b1 = b\<lparr>toBeClaimedSeq0 := s + 1\<rparr> in
     if s \<ge> CAPACITY0 b1 + readSeq0 b1 \<or> \<not> readyToWriteOver b1 s then Spins
     else Ret (iteratorAt s, b1))"

definition tryClaim0 :: "MemRingBuffer0 \<Rightarrow> lf_iterator \<times> MemRingBuffer0" where
  "tryClaim0 b = (let s = toBeClaimedSeq0 b in
     if s < CAPACITY0 b + readSeq0 b \<and> readyToWriteOver b s
     then (iteratorAt s, b\<lparr>toBeClaimedSeq0 := s + 1\<rparr>) else (nullIterator, b))"

definition tryClaimN0 :: "MemRingBuffer0 \<Rightarrow> u64 \<Rightarrow> lf_iterator \<times> MemRingBuffer0" where
  "tryClaimN0 b n = (let s = toBeClaimedSeq0 b in
     if s + n - 1 < CAPACITY0 b + readSeq0 b \<and> readyToWriteOverN b s (unat n)
     then (iteratorAt s, b\<lparr>toBeClaimedSeq0 := s + n\<rparr>) else (nullIterator, b))"

text \<open>\<^verbatim>\<open>claim(n)\<close> waits for room and then for each of the \<open>n\<close> slots in turn.\<close>

definition claimN0 :: "MemRingBuffer0 \<Rightarrow> u64 \<Rightarrow> (lf_iterator \<times> MemRingBuffer0) outcome" where
  "claimN0 b n = (let s = toBeClaimedSeq0 b; b1 = b\<lparr>toBeClaimedSeq0 := s + n\<rparr> in
     if s + n > CAPACITY0 b1 + readSeq0 b1 \<or>
        (\<exists>i \<in> set [0..<unat n]. \<not> readyToWriteOver b1 (s + of_nat i)) then Spins
     else Ret (iteratorAt s, b1))"

definition commit0 :: "MemRingBuffer0 \<Rightarrow> lf_iterator \<Rightarrow> MemRingBuffer0" where
  "commit0 b it =
     b\<lparr>buffer0 := setSeq (buffer0 b) (chunkMinus (iterDeref (buffer0 b) it) (buffer0 b)) (seq it)\<rparr>"

fun commitN0 :: "MemRingBuffer0 \<Rightarrow> lf_iterator \<Rightarrow> nat \<Rightarrow> MemRingBuffer0" where
  "commitN0 b from 0 = b"
| "commitN0 b from (Suc n) = commitN0 (commit0 b from) (iterInc from) n"

section \<open>Consumers\<close>

definition readItem0 :: "MemRingBuffer0 \<Rightarrow> u64 \<Rightarrow> nat \<Rightarrow> bytes outcome" where
  "readItem0 b s sizeHint =
     (let n = hintSize0 b sizeHint in
      if n \<le> VALUE_TYPE_SIZE0 b then Ret (copyOut (buffer0 b) (s AND MASK0 b) n) else Undefined)"

definition take0 :: "MemRingBuffer0 \<Rightarrow> nat \<Rightarrow> (bytes \<times> MemRingBuffer0) outcome" where
  "take0 b sizeHint =
     (let s = readSeq0 b in
      if s \<noteq> seqAt b s then Spins
      else obind (readItem0 b s sizeHint)
             (\<lambda>item. Ret (item, markAsToWriteOver (b\<lparr>readSeq0 := s + 1\<rparr>) s)))"

definition tryTake0 :: "MemRingBuffer0 \<Rightarrow> nat \<Rightarrow> (bytes option \<times> MemRingBuffer0) outcome" where
  "tryTake0 b sizeHint =
     (let s = readSeq0 b in
      if s \<noteq> seqAt b s then Ret (None, b)
      else obind (readItem0 b s sizeHint)
             (\<lambda>item. Ret (Some item, markAsToWriteOver (b\<lparr>readSeq0 := s + 1\<rparr>) s)))"

definition peekOne0 :: "MemRingBuffer0 \<Rightarrow> lf_iterator \<times> MemRingBuffer0" where
  "peekOne0 b = (let s = readSeq0 b in
     if s = seqAt b s then (iteratorAt s, b\<lparr>readSeq0 := s + 1\<rparr>) else (nullIterator, b))"

fun peekLoop0 :: "MemRingBuffer0 \<Rightarrow> u64 \<Rightarrow> nat \<Rightarrow> u64" where
  "peekLoop0 b s count =
     (if count \<noteq> 0 \<and> s = seqAt b s then peekLoop0 b (s + 1) (count - 1) else s)"

declare peekLoop0.simps [simp del]

definition peek0 :: "MemRingBuffer0 \<Rightarrow> u64 \<Rightarrow> (lf_iterator \<times> lf_iterator \<times> u64) \<times> MemRingBuffer0" where
  "peek0 b maxPeekSize =
     (let s = readSeq0 b; e = peekLoop0 b s (unat maxPeekSize)
      in ((iteratorAt s, iteratorAt e, iterMinus (iteratorAt e) (iteratorAt s)), b\<lparr>readSeq0 := e\<rparr>))"

fun peekSomeLoop0 ::
    "nat \<Rightarrow> MemRingBuffer0 \<Rightarrow> u64 \<Rightarrow> (lf_iterator \<times> lf_iterator \<times> u64) \<times> MemRingBuffer0" where
  "peekSomeLoop0 fuel b m =
     (case peek0 b m of ((p, e, res), b') \<Rightarrow>
        if res = 0 \<and> fuel \<noteq> 0 then peekSomeLoop0 (fuel - 1) b' m else ((p, e, res), b'))"

definition peekSome0 ::
    "MemRingBuffer0 \<Rightarrow> u64 \<Rightarrow> (lf_iterator \<times> lf_iterator \<times> u64) \<times> MemRingBuffer0" where
  "peekSome0 = peekSomeLoop0 64"

text \<open>
  \<^verbatim>\<open>peekAll\<close> waits until everything claimed is published. Its inner loop moves past every
  published slot; it visits a slot at most once, so \<^verbatim>\<open>CAPACITY\<close> rounds bound it. Alone the
  outer loop waits for ever if that stops before the last claimed slot.
\<close>

definition allPublished :: "MemRingBuffer0 \<Rightarrow> u64 \<Rightarrow> u64 option" where
  "allPublished b s =
     (let e = if s < toBeClaimedSeq0 b then peekLoop0 b s (unat (CAPACITY0 b)) else s
      in if e < toBeClaimedSeq0 b then None else Some e)"

definition peekAll0 :: "MemRingBuffer0 \<Rightarrow> ((lf_iterator \<times> lf_iterator \<times> u64) \<times> MemRingBuffer0) outcome" where
  "peekAll0 b =
     (let s = readSeq0 b in
      case allPublished b s of None \<Rightarrow> Spins
      | Some e \<Rightarrow> Ret ((iteratorAt s, iteratorAt e, iterMinus (iteratorAt e) (iteratorAt s)),
                      b\<lparr>readSeq0 := e\<rparr>))"

fun markRange :: "MemRingBuffer0 \<Rightarrow> u64 \<Rightarrow> nat \<Rightarrow> MemRingBuffer0" where
  "markRange b s 0 = b"
| "markRange b s (Suc n) = markRange (markAsToWriteOver b s) (s + 1) n"

definition wasteAfterPeek0 :: "MemRingBuffer0 \<Rightarrow> lf_iterator \<Rightarrow> u64 \<Rightarrow> bool \<Rightarrow> MemRingBuffer0" where
  "wasteAfterPeek0 b begin sz incomplete =
     (if sz = 0 \<and> \<not> incomplete then b
      else let b1 = markRange b (seq begin) (unat sz)
           in if incomplete then b1\<lparr>readSeq0 := seq begin + sz\<rparr> else b1)"

definition remainingSize0 :: "MemRingBuffer0 \<Rightarrow> u64" where
  "remainingSize0 b =
     (if toBeClaimedSeq0 b > readSeq0 b then toBeClaimedSeq0 b - readSeq0 b else 0)"

definition reset0 :: "MemRingBuffer0 \<Rightarrow> MemRingBuffer0" where
  "reset0 b = b\<lparr>buffer0 := (buffer0 b)\<lparr>space := map (\<lambda>s. s\<lparr>slotSeq := - 1\<rparr>) (space (buffer0 b))\<rparr>,
                readSeq0 := toBeClaimedSeq0 b\<rparr>"

end
