(* ===== verification/Fifo.thy ===== *)
theory Fifo
  imports Prelude
begin

text \<open>
  The contract the buffers share: a bounded first-in first-out queue with operations that try
  and report. Clients use only the laws of \<open>fifo\<close>; each buffer of the program is an
  interpretation.
\<close>

datatype 'a queueOp = Enq 'a | Deq

text \<open>A client's sequence of operations: what was accepted, what came out, the final state.\<close>

fun runQueue :: "('s \<Rightarrow> 'a \<Rightarrow> (bool \<times> 's) outcome) \<Rightarrow> ('s \<Rightarrow> ('a option \<times> 's) outcome)
    \<Rightarrow> 's \<Rightarrow> 'a queueOp list \<Rightarrow> ('a list \<times> 'a list \<times> 's) outcome" where
  "runQueue enq deq s [] = Ret ([], [], s)"
| "runQueue enq deq s (Enq x # ops) = obind (enq s x) (\<lambda>(ok, s').
     obind (runQueue enq deq s' ops) (\<lambda>(acc, outs, t).
       Ret (if ok then x # acc else acc, outs, t)))"
| "runQueue enq deq s (Deq # ops) = obind (deq s) (\<lambda>(y, s').
     obind (runQueue enq deq s' ops) (\<lambda>(acc, outs, t).
       Ret (acc, (case y of None \<Rightarrow> outs | Some z \<Rightarrow> z # outs), t)))"

fun inputs :: "'a queueOp list \<Rightarrow> 'a list" where
  "inputs [] = []"
| "inputs (Enq x # ops) = x # inputs ops"
| "inputs (Deq # ops) = inputs ops"

text \<open>
  \<open>ok\<close> is the buffer's invariant, \<open>items\<close> what it holds, oldest first; \<open>used\<close> counts the
  operations done, up to \<open>limit\<close>, since sequence numbers are finite.
\<close>

locale fifo =
  fixes ok :: "'s \<Rightarrow> bool" and items :: "'s \<Rightarrow> 'a list" and used :: "'s \<Rightarrow> nat"
    and limit :: nat and cap :: nat and valid :: "'a \<Rightarrow> bool"
    and enq :: "'s \<Rightarrow> 'a \<Rightarrow> (bool \<times> 's) outcome"
    and deq :: "'s \<Rightarrow> ('a option \<times> 's) outcome"
  assumes enq_law: "ok s \<Longrightarrow> valid x \<Longrightarrow> used s < limit \<Longrightarrow>
      \<exists>s'. enq s x = Ret (length (items s) < cap, s') \<and> ok s' \<and> used s' \<le> Suc (used s) \<and>
        items s' = (if length (items s) < cap then items s @ [x] else items s)"
    and deq_law: "ok s \<Longrightarrow> used s < limit \<Longrightarrow>
      \<exists>s'. deq s = Ret (case items s of [] \<Rightarrow> None | y # _ \<Rightarrow> Some y, s') \<and> ok s' \<and>
        used s' \<le> Suc (used s) \<and> items s' = tl (items s)"
    and cap_law: "ok s \<Longrightarrow> length (items s) \<le> cap"
begin

text \<open>Nothing is lost, duplicated or reordered by any sequence of operations.\<close>

lemma run_fifo:
  assumes "ok s" "\<forall>x \<in> set (inputs ops). valid x" "used s + length ops \<le> limit"
  shows "\<exists>acc outs t. runQueue enq deq s ops = Ret (acc, outs, t) \<and> ok t \<and>
     items s @ acc = outs @ items t \<and> length (items t) \<le> cap"
  using assms
proof (induction ops arbitrary: s)
  case Nil
  then show ?case using cap_law by simp
next
  case (Cons a ops)
  show ?case
  proof (cases a)
    case (Enq x)
    obtain s' where s': "enq s x = Ret (length (items s) < cap, s')" "ok s'" "used s' \<le> Suc (used s)"
      "items s' = (if length (items s) < cap then items s @ [x] else items s)"
      using enq_law [OF Cons.prems(1), of x] Cons.prems Enq by auto
    obtain acc outs t where "runQueue enq deq s' ops = Ret (acc, outs, t)" "ok t"
      "items s' @ acc = outs @ items t" "length (items t) \<le> cap"
      using Cons.IH [OF s'(2)] Cons.prems Enq s'(3) by auto
    with s' Enq show ?thesis by auto
  next
    case Deq
    obtain s' where s': "deq s = Ret (case items s of [] \<Rightarrow> None | y # _ \<Rightarrow> Some y, s')" "ok s'"
      "used s' \<le> Suc (used s)" "items s' = tl (items s)"
      using deq_law [OF Cons.prems(1)] Cons.prems by auto
    obtain acc outs t where "runQueue enq deq s' ops = Ret (acc, outs, t)" "ok t"
      "items s' @ acc = outs @ items t" "length (items t) \<le> cap"
      using Cons.IH [OF s'(2)] Cons.prems Deq s'(3) by auto
    with s' Deq show ?thesis by (cases "items s") auto
  qed
qed

text \<open>A queue with room accepts; an accepted message comes out after exactly those before it.\<close>

lemma enq_accepts:
  assumes "ok s" "valid x" "used s < limit" "length (items s) < cap"
  shows "\<exists>s'. enq s x = Ret (True, s') \<and> ok s' \<and> items s' = items s @ [x]"
  using enq_law [OF assms(1-3)] assms(4) by auto

end

end
