(* ===== verification/MemRingBuffer0Spec.thy ===== *)
theory MemRingBuffer0Spec
  imports MemRingBuffer0 Fifo RingOperations
begin

text \<open>
  What \<^verbatim>\<open>MemRingBuffer<0>\<close> promises. \<open>queue_inv r P Q b\<close>: \<open>P\<close> are the sequence numbers
  claimed and not committed, \<open>Q\<close> those peeked and not yet wasted. Every slot is either free
  or holds one published number whose value is still wanted.
\<close>

section \<open>The invariant\<close>

definition claimed0 :: "MemRingBuffer0 \<Rightarrow> nat" where
  "claimed0 b = unat (toBeClaimedSeq0 b)"

definition read0 :: "MemRingBuffer0 \<Rightarrow> nat" where
  "read0 b = unat (readSeq0 b)"

definition slot0 :: "MemRingBuffer0 \<Rightarrow> nat \<Rightarrow> slot" where
  "slot0 b n = slotOf (buffer0 b) n"

text \<open>Sequence numbers stay below this bound; at a billion messages a second it takes centuries.\<close>

definition limit0 :: nat where
  "limit0 = 2 ^ 63"

definition queue_shape :: "nat \<Rightarrow> MemRingBuffer0 \<Rightarrow> bool" where
  "queue_shape r b \<longleftrightarrow>
     chunk_wf (buffer0 b) r \<and> CAPACITY0 b = 2 ^ r \<and> MASK0 b = chunkMASK (buffer0 b) \<and>
     VALUE_TYPE_SIZE0 b + seqBytes = 2 ^ valueTypeSizePower2Num (buffer0 b)"

definition wanted :: "nat set \<Rightarrow> nat set \<Rightarrow> MemRingBuffer0 \<Rightarrow> nat set" where
  "wanted P Q b = Q \<union> ({read0 b ..< claimed0 b} - P)"

definition queue_inv :: "nat \<Rightarrow> nat set \<Rightarrow> nat set \<Rightarrow> MemRingBuffer0 \<Rightarrow> bool" where
  "queue_inv r P Q b \<longleftrightarrow>
     queue_shape r b \<and> claimed0 b \<le> limit0 \<and> read0 b \<le> claimed0 b \<and> claimed0 b \<le> read0 b + 2 ^ r \<and>
     P \<subseteq> {read0 b ..< claimed0 b} \<and> (\<forall>m \<in> Q. m < read0 b \<and> claimed0 b \<le> m + 2 ^ r) \<and>
     (\<forall>m \<in> wanted P Q b. slotSeq (slot0 b m) = of_nat m) \<and>
     (\<forall>n. slotSeq (slot0 b n) = - 1 \<or>
        (\<exists>m \<in> wanted P Q b. slotSeq (slot0 b n) = of_nat m \<and> m mod 2 ^ r = n mod 2 ^ r))"

lemma queue_invD:
  assumes "queue_inv r P Q b"
  shows "queue_shape r b" "claimed0 b \<le> limit0" "read0 b \<le> claimed0 b" "claimed0 b \<le> read0 b + 2 ^ r"
    "m \<in> P \<Longrightarrow> read0 b \<le> m \<and> m < claimed0 b" "m \<in> Q \<Longrightarrow> m < read0 b" "m \<in> Q \<Longrightarrow> claimed0 b \<le> m + 2 ^ r"
    "m \<in> wanted P Q b \<Longrightarrow> slotSeq (slot0 b m) = of_nat m"
    "slotSeq (slot0 b n) = - 1 \<or>
       (\<exists>m \<in> wanted P Q b. slotSeq (slot0 b n) = of_nat m \<and> m mod 2 ^ r = n mod 2 ^ r)"
  using assms unfolding queue_inv_def by auto

lemma queue_shapeD:
  assumes "queue_shape r b"
  shows "chunk_wf (buffer0 b) r" "unat (CAPACITY0 b) = 2 ^ r" "(2::nat) ^ r \<le> 2 ^ 32"
    "MASK0 b = chunkMASK (buffer0 b)" "r < 64"
    "VALUE_TYPE_SIZE0 b + seqBytes = 2 ^ valueTypeSizePower2Num (buffer0 b)"
proof -
  have r: "r \<le> 32" using assms by (simp add: queue_shape_def chunk_wf_def)
  then show "unat (CAPACITY0 b) = 2 ^ r" using assms unat_pow2 [of r] by (simp add: queue_shape_def)
  show "(2::nat) ^ r \<le> 2 ^ 32" using r power_increasing [of r 32 "2::nat"] by simp
  show "r < 64" using r by simp
qed (use assms in \<open>simp_all add: queue_shape_def\<close>)

lemma wanted_bounds:
  assumes "queue_inv r P Q b" "m \<in> wanted P Q b"
  shows "m < claimed0 b" "claimed0 b \<le> m + 2 ^ r" "m < 2 ^ 63"
proof -
  note D = queue_invD [OF assms(1)]
  show m: "m < claimed0 b" using assms(2) D(3,6) by (auto simp: wanted_def dest: less_le_trans)
  then show "m < 2 ^ 63" using D(2) by (simp add: limit0_def)
  show "claimed0 b \<le> m + 2 ^ r" using assms(2) D(4,7) by (auto simp: wanted_def)
qed

lemma wanted_mod_inj:
  assumes "queue_inv r P Q b" "m \<in> wanted P Q b" "n \<in> wanted P Q b" "m mod 2 ^ r = n mod 2 ^ r"
  shows "m = n"
proof -
  have "claimed0 b - 2 ^ r \<le> m" "claimed0 b - 2 ^ r \<le> n"
    using wanted_bounds(2) [OF assms(1)] assms(2,3) by (simp_all add: le_diff_conv)
  moreover have "m < claimed0 b - 2 ^ r + 2 ^ r" "n < claimed0 b - 2 ^ r + 2 ^ r"
    using wanted_bounds(1) [OF assms(1,2)] wanted_bounds(1) [OF assms(1,3)] by linarith+
  ultimately show ?thesis using window_mod_inj assms(4) by blast
qed

text \<open>What a test of a slot's sequence number finds out.\<close>

lemma slotSeq_small:
  assumes "queue_inv r P Q b" "n < 2 ^ 63"
  shows "slotSeq (slot0 b n) = of_nat n \<longleftrightarrow> n \<in> wanted P Q b"
    "slotSeq (slot0 b n) = - 1 \<longleftrightarrow> (\<forall>m \<in> wanted P Q b. m mod 2 ^ r \<noteq> n mod 2 ^ r)"
proof -
  note D = queue_invD [OF assms(1)]
  have u: "unat (of_nat k :: u64) = k" if "k < 2 ^ 63" for k :: nat
    using that by (simp add: unsigned_of_nat take_bit_nat_eq_self)
  have inj: "(of_nat k :: u64) = of_nat m \<Longrightarrow> k = m" if "k < 2 ^ 63" "m < 2 ^ 63" for k m :: nat
    using u that by metis
  have m1: "(of_nat k :: u64) \<noteq> - 1" if "k < 2 ^ 63" for k :: nat
  proof
    assume "(of_nat k :: u64) = - 1"
    then have "unat (of_nat k :: u64) = unat (- 1 :: u64)" by simp
    then show False using u [OF that] that by (simp add: unsigned_minus_1_eq_mask mask_eq_exp_minus_1)
  qed
  show "slotSeq (slot0 b n) = of_nat n \<longleftrightarrow> n \<in> wanted P Q b"
    using D(8,9) [of n] m1 [OF assms(2)] inj [OF assms(2) wanted_bounds(3) [OF assms(1)]] by metis
  have "slot0 b m = slot0 b n" if "m mod 2 ^ r = n mod 2 ^ r" for m
    using that queue_shapeD(1) [OF D(1)] by (simp add: slot0_def slotOf_def chunk_wf_def)
  then show "slotSeq (slot0 b n) = - 1 \<longleftrightarrow> (\<forall>m \<in> wanted P Q b. m mod 2 ^ r \<noteq> n mod 2 ^ r)"
    using D(8,9) [of n] D(8) m1 wanted_bounds(3) [OF assms(1)] by metis
qed

lemma seqAt_eq:
  assumes "queue_shape r b"
  shows "seqAt b s = slotSeq (slot0 b (unat s))"
  by (simp add: seqAt_def slot0_def queue_shapeD(4) [OF assms]
      chunk_mask_slots(1) [OF queue_shapeD(1) [OF assms]])

text \<open>The wait for a free slot is a wait for the message a whole ring before.\<close>

lemma readyToWriteOver_iff:
  assumes "queue_inv r P Q b" "claimed0 b < limit0"
  shows "readyToWriteOver b (toBeClaimedSeq0 b) \<longleftrightarrow> (\<forall>m \<in> wanted P Q b. claimed0 b \<noteq> m + 2 ^ r)"
proof -
  have c: "claimed0 b < 2 ^ 63" using assms(2) by (simp add: limit0_def)
  have "readyToWriteOver b (toBeClaimedSeq0 b) \<longleftrightarrow> slotSeq (slot0 b (claimed0 b)) = - 1"
    by (simp add: readyToWriteOver_def seqAt_eq [OF queue_invD(1) [OF assms(1)]] claimed0_def)
  also have "\<dots> \<longleftrightarrow> (\<forall>m \<in> wanted P Q b. m mod 2 ^ r \<noteq> claimed0 b mod 2 ^ r)"
    by (rule slotSeq_small(2) [OF assms(1) c])
  also have "\<dots> \<longleftrightarrow> (\<forall>m \<in> wanted P Q b. claimed0 b \<noteq> m + 2 ^ r)"
  proof -
    have "m mod 2 ^ r = claimed0 b mod 2 ^ r \<longleftrightarrow> claimed0 b = m + 2 ^ r" if "m \<in> wanted P Q b" for m
    proof
      assume e: "m mod 2 ^ r = claimed0 b mod 2 ^ r"
      then have "(m + 2 ^ r) mod 2 ^ r = claimed0 b mod 2 ^ r" by simp
      with wanted_bounds [OF assms(1) that] show "claimed0 b = m + 2 ^ r"
        using window_mod_inj [of "claimed0 b" "claimed0 b" "2 ^ r" "m + 2 ^ r"] by simp
    qed simp
    then show ?thesis by blast
  qed
  finally show ?thesis .
qed

section \<open>What each step does to the invariant\<close>

lemma queue_views [simp]:
  "queue_shape r (b\<lparr>toBeClaimedSeq0 := x\<rparr>) = queue_shape r b"
  "queue_shape r (b\<lparr>readSeq0 := x\<rparr>) = queue_shape r b"
  "slot0 (b\<lparr>toBeClaimedSeq0 := x\<rparr>) n = slot0 b n" "slot0 (b\<lparr>readSeq0 := x\<rparr>) n = slot0 b n"
  "claimed0 (b\<lparr>toBeClaimedSeq0 := x\<rparr>) = unat x" "claimed0 (b\<lparr>readSeq0 := x\<rparr>) = claimed0 b"
  "read0 (b\<lparr>toBeClaimedSeq0 := x\<rparr>) = read0 b" "read0 (b\<lparr>readSeq0 := x\<rparr>) = unat x"
  "claimed0 (b\<lparr>buffer0 := c\<rparr>) = claimed0 b" "read0 (b\<lparr>buffer0 := c\<rparr>) = read0 b"
  by (simp_all add: queue_shape_def slot0_def claimed0_def read0_def)

lemma queue_shape_setSeq:
  assumes "queue_shape r b"
  shows "queue_shape r (b\<lparr>buffer0 := setSeq (buffer0 b) (s AND MASK0 b) x\<rparr>)"
    "slot0 (b\<lparr>buffer0 := setSeq (buffer0 b) (s AND MASK0 b) x\<rparr>) n =
      (if n mod 2 ^ r = unat s mod 2 ^ r then (slot0 b n)\<lparr>slotSeq := x\<rparr> else slot0 b n)"
  using assms queue_shapeD(1) [OF assms]
  by (auto simp: queue_shape_def slot0_def chunk_wf_setSeq slotOf_setSeq)

lemma queue_shape_copyIn:
  assumes "queue_shape r b" "k \<le> length item" "k \<le> VALUE_TYPE_SIZE0 b"
  shows "queue_shape r (b\<lparr>buffer0 := copyIn (buffer0 b) (s AND MASK0 b) item k\<rparr>)"
    "slot0 (b\<lparr>buffer0 := copyIn (buffer0 b) (s AND MASK0 b) item k\<rparr>) n =
      (if n mod 2 ^ r = unat s mod 2 ^ r
       then (slot0 b n)\<lparr>slotData := memcpy (slotData (slot0 b n)) item k\<rparr> else slot0 b n)"
proof -
  note sh = queue_shapeD [OF assms(1)]
  have "k + seqBytes \<le> 2 ^ valueTypeSizePower2Num (buffer0 b)" using assms(3) sh(6) by linarith
  then show "queue_shape r (b\<lparr>buffer0 := copyIn (buffer0 b) (s AND MASK0 b) item k\<rparr>)"
    using assms sh by (auto simp: queue_shape_def intro: chunk_wf_copyIn)
  show "slot0 (b\<lparr>buffer0 := copyIn (buffer0 b) (s AND MASK0 b) item k\<rparr>) n =
      (if n mod 2 ^ r = unat s mod 2 ^ r
       then (slot0 b n)\<lparr>slotData := memcpy (slotData (slot0 b n)) item k\<rparr> else slot0 b n)"
    using sh by (simp add: slot0_def slotOf_copyIn)
qed

lemma queue_invI:
  assumes "queue_shape r b" "claimed0 b \<le> limit0" "read0 b \<le> claimed0 b" "claimed0 b \<le> read0 b + 2 ^ r"
    and "\<And>m. m \<in> P \<Longrightarrow> read0 b \<le> m \<and> m < claimed0 b"
    and "\<And>m. m \<in> Q \<Longrightarrow> m < read0 b \<and> claimed0 b \<le> m + 2 ^ r"
    and "\<And>m. m \<in> wanted P Q b \<Longrightarrow> slotSeq (slot0 b m) = of_nat m"
    and "\<And>n. slotSeq (slot0 b n) = - 1 \<or>
       (\<exists>m \<in> wanted P Q b. slotSeq (slot0 b n) = of_nat m \<and> m mod 2 ^ r = n mod 2 ^ r)"
  shows "queue_inv r P Q b"
  using assms unfolding queue_inv_def by auto

text \<open>Claiming the next number: it is pending, and its slot is free.\<close>

lemma queue_inv_claim:
  assumes "queue_inv r P Q b" "claimed0 b < limit0" "claimed0 b < read0 b + 2 ^ r"
    "readyToWriteOver b (toBeClaimedSeq0 b)"
  shows "queue_inv r (insert (claimed0 b) P) Q (b\<lparr>toBeClaimedSeq0 := toBeClaimedSeq0 b + 1\<rparr>)"
    "unat (toBeClaimedSeq0 b + 1) = Suc (claimed0 b)"
proof -
  note D = queue_invD [OF assms(1)]
  let ?b = "b\<lparr>toBeClaimedSeq0 := toBeClaimedSeq0 b + 1\<rparr>"
  show c: "unat (toBeClaimedSeq0 b + 1) = Suc (claimed0 b)"
    using assms(2) by (simp add: claimed0_def limit0_def unat_inc)
  have w: "wanted (insert (claimed0 b) P) Q ?b = wanted P Q b"
    by (auto simp: wanted_def c less_Suc_eq)
  have "m \<in> wanted P Q b \<Longrightarrow> claimed0 b \<noteq> m + 2 ^ r" for m
    using assms(4) readyToWriteOver_iff [OF assms(1,2)] by blast
  then have q: "m < read0 b \<and> Suc (claimed0 b) \<le> m + 2 ^ r" if "m \<in> Q" for m
    using D(6,7) [OF that] that by (simp add: wanted_def Suc_le_eq order.not_eq_order_implies_strict)
  show "queue_inv r (insert (claimed0 b) P) Q ?b"
  proof (rule queue_invI)
    show "m \<in> wanted (insert (claimed0 b) P) Q ?b \<Longrightarrow> slotSeq (slot0 ?b m) = of_nat m" for m
      using D(8) by (simp add: w)
    show "slotSeq (slot0 ?b n) = - 1 \<or> (\<exists>m \<in> wanted (insert (claimed0 b) P) Q ?b.
        slotSeq (slot0 ?b n) = of_nat m \<and> m mod 2 ^ r = n mod 2 ^ r)" for n
      using D(9) by (simp add: w)
    show "m \<in> insert (claimed0 b) P \<Longrightarrow> read0 ?b \<le> m \<and> m < claimed0 ?b" for m
      using D(3) D(5) [of m] by (auto simp: c)
  qed (use D assms(2,3) q in \<open>auto simp: c\<close>)
qed

text \<open>The slot of a pending number holds nothing that is still wanted.\<close>

lemma pending_apart:
  assumes "queue_inv r P Q b" "s \<in> P" "m \<in> wanted P Q b"
  shows "m mod 2 ^ r \<noteq> s mod 2 ^ r"
proof
  assume e: "m mod 2 ^ r = s mod 2 ^ r"
  note D = queue_invD [OF assms(1)]
  have s: "s < claimed0 b" "read0 b \<le> s" using D(5) assms(2) by auto
  have "m \<noteq> s" using assms(2,3) D(5,6) by (auto simp: wanted_def dest: leD)
  moreover have "m = s"
  proof (cases "m < s")
    case True
    then show ?thesis
      using window_mod_inj [of m m "2 ^ r" s] wanted_bounds(2) [OF assms(1,3)] s e by simp
  next
    case False
    moreover have "m < s + 2 ^ r" using wanted_bounds(1) [OF assms(1,3)] s D(4) by linarith
    ultimately show ?thesis using window_mod_inj [of s s "2 ^ r" m] e by simp
  qed
  ultimately show False by simp
qed

lemma queue_inv_write:
  assumes "queue_inv r P Q b" "unat s \<in> P" "k \<le> length item" "k \<le> VALUE_TYPE_SIZE0 b"
  defines "b' \<equiv> b\<lparr>buffer0 := copyIn (buffer0 b) (s AND MASK0 b) item k\<rparr>"
  shows "queue_inv r P Q b'" "m \<in> wanted P Q b \<Longrightarrow> slot0 b' m = slot0 b m"
    "wanted P Q b' = wanted P Q b"
    "slotData (slot0 b' (unat s)) = memcpy (slotData (slot0 b (unat s))) item k"
proof -
  note D = queue_invD [OF assms(1)]
  note C = queue_shape_copyIn [OF D(1) assms(3,4), of s, folded b'_def]
  have seq: "slotSeq (slot0 b' n) = slotSeq (slot0 b n)" for n by (simp add: C)
  show w: "wanted P Q b' = wanted P Q b" by (simp add: wanted_def b'_def)
  show "queue_inv r P Q b'"
    by (rule queue_invI) (use C(1) D in \<open>simp_all add: seq w\<close>, simp_all add: b'_def D)
  show "slot0 b' m = slot0 b m" if "m \<in> wanted P Q b"
    using pending_apart [OF assms(1,2) that] by (simp add: C)
  show "slotData (slot0 b' (unat s)) = memcpy (slotData (slot0 b (unat s))) item k" by (simp add: C)
qed

text \<open>Publishing it.\<close>

lemma queue_inv_publish:
  assumes "queue_inv r P Q b" "unat s \<in> P"
  shows "queue_inv r (P - {unat s}) Q (publish0 b s)"
    "slotData (slot0 (publish0 b s) n) = slotData (slot0 b n)"
    "claimed0 (publish0 b s) = claimed0 b" "read0 (publish0 b s) = read0 b"
proof -
  note D = queue_invD [OF assms(1)]
  note S = queue_shape_setSeq [OF D(1), of s s, folded publish0_def]
  show d: "slotData (slot0 (publish0 b s) n) = slotData (slot0 b n)" for n by (simp add: S)
  show cr: "claimed0 (publish0 b s) = claimed0 b" "read0 (publish0 b s) = read0 b"
    by (simp_all add: publish0_def)
  have w: "wanted (P - {unat s}) Q (publish0 b s) = insert (unat s) (wanted P Q b)"
    using D(5) [OF assms(2)] by (auto simp: wanted_def cr)
  show "queue_inv r (P - {unat s}) Q (publish0 b s)"
  proof (rule queue_invI)
    show "slotSeq (slot0 (publish0 b s) m) = of_nat m" if "m \<in> wanted (P - {unat s}) Q (publish0 b s)" for m
      using that pending_apart [OF assms] D(8) [of m] by (auto simp: w S)
    show "slotSeq (slot0 (publish0 b s) n) = - 1 \<or>
      (\<exists>m \<in> wanted (P - {unat s}) Q (publish0 b s).
         slotSeq (slot0 (publish0 b s) n) = of_nat m \<and> m mod 2 ^ r = n mod 2 ^ r)" for n
      using D(9) [of n] by (auto simp: w S)
  qed (use D S(1) in \<open>auto simp: cr\<close>)
qed

text \<open>Reading on: the next \<open>k\<close> messages, all committed, are handed out.\<close>

lemma queue_inv_read:
  assumes "queue_inv r P Q b" "unat e = read0 b + k" "read0 b + k \<le> claimed0 b"
    "P \<inter> {read0 b ..< read0 b + k} = {}"
  shows "queue_inv r P (Q \<union> {read0 b ..< read0 b + k}) (b\<lparr>readSeq0 := e\<rparr>)"
proof -
  note D = queue_invD [OF assms(1)]
  have w: "wanted P (Q \<union> {read0 b ..< read0 b + k}) (b\<lparr>readSeq0 := e\<rparr>) = wanted P Q b"
    using assms(3,4) by (auto simp: wanted_def assms(2))
  have "read0 b + k \<le> m \<and> m < claimed0 b" if "m \<in> P" for m
    using that assms(4) D(5) [OF that] by auto
  moreover have "m < read0 b + k \<and> claimed0 b \<le> m + 2 ^ r" if "m \<in> Q \<union> {read0 b ..< read0 b + k}" for m
    using that D(4) D(6,7) [of m] by auto
  ultimately show ?thesis
    by (intro queue_invI) (use D assms(3) in \<open>auto simp: w assms(2)\<close>)
qed

text \<open>Wasting a message handed out.\<close>

lemma queue_inv_waste:
  assumes "queue_inv r P Q b" "unat s \<in> Q"
  shows "queue_inv r P (Q - {unat s}) (markAsToWriteOver b s)"
    "m \<in> wanted P Q b \<Longrightarrow> m \<noteq> unat s \<Longrightarrow> slot0 (markAsToWriteOver b s) m = slot0 b m"
    "claimed0 (markAsToWriteOver b s) = claimed0 b" "read0 (markAsToWriteOver b s) = read0 b"
proof -
  note D = queue_invD [OF assms(1)]
  note S = queue_shape_setSeq [OF D(1), of s "- 1", folded markAsToWriteOver_def]
  show cr: "claimed0 (markAsToWriteOver b s) = claimed0 b" "read0 (markAsToWriteOver b s) = read0 b"
    by (simp_all add: markAsToWriteOver_def)
  have sw: "unat s \<in> wanted P Q b" using assms(2) by (simp add: wanted_def)
  have w: "wanted P (Q - {unat s}) (markAsToWriteOver b s) = wanted P Q b - {unat s}"
    using D(6) [OF assms(2)] by (auto simp: wanted_def cr)
  have apart: "m mod 2 ^ r \<noteq> unat s mod 2 ^ r" if "m \<in> wanted P Q b" "m \<noteq> unat s" for m
    using wanted_mod_inj [OF assms(1) that(1) sw] that(2) by blast
  show "slot0 (markAsToWriteOver b s) m = slot0 b m" if "m \<in> wanted P Q b" "m \<noteq> unat s"
    using apart [OF that] by (simp add: S)
  show "queue_inv r P (Q - {unat s}) (markAsToWriteOver b s)"
  proof (rule queue_invI)
    show "slotSeq (slot0 (markAsToWriteOver b s) m) = of_nat m"
      if "m \<in> wanted P (Q - {unat s}) (markAsToWriteOver b s)" for m
      using that apart D(8) [of m] by (auto simp: w S)
    show "slotSeq (slot0 (markAsToWriteOver b s) n) = - 1 \<or>
      (\<exists>m \<in> wanted P (Q - {unat s}) (markAsToWriteOver b s).
         slotSeq (slot0 (markAsToWriteOver b s) n) = of_nat m \<and> m mod 2 ^ r = n mod 2 ^ r)" for n
      using D(9) [of n] by (auto simp: w S)
  qed (use D S(1) in \<open>auto simp: cr\<close>)
qed

end
