(* ===== verification/QueueOperations.thy ===== *)
theory QueueOperations
  imports MemRingBuffer0Spec
begin

text \<open>
  The operations of \<^verbatim>\<open>MemRingBuffer<0>\<close> run alone, and the queue as a \<open>fifo\<close>. Between
  operations nothing is pending; \<open>Q\<close> are the messages handed out by \<^verbatim>\<open>peek\<close> and not yet given
  back by \<^verbatim>\<open>wasteAfterPeek\<close>.
\<close>

section \<open>Contents\<close>

definition items0 :: "MemRingBuffer0 \<Rightarrow> bytes list" where
  "items0 b = map (\<lambda>n. slotData (slot0 b n)) [read0 b ..< claimed0 b]"

definition fits0 :: "MemRingBuffer0 \<Rightarrow> bytes \<Rightarrow> nat \<Rightarrow> bool" where
  "fits0 b item h \<longleftrightarrow> hintSize0 b h \<le> VALUE_TYPE_SIZE0 b \<and> hintSize0 b h \<le> length item"

lemma slot0_length:
  assumes "queue_shape r b"
  shows "length (slotData (slot0 b n)) = VALUE_TYPE_SIZE0 b"
proof -
  note sh = queue_shapeD [OF assms]
  have "slot0 b n \<in> set (space (buffer0 b))"
    using sh(1) by (auto simp: slot0_def slotOf_def chunk_wf_def intro!: nth_mem mod_less_divisor)
  then show ?thesis using sh(1,6) by (auto simp: chunk_wf_def)
qed

lemma items0_Cons:
  "read0 b < claimed0 b \<Longrightarrow> items0 b = slotData (slot0 b (read0 b)) # map (\<lambda>n. slotData (slot0 b n)) [Suc (read0 b) ..< claimed0 b]"
  by (simp add: items0_def upt_conv_Cons)

lemma items0_nil: "items0 b = [] \<longleftrightarrow> claimed0 b \<le> read0 b"
  by (auto simp: items0_def)

lemma room0_iff:
  assumes "queue_inv r P Q b"
  shows "toBeClaimedSeq0 b < CAPACITY0 b + readSeq0 b \<longleftrightarrow> claimed0 b < read0 b + 2 ^ r"
    "isFull0 b \<longleftrightarrow> claimed0 b = read0 b + 2 ^ r"
proof -
  note D = queue_invD [OF assms] and sh = queue_shapeD [OF queue_invD(1) [OF assms]]
  have "unat (CAPACITY0 b) + unat (readSeq0 b) < 2 ^ 64"
    using sh(2,3) D(2,3) by (simp add: limit0_def read0_def)
  then have "unat (CAPACITY0 b + readSeq0 b) = 2 ^ r + read0 b"
    by (simp add: unat_add_small sh(2) read0_def)
  then show "toBeClaimedSeq0 b < CAPACITY0 b + readSeq0 b \<longleftrightarrow> claimed0 b < read0 b + 2 ^ r"
    and "isFull0 b \<longleftrightarrow> claimed0 b = read0 b + 2 ^ r"
    using D(4) by (auto simp: isFull0_def word_less_nat_alt word_le_nat_alt claimed0_def)
qed

section \<open>Putting\<close>

text \<open>Room: the ring is not full and the message a whole ring before was given back.\<close>

definition room0 :: "nat \<Rightarrow> nat set \<Rightarrow> MemRingBuffer0 \<Rightarrow> bool" where
  "room0 r Q b \<longleftrightarrow> claimed0 b < read0 b + 2 ^ r \<and> (\<forall>m \<in> Q. claimed0 b \<noteq> m + 2 ^ r)"

lemma room0_test:
  assumes "queue_inv r {} Q b" "claimed0 b < limit0"
  shows "toBeClaimedSeq0 b < CAPACITY0 b + readSeq0 b \<and> readyToWriteOver b (toBeClaimedSeq0 b)
     \<longleftrightarrow> room0 r Q b"
  unfolding room0_def room0_iff(1) [OF assms(1)] readyToWriteOver_iff [OF assms]
  using queue_invD(3,4) [OF assms(1)] by (auto simp: wanted_def)

definition putState0 :: "MemRingBuffer0 \<Rightarrow> bytes \<Rightarrow> nat \<Rightarrow> MemRingBuffer0" where
  "putState0 b item h =
     publish0 (b\<lparr>toBeClaimedSeq0 := toBeClaimedSeq0 b + 1,
                buffer0 := copyIn (buffer0 b) (toBeClaimedSeq0 b AND MASK0 b) item (hintSize0 b h)\<rparr>)
       (toBeClaimedSeq0 b)"

lemma hintSize0_claim: "hintSize0 (b\<lparr>toBeClaimedSeq0 := x\<rparr>) h = hintSize0 b h"
  by (simp add: hintSize0_def)

lemma put0_eq:
  assumes "queue_inv r {} Q b" "claimed0 b < limit0" "fits0 b item h"
  shows "tryPut0 b item h = (if room0 r Q b then Ret (True, putState0 b item h) else Ret (False, b))"
    "put0 b item h = (if room0 r Q b then Ret (putState0 b item h) else Spins)"
proof -
  note t = room0_test [OF assms(1,2)]
  let ?b = "b\<lparr>toBeClaimedSeq0 := toBeClaimedSeq0 b + 1\<rparr>"
  have w: "writeItem0 ?b (toBeClaimedSeq0 b) item h =
      Ret (?b\<lparr>buffer0 := copyIn (buffer0 ?b) (toBeClaimedSeq0 b AND MASK0 ?b) item (hintSize0 b h)\<rparr>)"
    using assms(3) by (simp add: writeItem0_def hintSize0_claim fits0_def)
  show "tryPut0 b item h = (if room0 r Q b then Ret (True, putState0 b item h) else Ret (False, b))"
    using t by (simp add: tryPut0_def Let_def w putState0_def)
  have "seqAt ?b s = seqAt b s" for s by (simp add: seqAt_def)
  then show "put0 b item h = (if room0 r Q b then Ret (putState0 b item h) else Spins)"
    using t by (auto simp: put0_def Let_def w putState0_def readyToWriteOver_def not_le)
qed

lemma putState0_spec:
  assumes "queue_inv r {} Q b" "claimed0 b < limit0" "room0 r Q b" "fits0 b item h"
  shows "queue_inv r {} Q (putState0 b item h)" "read0 (putState0 b item h) = read0 b"
    "claimed0 (putState0 b item h) = Suc (claimed0 b)"
    "\<exists>d. items0 (putState0 b item h) = items0 b @ [d] \<and> take (hintSize0 b h) d = take (hintSize0 b h) item \<and>
       (hintSize0 b h = VALUE_TYPE_SIZE0 b \<longrightarrow> d = take (VALUE_TYPE_SIZE0 b) item)"
    "m \<in> Q \<Longrightarrow> slotData (slot0 (putState0 b item h) m) = slotData (slot0 b m)"
proof -
  let ?s = "toBeClaimedSeq0 b" and ?k = "hintSize0 b h"
  let ?b1 = "b\<lparr>toBeClaimedSeq0 := ?s + 1\<rparr>"
  let ?b2 = "?b1\<lparr>buffer0 := copyIn (buffer0 ?b1) (?s AND MASK0 ?b1) item ?k\<rparr>"
  have room: "claimed0 b < read0 b + 2 ^ r" "readyToWriteOver b ?s"
    using assms(3) room0_test [OF assms(1,2)] by (auto simp: room0_def)
  note c1 = queue_inv_claim [OF assms(1,2) room]
  have sP: "unat ?s \<in> insert (claimed0 b) {}" by (simp add: claimed0_def)
  have k: "?k \<le> length item" "?k \<le> VALUE_TYPE_SIZE0 ?b1" using assms(4) by (simp_all add: fits0_def)
  note W = queue_inv_write [OF c1(1) sP k]
  note U = queue_inv_publish [OF W(1) sP]
  have p: "putState0 b item h = publish0 ?b2 ?s" by (simp add: putState0_def)
  show "queue_inv r {} Q (putState0 b item h)" using U(1) by (simp add: p claimed0_def)
  show rd: "read0 (putState0 b item h) = read0 b" unfolding p U(4) by simp
  show cl: "claimed0 (putState0 b item h) = Suc (claimed0 b)" unfolding p U(3) using c1(2) by simp
  have keep: "slotData (slot0 (putState0 b item h) m) = slotData (slot0 b m)" if "m \<in> wanted {} Q b" for m
  proof -
    have "m \<in> wanted (insert (claimed0 b) {}) Q ?b1" using that c1(2) by (auto simp: wanted_def)
    then show ?thesis unfolding p U(2) using W(2) by simp
  qed
  then show "m \<in> Q \<Longrightarrow> slotData (slot0 (putState0 b item h) m) = slotData (slot0 b m)"
    by (simp add: wanted_def)
  let ?d = "slotData (slot0 (putState0 b item h) (claimed0 b))"
  have d: "?d = memcpy (slotData (slot0 b (claimed0 b))) item ?k"
    unfolding p U(2) using W(4) by (simp add: claimed0_def)
  have "items0 (putState0 b item h) = items0 b @ [?d]"
    using keep queue_invD(3) [OF assms(1)] by (simp add: items0_def rd cl wanted_def)
  moreover have "take ?k ?d = take ?k item" using k by (simp add: d memcpy_def)
  moreover have "?k = VALUE_TYPE_SIZE0 b \<longrightarrow> ?d = take (VALUE_TYPE_SIZE0 b) item"
    by (simp add: d memcpy_def slot0_length [OF queue_invD(1) [OF assms(1)]])
  ultimately show "\<exists>d. items0 (putState0 b item h) = items0 b @ [d] \<and> take ?k d = take ?k item \<and>
       (?k = VALUE_TYPE_SIZE0 b \<longrightarrow> d = take (VALUE_TYPE_SIZE0 b) item)" by blast
qed

section \<open>Taking\<close>

lemma published0_iff:
  assumes "queue_inv r {} Q b" "read0 b \<le> unat s" "unat s \<le> claimed0 b" "claimed0 b < limit0"
  shows "s = seqAt b s \<longleftrightarrow> unat s < claimed0 b"
proof -
  have lt: "unat s < 2 ^ 63" using assms(3,4) by (simp add: limit0_def)
  have "s = seqAt b s \<longleftrightarrow> slotSeq (slot0 b (unat s)) = of_nat (unat s)"
    by (auto simp: seqAt_eq [OF queue_invD(1) [OF assms(1)]])
  also have "\<dots> \<longleftrightarrow> unat s \<in> wanted {} Q b" by (rule slotSeq_small(1) [OF assms(1) lt])
  also have "\<dots> \<longleftrightarrow> unat s < claimed0 b"
    using assms(2) queue_invD(6) [OF assms(1), of "unat s"] by (auto simp: wanted_def)
  finally show ?thesis .
qed

lemma readItem0_whole:
  assumes "queue_shape r b"
  shows "readItem0 b s 0 = Ret (slotData (slot0 b (unat s)))"
proof -
  have "copyOut (buffer0 b) (s AND MASK0 b) (VALUE_TYPE_SIZE0 b) = take (VALUE_TYPE_SIZE0 b) (slotData (slot0 b (unat s)))"
    by (simp add: slot0_def queue_shapeD(4) [OF assms] chunk_mask_slots(2) [OF queue_shapeD(1) [OF assms]])
  then show ?thesis
    using slot0_length [OF assms, of "unat s"] by (simp add: readItem0_def hintSize0_def)
qed

text \<open>Taking one message hands it out and gives its slot back.\<close>

definition takeState0 :: "MemRingBuffer0 \<Rightarrow> MemRingBuffer0" where
  "takeState0 b = markAsToWriteOver (b\<lparr>readSeq0 := readSeq0 b + 1\<rparr>) (readSeq0 b)"

lemma take0_eq:
  assumes "queue_inv r {} Q b" "claimed0 b < limit0"
  shows "tryTake0 b 0 = Ret (if items0 b = [] then (None, b) else (Some (hd (items0 b)), takeState0 b))"
    "take0 b 0 = (if items0 b = [] then Spins else Ret (hd (items0 b), takeState0 b))"
proof -
  note D = queue_invD [OF assms(1)]
  have t: "readSeq0 b = seqAt b (readSeq0 b) \<longleftrightarrow> read0 b < claimed0 b"
    using published0_iff [OF assms(1), of "readSeq0 b"] D(3) assms(2) by (simp add: read0_def)
  have "hd (items0 b) = slotData (slot0 b (unat (readSeq0 b)))" if "read0 b < claimed0 b"
    using items0_Cons [OF that] by (simp add: read0_def)
  then show "tryTake0 b 0 = Ret (if items0 b = [] then (None, b) else (Some (hd (items0 b)), takeState0 b))"
    "take0 b 0 = (if items0 b = [] then Spins else Ret (hd (items0 b), takeState0 b))"
    using t by (simp_all add: tryTake0_def take0_def Let_def readItem0_whole [OF D(1)] items0_nil
        takeState0_def not_le)
qed

lemma takeState0_spec:
  assumes "queue_inv r {} Q b" "items0 b \<noteq> []" "claimed0 b < limit0"
  shows "queue_inv r {} Q (takeState0 b)" "items0 (takeState0 b) = tl (items0 b)"
    "claimed0 (takeState0 b) = claimed0 b"
    "m \<in> Q \<Longrightarrow> slotData (slot0 (takeState0 b) m) = slotData (slot0 b m)"
proof -
  note D = queue_invD [OF assms(1)]
  let ?r = "readSeq0 b"
  have lt: "read0 b < claimed0 b" using assms(2) by (simp add: items0_nil not_le)
  then have u: "unat (?r + 1) = read0 b + 1"
    using assms(3) by (simp add: read0_def limit0_def unat_inc)
  have R: "queue_inv r {} (insert (read0 b) Q) (b\<lparr>readSeq0 := ?r + 1\<rparr>)"
    using queue_inv_read [OF assms(1) u] lt by simp
  have rQ: "unat ?r \<in> insert (read0 b) Q" by (simp add: read0_def)
  note W = queue_inv_waste [OF R rQ, folded takeState0_def]
  have nQ: "read0 b \<notin> Q" using D(6) by blast
  then have "insert (read0 b) Q - {unat ?r} = Q" by (simp add: read0_def)
  then show "queue_inv r {} Q (takeState0 b)" using W(1) by simp
  show c: "claimed0 (takeState0 b) = claimed0 b" using W(3) by simp
  have keep: "slot0 (takeState0 b) m = slot0 b m"
    if "m \<in> Q \<or> read0 b < m \<and> m < claimed0 b" for m
    using W(2) [of m] that nQ u by (auto simp: wanted_def read0_def)
  then show "m \<in> Q \<Longrightarrow> slotData (slot0 (takeState0 b) m) = slotData (slot0 b m)" by simp
  have "read0 (takeState0 b) = Suc (read0 b)" using W(4) u by simp
  then show "items0 (takeState0 b) = tl (items0 b)"
    using keep by (simp add: items0_Cons [OF lt]) (simp add: items0_def c)
qed

section \<open>Peeking and giving back\<close>

lemma peekLoop0_spec:
  assumes "queue_inv r {} Q b" "claimed0 b < limit0"
  shows "read0 b \<le> unat s \<Longrightarrow> unat s \<le> claimed0 b \<Longrightarrow>
    unat (peekLoop0 b s m) = unat s + min m (claimed0 b - unat s)"
proof (induction m arbitrary: s)
  case 0
  then show ?case by (simp add: peekLoop0.simps)
next
  case (Suc m)
  note t = published0_iff [OF assms(1) Suc.prems assms(2)]
  show ?case
  proof (cases "unat s < claimed0 b")
    case True
    then have s1: "unat (s + 1) = Suc (unat s)"
      using assms(2) by (intro unat_inc) (simp add: limit0_def)
    have "peekLoop0 b s (Suc m) = peekLoop0 b (s + 1) m" using True t by (subst peekLoop0.simps) simp
    with Suc.IH [of "s + 1"] Suc.prems True s1 show ?thesis by simp
  next
    case False
    with t Suc.prems show ?thesis by (subst peekLoop0.simps) simp
  qed
qed

lemma peek0_spec:
  assumes "queue_inv r {} Q b" "claimed0 b < limit0"
  obtains p e cnt b' where "peek0 b m = ((p, e, cnt), b')" "unat (seq p) = read0 b"
    "unat cnt = min (unat m) (length (items0 b))" "unat (seq e) = read0 b + unat cnt"
    "queue_inv r {} (Q \<union> {read0 b ..< read0 b + unat cnt}) b'" "read0 b' = read0 b + unat cnt"
    "claimed0 b' = claimed0 b" "\<And>n. slot0 b' n = slot0 b n" "items0 b' = drop (unat cnt) (items0 b)"
proof -
  let ?s = "readSeq0 b"
  let ?e = "peekLoop0 b ?s (unat m)"
  let ?b = "b\<lparr>readSeq0 := ?e\<rparr>"
  note D = queue_invD [OF assms(1)]
  have e: "unat ?e = read0 b + min (unat m) (length (items0 b))"
    using peekLoop0_spec [OF assms, of ?s "unat m"] D(3) by (simp add: read0_def items0_def)
  have c: "unat (?e - ?s) = min (unat m) (length (items0 b))"
    using e by (simp add: unat_sub word_le_nat_alt read0_def)
  have le: "read0 b + unat (?e - ?s) \<le> claimed0 b" using D(3) by (simp add: c items0_def)
  have "queue_inv r {} (Q \<union> {read0 b ..< read0 b + unat (?e - ?s)}) ?b"
    by (rule queue_inv_read [OF assms(1)]) (use e le in \<open>simp_all add: c\<close>)
  moreover have "items0 ?b = drop (unat (?e - ?s)) (items0 b)"
    using e by (simp add: items0_def c drop_map)
  ultimately show ?thesis
    by (intro that [of "iteratorAt ?s" "iteratorAt ?e" "?e - ?s" ?b])
       (use e in \<open>simp_all add: peek0_def Let_def iterMinus_def c\<close>, simp add: read0_def)
qed

lemma markRange_spec:
  assumes "queue_inv r P Q b" "{unat s ..< unat s + n} \<subseteq> Q"
  shows "queue_inv r P (Q - {unat s ..< unat s + n}) (markRange b s n)"
    "claimed0 (markRange b s n) = claimed0 b" "read0 (markRange b s n) = read0 b"
    "m \<in> wanted P Q b \<Longrightarrow> m \<notin> {unat s ..< unat s + n} \<Longrightarrow> slot0 (markRange b s n) m = slot0 b m"
proof -
  have "queue_inv r P (Q - {unat s ..< unat s + n}) (markRange b s n) \<and>
    claimed0 (markRange b s n) = claimed0 b \<and> read0 (markRange b s n) = read0 b \<and>
    (\<forall>m \<in> wanted P Q b. m \<notin> {unat s ..< unat s + n} \<longrightarrow> slot0 (markRange b s n) m = slot0 b m)"
    using assms
  proof (induction n arbitrary: b s Q)
    case 0
    then show ?case by simp
  next
    case (Suc n)
    have sQ: "unat s \<in> Q" using Suc.prems(2) by auto
    note W = queue_inv_waste [OF Suc.prems(1) sQ]
    show ?case
    proof (cases n)
      case 0
      have set: "{unat s ..< unat s + Suc n} = {unat s}" using 0 by auto
      have mk: "markRange b s (Suc n) = markAsToWriteOver b s" using 0 by simp
      show ?thesis unfolding set mk using W by blast
    next
      case (Suc k)
      have "unat s + 1 \<in> Q" using Suc.prems(2) Suc by auto
      then have "unat s + 1 < 2 ^ 63"
        using wanted_bounds(3) [OF Suc.prems(1), of "unat s + 1"] by (simp add: wanted_def)
      then have s1: "unat (s + 1) = Suc (unat s)" by (intro unat_inc) simp
      have sub: "{unat (s + 1) ..< unat (s + 1) + n} \<subseteq> Q - {unat s}"
        using Suc.prems(2) by (auto simp: s1)
      have set: "Q - {unat s} - {unat (s + 1) ..< unat (s + 1) + n} = Q - {unat s ..< unat s + Suc n}"
        by (auto simp: s1)
      have w: "m \<in> wanted P (Q - {unat s}) (markAsToWriteOver b s)" if "m \<in> wanted P Q b" "m \<noteq> unat s" for m
        using that W(3,4) by (auto simp: wanted_def)
      have keep: "slot0 (markRange b s (Suc n)) m = slot0 b m"
        if "m \<in> wanted P Q b" "m \<notin> {unat s ..< unat s + Suc n}" for m
      proof -
        have ne: "m \<noteq> unat s" "m \<notin> {unat (s + 1) ..< unat (s + 1) + n}" using that(2) by (auto simp: s1)
        then show ?thesis
          using Suc.IH [OF W(1) sub] w [OF that(1) ne(1)] W(2) [OF that(1) ne(1)] by simp
      qed
      have mk: "markRange b s (Suc n) = markRange (markAsToWriteOver b s) (s + 1) n" by simp
      note IH = Suc.IH [OF W(1) sub, unfolded set W(3,4), folded mk]
      show ?thesis using IH keep by blast
    qed
  qed
  then show "queue_inv r P (Q - {unat s ..< unat s + n}) (markRange b s n)"
    "claimed0 (markRange b s n) = claimed0 b" "read0 (markRange b s n) = read0 b"
    "m \<in> wanted P Q b \<Longrightarrow> m \<notin> {unat s ..< unat s + n} \<Longrightarrow> slot0 (markRange b s n) m = slot0 b m"
    by blast+
qed

text \<open>Giving slots back does not touch what is in them.\<close>

lemma markRange_data:
  "queue_shape r b \<Longrightarrow> queue_shape r (markRange b s n) \<and> slotData (slot0 (markRange b s n) m) = slotData (slot0 b m) \<and>
     VALUE_TYPE_SIZE0 (markRange b s n) = VALUE_TYPE_SIZE0 b"
proof (induction n arbitrary: b s)
  case (Suc n)
  note S = queue_shape_setSeq [OF Suc.prems, of s "- 1", folded markAsToWriteOver_def]
  have "VALUE_TYPE_SIZE0 (markAsToWriteOver b s) = VALUE_TYPE_SIZE0 b" by (simp add: markAsToWriteOver_def)
  then show ?case using Suc.IH [OF S(1), of "s + 1"] S(2) by simp
qed simp

text \<open>A reader that handled all of its batch.\<close>

lemma wasteAfterPeek0_complete:
  assumes "queue_inv r P Q b" "{unat (seq it) ..< unat (seq it) + unat sz} \<subseteq> Q"
  shows "queue_inv r P (Q - {unat (seq it) ..< unat (seq it) + unat sz}) (wasteAfterPeek0 b it sz False)"
    "items0 (wasteAfterPeek0 b it sz False) = items0 b \<or> P \<noteq> {}"
proof -
  let ?b = "markRange b (seq it) (unat sz)"
  have w: "wasteAfterPeek0 b it sz False = ?b" by (simp add: wasteAfterPeek0_def)
  note M = markRange_spec [OF assms]
  show "queue_inv r P (Q - {unat (seq it) ..< unat (seq it) + unat sz}) (wasteAfterPeek0 b it sz False)"
    using M(1) w by simp
  have "slot0 ?b n = slot0 b n" if "P = {}" "read0 b \<le> n" "n < claimed0 b" for n
  proof (rule M(4))
    show "n \<in> wanted P Q b" using that by (simp add: wanted_def)
    show "n \<notin> {unat (seq it) ..< unat (seq it) + unat sz}"
      using that(2) assms(2) queue_invD(6) [OF assms(1), of n] by (meson leD subsetD)
  qed
  then show "items0 (wasteAfterPeek0 b it sz False) = items0 b \<or> P \<noteq> {}"
    using M(2,3) w by (auto simp: items0_def)
qed

lemma give_back_window:
  assumes "q \<longrightarrow> x < rd" "s \<le> x \<and> x < rd \<longrightarrow> q" "s + n \<le> rd" "rd \<le> (c :: nat)"
  shows "q \<and> \<not> (s \<le> x \<and> x < rd) \<or> s + n \<le> x \<and> x < c \<longleftrightarrow>
     q \<and> \<not> (s \<le> x \<and> x < s + n) \<or> rd \<le> x \<and> x < c"
  using assms by (cases q) linarith+

text \<open>A reader that stopped after \<open>sz\<close> of the batch it peeked last: the rest is unread again.\<close>

lemma wasteAfterPeek0_incomplete:
  assumes "queue_inv r {} Q b" "{unat (seq it) ..< read0 b} \<subseteq> Q" "unat (seq it) + unat sz \<le> read0 b"
  shows "queue_inv r {} (Q - {unat (seq it) ..< read0 b}) (wasteAfterPeek0 b it sz True)"
    "items0 (wasteAfterPeek0 b it sz True) =
       map (\<lambda>n. slotData (slot0 b n)) [unat (seq it) + unat sz ..< read0 b] @ items0 b"
proof -
  let ?s = "unat (seq it)" and ?n = "unat sz"
  let ?b = "markRange b (seq it) ?n"
  let ?b' = "?b\<lparr>readSeq0 := seq it + sz\<rparr>"
  have w: "wasteAfterPeek0 b it sz True = ?b'" by (simp add: wasteAfterPeek0_def)
  have sub: "{?s ..< ?s + ?n} \<subseteq> Q" using assms(2,3) by auto
  note M = markRange_spec [OF assms(1) sub]
  note D = queue_invD [OF assms(1)] and D' = queue_invD [OF M(1)]
  have "?s + ?n < 2 ^ 64" using assms(3) D(2,3) by (simp add: limit0_def)
  then have u: "unat (seq it + sz) = ?s + ?n" by (rule unat_add_small)
  have wq: "wanted {} (Q - {?s ..< read0 b}) ?b' = wanted {} (Q - {?s ..< ?s + ?n}) ?b"
  proof -
    have "wanted {} (Q - {?s ..< read0 b}) ?b' = (Q - {?s ..< read0 b}) \<union> {?s + ?n ..< claimed0 b}"
      by (simp add: wanted_def u M(2))
    also have "\<dots> = (Q - {?s ..< ?s + ?n}) \<union> {read0 b ..< claimed0 b}"
    proof (rule set_eqI)
      fix x
      have "x \<in> Q \<longrightarrow> x < read0 b" "?s \<le> x \<and> x < read0 b \<longrightarrow> x \<in> Q" using D(6) assms(2) by auto
      then show "x \<in> (Q - {?s ..< read0 b}) \<union> {?s + ?n ..< claimed0 b} \<longleftrightarrow>
          x \<in> (Q - {?s ..< ?s + ?n}) \<union> {read0 b ..< claimed0 b}"
        unfolding Un_iff Diff_iff atLeastLessThan_iff by (rule give_back_window [OF _ _ assms(3) D(3)])
    qed
    also have "\<dots> = wanted {} (Q - {?s ..< ?s + ?n}) ?b" by (simp add: wanted_def M(2,3))
    finally show ?thesis .
  qed
  have "claimed0 b \<le> ?s + ?n + 2 ^ r"
  proof (cases "?s + ?n = read0 b")
    case False
    then have "?s + ?n \<in> Q" using assms(2,3) by auto
    then show ?thesis using D(7) by blast
  qed (use D(4) in simp)
  moreover have "m < ?s + ?n \<and> claimed0 b \<le> m + 2 ^ r" if "m \<in> Q - {?s ..< read0 b}" for m
    using that D(6,7) [of m] by auto
  ultimately have "queue_inv r {} (Q - {?s ..< read0 b}) ?b'"
    using M(2,3) D' D assms(3) wq by (intro queue_invI) (auto simp: u)
  then show "queue_inv r {} (Q - {?s ..< read0 b}) (wasteAfterPeek0 b it sz True)" using w by simp
  have "slot0 ?b m = slot0 b m" if "?s + ?n \<le> m" "m < claimed0 b" for m
  proof -
    have "m < read0 b \<Longrightarrow> m \<in> Q" using that(1) assms(2) by auto
    then show ?thesis using M(4) [of m] that by (cases "m < read0 b") (auto simp: wanted_def)
  qed
  moreover have "[?s + ?n ..< claimed0 b] = [?s + ?n ..< read0 b] @ [read0 b ..< claimed0 b]"
    using assms(3) D(3) by (metis le_add_diff_inverse upt_add_eq_append)
  ultimately show "items0 (wasteAfterPeek0 b it sz True) =
       map (\<lambda>n. slotData (slot0 b n)) [?s + ?n ..< read0 b] @ items0 b"
    using D(3) assms(3) by (simp add: w items0_def u M(2))
qed

text \<open>\<^verbatim>\<open>peekAll\<close> hands out everything and, run alone, never waits.\<close>

lemma peekAll0_spec:
  assumes "queue_inv r {} Q b" "claimed0 b < limit0"
  obtains p e cnt b' where "peekAll0 b = Ret ((p, e, cnt), b')" "unat (seq p) = read0 b"
    "unat cnt = length (items0 b)" "seq e = toBeClaimedSeq0 b"
    "queue_inv r {} (Q \<union> {read0 b ..< claimed0 b}) b'" "items0 b' = []"
proof -
  let ?s = "readSeq0 b" and ?c = "toBeClaimedSeq0 b"
  note D = queue_invD [OF assms(1)] and sh = queue_shapeD [OF queue_invD(1) [OF assms(1)]]
  have "unat (peekLoop0 b ?s (unat (CAPACITY0 b))) = claimed0 b"
    using peekLoop0_spec [OF assms, of ?s "unat (CAPACITY0 b)"] D(3,4) sh(2) by (simp add: read0_def)
  then have l: "peekLoop0 b ?s (unat (CAPACITY0 b)) = ?c"
    unfolding claimed0_def by (rule word_unat_eq_iff [THEN iffD2])
  have le: "?s \<le> ?c" using D(3) by (simp add: word_le_nat_alt read0_def claimed0_def)
  have a: "allPublished b ?s = Some ?c" using le l by (auto simp: allPublished_def Let_def)
  have i: "queue_inv r {} (Q \<union> {read0 b ..< read0 b + (claimed0 b - read0 b)}) (b\<lparr>readSeq0 := ?c\<rparr>)"
    by (rule queue_inv_read [OF assms(1)]) (use D(3) in \<open>simp_all add: claimed0_def\<close>)
  have n: "unat (?c - ?s) = claimed0 b - read0 b"
    using le by (simp add: unat_sub claimed0_def read0_def)
  show ?thesis
    by (rule that [of "iteratorAt ?s" "iteratorAt ?c" "?c - ?s" "b\<lparr>readSeq0 := ?c\<rparr>"])
       (use i n D(3) in \<open>simp_all add: peekAll0_def a Let_def iterMinus_def items0_def\<close>,
        simp_all add: read0_def claimed0_def)
qed

section \<open>Reset and construction\<close>

lemma all_free:
  assumes "queue_shape r b" "claimed0 b \<le> limit0" "read0 b = claimed0 b"
    "\<forall>s \<in> set (space (buffer0 b)). slotSeq s = - 1"
  shows "queue_inv r {} {} b"
proof (rule queue_invI)
  have "slot0 b n \<in> set (space (buffer0 b))" for n
    using queue_shapeD(1) [OF assms(1)]
    by (auto simp: slot0_def slotOf_def chunk_wf_def intro!: nth_mem mod_less_divisor)
  then show "slotSeq (slot0 b n) = - 1 \<or>
      (\<exists>m \<in> wanted {} {} b. slotSeq (slot0 b n) = of_nat m \<and> m mod 2 ^ r = n mod 2 ^ r)" for n
    using assms(4) by blast
qed (use assms in \<open>auto simp: wanted_def\<close>)

lemma freed_chunk:
  assumes "chunk_wf c r"
  shows "chunk_wf (c\<lparr>space := map (\<lambda>s. s\<lparr>slotSeq := x\<rparr>) (space c)\<rparr>) r"
  using assms by (auto simp: chunk_wf_def)

lemma reset0_spec:
  assumes "queue_inv r P Q b"
  shows "queue_inv r {} {} (reset0 b)" "items0 (reset0 b) = []" "claimed0 (reset0 b) = claimed0 b"
proof -
  note D = queue_invD [OF assms]
  have "queue_shape r (reset0 b)"
    using D(1) freed_chunk [of "buffer0 b" r "- 1"] by (simp add: queue_shape_def reset0_def)
  then show "queue_inv r {} {} (reset0 b)"
    by (rule all_free) (use D(2) in \<open>auto simp: reset0_def claimed0_def read0_def\<close>)
  show "items0 (reset0 b) = []" "claimed0 (reset0 b) = claimed0 b"
    by (simp_all add: reset0_def items0_def claimed0_def read0_def)
qed

lemma newMemRingBuffer0_spec:
  assumes "newMemRingBuffer0 junk v r = Ret b" "3 \<le> v"
    and "\<And>i. length (slotData (junk i)) + seqBytes = 2 ^ v"
  shows "queue_inv r {} {} b" "items0 b = []" "VALUE_TYPE_SIZE0 b = 2 ^ v - seqBytes" "claimed0 b = 0"
proof -
  have vr: "v + r \<le> 32"
    using assms(1) by (cases "v + r > 32") (simp_all add: newMemRingBuffer0_def chunk_base_ptr_def)
  let ?sp = "map (\<lambda>s. s\<lparr>slotSeq := - 1\<rparr>) (map junk [0..<2 ^ r])"
  have b: "b = \<lparr>CAPACITY0 = 2 ^ r, VALUE_TYPE_SIZE0 = 2 ^ v - seqBytes, MASK0 = 2 ^ r - 1,
      buffer0 = \<lparr>space = ?sp, chunkMASK = 2 ^ r - 1, valueTypeSizePower2Num = v\<rparr>,
      toBeClaimedSeq0 = 0, readSeq0 = 0\<rparr>"
    using assms(1) vr by (simp add: newMemRingBuffer0_def chunk_base_ptr_def Let_def push_bit_eq_mult)
  have "(2::nat) ^ 3 \<le> 2 ^ v" using assms(2) by (intro power_increasing) simp_all
  then have "queue_shape r b" using vr assms(3) by (simp add: queue_shape_def chunk_wf_def b)
  then show "queue_inv r {} {} b"
    by (rule all_free) (auto simp: b claimed0_def read0_def)
  show "items0 b = []" "VALUE_TYPE_SIZE0 b = 2 ^ v - seqBytes" "claimed0 b = 0"
    by (simp_all add: b items0_def claimed0_def read0_def)
qed

section \<open>The queue as a fifo\<close>

definition queueOk :: "nat \<Rightarrow> nat \<Rightarrow> MemRingBuffer0 \<Rightarrow> bool" where
  "queueOk r v b \<longleftrightarrow> queue_inv r {} {} b \<and> VALUE_TYPE_SIZE0 b = v"

lemma value_size_queue [simp]:
  "VALUE_TYPE_SIZE0 (putState0 b item h) = VALUE_TYPE_SIZE0 b" "VALUE_TYPE_SIZE0 (takeState0 b) = VALUE_TYPE_SIZE0 b"
  by (simp_all add: putState0_def publish0_def takeState0_def markAsToWriteOver_def)

interpretation queue0: fifo "queueOk r v" items0 claimed0 limit0 "2 ^ r" "\<lambda>x :: bytes. length x = v"
    "\<lambda>b x. tryPut0 b x 0" "\<lambda>b. tryTake0 b 0"
proof
  fix b and x :: bytes
  assume ok: "queueOk r v b" and x: "length x = v" and l: "claimed0 b < limit0"
  then have inv: "queue_inv r {} {} b" and f: "fits0 b x 0" and h: "hintSize0 b 0 = VALUE_TYPE_SIZE0 b"
    by (simp_all add: queueOk_def fits0_def hintSize0_def)
  have room: "room0 r {} b \<longleftrightarrow> length (items0 b) < 2 ^ r"
    using queue_invD(3) [OF inv] by (auto simp: room0_def items0_def)
  show "\<exists>s'. tryPut0 b x 0 = Ret (length (items0 b) < 2 ^ r, s') \<and> queueOk r v s' \<and>
      claimed0 s' \<le> Suc (claimed0 b) \<and>
      items0 s' = (if length (items0 b) < 2 ^ r then items0 b @ [x] else items0 b)"
  proof (cases "room0 r {} b")
    case True
    note P = putState0_spec [OF inv l True f]
    have "items0 (putState0 b x 0) = items0 b @ [x]"
      using P(4) ok x h by (auto simp: queueOk_def)
    with True P ok room show ?thesis
      by (simp add: put0_eq(1) [OF inv l f] queueOk_def)
  next
    case False
    with ok room show ?thesis by (simp add: put0_eq(1) [OF inv l f])
  qed
next
  fix b
  assume ok: "queueOk r v b" and l: "claimed0 b < limit0"
  then have inv: "queue_inv r {} {} b" by (simp add: queueOk_def)
  show "\<exists>s'. tryTake0 b 0 = Ret (case items0 b of [] \<Rightarrow> None | y # _ \<Rightarrow> Some y, s') \<and> queueOk r v s' \<and>
      claimed0 s' \<le> Suc (claimed0 b) \<and> items0 s' = tl (items0 b)"
    using take0_eq(1) [OF inv l] takeState0_spec [OF inv _ l] ok
    by (cases "items0 b") (simp_all add: queueOk_def)
next
  fix b
  assume "queueOk r v b"
  then show "length (items0 b) \<le> 2 ^ r"
    using queue_invD(4) by (fastforce simp: queueOk_def items0_def)
qed

end
