(* ===== verification/QueueProperties.thy ===== *)
theory QueueProperties
  imports QueueOperations
begin

text \<open>The contract of \<^verbatim>\<open>MemRingBuffer<0>\<close>, on the operations run alone.\<close>

definition demoQueue :: MemRingBuffer0 where
  "demoQueue = (case newMemRingBuffer0 (\<lambda>_. \<lparr>slotSeq = 0, slotData = replicate 8 0\<rparr>) 4 1 of Ret b \<Rightarrow> b)"

lemma demoQueue_new:
  "newMemRingBuffer0 (\<lambda>_. \<lparr>slotSeq = 0, slotData = replicate 8 0\<rparr>) 4 1 = Ret demoQueue"
  by (simp add: demoQueue_def newMemRingBuffer0_def chunk_base_ptr_def Let_def)

lemma demoQueue_ok:
  "queue_inv 1 {} {} demoQueue" "items0 demoQueue = []" "VALUE_TYPE_SIZE0 demoQueue = 8" "claimed0 demoQueue = 0"
  "queueOk 1 8 demoQueue"
  using newMemRingBuffer0_spec [OF demoQueue_new] by (simp_all add: queueOk_def)

text \<open>C11: any sequence of \<^verbatim>\<open>tryPut\<close> and \<^verbatim>\<open>tryTake\<close> on \<^verbatim>\<open>MemRingBuffer<0>\<close> returns; what
  comes out, followed by what is still held, is what was held followed by what was accepted,
  and the ring never holds more than its capacity.\<close>

lemma queue0_run_fifo:
  assumes "queueOk r v b" "\<forall>x \<in> set (inputs ops). length x = v" "claimed0 b + length ops \<le> limit0"
  shows "\<exists>acc outs b'. runQueue (\<lambda>b x. tryPut0 b x 0) (\<lambda>b. tryTake0 b 0) b ops = Ret (acc, outs, b') \<and>
     queueOk r v b' \<and> items0 b @ acc = outs @ items0 b' \<and> length (items0 b') \<le> 2 ^ r"
  by (rule queue0.run_fifo [OF assms])

lemma queue0_run_witness:
  "\<exists>acc outs b'. runQueue (\<lambda>b x. tryPut0 b x 0) (\<lambda>b. tryTake0 b 0) demoQueue
       [Enq (replicate 8 1), Enq (replicate 8 2), Enq (replicate 8 3), Deq] = Ret (acc, outs, b') \<and>
     queueOk 1 8 b' \<and> items0 demoQueue @ acc = outs @ items0 b' \<and> length (items0 b') \<le> 2 ^ 1"
  by (rule queue0_run_fifo [OF demoQueue_ok(5)]) (simp_all add: demoQueue_ok limit0_def)

text \<open>C20: \<^verbatim>\<open>tryPut\<close> on \<^verbatim>\<open>MemRingBuffer<0>\<close> succeeds exactly when the ring is not full and the
  reader of the message one ring before has given it back; the message is appended, and what
  other readers hold after a \<^verbatim>\<open>peek\<close> is never overwritten.\<close>

lemma queue0_put_respects_readers:
  assumes "queue_inv r {} Q b" "claimed0 b < limit0" "fits0 b item h"
  shows "\<exists>ok b'. tryPut0 b item h = Ret (ok, b') \<and> queue_inv r {} Q b' \<and>
     ok = (length (items0 b) < 2 ^ r \<and> (\<forall>m \<in> Q. claimed0 b \<noteq> m + 2 ^ r)) \<and>
     (\<forall>m \<in> Q. slotData (slot0 b' m) = slotData (slot0 b m)) \<and>
     (if ok then \<exists>d. items0 b' = items0 b @ [d] \<and> take (hintSize0 b h) d = take (hintSize0 b h) item
      else items0 b' = items0 b)"
proof -
  have len: "length (items0 b) < 2 ^ r \<longleftrightarrow> claimed0 b < read0 b + 2 ^ r"
    using queue_invD(3) [OF assms(1)] by (auto simp: items0_def)
  show ?thesis
  proof (cases "room0 r Q b")
    case True
    note P = putState0_spec [OF assms(1,2) True assms(3)]
    show ?thesis
      using P(1,4,5) True len
      by (intro exI [of _ True] exI [of _ "putState0 b item h"]) (auto simp: put0_eq(1) [OF assms] room0_def)
  next
    case False
    then show ?thesis
      using assms(1) len
      by (intro exI [of _ False] exI [of _ b]) (auto simp: put0_eq(1) [OF assms] room0_def)
  qed
qed

lemma queue0_put_witness:
  "\<exists>b' d. tryPut0 demoQueue (replicate 8 7) 0 = Ret (True, b') \<and> queue_inv 1 {} {} b' \<and> items0 b' = [d] \<and>
     take 8 d = replicate 8 7"
proof -
  have h: "claimed0 demoQueue < limit0" "fits0 demoQueue (replicate 8 7) 0"
    by (simp_all add: demoQueue_ok fits0_def hintSize0_def limit0_def)
  show ?thesis
    using queue0_put_respects_readers [OF demoQueue_ok(1) h] by (auto simp: demoQueue_ok hintSize0_def)
qed

text \<open>\<^verbatim>\<open>peek\<close> hands out the next messages, as many as asked for and available; after it
  \<^verbatim>\<open>wasteAfterPeek\<close> of \<open>n\<close> of them flagged incomplete makes exactly the others unread again, in
  their place before the rest of the queue.\<close>

lemma queue0_incomplete_returns_rest:
  assumes "queue_inv r {} Q b" "claimed0 b < limit0" "peek0 b m = ((it, e, cnt), b1)" "n \<le> cnt"
  shows "unat cnt = min (unat m) (length (items0 b)) \<and> items0 b1 = drop (unat cnt) (items0 b) \<and>
     queue_inv r {} Q (wasteAfterPeek0 b1 it n True) \<and>
     items0 (wasteAfterPeek0 b1 it n True) = drop (unat n) (items0 b)"
proof -
  obtain p e' c b' where P: "peek0 b m = ((p, e', c), b')" "unat (seq p) = read0 b"
    "unat c = min (unat m) (length (items0 b))" "unat (seq e') = read0 b + unat c"
    "queue_inv r {} (Q \<union> {read0 b ..< read0 b + unat c}) b'" "read0 b' = read0 b + unat c"
    "claimed0 b' = claimed0 b" "\<And>n. slot0 b' n = slot0 b n" "items0 b' = drop (unat c) (items0 b)"
    by (rule peek0_spec [OF assms(1,2)]) (rule that)
  then have e: "p = it" "c = cnt" "b' = b1" using assms(3) by simp_all
  note P = P [unfolded e]
  have n: "unat n \<le> unat cnt" using assms(4) by (simp add: word_le_nat_alt)
  have sub: "{unat (seq it) ..< read0 b1} \<subseteq> Q \<union> {read0 b ..< read0 b + unat cnt}"
    using P(2,6) by auto
  have le: "unat (seq it) + unat n \<le> read0 b1" using P(2,6) n by simp
  have set: "Q \<union> {read0 b ..< read0 b + unat cnt} - {unat (seq it) ..< read0 b1} = Q"
  proof -
    have "x < read0 b" if "x \<in> Q" for x using queue_invD(6) [OF assms(1) that] .
    then show ?thesis using P(2,6) by force
  qed
  note I = wasteAfterPeek0_incomplete [OF P(5) sub le, unfolded set]
  have "items0 (wasteAfterPeek0 b1 it n True) =
      map (\<lambda>k. slotData (slot0 b k)) [read0 b + unat n ..< read0 b + unat cnt] @ drop (unat cnt) (items0 b)"
    using I(2) P(2,6,8,9) by simp
  also have "\<dots> = drop (unat n) (items0 b)"
  proof -
    have le: "read0 b + unat cnt \<le> claimed0 b" using P(3) queue_invD(3) [OF assms(1)] by (simp add: items0_def)
    then have "[read0 b + unat n ..< claimed0 b] = [read0 b + unat n ..< read0 b + unat cnt] @ [read0 b + unat cnt ..< claimed0 b]"
      using n upt_add_eq_append [of "read0 b + unat n" "read0 b + unat cnt" "claimed0 b - (read0 b + unat cnt)"] by simp
    then show ?thesis by (simp add: items0_def drop_map)
  qed
  finally show ?thesis using I(1) P(3,9) by simp
qed

lemma queue0_incomplete_witness:
  "\<exists>it e cnt b1. peek0 (putState0 demoQueue (replicate 8 7) 0) 5 = ((it, e, cnt), b1) \<and>
    unat cnt = min (unat (5 :: u64)) (length (items0 (putState0 demoQueue (replicate 8 7) 0))) \<and>
    items0 b1 = drop (unat cnt) (items0 (putState0 demoQueue (replicate 8 7) 0)) \<and>
     queue_inv 1 {} {} (wasteAfterPeek0 b1 it 0 True) \<and>
     items0 (wasteAfterPeek0 b1 it 0 True) = drop (unat (0 :: u64)) (items0 (putState0 demoQueue (replicate 8 7) 0))"
proof -
  have r: "room0 1 {} demoQueue" using demoQueue_ok by (simp add: room0_def items0_nil)
  have f: "fits0 demoQueue (replicate 8 7) 0" by (simp add: fits0_def hintSize0_def demoQueue_ok)
  have l: "claimed0 demoQueue < limit0" by (simp add: demoQueue_ok limit0_def)
  note P = putState0_spec [OF demoQueue_ok(1) l r f]
  have l2: "claimed0 (putState0 demoQueue (replicate 8 7) 0) < limit0" using P(3) by (simp add: demoQueue_ok limit0_def)
  obtain it e cnt b1 where k: "peek0 (putState0 demoQueue (replicate 8 7) 0) 5 = ((it, e, cnt), b1)"
    by (metis surj_pair)
  have z: "0 \<le> cnt" by simp
  show ?thesis
    using queue0_incomplete_returns_rest [OF P(1) l2 k z] k by blast
qed

section \<open>Claiming several slots\<close>

text \<open>Two messages put and peeked by two readers; the reader of the first gave it back.\<close>

definition demoHeld :: MemRingBuffer0 where
  "demoHeld = \<lparr>CAPACITY0 = 2, VALUE_TYPE_SIZE0 = 8, MASK0 = 1,
     buffer0 = \<lparr>space = [\<lparr>slotSeq = - 1, slotData = replicate 8 1\<rparr>, \<lparr>slotSeq = 1, slotData = replicate 8 2\<rparr>],
       chunkMASK = 1, valueTypeSizePower2Num = 4\<rparr>, toBeClaimedSeq0 = 2, readSeq0 = 2\<rparr>"

lemma demoHeld_reached:
  "obind (put0 demoQueue (replicate 8 1) 0) (\<lambda>b1. obind (put0 b1 (replicate 8 2) 0) (\<lambda>b2.
     let (it, b3) = peekOne0 b2; (it', b4) = peekOne0 b3 in Ret (seq it', wasteAfterPeek0 b4 it 1 False))) =
   Ret (1, demoHeld)"
  by code_simp

text \<open>\<^verbatim>\<open>tryClaim(n)\<close> on \<^verbatim>\<open>MemRingBuffer<0>\<close> does not look at the slots after the first:
  with the second message still held by its reader it hands out both slots, and the producer's
  write destroys the message being read.\<close>

lemma queue0_tryClaimN_ignores_readers:
  "\<exists>it b b'. obind (put0 demoQueue (replicate 8 1) 0) (\<lambda>b1. obind (put0 b1 (replicate 8 2) 0) (\<lambda>b2.
       let (it, b3) = peekOne0 b2; (it', b4) = peekOne0 b3 in Ret (seq it', wasteAfterPeek0 b4 it 1 False))) = Ret (1, b) \<and>
     tryClaimN0 b 2 = (it, b') \<and> start it \<and>
     (\<exists>b''. writeItem0 b' (seq it + 1) (replicate 8 9) 0 = Ret b'' \<and>
        slotData (slot0 b 1) = replicate 8 2 \<and> slotData (slot0 b'' 1) = replicate 8 9)"
proof -
  have "case writeItem0 (snd (tryClaimN0 demoHeld 2)) (seq (fst (tryClaimN0 demoHeld 2)) + 1) (replicate 8 9) 0 of
        Ret b'' \<Rightarrow> slotData (slot0 demoHeld 1) = replicate 8 2 \<and> slotData (slot0 b'' 1) = replicate 8 9 | _ \<Rightarrow> False"
    by code_simp
  then have "\<exists>b''. writeItem0 (snd (tryClaimN0 demoHeld 2)) (seq (fst (tryClaimN0 demoHeld 2)) + 1) (replicate 8 9) 0 = Ret b'' \<and>
        slotData (slot0 demoHeld 1) = replicate 8 2 \<and> slotData (slot0 b'' 1) = replicate 8 9"
    by (simp split: outcome.splits)
  moreover have "start (fst (tryClaimN0 demoHeld 2))" by code_simp
  ultimately show ?thesis using demoHeld_reached by (metis prod.collapse)
qed

end
