(* ===== verification/BlockingBuffer.thy ===== *)
theory BlockingBuffer
  imports LockFreeBufferMisc
begin

text \<open>
  \<^verbatim>\<open>hmbdc/pattern/BlockingBuffer.hpp\<close>: the bounded buffer behind a mutex and two condition
  variables. An operation is its critical section: the predicate it waits for, the update,
  and the condition variable it notifies after releasing the mutex. \<open>Spins\<close> means that the
  predicate is false, so the thread sleeps; theory \<open>BlockingThreads\<close> has the sleeping threads.
\<close>

section \<open>State\<close>

record BlockingBuffer =
  maxItemSize :: u64
  capacity :: u64
  store :: bytes
  bbSize :: u64
  bbSeq :: u64
  outstandingPeekExclusiveSeqs :: "u64 set"
  peekedExclusiveInSize :: u64

text \<open>What a critical section notifies once it has released the mutex.\<close>

datatype notice = NoNotice | NotifyItem | NotifySlot

definition newBlockingBuffer :: "(nat \<Rightarrow> u8) \<Rightarrow> u64 \<Rightarrow> u64 \<Rightarrow> BlockingBuffer" where
  "newBlockingBuffer junk sz cap =
     \<lparr>maxItemSize = sz, capacity = cap, store = map junk [0..<unat (cap * sz)],
      bbSize = 0, bbSeq = 0, outstandingPeekExclusiveSeqs = {}, peekedExclusiveInSize = 0\<rparr>"

text \<open>\<^verbatim>\<open>getItem\<close> as an offset into the store.\<close>

definition getItem :: "BlockingBuffer \<Rightarrow> u64 \<Rightarrow> u64" where
  "getItem b s = (s mod capacity b) * maxItemSize b"

text \<open>Writing \<open>n\<close> bytes of \<open>src\<close> at an offset; past the end of either is undefined.\<close>

definition memcpyAt :: "bytes \<Rightarrow> u64 \<Rightarrow> bytes \<Rightarrow> nat \<Rightarrow> bytes outcome" where
  "memcpyAt dst off src n =
     (if unat off + n \<le> length dst \<and> n \<le> length src
      then Ret (take (unat off) dst @ take n src @ drop (unat off + n) dst) else Undefined)"

definition readAt :: "bytes \<Rightarrow> u64 \<Rightarrow> nat \<Rightarrow> bytes outcome" where
  "readAt src off n =
     (if unat off + n \<le> length src then Ret (take n (drop (unat off) src)) else Undefined)"

definition bbHint :: "BlockingBuffer \<Rightarrow> nat \<Rightarrow> nat" where
  "bbHint b sizeHint = (if sizeHint \<noteq> 0 then sizeHint else unat (maxItemSize b))"

section \<open>Producers\<close>

text \<open>\<^verbatim>\<open>memcpy(getItem(seq_++), item, n)\<close>, also the in-place construction of \<open>n\<close> bytes.\<close>

definition bbWrite :: "BlockingBuffer \<Rightarrow> bytes \<Rightarrow> nat \<Rightarrow> BlockingBuffer outcome" where
  "bbWrite b item n =
     (if capacity b = 0 then Undefined
      else obind (memcpyAt (store b) (getItem b (bbSeq b)) item n)
             (\<lambda>st. Ret (b\<lparr>store := st, bbSeq := bbSeq b + 1\<rparr>)))"

fun bbFill :: "BlockingBuffer \<Rightarrow> bytes list \<Rightarrow> BlockingBuffer outcome" where
  "bbFill b [] = Ret b"
| "bbFill b (x # xs) = obind (bbWrite b x (length x)) (\<lambda>b'. bbFill b' xs)"

text \<open>\<^verbatim>\<open>size_ += n; if (size_ == n) notify\<close>: the buffer was empty before.\<close>

definition bbGrow :: "BlockingBuffer \<Rightarrow> u64 \<Rightarrow> notice \<times> BlockingBuffer" where
  "bbGrow b n = (if bbSize b + n = n then NotifyItem else NoNotice, b\<lparr>bbSize := bbSize b + n\<rparr>)"

definition bbPut :: "BlockingBuffer \<Rightarrow> bytes \<Rightarrow> nat \<Rightarrow> (notice \<times> BlockingBuffer) outcome" where
  "bbPut b item sizeHint =
     (if \<not> capacity b > bbSize b then Spins
      else obind (bbWrite b item (bbHint b sizeHint)) (\<lambda>b'. Ret (bbGrow b' 1)))"

definition bbPutMany :: "BlockingBuffer \<Rightarrow> bytes \<Rightarrow> bytes list \<Rightarrow> (notice \<times> BlockingBuffer) outcome" where
  "bbPutMany b item items =
     (if \<not> capacity b > bbSize b + of_nat (length items) then Spins
      else obind (bbFill b (item # items)) (\<lambda>b'. Ret (bbGrow b' (of_nat (length items + 1)))))"

definition bbTryPutBatch :: "BlockingBuffer \<Rightarrow> bytes list \<Rightarrow> (bool \<times> notice \<times> BlockingBuffer) outcome" where
  "bbTryPutBatch b items =
     (let n = of_nat (length items) in
      if capacity b > bbSize b + n - 1
      then obind (bbFill b items) (\<lambda>b'. Ret (True, bbGrow b' n))
      else Ret (False, NoNotice, b))"

text \<open>\<^verbatim>\<open>tryPutBatchInPlace<Item>\<close> builds each \<^verbatim>\<open>Item\<close> from an element; \<open>mk\<close> is that constructor.\<close>

definition bbTryPutBatchInPlace ::
    "('a \<Rightarrow> bytes) \<Rightarrow> BlockingBuffer \<Rightarrow> 'a list \<Rightarrow> (bool \<times> notice \<times> BlockingBuffer) outcome" where
  "bbTryPutBatchInPlace mk b elems =
     (let n = of_nat (length elems) in
      if capacity b > bbSize b + n - 1
      then obind (bbFill b (map mk elems)) (\<lambda>b'. Ret (True, bbGrow b' n))
      else Ret (False, NoNotice, b))"

definition bbPutInPlace :: "BlockingBuffer \<Rightarrow> bytes \<Rightarrow> (notice \<times> BlockingBuffer) outcome" where
  "bbPutInPlace b obj =
     (if \<not> capacity b > bbSize b then Spins
      else obind (bbWrite b obj (length obj)) (\<lambda>b'. Ret (bbGrow b' 1)))"

definition bbTryPutInPlace :: "BlockingBuffer \<Rightarrow> bytes \<Rightarrow> (bool \<times> notice \<times> BlockingBuffer) outcome" where
  "bbTryPutInPlace b obj =
     (if \<not> capacity b > bbSize b then Ret (False, NoNotice, b)
      else obind (bbWrite b obj (length obj)) (\<lambda>b'. Ret (True, bbGrow b' 1)))"

text \<open>A timed wait that nobody ends returns the predicate, so \<open>tryPut\<close> reports it.\<close>

definition bbTryPut :: "BlockingBuffer \<Rightarrow> bytes \<Rightarrow> nat \<Rightarrow> (bool \<times> notice \<times> BlockingBuffer) outcome" where
  "bbTryPut b item sizeHint =
     (if \<not> capacity b > bbSize b then Ret (False, NoNotice, b)
      else obind (bbWrite b item (bbHint b sizeHint)) (\<lambda>b'. Ret (True, bbGrow b' 1)))"

definition bbIsFull :: "BlockingBuffer \<Rightarrow> bool" where
  "bbIsFull b \<longleftrightarrow> bbSize b = capacity b"

section \<open>Consumers\<close>

definition bbRead :: "BlockingBuffer \<Rightarrow> u64 \<Rightarrow> nat \<Rightarrow> bytes outcome" where
  "bbRead b s n = (if capacity b = 0 then Undefined else readAt (store b) (getItem b s) n)"

text \<open>\<^verbatim>\<open>if (size_-- == capacity_)\<close> notify: the buffer was full before.\<close>

definition bbShrink :: "BlockingBuffer \<Rightarrow> notice \<times> BlockingBuffer" where
  "bbShrink b = (if bbSize b = capacity b then NotifySlot else NoNotice, b\<lparr>bbSize := bbSize b - 1\<rparr>)"

definition bbTake :: "BlockingBuffer \<Rightarrow> nat \<Rightarrow> (bytes \<times> notice \<times> BlockingBuffer) outcome" where
  "bbTake b sizeHint =
     (if bbSize b = 0 then Spins
      else obind (bbRead b (bbSeq b - bbSize b) (bbHint b sizeHint)) (\<lambda>x. Ret (x, bbShrink b)))"

definition bbTryTake :: "BlockingBuffer \<Rightarrow> nat \<Rightarrow> (bytes option \<times> notice \<times> BlockingBuffer) outcome" where
  "bbTryTake b sizeHint =
     (if bbSize b = 0 then Ret (None, NoNotice, b)
      else obind (bbRead b (bbSeq b - bbSize b) (bbHint b sizeHint)) (\<lambda>x. Ret (Some x, bbShrink b)))"

text \<open>\<^verbatim>\<open>take(b, e)\<close> fills up to \<open>room\<close> elements of \<open>elemSize\<close> bytes: the values and what is left.\<close>

fun bbTakeLoop :: "BlockingBuffer \<Rightarrow> u64 \<Rightarrow> nat \<Rightarrow> nat \<Rightarrow> (bytes list \<times> u64) outcome" where
  "bbTakeLoop b s 0 elemSize = Ret ([], s)"
| "bbTakeLoop b s (Suc room) elemSize =
     (if s = 0 then Ret ([], s)
      else obind (bbRead b (bbSeq b - s) (min (unat (maxItemSize b)) elemSize))
             (\<lambda>x. obind (bbTakeLoop b (s - 1) room elemSize) (\<lambda>(xs, s'). Ret (x # xs, s'))))"

definition bbTakeRange :: "BlockingBuffer \<Rightarrow> nat \<Rightarrow> nat \<Rightarrow> (bytes list \<times> u64 \<times> notice \<times> BlockingBuffer) outcome" where
  "bbTakeRange b room elemSize =
     (if bbSize b = 0 then Spins
      else obind (bbTakeLoop b (bbSize b) room elemSize) (\<lambda>(xs, s).
        let ret = bbSize b - s in
        Ret (xs, ret, if s + ret = capacity b then NotifySlot else NoNotice, b\<lparr>bbSize := s\<rparr>)))"

definition bbPeek :: "BlockingBuffer \<Rightarrow> lf_iterator \<times> lf_iterator \<times> u64" where
  "bbPeek b = (iteratorAt (bbSeq b - bbSize b), iteratorAt (bbSeq b), bbSize b)"

text \<open>\<^verbatim>\<open>wasteAfterPeek\<close> notifies first, under the mutex, and then makes the room.\<close>

definition bbWasteAfterPeek :: "BlockingBuffer \<Rightarrow> u64 \<Rightarrow> notice \<times> BlockingBuffer" where
  "bbWasteAfterPeek b len =
     (if bbSize b = capacity b then NotifySlot else NoNotice, b\<lparr>bbSize := bbSize b - len\<rparr>)"

text \<open>The assertion of the other branch holds in debug builds only and has no effect otherwise.\<close>

definition bbPeekExclusive :: "BlockingBuffer \<Rightarrow> lf_iterator \<times> BlockingBuffer" where
  "bbPeekExclusive b =
     (if bbSize b > peekedExclusiveInSize b
      then let s = bbSeq b - (bbSize b - peekedExclusiveInSize b)
           in (iteratorAt s, b\<lparr>peekedExclusiveInSize := peekedExclusiveInSize b + 1,
                outstandingPeekExclusiveSeqs := insert s (outstandingPeekExclusiveSeqs b)\<rparr>)
      else (nullIterator, b))"

text \<open>\<^verbatim>\<open>*begin()\<close> of the ordered set is its least element; of an empty set it is undefined.\<close>

definition bbWasteAfterPeekExclusive :: "BlockingBuffer \<Rightarrow> lf_iterator \<Rightarrow> (notice \<times> BlockingBuffer) outcome" where
  "bbWasteAfterPeekExclusive b it =
     (let out = outstandingPeekExclusiveSeqs b in
      if out = {} then Undefined
      else let seqLow = Min out; out' = out - {seq it}; b' = b\<lparr>outstandingPeekExclusiveSeqs := out'\<rparr> in
        if out' \<noteq> {}
        then let reduction = Min out' - seqLow in
             if reduction \<noteq> 0
             then Ret (if bbSize b = capacity b then NotifySlot else NoNotice,
                    b'\<lparr>bbSize := bbSize b - reduction,
                       peekedExclusiveInSize := peekedExclusiveInSize b - reduction\<rparr>)
             else Ret (NoNotice, b')
        else Ret (if bbSize b = capacity b then NotifySlot else NoNotice,
               b'\<lparr>bbSize := bbSize b - peekedExclusiveInSize b, peekedExclusiveInSize := 0\<rparr>))"

definition bbRemainingSize :: "BlockingBuffer \<Rightarrow> u64" where
  "bbRemainingSize b = bbSize b"

text \<open>\<^verbatim>\<open>reset\<close> forgets the messages; it leaves the exclusive peeks as they are.\<close>

definition bbReset :: "BlockingBuffer \<Rightarrow> notice \<times> BlockingBuffer" where
  "bbReset b = (NotifySlot, b\<lparr>bbSize := 0, bbSeq := 0\<rparr>)"

end
