(* ===== verification/BlockingBufferSpec.thy ===== *)
theory BlockingBufferSpec
  imports BlockingBuffer Fifo RingOperations
begin

text \<open>
  What \<^verbatim>\<open>BlockingBuffer\<close> promises: a bounded queue of messages, whose oldest part can be
  handed out by \<^verbatim>\<open>peekExclusive\<close> and given back in any order.
\<close>

section \<open>Slots of the flat store\<close>

definition sizeN :: "BlockingBuffer \<Rightarrow> nat" where "sizeN b = unat (bbSize b)"
definition seqN :: "BlockingBuffer \<Rightarrow> nat" where "seqN b = unat (bbSeq b)"
definition capN :: "BlockingBuffer \<Rightarrow> nat" where "capN b = unat (capacity b)"
definition itemN :: "BlockingBuffer \<Rightarrow> nat" where "itemN b = unat (maxItemSize b)"

text \<open>The sequence number of the oldest message still in the store.\<close>

definition baseN :: "BlockingBuffer \<Rightarrow> nat" where "baseN b = seqN b - sizeN b"

definition slotAt :: "BlockingBuffer \<Rightarrow> nat \<Rightarrow> bytes" where
  "slotAt b n = take (itemN b) (drop ((n mod capN b) * itemN b) (store b))"

text \<open>Messages are counted up to this bound; the counter never wraps below it.\<close>

definition bb_limit :: nat where "bb_limit = 2 ^ 63"

definition bb_shape :: "BlockingBuffer \<Rightarrow> bool" where
  "bb_shape b \<longleftrightarrow> 0 < capN b \<and> capN b * itemN b < 2 ^ 64 \<and> length (store b) = capN b * itemN b \<and>
     sizeN b \<le> capN b \<and> sizeN b \<le> seqN b \<and> seqN b \<le> bb_limit"

lemma bb_shapeD:
  assumes "bb_shape b"
  shows "0 < capN b" "capN b * itemN b < 2 ^ 64" "length (store b) = capN b * itemN b"
    "sizeN b \<le> capN b" "sizeN b \<le> seqN b" "seqN b \<le> bb_limit" "capacity b \<noteq> 0"
  using assms by (auto simp: bb_shape_def capN_def)

lemma slot_bound:
  assumes "bb_shape b"
  shows "(n mod capN b) * itemN b + itemN b \<le> capN b * itemN b"
proof -
  have "Suc (n mod capN b) \<le> capN b" using bb_shapeD(1) [OF assms] by (simp add: Suc_le_eq)
  then have "Suc (n mod capN b) * itemN b \<le> capN b * itemN b" by (rule mult_le_mono1)
  then show ?thesis by simp
qed

lemma getItem_offset:
  assumes "bb_shape b"
  shows "unat (getItem b s) = (unat s mod capN b) * itemN b"
proof -
  have "(unat s mod capN b) * itemN b < 2 ^ 64"
    using slot_bound [OF assms, of "unat s"] bb_shapeD(2) [OF assms] by linarith
  then have "unat (s mod capacity b) * itemN b < 2 ^ 64"
    by (simp only: unat_mod capN_def)
  then have "unat (getItem b s) = unat (s mod capacity b) * itemN b"
    by (simp add: getItem_def itemN_def unat_word_ariths(2) del: unat_mod)
  then show ?thesis by (simp only: unat_mod capN_def)
qed

lemma length_slotAt: "bb_shape b \<Longrightarrow> length (slotAt b n) = itemN b"
  using slot_bound [of b n] by (simp add: slotAt_def bb_shapeD(3))

text \<open>A write into one slot changes that slot only.\<close>

lemma slots_apart:
  assumes "i < j \<or> j < (i :: nat)" "n \<le> sz"
    "i * sz + n \<le> length xs" "n \<le> length x"
  shows "take sz (drop (j * sz) (take (i * sz) xs @ take n x @ drop (i * sz + n) xs)) =
    take sz (drop (j * sz) xs)"
  using assms(1)
proof
  assume "i < j"
  then have "Suc i * sz \<le> j * sz" by (intro mult_le_mono1) simp
  then have le: "i * sz + n \<le> j * sz" using assms(2) by simp
  then have "drop (j * sz) (take (i * sz) xs @ take n x @ drop (i * sz + n) xs) = drop (j * sz) xs"
    using assms(3,4) \<open>i < j\<close> by (simp add: add.commute)
  then show ?thesis by simp
next
  assume "j < i"
  then have "Suc j * sz \<le> i * sz" by (intro mult_le_mono1) simp
  then have le: "j * sz + sz \<le> i * sz" by simp
  have "sz \<le> i * sz - j * sz" "j * sz \<le> i * sz" using le by linarith+
  moreover have "length (take (i * sz) xs) = i * sz" using assms(3) by simp
  ultimately show ?thesis by (simp add: drop_take del: mult_le_cancel2)
qed

lemma bbWrite_spec:
  assumes "bb_shape b" "n \<le> itemN b" "n \<le> length item" "seqN b < bb_limit"
  obtains b' where "bbWrite b item n = Ret b'" "b' = b\<lparr>store := store b', bbSeq := bbSeq b + 1\<rparr>"
    "length (store b') = length (store b)" "seqN b' = Suc (seqN b)"
    "\<And>m. m mod capN b \<noteq> seqN b mod capN b \<Longrightarrow> slotAt b' m = slotAt b m"
    "slotAt b' (seqN b) = memcpy (slotAt b (seqN b)) item n"
proof -
  let ?o = "(seqN b mod capN b) * itemN b"
  let ?st = "take ?o (store b) @ take n item @ drop (?o + n) (store b)"
  let ?b = "b\<lparr>store := ?st, bbSeq := bbSeq b + 1\<rparr>"
  have bound: "?o + itemN b \<le> length (store b)"
    using slot_bound [OF assms(1)] bb_shapeD(3) [OF assms(1)] by simp
  then have o: "?o + n \<le> length (store b)" using assms(2) by simp
  have "bbWrite b item n = Ret ?b"
    using o assms(3) bb_shapeD(7) [OF assms(1)]
    by (simp add: bbWrite_def memcpyAt_def getItem_offset [OF assms(1)] flip: seqN_def)
  moreover have "seqN ?b = Suc (seqN b)"
    using assms(4) by (simp add: seqN_def bb_limit_def unat_inc)
  moreover have "slotAt ?b m = slotAt b m" if "m mod capN b \<noteq> seqN b mod capN b" for m
  proof -
    have "slotAt ?b m = take (itemN b) (drop ((m mod capN b) * itemN b) ?st)"
      by (simp add: slotAt_def capN_def itemN_def)
    also have "\<dots> = slotAt b m"
      unfolding slotAt_def using that by (intro slots_apart assms(2,3) o) linarith
    finally show ?thesis .
  qed
  moreover have "slotAt ?b (seqN b) = memcpy (slotAt b (seqN b)) item n"
    using o assms(2,3) by (simp add: slotAt_def capN_def itemN_def memcpy_def drop_take add.commute)
  ultimately show ?thesis using o assms(3) by (intro that [of ?b]) simp_all
qed

lemma bbRead_spec:
  assumes "bb_shape b" "n \<le> itemN b"
  shows "bbRead b s n = Ret (take n (slotAt b (unat s)))"
  using slot_bound [OF assms(1), of "unat s"] assms(2) bb_shapeD(3,7) [OF assms(1)]
  by (simp add: bbRead_def readAt_def getItem_offset [OF assms(1)] slotAt_def min_def)

section \<open>Contents and invariant\<close>

text \<open>
  \<open>H\<close>: the sequence numbers handed out by \<^verbatim>\<open>peekExclusive\<close> and not given back; \<open>unreadFrom\<close>
  is the first one never handed out.
\<close>

definition heldN :: "BlockingBuffer \<Rightarrow> nat set" where
  "heldN b = unat ` outstandingPeekExclusiveSeqs b"

definition unreadFrom :: "BlockingBuffer \<Rightarrow> nat" where
  "unreadFrom b = baseN b + unat (peekedExclusiveInSize b)"

definition bbItems :: "BlockingBuffer \<Rightarrow> bytes list" where
  "bbItems b = map (slotAt b) [baseN b ..< seqN b]"

definition bbUnread :: "BlockingBuffer \<Rightarrow> bytes list" where
  "bbUnread b = map (slotAt b) [unreadFrom b ..< seqN b]"

text \<open>The store holds everything from the oldest message still held, and nothing before it.\<close>

definition bb_inv :: "BlockingBuffer \<Rightarrow> bool" where
  "bb_inv b \<longleftrightarrow> bb_shape b \<and> peekedExclusiveInSize b \<le> bbSize b \<and>
     finite (outstandingPeekExclusiveSeqs b) \<and>
     heldN b \<subseteq> {baseN b ..< unreadFrom b} \<and>
     (baseN b < unreadFrom b \<longrightarrow> baseN b \<in> heldN b)"

lemma bb_invD:
  assumes "bb_inv b"
  shows "bb_shape b" "unat (peekedExclusiveInSize b) \<le> sizeN b" "finite (outstandingPeekExclusiveSeqs b)"
    "n \<in> heldN b \<Longrightarrow> baseN b \<le> n \<and> n < unreadFrom b" "baseN b < unreadFrom b \<Longrightarrow> baseN b \<in> heldN b"
    "unreadFrom b \<le> seqN b" "baseN b + sizeN b = seqN b"
  using assms by (auto simp: bb_inv_def sizeN_def word_le_nat_alt baseN_def unreadFrom_def bb_shape_def)

lemma bbItems_length: "bb_shape b \<Longrightarrow> length (bbItems b) = sizeN b"
  using bb_shapeD(5) by (simp add: bbItems_def baseN_def)

lemma bb_room: "bb_shape b \<Longrightarrow> capacity b > bbSize b \<longleftrightarrow> length (bbItems b) < capN b"
  by (simp add: bbItems_length word_less_nat_alt sizeN_def capN_def)

lemma bbGrow_views [simp]:
  "seqN (b\<lparr>bbSize := x\<rparr>) = seqN b" "capN (b\<lparr>bbSize := x\<rparr>) = capN b" "itemN (b\<lparr>bbSize := x\<rparr>) = itemN b"
  "sizeN (b\<lparr>bbSize := x\<rparr>) = unat x" "slotAt (b\<lparr>bbSize := x\<rparr>) n = slotAt b n"
  "heldN (b\<lparr>bbSize := x\<rparr>) = heldN b"
  "seqN (b\<lparr>peekedExclusiveInSize := x\<rparr>) = seqN b" "capN (b\<lparr>peekedExclusiveInSize := x\<rparr>) = capN b"
  "itemN (b\<lparr>peekedExclusiveInSize := x\<rparr>) = itemN b" "sizeN (b\<lparr>peekedExclusiveInSize := x\<rparr>) = sizeN b"
  "slotAt (b\<lparr>peekedExclusiveInSize := x\<rparr>) n = slotAt b n"
  "heldN (b\<lparr>peekedExclusiveInSize := x\<rparr>) = heldN b"
  "seqN (b\<lparr>outstandingPeekExclusiveSeqs := S\<rparr>) = seqN b" "capN (b\<lparr>outstandingPeekExclusiveSeqs := S\<rparr>) = capN b"
  "itemN (b\<lparr>outstandingPeekExclusiveSeqs := S\<rparr>) = itemN b" "sizeN (b\<lparr>outstandingPeekExclusiveSeqs := S\<rparr>) = sizeN b"
  "slotAt (b\<lparr>outstandingPeekExclusiveSeqs := S\<rparr>) n = slotAt b n"
  "heldN (b\<lparr>outstandingPeekExclusiveSeqs := S\<rparr>) = unat ` S"
  by (simp_all add: seqN_def capN_def itemN_def sizeN_def slotAt_def heldN_def)

text \<open>One more message: what every put does once it has room.\<close>

lemma bb_put_step:
  assumes "bb_inv b" "length (bbItems b) < capN b" "n \<le> itemN b" "n \<le> length item" "seqN b < bb_limit"
  obtains b' where "bbWrite b item n = Ret b'" "bb_inv (snd (bbGrow b' 1))"
    "fst (bbGrow b' 1) = (if bbItems b = [] then NotifyItem else NoNotice)"
    "bbItems (snd (bbGrow b' 1)) = bbItems b @ [memcpy (slotAt b (seqN b)) item n]"
    "bbUnread (snd (bbGrow b' 1)) = bbUnread b @ [memcpy (slotAt b (seqN b)) item n]"
    "heldN (snd (bbGrow b' 1)) = heldN b" "seqN (snd (bbGrow b' 1)) = Suc (seqN b)"
    "\<And>m. m \<in> heldN b \<Longrightarrow> slotAt (snd (bbGrow b' 1)) m = slotAt b m"
    "capN (snd (bbGrow b' 1)) = capN b" "itemN (snd (bbGrow b' 1)) = itemN b"
proof -
  note D = bb_invD [OF assms(1)] and sh = bb_shapeD [OF bb_invD(1) [OF assms(1)]]
  obtain b' where W: "bbWrite b item n = Ret b'" "b' = b\<lparr>store := store b', bbSeq := bbSeq b + 1\<rparr>"
    "length (store b') = length (store b)" "seqN b' = Suc (seqN b)"
    "\<And>m. m mod capN b \<noteq> seqN b mod capN b \<Longrightarrow> slotAt b' m = slotAt b m"
    "slotAt b' (seqN b) = memcpy (slotAt b (seqN b)) item n"
    using bbWrite_spec [OF D(1) assms(3,4,5)] by blast
  have F: "bbSize b' = bbSize b" "capacity b' = capacity b" "maxItemSize b' = maxItemSize b"
    "peekedExclusiveInSize b' = peekedExclusiveInSize b"
    "outstandingPeekExclusiveSeqs b' = outstandingPeekExclusiveSeqs b"
    by (subst W(2), simp)+
  let ?b = "snd (bbGrow b' 1)"
  have room: "sizeN b < capN b" using assms(2) bbItems_length [OF D(1)] by simp
  have s1: "unat (bbSize b + 1) = Suc (sizeN b)"
  proof -
    have "Suc (unat (bbSize b)) < 2 ^ 64"
      using room unat_u64_lt [of "capacity b"] unfolding capN_def sizeN_def by linarith
    then show ?thesis by (simp add: unat_inc sizeN_def)
  qed
  have V: "capN ?b = capN b" "itemN ?b = itemN b" "sizeN ?b = Suc (sizeN b)" "seqN ?b = Suc (seqN b)"
    "heldN ?b = heldN b" "length (store ?b) = length (store b)"
    "outstandingPeekExclusiveSeqs ?b = outstandingPeekExclusiveSeqs b"
    using W(3,4) s1 by (simp_all add: bbGrow_def F capN_def itemN_def heldN_def)
  have base: "baseN ?b = baseN b" "unreadFrom ?b = unreadFrom b"
    using V by (simp_all add: baseN_def unreadFrom_def bbGrow_def F)
  have keep: "slotAt ?b m = slotAt b m" if "baseN b \<le> m" "m < seqN b" for m
  proof -
    have "m mod capN b \<noteq> seqN b mod capN b"
      using window_mod_inj [of "baseN b" m "capN b" "seqN b"] that room D(7) by linarith
    then show ?thesis using W(5) by (simp add: bbGrow_def)
  qed
  have new: "slotAt ?b (seqN b) = memcpy (slotAt b (seqN b)) item n"
    using W(6) by (simp add: bbGrow_def)
  have shape: "bb_shape ?b"
    using sh room assms(5) unfolding bb_shape_def V by (simp add: V)
  have inv: "bb_inv ?b"
    unfolding bb_inv_def V base using shape D
    by (auto simp: bbGrow_def F word_le_nat_alt s1 sizeN_def)
  have "bbItems ?b = bbItems b @ [memcpy (slotAt b (seqN b)) item n]"
    using keep new D(7) by (simp add: bbItems_def V base)
  moreover have "bbUnread ?b = bbUnread b @ [memcpy (slotAt b (seqN b)) item n]"
    using keep new D(6) by (simp add: bbUnread_def V base) (simp add: unreadFrom_def)
  moreover have "fst (bbGrow b' 1) = (if bbItems b = [] then NotifyItem else NoNotice)"
  proof -
    have "bbSize b + 1 = 1 \<longleftrightarrow> sizeN b = 0" by (simp add: sizeN_def unat_eq_0)
    then show ?thesis using bbItems_length [OF D(1)] by (auto simp: bbGrow_def F)
  qed
  moreover have "slotAt ?b m = slotAt b m" if "m \<in> heldN b" for m
    using D(4) [OF that] D(6) by (intro keep) auto
  ultimately show ?thesis using W(1) inv V by (intro that [of b']) auto
qed

section \<open>Several messages at once\<close>

lemma bbWrite_size:
  "bbWrite (b\<lparr>bbSize := x\<rparr>) item n = obind (bbWrite b item n) (\<lambda>b'. Ret (b'\<lparr>bbSize := x\<rparr>))"
  by (cases "memcpyAt (store b) (getItem b (bbSeq b)) item n") (simp_all add: bbWrite_def getItem_def)

lemma bbFill_size:
  "bbFill (b\<lparr>bbSize := x\<rparr>) xs = obind (bbFill b xs) (\<lambda>b'. Ret (b'\<lparr>bbSize := x\<rparr>))"
proof (induction xs arbitrary: b)
  case (Cons y ys)
  show ?case by (cases "bbWrite b y (length y)") (simp_all add: bbWrite_size Cons.IH)
qed simp

lemma bbWrite_keeps_size: "bbWrite b item n = Ret b' \<Longrightarrow> bbSize b' = bbSize b"
  by (auto simp: bbWrite_def obind_Ret_iff split: if_splits)

lemma bbFill_keeps_size: "bbFill b xs = Ret b' \<Longrightarrow> bbSize b' = bbSize b"
  by (induction xs arbitrary: b) (auto simp: obind_Ret_iff dest: bbWrite_keeps_size)

lemma bb_fill_step:
  assumes "bb_inv b" "length (bbItems b) + length xs \<le> capN b" "\<forall>x \<in> set xs. length x = itemN b"
    "seqN b + length xs \<le> bb_limit"
  shows "\<exists>b'. bbFill b xs = Ret b' \<and> bbSize b' = bbSize b \<and>
     (let c = b'\<lparr>bbSize := bbSize b + of_nat (length xs)\<rparr> in
      bb_inv c \<and> bbItems c = bbItems b @ xs \<and> bbUnread c = bbUnread b @ xs \<and> heldN c = heldN b \<and>
      capN c = capN b \<and> itemN c = itemN b \<and> seqN c = seqN b + length xs \<and>
      (\<forall>m \<in> heldN b. slotAt c m = slotAt b m))"
  using assms
proof (induction xs arbitrary: b)
  case Nil
  then show ?case by (simp add: Let_def)
next
  case (Cons x xs)
  have pre: "length (bbItems b) < capN b" "itemN b \<le> itemN b" "itemN b \<le> length x" "seqN b < bb_limit"
    and x: "length x = itemN b" using Cons.prems by simp_all
  obtain b1 where W: "bbWrite b x (itemN b) = Ret b1" "bb_inv (snd (bbGrow b1 1))"
    "bbItems (snd (bbGrow b1 1)) = bbItems b @ [memcpy (slotAt b (seqN b)) x (itemN b)]"
    "bbUnread (snd (bbGrow b1 1)) = bbUnread b @ [memcpy (slotAt b (seqN b)) x (itemN b)]"
    "heldN (snd (bbGrow b1 1)) = heldN b" "seqN (snd (bbGrow b1 1)) = Suc (seqN b)"
    "\<And>m. m \<in> heldN b \<Longrightarrow> slotAt (snd (bbGrow b1 1)) m = slotAt b m"
    "capN (snd (bbGrow b1 1)) = capN b" "itemN (snd (bbGrow b1 1)) = itemN b"
    using bb_put_step [OF Cons.prems(1) pre] by metis
  have sz: "bbSize b1 = bbSize b"
    using W(1) by (rule bbWrite_keeps_size)
  let ?c = "b1\<lparr>bbSize := bbSize b + 1\<rparr>"
  have c: "snd (bbGrow b1 1) = ?c" by (simp add: bbGrow_def sz)
  have "memcpy (slotAt b (seqN b)) x (itemN b) = x"
    using x length_slotAt [OF bb_invD(1) [OF Cons.prems(1)]] by (simp add: memcpy_def)
  note W = W [unfolded c this]
  have "bb_inv ?c" "length (bbItems ?c) + length xs \<le> capN ?c" "\<forall>y \<in> set xs. length y = itemN ?c"
    "seqN ?c + length xs \<le> bb_limit" using W Cons.prems by simp_all
  from Cons.IH [OF this] obtain b2 where F: "bbFill ?c xs = Ret b2" "bbSize b2 = bbSize ?c"
    and R: "let d = b2\<lparr>bbSize := bbSize ?c + of_nat (length xs)\<rparr> in
      bb_inv d \<and> bbItems d = bbItems ?c @ xs \<and> bbUnread d = bbUnread ?c @ xs \<and> heldN d = heldN ?c \<and>
      capN d = capN ?c \<and> itemN d = itemN ?c \<and> seqN d = seqN ?c + length xs \<and>
      (\<forall>m \<in> heldN ?c. slotAt d m = slotAt ?c m)" by blast
  from F(1) obtain b3 where b3: "bbFill b1 xs = Ret b3" "b2 = b3\<lparr>bbSize := bbSize b + 1\<rparr>"
    by (auto simp: bbFill_size obind_Ret_iff)
  have sz3: "bbSize b3 = bbSize b"
    using bbFill_keeps_size [OF b3(1)] sz by simp
  have "bbFill b (x # xs) = Ret b3" using W(1) b3(1) by (simp add: x)
  moreover have "b2\<lparr>bbSize := bbSize ?c + of_nat (length xs)\<rparr> =
      b3\<lparr>bbSize := bbSize b + of_nat (length (x # xs))\<rparr>" by (simp add: b3(2) add.assoc)
  ultimately show ?case using R W sz3 by (auto simp: Let_def)
qed

section \<open>Taking\<close>

text \<open>No exclusive peek is outstanding, as the other ways to read require.\<close>

definition noPeeks :: "BlockingBuffer \<Rightarrow> bool" where
  "noPeeks b \<longleftrightarrow> peekedExclusiveInSize b = 0"

lemma noPeeks_held: "bb_inv b \<Longrightarrow> noPeeks b \<Longrightarrow> heldN b = {} \<and> unreadFrom b = baseN b"
  by (auto simp: bb_inv_def noPeeks_def unreadFrom_def)

lemma bbItems_Cons:
  "bb_shape b \<Longrightarrow> sizeN b \<noteq> 0 \<Longrightarrow> bbItems b = slotAt b (baseN b) # map (slotAt b) [Suc (baseN b) ..< seqN b]"
  using bb_shapeD(5) [of b] by (simp add: bbItems_def baseN_def upt_conv_Cons)

lemma bb_oldest:
  assumes "bb_shape b"
  shows "unat (bbSeq b - bbSize b) = baseN b"
  using bb_shapeD(5) [OF assms] by (simp add: unat_sub word_le_nat_alt baseN_def seqN_def sizeN_def)

text \<open>Removing the \<open>k\<close> oldest messages.\<close>

lemma bb_shrink_step:
  assumes "bb_inv b" "noPeeks b" "k \<le> length (bbItems b)" "unat x = sizeN b - k"
  shows "bb_inv (b\<lparr>bbSize := x\<rparr>)" "bbItems (b\<lparr>bbSize := x\<rparr>) = drop k (bbItems b)"
    "noPeeks (b\<lparr>bbSize := x\<rparr>)"
proof -
  note D = bb_invD [OF assms(1)] and N = noPeeks_held [OF assms(1,2)]
  let ?b = "b\<lparr>bbSize := x\<rparr>"
  have k: "k \<le> sizeN b" using assms(3) bbItems_length [OF D(1)] by simp
  have base: "baseN ?b = baseN b + k" using k D(7) by (simp add: baseN_def assms(4))
  show np: "noPeeks ?b" using assms(2) by (simp add: noPeeks_def)
  have out: "outstandingPeekExclusiveSeqs b = {}" using N by (simp add: heldN_def)
  have p0: "peekedExclusiveInSize b = 0" using assms(2) by (simp add: noPeeks_def)
  have "bb_shape ?b" using D(1) k by (auto simp: bb_shape_def assms(4))
  then show "bb_inv ?b"
    using N by (simp add: bb_inv_def out p0 unreadFrom_def)
  show "bbItems ?b = drop k (bbItems b)" by (simp add: bbItems_def base drop_map)
qed

lemma bbTryTake_spec:
  assumes "bb_inv b" "noPeeks b"
  shows "\<exists>nt b'. bbTryTake b 0 = Ret (case bbItems b of [] \<Rightarrow> None | y # _ \<Rightarrow> Some y, nt, b') \<and>
     bb_inv b' \<and> noPeeks b' \<and> bbItems b' = tl (bbItems b) \<and>
     nt = (if length (bbItems b) = capN b then NotifySlot else NoNotice) \<and>
     seqN b' = seqN b \<and> capN b' = capN b \<and> itemN b' = itemN b"
proof (cases "bbSize b = 0")
  case True
  note D = bb_invD [OF assms(1)]
  have "bbItems b = []" using bbItems_length [OF D(1)] True by (simp add: sizeN_def)
  then show ?thesis using True assms bb_shapeD(1) [OF D(1)] by (simp add: bbTryTake_def)
next
  case False
  note D = bb_invD [OF assms(1)]
  have s: "sizeN b \<noteq> 0" using False by (simp add: sizeN_def unat_eq_0)
  have n: "bbItems b \<noteq> []" using bbItems_length [OF D(1)] s by auto
  have le: "bbHint b 0 \<le> itemN b" by (simp add: bbHint_def itemN_def)
  have "bbRead b (bbSeq b - bbSize b) (bbHint b 0) = Ret (slotAt b (baseN b))"
    using bbRead_spec [OF D(1) le] length_slotAt [OF D(1)]
    by (simp add: bb_oldest [OF D(1)] bbHint_def flip: itemN_def)
  then have t: "bbTryTake b 0 = Ret (Some (hd (bbItems b)), bbShrink b)"
    using False bbItems_Cons [OF D(1) s] by (simp add: bbTryTake_def)
  have x: "unat (bbSize b - 1) = sizeN b - 1"
    using False by (simp add: sizeN_def unat_minus_one)
  have "1 \<le> length (bbItems b)" using n by (cases "bbItems b") simp_all
  note S = bb_shrink_step [OF assms this x]
  have f: "fst (bbShrink b) = (if length (bbItems b) = capN b then NotifySlot else NoNotice)"
    using bbItems_length [OF D(1)] by (simp add: bbShrink_def capN_def sizeN_def word_unat_eq_iff)
  have "bbShrink b = (fst (bbShrink b), b\<lparr>bbSize := bbSize b - 1\<rparr>)" by (simp add: bbShrink_def)
  then show ?thesis using t n S f by (cases "bbItems b") (auto simp: drop_Suc)
qed

section \<open>The exclusive peeks\<close>

lemma bbPeekExclusive_empty:
  assumes "bb_inv b" "bbUnread b = []"
  shows "bbPeekExclusive b = (nullIterator, b)"
proof -
  note D = bb_invD [OF assms(1)]
  have "sizeN b \<le> unat (peekedExclusiveInSize b)"
    using assms(2) D(7) by (simp add: bbUnread_def unreadFrom_def) (use D in linarith)
  then show ?thesis by (simp add: bbPeekExclusive_def word_less_nat_alt sizeN_def)
qed

lemma bbPeekExclusive_some:
  assumes "bb_inv b" "bbUnread b \<noteq> []"
  obtains s b' where "bbPeekExclusive b = (iteratorAt s, b')" "unat s = unreadFrom b"
    "slotAt b (unat s) = hd (bbUnread b)" "bb_inv b'" "heldN b' = insert (unat s) (heldN b)"
    "unat s \<notin> heldN b" "bbUnread b' = tl (bbUnread b)" "\<And>m. slotAt b' m = slotAt b m"
    "seqN b' = seqN b" "capN b' = capN b"
proof -
  note D = bb_invD [OF assms(1)]
  let ?p = "peekedExclusiveInSize b"
  let ?s = "bbSeq b - (bbSize b - ?p)"
  let ?b = "b\<lparr>peekedExclusiveInSize := ?p + 1, outstandingPeekExclusiveSeqs := insert ?s (outstandingPeekExclusiveSeqs b)\<rparr>"
  have lt: "unreadFrom b < seqN b" using assms(2) D(6) by (auto simp: bbUnread_def)
  then have pl: "unat ?p < sizeN b" using D(7) by (simp add: unreadFrom_def)
  have d: "unat (bbSize b - ?p) = sizeN b - unat ?p"
    using pl by (simp add: unat_sub word_le_nat_alt sizeN_def)
  have "unat ?s = seqN b - (sizeN b - unat ?p)"
    using d D(7) pl by (simp add: unat_sub word_le_nat_alt seqN_def)
  then have s: "unat ?s = unreadFrom b" using D(7) pl by (simp add: unreadFrom_def)
  have p1: "unat (?p + 1) = Suc (unat ?p)"
  proof -
    have "Suc (unat ?p) < 2 ^ 64"
      using pl unat_u64_lt [of "bbSize b"] unfolding sizeN_def by linarith
    then show ?thesis by (rule unat_inc)
  qed
  have r: "bbPeekExclusive b = (iteratorAt ?s, ?b)"
    using pl by (simp add: bbPeekExclusive_def word_less_nat_alt sizeN_def Let_def)
  have base: "baseN ?b = baseN b" "unreadFrom ?b = Suc (unreadFrom b)"
    by (simp_all add: baseN_def unreadFrom_def p1)
  have h: "heldN ?b = insert (unreadFrom b) (heldN b)" by (simp add: s heldN_def)
  have le: "baseN b \<le> unreadFrom b" by (simp add: unreadFrom_def)
  have "bb_inv ?b"
    unfolding bb_inv_def base h
  proof (intro conjI)
    show "bb_shape ?b" using D(1) by (simp add: bb_shape_def)
    show "peekedExclusiveInSize ?b \<le> bbSize ?b" using pl p1 by (simp add: word_le_nat_alt sizeN_def)
    show "finite (outstandingPeekExclusiveSeqs ?b)" using D(3) by simp
    show "insert (unreadFrom b) (heldN b) \<subseteq> {baseN b ..< Suc (unreadFrom b)}"
      using D(4) le by fastforce
    show "baseN b < Suc (unreadFrom b) \<longrightarrow> baseN b \<in> insert (unreadFrom b) (heldN b)"
      using D(5) by (auto simp: less_Suc_eq)
  qed
  moreover have "bbUnread ?b = tl (bbUnread b)" "slotAt b (unat ?s) = hd (bbUnread b)"
    using lt by (simp_all add: bbUnread_def base upt_conv_Cons s)
  moreover have "unat ?s \<notin> heldN b" using D(4) s by force
  ultimately show ?thesis using r s h by (intro that [of ?s ?b]) simp_all
qed

lemma unat_Min:
  assumes "finite S" "S \<noteq> {}"
  shows "unat (Min S) = Min (unat ` (S :: u64 set))"
  by (rule mono_Min_commute [OF _ assms]) (simp add: mono_def word_le_nat_alt)

text \<open>Moving the oldest held message up by \<open>d\<close>.\<close>

lemma bb_release:
  assumes "bb_inv b" "finite S" "unat ` S \<subseteq> {baseN b + d ..< unreadFrom b}"
    "baseN b + d \<le> unreadFrom b" "baseN b + d < unreadFrom b \<longrightarrow> baseN b + d \<in> unat ` S"
    "unat x = sizeN b - d" "unat y = unat (peekedExclusiveInSize b) - d"
  defines "b' \<equiv> b\<lparr>outstandingPeekExclusiveSeqs := S, bbSize := x, peekedExclusiveInSize := y\<rparr>"
  shows "bb_inv b'" "bbUnread b' = bbUnread b" "baseN b' = baseN b + d" "unreadFrom b' = unreadFrom b"
    "slotAt b' m = slotAt b m" "heldN b' = unat ` S"
proof -
  note D = bb_invD [OF assms(1)]
  have d: "d \<le> unat (peekedExclusiveInSize b)" using assms(4) by (simp add: unreadFrom_def)
  then have ds: "d \<le> sizeN b" using D(2) by linarith
  show base: "baseN b' = baseN b + d"
    using D(7) ds by (simp add: baseN_def b'_def assms(6))
  have p: "peekedExclusiveInSize b' = y" by (simp add: b'_def)
  show un: "unreadFrom b' = unreadFrom b"
    using base d by (simp add: unreadFrom_def p assms(7))
  show sl: "slotAt b' m = slotAt b m" for m by (simp add: b'_def)
  show h: "heldN b' = unat ` S" by (simp add: b'_def)
  show "bbUnread b' = bbUnread b" by (simp add: bbUnread_def un sl) (simp add: b'_def)
  have "bb_shape b'"
    using D(1) ds by (auto simp: bb_shape_def b'_def assms(6))
  moreover have "peekedExclusiveInSize b' \<le> bbSize b'"
    using D(2) ds by (simp add: b'_def word_le_nat_alt assms(6,7))
  moreover have "finite (outstandingPeekExclusiveSeqs b')" using assms(2) by (simp add: b'_def)
  ultimately show "bb_inv b'"
    unfolding bb_inv_def base un h using assms(3,5) by blast
qed

lemma bbWasteAfterPeekExclusive_spec:
  assumes "bb_inv b" "unat (seq it) \<in> heldN b"
  obtains nt b' where "bbWasteAfterPeekExclusive b it = Ret (nt, b')" "bb_inv b'"
    "heldN b' = heldN b - {unat (seq it)}" "bbUnread b' = bbUnread b" "\<And>m. slotAt b' m = slotAt b m"
    "unreadFrom b' = unreadFrom b" "baseN b \<le> baseN b'"
    "nt = (if baseN b < baseN b' \<and> sizeN b = capN b then NotifySlot else NoNotice)"
proof -
  note D = bb_invD [OF assms(1)]
  let ?out = "outstandingPeekExclusiveSeqs b"
  let ?out' = "?out - {seq it}"
  let ?p = "peekedExclusiveInSize b"
  have it: "seq it \<in> ?out" using assms(2) by (auto simp: heldN_def simp flip: word_unat_eq_iff)
  then have ne: "?out \<noteq> {}" by blast
  have h': "unat ` ?out' = heldN b - {unat (seq it)}"
    by (auto simp: heldN_def word_unat_eq_iff)
  have un: "baseN b < unreadFrom b" using D(4) [OF assms(2)] by linarith
  have low: "unat (Min ?out) = baseN b"
    unfolding unat_Min [OF D(3) ne]
  proof (rule Min_eqI)
    show "finite (unat ` ?out)" using D(3) by simp
    show "\<And>n. n \<in> unat ` ?out \<Longrightarrow> baseN b \<le> n" using D(4) by (auto simp: heldN_def)
    show "baseN b \<in> unat ` ?out" using D(5) [OF un] by (simp add: heldN_def)
  qed
  have full: "bbSize b = capacity b \<longleftrightarrow> sizeN b = capN b"
    by (simp add: sizeN_def capN_def word_unat_eq_iff)
  show ?thesis
  proof (cases "?out' = {}")
    case True
    have u: "unat (bbSize b - ?p) = sizeN b - unat ?p"
      using D(2) by (simp add: unat_sub word_le_nat_alt sizeN_def)
    have e: "baseN b + unat ?p = unreadFrom b" by (simp add: unreadFrom_def)
    note R = bb_release [OF assms(1), of "{}" "unat ?p" "bbSize b - ?p" 0]
    have R: "bb_inv (b\<lparr>outstandingPeekExclusiveSeqs := {}, bbSize := bbSize b - ?p, peekedExclusiveInSize := 0\<rparr>)"
      "bbUnread (b\<lparr>outstandingPeekExclusiveSeqs := {}, bbSize := bbSize b - ?p, peekedExclusiveInSize := 0\<rparr>) = bbUnread b"
      "baseN (b\<lparr>outstandingPeekExclusiveSeqs := {}, bbSize := bbSize b - ?p, peekedExclusiveInSize := 0\<rparr>) = unreadFrom b"
      "unreadFrom (b\<lparr>outstandingPeekExclusiveSeqs := {}, bbSize := bbSize b - ?p, peekedExclusiveInSize := 0\<rparr>) = unreadFrom b"
      using R(1-4) u e by simp_all
    have r: "bbWasteAfterPeekExclusive b it = Ret (if bbSize b = capacity b then NotifySlot else NoNotice,
        b\<lparr>outstandingPeekExclusiveSeqs := {}, bbSize := bbSize b - ?p, peekedExclusiveInSize := 0\<rparr>)"
      using True ne by (simp add: bbWasteAfterPeekExclusive_def Let_def)
    have "heldN b - {unat (seq it)} = {}" using h' True by auto
    then show ?thesis
      by (intro that [OF r R(1)]) (use R un in \<open>simp_all add: full\<close>)
  next
    case False
    define m where "m = unat (Min ?out')"
    have m: "m \<in> unat ` ?out'" "\<And>n. n \<in> unat ` ?out' \<Longrightarrow> m \<le> n"
      using D(3) False unat_Min [of ?out'] by (simp_all add: m_def)
    then have mh: "baseN b \<le> m" "m < unreadFrom b" using D(4) h' by auto
    let ?d = "Min ?out' - Min ?out"
    have d: "unat ?d = m - baseN b"
      using mh low by (simp add: unat_sub word_le_nat_alt m_def)
    have dl: "m - baseN b < unat ?p" using mh by (simp add: unreadFrom_def)
    have u: "unat (bbSize b - ?d) = sizeN b - (m - baseN b)" "unat (?p - ?d) = unat ?p - (m - baseN b)"
      using dl D(2) d by (simp_all add: unat_sub word_le_nat_alt sizeN_def)
    have sub: "unat ` ?out' \<subseteq> {baseN b + (m - baseN b) ..< unreadFrom b}"
      using m(2) mh D(4) h' by force
    have R: "bb_inv (b\<lparr>outstandingPeekExclusiveSeqs := ?out', bbSize := bbSize b - ?d, peekedExclusiveInSize := ?p - ?d\<rparr>)"
      "bbUnread (b\<lparr>outstandingPeekExclusiveSeqs := ?out', bbSize := bbSize b - ?d, peekedExclusiveInSize := ?p - ?d\<rparr>) = bbUnread b"
      "baseN (b\<lparr>outstandingPeekExclusiveSeqs := ?out', bbSize := bbSize b - ?d, peekedExclusiveInSize := ?p - ?d\<rparr>) = m"
      "unreadFrom (b\<lparr>outstandingPeekExclusiveSeqs := ?out', bbSize := bbSize b - ?d, peekedExclusiveInSize := ?p - ?d\<rparr>) = unreadFrom b"
      using bb_release(1-4) [OF assms(1) _ sub _ _ u] mh D(3) m(1) by simp_all
    have z: "?d = 0 \<longleftrightarrow> m = baseN b" using d mh unat_eq_0 [of ?d] by linarith
    have r: "bbWasteAfterPeekExclusive b it = Ret (if ?d \<noteq> 0 \<and> bbSize b = capacity b then NotifySlot else NoNotice,
        b\<lparr>outstandingPeekExclusiveSeqs := ?out', bbSize := bbSize b - ?d, peekedExclusiveInSize := ?p - ?d\<rparr>)"
      using False ne by (simp add: bbWasteAfterPeekExclusive_def Let_def)
    show ?thesis
      by (intro that [OF r R(1)]) (use R mh h' z in \<open>auto simp: full\<close>)
  qed
qed

section \<open>Construction, reset, and the buffer as a fifo\<close>

lemma newBlockingBuffer_spec:
  assumes "0 < unat cap" "unat cap * unat sz < 2 ^ 64"
  shows "bb_inv (newBlockingBuffer junk sz cap)" "bbItems (newBlockingBuffer junk sz cap) = []"
    "noPeeks (newBlockingBuffer junk sz cap)" "capN (newBlockingBuffer junk sz cap) = unat cap"
    "itemN (newBlockingBuffer junk sz cap) = unat sz" "seqN (newBlockingBuffer junk sz cap) = 0"
proof -
  let ?b = "newBlockingBuffer junk sz cap"
  have "unat (cap * sz) = unat cap * unat sz" using assms(2) by (simp add: unat_word_ariths)
  then have "bb_shape ?b"
    using assms by (simp add: bb_shape_def newBlockingBuffer_def capN_def itemN_def sizeN_def seqN_def)
  then show "bb_inv ?b"
    by (simp add: bb_inv_def newBlockingBuffer_def heldN_def baseN_def unreadFrom_def)
  show "bbItems ?b = []" "noPeeks ?b" "capN ?b = unat cap" "itemN ?b = unat sz" "seqN ?b = 0"
    by (simp_all add: newBlockingBuffer_def bbItems_def baseN_def seqN_def noPeeks_def capN_def itemN_def)
qed

definition bbOk :: "nat \<Rightarrow> nat \<Rightarrow> BlockingBuffer \<Rightarrow> bool" where
  "bbOk cap sz b \<longleftrightarrow> bb_inv b \<and> noPeeks b \<and> capN b = cap \<and> itemN b = sz"

text \<open>What a client sees of \<^verbatim>\<open>tryPut\<close> and \<^verbatim>\<open>tryTake\<close>: the notification goes to other threads.\<close>

definition bbEnq :: "BlockingBuffer \<Rightarrow> bytes \<Rightarrow> (bool \<times> BlockingBuffer) outcome" where
  "bbEnq b x = obind (bbTryPut b x 0) (\<lambda>(ok, nt, b'). Ret (ok, b'))"

definition bbDeq :: "BlockingBuffer \<Rightarrow> (bytes option \<times> BlockingBuffer) outcome" where
  "bbDeq b = obind (bbTryTake b 0) (\<lambda>(x, nt, b'). Ret (x, b'))"

lemma bbTryPut_spec:
  assumes "bb_inv b" "noPeeks b" "length x = itemN b" "seqN b < bb_limit"
  shows "\<exists>nt b'. bbTryPut b x 0 = Ret (length (bbItems b) < capN b, nt, b') \<and> bb_inv b' \<and> noPeeks b' \<and>
     bbItems b' = (if length (bbItems b) < capN b then bbItems b @ [x] else bbItems b) \<and>
     nt = (if bbItems b = [] then NotifyItem else NoNotice) \<and>
     seqN b' \<le> Suc (seqN b) \<and> capN b' = capN b \<and> itemN b' = itemN b"
proof (cases "length (bbItems b) < capN b")
  case False
  have "bbItems b \<noteq> []" using False bb_shapeD(1) [OF bb_invD(1) [OF assms(1)]] by auto
  then show ?thesis using False assms bb_room [OF bb_invD(1) [OF assms(1)]] by (simp add: bbTryPut_def)
next
  case True
  have pre: "itemN b \<le> itemN b" "itemN b \<le> length x" using assms(3) by simp_all
  obtain b' where P: "bbWrite b x (itemN b) = Ret b'" "bb_inv (snd (bbGrow b' 1))"
    "fst (bbGrow b' 1) = (if bbItems b = [] then NotifyItem else NoNotice)"
    "bbItems (snd (bbGrow b' 1)) = bbItems b @ [memcpy (slotAt b (seqN b)) x (itemN b)]"
    "seqN (snd (bbGrow b' 1)) = Suc (seqN b)"
    "capN (snd (bbGrow b' 1)) = capN b" "itemN (snd (bbGrow b' 1)) = itemN b"
    using bb_put_step [OF assms(1) True pre assms(4)] by metis
  have "memcpy (slotAt b (seqN b)) x (itemN b) = x"
    using assms(3) length_slotAt [OF bb_invD(1) [OF assms(1)]] by (simp add: memcpy_def)
  moreover have "peekedExclusiveInSize (snd (bbGrow b' 1)) = peekedExclusiveInSize b"
    using P(1) by (auto simp: bbWrite_def obind_Ret_iff bbGrow_def split: if_splits)
  then have "noPeeks (snd (bbGrow b' 1))" using assms(2) by (simp add: noPeeks_def)
  moreover have "bbTryPut b x 0 = Ret (True, fst (bbGrow b' 1), snd (bbGrow b' 1))"
    using True P(1) bb_room [OF bb_invD(1) [OF assms(1)]]
    by (simp add: bbTryPut_def bbHint_def flip: itemN_def)
  ultimately show ?thesis using P True by auto
qed

interpretation blocking: fifo "bbOk cap sz" bbItems seqN bb_limit cap "\<lambda>x. length x = sz" bbEnq bbDeq
proof
  fix b and x :: bytes
  assume "bbOk cap sz b" "length x = sz" "seqN b < bb_limit"
  then show "\<exists>s'. bbEnq b x = Ret (length (bbItems b) < cap, s') \<and> bbOk cap sz s' \<and> seqN s' \<le> Suc (seqN b) \<and>
      bbItems s' = (if length (bbItems b) < cap then bbItems b @ [x] else bbItems b)"
    using bbTryPut_spec [of b x] by (auto simp: bbOk_def bbEnq_def)
next
  fix b
  assume "bbOk cap sz b"
  then show "\<exists>s'. bbDeq b = Ret (case bbItems b of [] \<Rightarrow> None | y # _ \<Rightarrow> Some y, s') \<and> bbOk cap sz s' \<and>
      seqN s' \<le> Suc (seqN b) \<and> bbItems s' = tl (bbItems b)"
    using bbTryTake_spec [of b] by (auto simp: bbOk_def bbDeq_def)
next
  fix b
  assume "bbOk cap sz b"
  then show "length (bbItems b) \<le> cap"
    using bbItems_length [of b] bb_shapeD(4) [of b] by (simp add: bbOk_def bb_inv_def)
qed

end
