(* ===== verification/BlockingThreads.thy ===== *)
theory BlockingThreads
  imports BlockingBufferSpec
begin

text \<open>
  Threads over a \<^verbatim>\<open>BlockingBuffer\<close>: critical sections are atomic, a thread whose predicate is
  false sleeps on its condition variable, and a notification is sent after the mutex is
  released, so other threads can run in between. Spurious wake-ups are a step of their own.
\<close>

section \<open>Threads and steps\<close>

datatype request = RPut bytes "bytes list" | RTake

datatype thread =
    Idle
  | Trying request   \<comment> \<open>about to test the predicate\<close>
  | Asleep request
  | Notifying notice \<comment> \<open>has released the mutex\<close>

record bb_sys =
  buf :: BlockingBuffer
  threads :: "nat \<Rightarrow> thread"

definition init_bb :: "BlockingBuffer \<Rightarrow> bb_sys" where
  "init_bb b = \<lparr>buf = b, threads = (\<lambda>_. Idle)\<rparr>"

text \<open>The critical section of a request.\<close>

fun attempt :: "BlockingBuffer \<Rightarrow> request \<Rightarrow> (notice \<times> BlockingBuffer) outcome" where
  "attempt b (RPut x []) = bbPutInPlace b x"
| "attempt b (RPut x (y # ys)) = bbPutMany b x (y # ys)"
| "attempt b RTake = obind (bbTake b 0) (\<lambda>(_, nb). Ret nb)"

text \<open>\<^verbatim>\<open>notify_all\<close> on a condition variable.\<close>

fun wakes :: "notice \<Rightarrow> request \<Rightarrow> bool" where
  "wakes NotifyItem RTake = True"
| "wakes NotifySlot (RPut x xs) = True"
| "wakes _ _ = False"

fun wake :: "notice \<Rightarrow> thread \<Rightarrow> thread" where
  "wake n (Asleep q) = (if wakes n q then Trying q else Asleep q)"
| "wake n th = th"

inductive bb_step :: "request set \<Rightarrow> bool \<Rightarrow> bb_sys \<Rightarrow> bb_sys \<Rightarrow> bool" for Q spurious where
  bb_begin: "threads s t = Idle \<Longrightarrow> q \<in> Q \<Longrightarrow> bb_step Q spurious s (s\<lparr>threads := (threads s)(t := Trying q)\<rparr>)"
| bb_done: "threads s t = Trying q \<Longrightarrow> attempt (buf s) q = Ret (n, b') \<Longrightarrow>
     bb_step Q spurious s (s\<lparr>buf := b',
       threads := (threads s)(t := (if n = NoNotice then Idle else Notifying n))\<rparr>)"
| bb_sleep: "threads s t = Trying q \<Longrightarrow> attempt (buf s) q = Spins \<Longrightarrow>
     bb_step Q spurious s (s\<lparr>threads := (threads s)(t := Asleep q)\<rparr>)"
| bb_notify: "threads s t = Notifying n \<Longrightarrow>
     bb_step Q spurious s (s\<lparr>threads := (wake n \<circ> threads s)(t := Idle)\<rparr>)"
| bb_waste: "threads s t = Idle \<Longrightarrow> k \<le> bbSize (buf s) \<Longrightarrow> bbWasteAfterPeek (buf s) k = (n, b') \<Longrightarrow>
     bb_step Q spurious s (s\<lparr>buf := b', threads := wake n \<circ> threads s\<rparr>)"
| bb_spurious: "spurious \<Longrightarrow> threads s t = Asleep q \<Longrightarrow>
     bb_step Q spurious s (s\<lparr>threads := (threads s)(t := Trying q)\<rparr>)"

inductive bb_reach :: "request set \<Rightarrow> bool \<Rightarrow> bb_sys \<Rightarrow> bb_sys \<Rightarrow> bool" for Q spurious s where
  bb_refl: "bb_reach Q spurious s s"
| bb_trans: "bb_reach Q spurious s t \<Longrightarrow> bb_step Q spurious t u \<Longrightarrow> bb_reach Q spurious s u"

inductive_cases bb_stepE: "bb_step Q spurious s t"

section \<open>What an attempt does to the size\<close>

lemma attempt_frame:
  "attempt b q = Ret (n, b') \<Longrightarrow> capacity b' = capacity b"
proof -
  have w: "bbWrite b x k = Ret c \<Longrightarrow> capacity c = capacity b" for b c x k
    by (auto simp: bbWrite_def obind_Ret_iff split: if_splits)
  then have f: "bbFill b xs = Ret c \<Longrightarrow> capacity c = capacity b" for b c xs
    by (induction xs arbitrary: b) (auto simp: obind_Ret_iff)
  show "attempt b q = Ret (n, b') \<Longrightarrow> capacity b' = capacity b"
    by (induction b q rule: attempt.induct)
       (auto simp: bbPutInPlace_def bbPutMany_def bbTake_def obind_Ret_iff bbGrow_def bbShrink_def
          split: if_splits dest: w simp del: bbFill.simps dest!: f)
qed

lemma attempt_put:
  "attempt b (RPut x []) = Spins \<Longrightarrow> capacity b \<le> bbSize b"
  "attempt b (RPut x []) = Ret (n, b') \<Longrightarrow> bbSize b < capacity b \<and> bbSize b' = bbSize b + 1 \<and>
     n = (if bbSize b + 1 = 1 then NotifyItem else NoNotice)"
proof -
  have "bbWrite b x k \<noteq> Spins" for k
    by (auto simp: bbWrite_def memcpyAt_def)
  then show "attempt b (RPut x []) = Spins \<Longrightarrow> capacity b \<le> bbSize b"
    by (cases "bbWrite b x (length x)") (auto simp: bbPutInPlace_def split: if_splits)
  show "attempt b (RPut x []) = Ret (n, b') \<Longrightarrow> bbSize b < capacity b \<and> bbSize b' = bbSize b + 1 \<and>
     n = (if bbSize b + 1 = 1 then NotifyItem else NoNotice)"
    by (auto simp: bbPutInPlace_def obind_Ret_iff bbGrow_def dest!: bbWrite_keeps_size split: if_splits)
qed

lemma attempt_take:
  "attempt b RTake = Spins \<Longrightarrow> bbSize b = 0"
  "attempt b RTake = Ret (n, b') \<Longrightarrow> bbSize b \<noteq> 0 \<and> bbSize b' = bbSize b - 1 \<and>
     n = (if bbSize b = capacity b then NotifySlot else NoNotice)"
proof -
  have "bbRead b s k \<noteq> Spins" for s k by (auto simp: bbRead_def readAt_def)
  then show "attempt b RTake = Spins \<Longrightarrow> bbSize b = 0"
    by (cases "bbRead b (bbSeq b - bbSize b) (bbHint b 0)") (auto simp: bbTake_def split: if_splits)
  show "attempt b RTake = Ret (n, b') \<Longrightarrow> bbSize b \<noteq> 0 \<and> bbSize b' = bbSize b - 1 \<and>
     n = (if bbSize b = capacity b then NotifySlot else NoNotice)"
    by (auto simp: bbTake_def obind_Ret_iff bbShrink_def split: if_splits)
qed

section \<open>No wake-up is lost between single puts and takes\<close>

definition singles :: "request set" where
  "singles = insert RTake (range (\<lambda>x. RPut x []))"

definition notifier :: "(nat \<Rightarrow> thread) \<Rightarrow> notice \<Rightarrow> bool" where
  "notifier f n \<longleftrightarrow> (\<exists>u. f u = Notifying n)"

definition wake_inv :: "bb_sys \<Rightarrow> bool" where
  "wake_inv s \<longleftrightarrow> bbSize (buf s) \<le> capacity (buf s) \<and>
     (\<forall>t q. threads s t = Trying q \<or> threads s t = Asleep q \<longrightarrow> q \<in> singles) \<and>
     ((\<exists>t. threads s t = Asleep RTake) \<longrightarrow> bbSize (buf s) = 0 \<or> notifier (threads s) NotifyItem) \<and>
     ((\<exists>t x. threads s t = Asleep (RPut x [])) \<longrightarrow>
        bbSize (buf s) = capacity (buf s) \<or> notifier (threads s) NotifySlot)"

lemma wake_invD:
  assumes "wake_inv s"
  shows "bbSize (buf s) \<le> capacity (buf s)" "threads s t = Trying q \<Longrightarrow> q \<in> singles"
    "threads s t = Asleep q \<Longrightarrow> q \<in> singles"
    "threads s t = Asleep RTake \<Longrightarrow> bbSize (buf s) = 0 \<or> notifier (threads s) NotifyItem"
    "threads s t = Asleep (RPut x []) \<Longrightarrow>
       bbSize (buf s) = capacity (buf s) \<or> notifier (threads s) NotifySlot"
  using assms unfolding wake_inv_def by blast+

lemma wake_invI:
  assumes "bbSize (buf s) \<le> capacity (buf s)" "\<And>t q. threads s t = Trying q \<Longrightarrow> q \<in> singles"
    and "\<And>t q. threads s t = Asleep q \<Longrightarrow> q \<in> singles"
    and "\<And>t. threads s t = Asleep RTake \<Longrightarrow> bbSize (buf s) = 0 \<or> notifier (threads s) NotifyItem"
    and "\<And>t x. threads s t = Asleep (RPut x []) \<Longrightarrow>
       bbSize (buf s) = capacity (buf s) \<or> notifier (threads s) NotifySlot"
  shows "wake_inv s"
  using assms unfolding wake_inv_def by blast

lemma wake_cases:
  "wake n th = Asleep q \<longleftrightarrow> th = Asleep q \<and> \<not> wakes n q"
  "wake n th = Trying q \<longleftrightarrow> th = Trying q \<or> th = Asleep q \<and> wakes n q"
  "wake n th = Notifying m \<longleftrightarrow> th = Notifying m"
  by (cases th; auto)+

lemma notifier_upd [simp]:
  "f t \<noteq> Notifying m \<Longrightarrow> notifier (f(t := th)) m \<longleftrightarrow> notifier f m \<or> th = Notifying m"
  "notifier (wake n \<circ> f) m \<longleftrightarrow> notifier f m"
  unfolding notifier_def by (force simp: wake_cases)+

text \<open>A thread that was trying and now notifies, is idle or sleeps does not hide another.\<close>

lemma wake_inv_put:
  assumes inv: "wake_inv s" and t: "threads s t = Trying (RPut x [])"
    and a: "attempt (buf s) (RPut x []) = Ret (n, b')"
  shows "wake_inv (s\<lparr>buf := b', threads := (threads s)(t := (if n = NoNotice then Idle else Notifying n))\<rparr>)"
proof -
  note A = attempt_put(2) [OF a] attempt_frame [OF a] and D = wake_invD [OF inv]
  have le: "bbSize b' \<le> capacity b'" using A by (simp add: inc_le)
  have it: "bbSize b' = 0 \<or> notifier ((threads s)(t := if n = NoNotice then Idle else Notifying n)) NotifyItem"
    if "threads s v = Asleep RTake" for v
    using D(4) [OF that] A t by (cases "bbSize (buf s) = 0") simp_all
  have sl: "notifier ((threads s)(t := if n = NoNotice then Idle else Notifying n)) NotifySlot"
    if "threads s v = Asleep (RPut y [])" for v y
    using D(5) [OF that] A t by auto
  show ?thesis
  proof (rule wake_invI)
    let ?s = "s\<lparr>buf := b', threads := (threads s)(t := if n = NoNotice then Idle else Notifying n)\<rparr>"
    show "threads ?s v = Asleep RTake \<Longrightarrow> bbSize (buf ?s) = 0 \<or> notifier (threads ?s) NotifyItem" for v
      using it [of v] by (simp split: if_splits)
    show "threads ?s v = Asleep (RPut y []) \<Longrightarrow>
        bbSize (buf ?s) = capacity (buf ?s) \<or> notifier (threads ?s) NotifySlot" for v y
      using sl [of v y] by (simp split: if_splits)
  qed (use le D(2,3) in \<open>auto split: if_splits\<close>)
qed

lemma wake_inv_take:
  assumes inv: "wake_inv s" and t: "threads s t = Trying RTake"
    and a: "attempt (buf s) RTake = Ret (n, b')"
  shows "wake_inv (s\<lparr>buf := b', threads := (threads s)(t := (if n = NoNotice then Idle else Notifying n))\<rparr>)"
proof -
  note A = attempt_take(2) [OF a] attempt_frame [OF a] and D = wake_invD [OF inv]
  have "bbSize (buf s) - 1 \<le> bbSize (buf s)" using A by (simp add: word_le_nat_alt unat_minus_one)
  then have le: "bbSize b' \<le> capacity b'" using A D(1) by (metis order_trans)
  have it: "notifier ((threads s)(t := if n = NoNotice then Idle else Notifying n)) NotifyItem"
    if "threads s v = Asleep RTake" for v
    using D(4) [OF that] A t by auto
  have sl: "bbSize b' = capacity b' \<or> notifier ((threads s)(t := if n = NoNotice then Idle else Notifying n)) NotifySlot"
    if "threads s v = Asleep (RPut y [])" for v y
    using D(5) [OF that] A t by (cases "bbSize (buf s) = capacity (buf s)") auto
  show ?thesis
  proof (rule wake_invI)
    let ?s = "s\<lparr>buf := b', threads := (threads s)(t := if n = NoNotice then Idle else Notifying n)\<rparr>"
    show "threads ?s v = Asleep RTake \<Longrightarrow> bbSize (buf ?s) = 0 \<or> notifier (threads ?s) NotifyItem" for v
      using it [of v] by (simp split: if_splits)
    show "threads ?s v = Asleep (RPut y []) \<Longrightarrow>
        bbSize (buf ?s) = capacity (buf ?s) \<or> notifier (threads ?s) NotifySlot" for v y
      using sl [of v y] by (simp split: if_splits)
  qed (use le D(2,3) in \<open>auto split: if_splits\<close>)
qed

lemma wake_inv_sleep:
  assumes inv: "wake_inv s" and t: "threads s t = Trying q" and a: "attempt (buf s) q = Spins"
  shows "wake_inv (s\<lparr>threads := (threads s)(t := Asleep q)\<rparr>)"
proof -
  note D = wake_invD [OF inv]
  have q: "q \<in> singles" using D(2) [OF t] .
  have "bbSize (buf s) = 0" if "q = RTake" using attempt_take(1) a that by simp
  moreover have "bbSize (buf s) = capacity (buf s)" if "q = RPut x []" for x
    using attempt_put(1) a that D(1) by force
  ultimately show ?thesis
    using D q t by (intro wake_invI) (auto split: if_splits)
qed

lemma wake_inv_notify:
  assumes inv: "wake_inv s" and t: "threads s t = Notifying n"
  shows "wake_inv (s\<lparr>threads := (wake n \<circ> threads s)(t := Idle)\<rparr>)"
proof -
  note D = wake_invD [OF inv]
  have "bbSize (buf s) = 0 \<or> notifier ((wake n \<circ> threads s)(t := Idle)) NotifyItem"
    if "threads s v = Asleep RTake" "\<not> wakes n RTake" for v
    using D(4) [OF that(1)] that(2) t by (cases n) (simp_all add: wake_cases)
  moreover have "bbSize (buf s) = capacity (buf s) \<or> notifier ((wake n \<circ> threads s)(t := Idle)) NotifySlot"
    if "threads s v = Asleep (RPut y [])" "\<not> wakes n (RPut y [])" for v y
    using D(5) [OF that(1)] that(2) t by (cases n) (simp_all add: wake_cases)
  ultimately show ?thesis
    using D(1,2,3) by (intro wake_invI) (auto simp: wake_cases simp del: notifier_upd split: if_splits)
qed

lemma wake_inv_waste:
  assumes inv: "wake_inv s" and k: "k \<le> bbSize (buf s)" and w: "bbWasteAfterPeek (buf s) k = (n, b')"
  shows "wake_inv (s\<lparr>buf := b', threads := wake n \<circ> threads s\<rparr>)"
proof -
  note D = wake_invD [OF inv]
  have b': "bbSize b' = bbSize (buf s) - k" "capacity b' = capacity (buf s)"
    "n = (if bbSize (buf s) = capacity (buf s) then NotifySlot else NoNotice)"
    using w by (auto simp: bbWasteAfterPeek_def)
  have "bbSize (buf s) - k \<le> bbSize (buf s)" using k by (simp add: word_sub_le)
  then have "bbSize b' \<le> capacity b'" using D(1) b' by (metis order_trans)
  moreover have "bbSize b' = 0 \<or> notifier (threads s) NotifyItem" if "threads s v = Asleep RTake" for v
    using D(4) [OF that] b'(1) k by auto
  moreover have "notifier (threads s) NotifySlot"
    if "threads s v = Asleep (RPut y [])" "\<not> wakes n (RPut y [])" for v y
    using D(5) [OF that(1)] that(2) b'(3) by (auto split: if_splits)
  ultimately show ?thesis
    using D(2,3) by (intro wake_invI) (auto simp: wake_cases)
qed

lemma wake_inv_step:
  assumes "bb_step singles spurious s t" "wake_inv s"
  shows "wake_inv t"
  using assms(1)
proof cases
  case (bb_begin t q)
  then show ?thesis using wake_invD [OF assms(2)] by (intro wake_invI) (auto split: if_splits)
next
  case (bb_done t q n b')
  have "q \<in> singles" by (rule wake_invD(2) [OF assms(2) bb_done(2)])
  then consider "q = RTake" | x where "q = RPut x []" by (auto simp: singles_def)
  then show ?thesis using wake_inv_put wake_inv_take assms(2) bb_done by cases auto
next
  case (bb_spurious t q)
  then show ?thesis using wake_invD [OF assms(2)] by (intro wake_invI) (auto split: if_splits)
qed (use wake_inv_sleep wake_inv_notify wake_inv_waste assms(2) in auto)

lemma wake_inv_reach:
  "bb_reach singles spurious s t \<Longrightarrow> wake_inv s \<Longrightarrow> wake_inv t"
  by (induction rule: bb_reach.induct) (auto intro: wake_inv_step)

lemma init_wake_inv: "bbSize b \<le> capacity b \<Longrightarrow> wake_inv (init_bb b)"
  by (rule wake_invI) (simp_all add: init_bb_def)

text \<open>Nothing runs: every thread is idle or asleep.\<close>

definition quiescent :: "bb_sys \<Rightarrow> bool" where
  "quiescent s \<longleftrightarrow> (\<forall>t. threads s t = Idle \<or> (\<exists>q. threads s t = Asleep q))"

lemma quiescent_notifier: "quiescent s \<Longrightarrow> \<not> notifier (threads s) n"
  unfolding quiescent_def notifier_def by (metis thread.distinct(5,11))

lemma bb_reach_capacity: "bb_reach Q spurious s t \<Longrightarrow> capacity (buf t) = capacity (buf s)"
proof (induction rule: bb_reach.induct)
  case (bb_trans t u)
  from bb_trans.hyps(2) have "capacity (buf u) = capacity (buf t)"
    by cases (auto simp: bbWasteAfterPeek_def dest: attempt_frame)
  with bb_trans.IH show ?case by simp
qed simp

section \<open>A wake-up is lost when several messages are put at once\<close>

text \<open>Threads that only take cannot wake a producer once the buffer is empty.\<close>

definition drained :: "nat \<Rightarrow> request \<Rightarrow> bb_sys \<Rightarrow> bool" where
  "drained t q s \<longleftrightarrow> bbSize (buf s) = 0 \<and> capacity (buf s) \<noteq> 0 \<and> threads s t = Asleep q \<and>
     (\<forall>u. u \<noteq> t \<longrightarrow> threads s u \<in> {Idle, Trying RTake, Asleep RTake})"

lemma drained_step:
  assumes "bb_step {RTake} False s s'" "drained t q s"
  shows "drained t q s'"
  using assms(1)
proof cases
  case (bb_done u p n b')
  then have "p = RTake" using assms(2) by (cases "u = t") (auto simp: drained_def)
  then have "attempt (buf s) RTake = Ret (n, b')" using bb_done by simp
  then show ?thesis using attempt_take(2) [of "buf s" n b'] assms(2) by (auto simp: drained_def)
next
  case (bb_sleep u p)
  then show ?thesis using assms(2) by (cases "u = t") (auto simp: drained_def)
next
  case (bb_notify u n)
  then show ?thesis using assms(2) by (cases "u = t") (auto simp: drained_def)
next
  case (bb_waste u k n b')
  then have "n = NoNotice" "b' = buf s\<lparr>bbSize := 0\<rparr>" using assms(2)
    by (auto simp: drained_def bbWasteAfterPeek_def)
  moreover have "wake NoNotice th = th" for th by (cases th) auto
  ultimately show ?thesis using bb_waste assms(2) by (auto simp: drained_def)
qed (use assms(2) in \<open>auto simp: drained_def\<close>)

text \<open>No run of takers alone wakes the thread again.\<close>

definition neverWoken :: "nat \<Rightarrow> request \<Rightarrow> bb_sys \<Rightarrow> bool" where
  "neverWoken t q s \<longleftrightarrow> (\<forall>s'. bb_reach {RTake} False s s' \<longrightarrow> threads s' t = Asleep q)"

lemma drained_neverWoken:
  assumes "drained t q s"
  shows "neverWoken t q s"
proof -
  have "bb_reach {RTake} False s s' \<Longrightarrow> drained t q s'" for s'
    by (induction rule: bb_reach.induct) (auto intro: assms drained_step)
  then show ?thesis by (auto simp: neverWoken_def drained_def)
qed

text \<open>A buffer of two one-byte messages.\<close>

definition demoBB :: BlockingBuffer where
  "demoBB = newBlockingBuffer (\<lambda>_. 0) 1 2"

lemma demoBB_run:
  "\<exists>b. attempt demoBB (RPut [7] []) = Ret (NotifyItem, b) \<and> attempt b (RPut [8] [[9]]) = Spins \<and>
     (\<exists>c. attempt b RTake = Ret (NoNotice, c) \<and> bbSize c = 0 \<and> capacity c = 2 \<and>
        (\<exists>d. attempt c (RPut [8] [[9]]) = Ret d))"
  by (simp add: demoBB_def newBlockingBuffer_def bbPutInPlace_def bbWrite_def memcpyAt_def getItem_def bbGrow_def
      bbPutMany_def bbTake_def bbRead_def readAt_def bbHint_def bbShrink_def upt_rec)

end
