(* ===== verification/BlockingProperties.thy ===== *)
theory BlockingProperties
  imports BlockingThreads
begin

text \<open>
  The contract of \<^verbatim>\<open>BlockingBuffer\<close>, on the operations and on the threads that use them.
\<close>

section \<open>The queue\<close>

lemma demoBB_ok:
  "bb_inv demoBB" "noPeeks demoBB" "bbItems demoBB = []" "capN demoBB = 2" "itemN demoBB = 1" "seqN demoBB = 0"
  using newBlockingBuffer_spec [of 2 1 "\<lambda>_. 0"] by (simp_all add: demoBB_def)

lemma demoBB_bbOk: "bbOk 2 1 demoBB"
  using demoBB_ok by (simp add: bbOk_def)

text \<open>C24: any sequence of \<^verbatim>\<open>tryPut\<close> and \<^verbatim>\<open>tryTake\<close> on a \<^verbatim>\<open>BlockingBuffer\<close> returns; what
  comes out, followed by what is still held, is what was held followed by what was accepted,
  and the buffer never holds more than its capacity.\<close>

lemma blocking_run_fifo:
  assumes "bbOk cap sz b" "\<forall>x \<in> set (inputs ops). length x = sz" "seqN b + length ops \<le> bb_limit"
  shows "\<exists>acc outs b'. runQueue bbEnq bbDeq b ops = Ret (acc, outs, b') \<and> bbOk cap sz b' \<and>
     bbItems b @ acc = outs @ bbItems b' \<and> length (bbItems b') \<le> cap"
  by (rule blocking.run_fifo [OF assms])

lemma blocking_run_witness:
  "\<exists>acc outs b'. runQueue bbEnq bbDeq demoBB [Enq [1], Enq [2], Enq [3], Deq] = Ret (acc, outs, b') \<and>
     bbOk 2 1 b' \<and> bbItems demoBB @ acc = outs @ bbItems b' \<and> length (bbItems b') \<le> 2"
  by (rule blocking_run_fifo [OF demoBB_bbOk]) (simp_all add: demoBB_ok bb_limit_def)

text \<open>\<^verbatim>\<open>tryPutBatch\<close> is all or nothing: it stores the whole batch, in order, exactly when
  that many slots are free, and otherwise stores nothing. (For the empty batch on an empty
  buffer the test wraps around, so a batch of at least one message is assumed.)\<close>

lemma blocking_batch_atomic:
  assumes "bb_inv b" "xs \<noteq> []" "\<forall>x \<in> set xs. length x = itemN b" "length xs < 2 ^ 32" "capN b < 2 ^ 32"
    "seqN b + length xs \<le> bb_limit"
  shows "\<exists>nt b'. bbTryPutBatch b xs = Ret (length (bbItems b) + length xs \<le> capN b, nt, b') \<and> bb_inv b' \<and>
     bbItems b' = (if length (bbItems b) + length xs \<le> capN b then bbItems b @ xs else bbItems b)"
proof -
  note D = bb_invD [OF assms(1)] and sh = bb_shapeD [OF bb_invD(1) [OF assms(1)]]
  let ?n = "of_nat (length xs) :: u64"
  have n: "unat ?n = length xs" using assms(4) by (simp add: unsigned_of_nat take_bit_nat_eq_self)
  have "unat (bbSize b) + unat ?n < 2 ^ 64"
    using assms(4,5) sh(4) by (simp add: n sizeN_def)
  then have "unat (bbSize b + ?n) = sizeN b + length xs" by (simp add: unat_add_small n sizeN_def)
  moreover have "bbSize b + ?n \<noteq> 0"
  proof
    assume "bbSize b + ?n = 0"
    with calculation assms(2) show False by simp
  qed
  ultimately have "unat (bbSize b + ?n - 1) = sizeN b + length xs - 1" by (simp add: unat_minus_one)
  then have room: "capacity b > bbSize b + ?n - 1 \<longleftrightarrow> length (bbItems b) + length xs \<le> capN b"
    using assms(2) bbItems_length [OF D(1)] by (cases xs) (auto simp: word_less_nat_alt capN_def)
  show ?thesis
  proof (cases "length (bbItems b) + length xs \<le> capN b")
    case True
    then obtain b' where F: "bbFill b xs = Ret b'" "bbSize b' = bbSize b"
      "bb_inv (b'\<lparr>bbSize := bbSize b + ?n\<rparr>)" "bbItems (b'\<lparr>bbSize := bbSize b + ?n\<rparr>) = bbItems b @ xs"
      using bb_fill_step [OF assms(1) True assms(3,6)] by (auto simp: Let_def)
    with True room show ?thesis
      by (simp add: bbTryPutBatch_def Let_def bbGrow_def)
  next
    case False
    with room assms(1) show ?thesis by (simp add: bbTryPutBatch_def Let_def)
  qed
qed

lemma blocking_batch_witness:
  "\<exists>nt b'. bbTryPutBatch demoBB [[1], [2]] = Ret (length (bbItems demoBB) + length [[1 :: u8], [2]] \<le> capN demoBB, nt, b') \<and>
     bb_inv b' \<and> bbItems b' = (if length (bbItems demoBB) + length [[1 :: u8], [2]] \<le> capN demoBB
       then bbItems demoBB @ [[1], [2]] else bbItems demoBB)"
  by (rule blocking_batch_atomic) (simp_all add: demoBB_ok bb_limit_def)

text \<open>C26: \<^verbatim>\<open>peekExclusive\<close> hands out the messages one by one in order, each to one caller
  only, and what a caller holds is not overwritten by later puts.\<close>

lemma blocking_peek_exclusive:
  assumes "bb_inv b" "bbUnread b = x # xs"
  shows "\<exists>it b'. bbPeekExclusive b = (it, b') \<and> start it \<and> slotAt b' (unat (seq it)) = x \<and>
     unat (seq it) \<notin> heldN b \<and> heldN b' = insert (unat (seq it)) (heldN b) \<and> bbUnread b' = xs \<and> bb_inv b' \<and>
     (length (bbItems b') < capN b' \<and> length y = itemN b' \<and> seqN b' < bb_limit \<longrightarrow>
        (\<exists>nt c. bbTryPut b' y 0 = Ret (True, nt, c) \<and> bb_inv c \<and> heldN c = heldN b' \<and>
           bbUnread c = xs @ [y] \<and> (\<forall>m \<in> heldN b'. slotAt c m = slotAt b m)))"
proof -
  have ne: "bbUnread b \<noteq> []" using assms(2) by simp
  obtain s b' where P: "bbPeekExclusive b = (iteratorAt s, b')" "unat s = unreadFrom b"
    "slotAt b (unat s) = hd (bbUnread b)" "bb_inv b'" "heldN b' = insert (unat s) (heldN b)"
    "unat s \<notin> heldN b" "bbUnread b' = tl (bbUnread b)" "\<And>m. slotAt b' m = slotAt b m"
    "seqN b' = seqN b" "capN b' = capN b"
    by (rule bbPeekExclusive_some [OF assms(1) ne]) (rule that)
  have "\<exists>nt c. bbTryPut b' y 0 = Ret (True, nt, c) \<and> bb_inv c \<and> heldN c = heldN b' \<and>
           bbUnread c = xs @ [y] \<and> (\<forall>m \<in> heldN b'. slotAt c m = slotAt b m)"
    if room: "length (bbItems b') < capN b'" and y: "length y = itemN b'" and l: "seqN b' < bb_limit"
  proof -
    have pre: "itemN b' \<le> itemN b'" "itemN b' \<le> length y" using y by simp_all
    obtain c where W: "bbWrite b' y (itemN b') = Ret c" "bb_inv (snd (bbGrow c 1))"
      "bbUnread (snd (bbGrow c 1)) = bbUnread b' @ [memcpy (slotAt b' (seqN b')) y (itemN b')]"
      "heldN (snd (bbGrow c 1)) = heldN b'" "\<And>m. m \<in> heldN b' \<Longrightarrow> slotAt (snd (bbGrow c 1)) m = slotAt b' m"
      using bb_put_step [OF P(4) room pre l] by metis
    have m: "memcpy (slotAt b' (seqN b')) y (itemN b') = y"
      using y length_slotAt [OF bb_invD(1) [OF P(4)]] by (simp add: memcpy_def)
    have "bbTryPut b' y 0 = Ret (True, fst (bbGrow c 1), snd (bbGrow c 1))"
      using room W(1) bb_room [OF bb_invD(1) [OF P(4)]]
      by (simp add: bbTryPut_def bbHint_def flip: itemN_def)
    with W P(7,8) assms(2) m show ?thesis by (cases "bbGrow c 1") simp
  qed
  with P assms(2) show ?thesis by auto
qed

text \<open>A buffer with one message in it.\<close>

definition demoBB1 :: BlockingBuffer where
  "demoBB1 = (case bbTryPut demoBB [7] 0 of Ret (_, _, b) \<Rightarrow> b | _ \<Rightarrow> demoBB)"

lemma demoBB1_ok: "bb_inv demoBB1" "bbUnread demoBB1 = [[7]]"
proof -
  obtain nt b' where T: "bbTryPut demoBB [7] 0 = Ret (True, nt, b')" "bb_inv b'" "noPeeks b'" "bbItems b' = [[7]]"
    using bbTryPut_spec [OF demoBB_ok(1,2), of "[7]"] demoBB_ok by (auto simp: bb_limit_def)
  then have b: "demoBB1 = b'" by (simp add: demoBB1_def)
  show "bb_inv demoBB1" using T(2) by (simp add: b)
  have "bbUnread b' = bbItems b'" using noPeeks_held [OF T(2,3)] by (simp add: bbUnread_def bbItems_def)
  then show "bbUnread demoBB1 = [[7]]" using T(4) by (simp add: b)
qed

lemma blocking_peek_witness:
  "\<exists>it b'. bbPeekExclusive demoBB1 = (it, b') \<and> start it \<and> slotAt b' (unat (seq it)) = [7] \<and>
     heldN b' = insert (unat (seq it)) (heldN demoBB1) \<and> bbUnread b' = [] \<and> bb_inv b'"
  using blocking_peek_exclusive [OF demoBB1_ok] by blast

text \<open>C28: messages held after \<^verbatim>\<open>peekExclusive\<close> can be given back in any order: giving one back
  releases it and nothing else, the others stay intact, nothing unread is lost, and the room it
  frees is announced when the buffer was full.\<close>

lemma blocking_waste_exclusive:
  assumes "bb_inv b" "unat (seq it) \<in> heldN b"
  shows "\<exists>nt b'. bbWasteAfterPeekExclusive b it = Ret (nt, b') \<and> bb_inv b' \<and>
     heldN b' = heldN b - {unat (seq it)} \<and> bbUnread b' = bbUnread b \<and> (\<forall>m. slotAt b' m = slotAt b m) \<and>
     baseN b \<le> baseN b' \<and> (nt = NotifySlot \<longleftrightarrow> baseN b < baseN b' \<and> sizeN b = capN b)"
  by (rule bbWasteAfterPeekExclusive_spec [OF assms]) auto

lemma blocking_waste_witness:
  "\<exists>s b. bbPeekExclusive demoBB1 = (iteratorAt s, b) \<and>
     (\<exists>nt b'. bbWasteAfterPeekExclusive b (iteratorAt s) = Ret (nt, b') \<and> bb_inv b' \<and>
     heldN b' = heldN b - {unat (seq (iteratorAt s))} \<and> bbUnread b' = bbUnread b \<and> baseN b \<le> baseN b')"
proof -
  have ne: "bbUnread demoBB1 \<noteq> []" by (simp add: demoBB1_ok)
  obtain s b where "bbPeekExclusive demoBB1 = (iteratorAt s, b)" "bb_inv b" "heldN b = insert (unat s) (heldN demoBB1)"
    by (rule bbPeekExclusive_some [OF demoBB1_ok(1) ne]) (rule that)
  then show ?thesis using blocking_waste_exclusive [of b "iteratorAt s"] by auto
qed

section \<open>The threads\<close>

text \<open>C5: between threads that put one message at a time and threads that take, no wake-up is
  lost, although notifications are sent after the mutex is released: when nothing can run, a
  sleeping taker means an empty buffer, a sleeping producer a full one, so never both.\<close>

lemma blocking_no_lost_wakeup:
  assumes "bbSize b \<le> capacity b" "capacity b \<noteq> 0" "bb_reach singles spurious (init_bb b) s" "quiescent s"
  shows "(threads s t = Asleep RTake \<longrightarrow> bbSize (buf s) = 0) \<and>
     (threads s u = Asleep (RPut x []) \<longrightarrow> bbSize (buf s) = capacity (buf s)) \<and>
     \<not> (threads s t = Asleep RTake \<and> threads s u = Asleep (RPut x []))"
proof -
  note W = wake_invD(4,5) [OF wake_inv_reach [OF assms(3) init_wake_inv [OF assms(1)]]]
  have "threads s t = Asleep RTake \<Longrightarrow> bbSize (buf s) = 0"
    "threads s u = Asleep (RPut x []) \<Longrightarrow> bbSize (buf s) = capacity (buf s)"
    using W quiescent_notifier [OF assms(4)] by blast+
  moreover have "capacity (buf s) \<noteq> 0"
    using bb_reach_capacity [OF assms(3)] assms(2) by (simp add: init_bb_def)
  ultimately show ?thesis by auto
qed

lemma blocking_no_lost_witness:
  "\<exists>s. bb_reach singles False (init_bb demoBB) s \<and> quiescent s \<and> threads s 0 = Asleep RTake \<and>
     bbSize (buf s) = 0 \<and> threads s 1 \<noteq> Asleep (RPut [7] [])"
proof -
  have "attempt demoBB RTake = Spins" by (simp add: demoBB_def newBlockingBuffer_def bbTake_def)
  then have a: "attempt (buf (init_bb demoBB)) RTake = Spins" by (simp add: init_bb_def)
  let ?s1 = "(init_bb demoBB)\<lparr>threads := (threads (init_bb demoBB))(0 := Trying RTake)\<rparr>"
  let ?s2 = "?s1\<lparr>threads := (threads ?s1)(0 := Asleep RTake)\<rparr>"
  have s1: "bb_step singles False (init_bb demoBB) ?s1"
    by (rule bb_begin) (simp_all add: init_bb_def singles_def)
  have s2: "bb_step singles False ?s1 ?s2"
    by (rule bb_sleep) (use a in simp_all)
  have r: "bb_reach singles False (init_bb demoBB) ?s2"
    by (rule bb_trans [OF bb_trans [OF bb_refl s1] s2])
  have q: "quiescent ?s2" by (simp add: quiescent_def init_bb_def)
  have le: "bbSize demoBB \<le> capacity demoBB" "capacity demoBB \<noteq> 0"
    by (simp_all add: demoBB_def newBlockingBuffer_def)
  have t: "threads ?s2 0 = Asleep RTake" by simp
  show ?thesis
    using blocking_no_lost_wakeup [OF le r q, of 0 1 "[7]"] r q t by blast
qed

text \<open>C15: a producer that puts several messages at once can sleep for ever: it sleeps while
  the buffer is not full, takers announce room only when they leave a full buffer, and once the
  buffer is empty, with room for the whole batch, no taker can wake the producer any more.\<close>

lemma blocking_batch_lost_wakeup:
  "\<exists>s d. bb_reach UNIV False (init_bb demoBB) s \<and> threads s 1 = Asleep (RPut [8] [[9]]) \<and>
     bbSize (buf s) = 0 \<and> attempt (buf s) (RPut [8] [[9]]) = Ret d \<and> neverWoken 1 (RPut [8] [[9]]) s"
proof -
  obtain b c d where R: "attempt demoBB (RPut [7] []) = Ret (NotifyItem, b)" "attempt b (RPut [8] [[9]]) = Spins"
    "attempt b RTake = Ret (NoNotice, c)" "bbSize c = 0" "capacity c = 2" "attempt c (RPut [8] [[9]]) = Ret d"
    using demoBB_run by blast
  let ?th = "threads (init_bb demoBB)"
  let ?st = "\<lambda>bf th. \<lparr>buf = bf, threads = th\<rparr>"
  have i: "init_bb demoBB = ?st demoBB (\<lambda>_. Idle)" by (simp add: init_bb_def)
  have step: "bb_reach UNIV False (init_bb demoBB) s \<Longrightarrow> bb_step UNIV False s t \<Longrightarrow>
      bb_reach UNIV False (init_bb demoBB) t" for s t by (rule bb_trans)
  let ?f = "\<lambda>_ :: nat. Idle"
  have "bb_reach UNIV False (init_bb demoBB) (?st demoBB ?f)" unfolding i by (rule bb_refl)
  from step [OF this bb_begin [of _ 0 "RPut [7] []"]]
  have "bb_reach UNIV False (init_bb demoBB) (?st demoBB (?f(0 := Trying (RPut [7] []))))" by simp
  from step [OF this bb_done [of _ 0 "RPut [7] []" NotifyItem b]] R(1)
  have "bb_reach UNIV False (init_bb demoBB) (?st b (?f(0 := Notifying NotifyItem)))" by simp
  from step [OF this bb_notify [of _ 0 NotifyItem]]
  have "bb_reach UNIV False (init_bb demoBB) (?st b ((wake NotifyItem \<circ> ?f(0 := Notifying NotifyItem))(0 := Idle)))" by simp
  moreover have "(wake NotifyItem \<circ> ?f(0 := Notifying NotifyItem))(0 := Idle) = ?f" by auto
  ultimately have "bb_reach UNIV False (init_bb demoBB) (?st b ?f)" by simp
  from step [OF this bb_begin [of _ 1 "RPut [8] [[9]]"]]
  have "bb_reach UNIV False (init_bb demoBB) (?st b (?f(1 := Trying (RPut [8] [[9]]))))" by simp
  from step [OF this bb_sleep [of _ 1 "RPut [8] [[9]]"]] R(2)
  have "bb_reach UNIV False (init_bb demoBB) (?st b (?f(1 := Asleep (RPut [8] [[9]]))))" by simp
  from step [OF this bb_begin [of _ 0 RTake]]
  have "bb_reach UNIV False (init_bb demoBB) (?st b (?f(1 := Asleep (RPut [8] [[9]]), 0 := Trying RTake)))" by simp
  from step [OF this bb_done [of _ 0 RTake NoNotice c]] R(3)
  have r: "bb_reach UNIV False (init_bb demoBB) (?st c (?f(1 := Asleep (RPut [8] [[9]]), 0 := Idle)))" by simp
  have "drained 1 (RPut [8] [[9]]) (?st c (?f(1 := Asleep (RPut [8] [[9]]), 0 := Idle)))"
    using R(4,5) by (simp add: drained_def)
  then show ?thesis
    using r R(4,6) drained_neverWoken by (intro exI [of _ "?st c (?f(1 := Asleep (RPut [8] [[9]]), 0 := Idle))"] exI [of _ d]) simp
qed

end
