(* ===== verification/SeqArb.thy ===== *)
theory SeqArb
  imports Prelude
begin

text \<open>
  \<^verbatim>\<open>hmbdc/pattern/SeqArb.hpp\<close>: several participants receive the same sequenced messages over
  different lines; the arbitrator lets the first copy of each message through and reports the
  gaps that no line can fill any more. First the calls run alone, then the interleavings of
  the thread-safe variant, in which the value \<open>- 1\<close> of \<^verbatim>\<open>seq_\<close> is a lock.
\<close>

section \<open>The calls\<close>

record SeqArb =
  arbSeq :: u64
  arbJ :: "u64 list"

definition newSeqArb :: "nat \<Rightarrow> u64 \<Rightarrow> SeqArb" where
  "newSeqArb n startSeq = \<lparr>arbSeq = startSeq, arbJ = replicate n 0\<rparr>"

text \<open>What a call tells its client: \<^verbatim>\<open>h()\<close> for a sequence number, \<^verbatim>\<open>g(n)\<close> for a gap of \<open>n\<close>.\<close>

datatype arbEvent = Hit u64 | Gap u64

text \<open>The compare-and-swap: the value found, and the new value of \<^verbatim>\<open>seq_\<close>.\<close>

definition valCompareAndSwap :: "u64 \<Rightarrow> u64 \<Rightarrow> u64 \<Rightarrow> u64 \<times> u64" where
  "valCompareAndSwap var compVal newVal = (var, if var = compVal then newVal else var)"

definition jLow :: "SeqArb \<Rightarrow> u64" where
  "jLow a = fold min (tl (arbJ a)) (hd (arbJ a))"

text \<open>The tail of a call whose sequence number is ahead: \<^verbatim>\<open>else { //seq > old\<close>.\<close>

definition arbGap :: "SeqArb \<Rightarrow> u64 \<Rightarrow> arbEvent list \<times> SeqArb" where
  "arbGap a old =
     (let low = jLow a in
      if low > old \<and> arbSeq a = old then ([Gap (low - old)], a\<lparr>arbSeq := low\<rparr>) else ([], a))"

definition arbCall :: "SeqArb \<Rightarrow> nat \<Rightarrow> u64 \<Rightarrow> (bool \<times> arbEvent list \<times> SeqArb) outcome" where
  "arbCall a i s =
     (if i \<ge> length (arbJ a) then Undefined
      else let a1 = a\<lparr>arbJ := (arbJ a)[i := s]\<rparr>;
               (old, new) = valCompareAndSwap (arbSeq a1) s (- 1);
               a2 = a1\<lparr>arbSeq := new\<rparr> in
        if old = s then Ret (True, [Hit s], a2\<lparr>arbSeq := s + 1\<rparr>)
        else if old = - 1 then Ret (False, [], a2)
        else if s < old then Ret (True, [], a2)
        else let (ev, a3) = arbGap a2 old in Ret (False, ev, a3))"

text \<open>
  The batch call: \<open>gen k\<close> is what the \<open>k\<close>-th call of \<^verbatim>\<open>seqGen\<close> returns. The loop from \<open>s\<close> on
  returns the last number drawn, the count and the hits.
\<close>

function arbBatchLoop :: "(nat \<Rightarrow> u64) \<Rightarrow> nat \<Rightarrow> nat \<Rightarrow> u64 \<Rightarrow> u64 \<times> nat \<times> arbEvent list" where
  "arbBatchLoop gen seqSize s preSeq =
     (if s < seqSize
      then let q = gen s in
           if q - 1 = preSeq
           then (case arbBatchLoop gen seqSize (s + 1) q of (l, n, ev) \<Rightarrow> (l, n, Hit q # ev))
           else (q, s, [])
      else (preSeq, s, []))"
  by auto
termination by (relation "measure (\<lambda>(gen, seqSize, s, preSeq). seqSize - s)") auto

declare arbBatchLoop.simps [simp del]

definition arbBatch ::
    "SeqArb \<Rightarrow> nat \<Rightarrow> (nat \<Rightarrow> u64) \<Rightarrow> nat \<Rightarrow> (nat \<times> arbEvent list \<times> SeqArb) outcome" where
  "arbBatch a i gen seqSize =
     (if i \<ge> length (arbJ a) then Undefined
      else let s = gen 0; a1 = a\<lparr>arbJ := (arbJ a)[i := s]\<rparr>;
               (old, new) = valCompareAndSwap (arbSeq a1) s (- 1);
               a2 = a1\<lparr>arbSeq := new\<rparr> in
        if old = s
        then (case arbBatchLoop gen seqSize 1 s of (lastS, n, ev) \<Rightarrow>
               Ret (n, Hit s # ev, a2\<lparr>arbJ := (arbJ a2)[i := lastS], arbSeq := lastS + of_nat n\<rparr>))
        else if old = - 1 then Ret (0, [], a2)
        else if s < old then Ret (1, [], a2)
        else let (ev, a3) = arbGap a2 old in Ret (0, ev, a3))"

text \<open>\<^verbatim>\<open>SingleThreadSeqArb\<close>: 1 for a message to use, -1 for one to drop, 0 to ask again.\<close>

definition singleThreadCall :: "SeqArb \<Rightarrow> nat \<Rightarrow> u64 \<Rightarrow> (int \<times> arbEvent list \<times> SeqArb) outcome" where
  "singleThreadCall a i s = obind (arbCall a i s) (\<lambda>(r, ev, a').
     Ret (if \<not> r then 0 else if Hit s \<in> set ev then 1 else - 1, filter (\<lambda>e. case e of Gap _ \<Rightarrow> True | Hit _ \<Rightarrow> False) ev, a'))"

section \<open>What a log of events covers\<close>

text \<open>
  \<open>covers a log e\<close>: the events account for the sequence numbers from \<open>a\<close> up to \<open>e\<close>, each
  exactly once and in order, as a hit or inside a gap.
\<close>

fun covers :: "nat \<Rightarrow> arbEvent list \<Rightarrow> nat \<Rightarrow> bool" where
  "covers a [] e \<longleftrightarrow> a = e"
| "covers a (Hit s # l) e \<longleftrightarrow> unat s = a \<and> covers (Suc a) l e"
| "covers a (Gap n # l) e \<longleftrightarrow> 0 < unat n \<and> covers (a + unat n) l e"

fun hits :: "arbEvent list \<Rightarrow> nat list" where
  "hits [] = []"
| "hits (Hit s # l) = unat s # hits l"
| "hits (Gap n # l) = hits l"

lemma covers_append: "covers a (l @ l') e \<longleftrightarrow> (\<exists>m. covers a l m \<and> covers m l' e)"
  by (induction a l e rule: covers.induct) auto

lemma hits_append [simp]: "hits (l @ l') = hits l @ hits l'"
  by (induction l rule: hits.induct) auto

lemma covers_le: "covers a l e \<Longrightarrow> a \<le> e"
  by (induction a l e rule: covers.induct) auto

text \<open>So no message is let through twice, and they come in order.\<close>

lemma covers_hits:
  "covers a l e \<Longrightarrow> sorted (hits l) \<and> distinct (hits l) \<and> set (hits l) \<subseteq> {a ..< e}"
proof (induction a l e rule: covers.induct)
  case (2 a s l e)
  then show ?case using covers_le [of "Suc a" l e] by fastforce
next
  case (3 a n l e)
  then show ?case by fastforce
qed simp

lemma fold_min_start: "fold min xs x \<le> (x :: u64)"
proof (induction xs arbitrary: x)
  case (Cons z zs)
  show ?case using order_trans [OF Cons.IH [of "min z x"] min.cobounded2] by simp
qed simp

lemma fold_min_elem: "y \<in> set xs \<Longrightarrow> fold min xs x \<le> (y :: u64)"
proof (induction xs arbitrary: x)
  case (Cons z zs)
  have "fold min zs (min z x) \<le> z" using order_trans [OF fold_min_start min.cobounded1] .
  with Cons show ?case by auto
qed simp

lemma jLow_le: "i < length (arbJ a) \<Longrightarrow> jLow a \<le> arbJ a ! i"
  using fold_min_start fold_min_elem [OF nth_mem, of "i - 1" "tl (arbJ a)"]
  by (cases "arbJ a"; cases i) (auto simp: jLow_def)

section \<open>A sequence of calls\<close>

text \<open>The calls of the participants in the order they run, each with what it returned.\<close>

fun arbRun :: "SeqArb \<Rightarrow> (nat \<times> u64) list \<Rightarrow> (bool list \<times> arbEvent list \<times> SeqArb) outcome" where
  "arbRun a [] = Ret ([], [], a)"
| "arbRun a ((i, s) # cs) = obind (arbCall a i s) (\<lambda>(r, ev, a1).
     obind (arbRun a1 cs) (\<lambda>(rs, evs, a2). Ret (r # rs, ev @ evs, a2)))"

text \<open>Sequence numbers stay below the lock value, also after one is added.\<close>

definition arbValid :: "u64 \<Rightarrow> bool" where
  "arbValid s \<longleftrightarrow> unat s + 1 < 2 ^ 64 - 1"

lemma arbValidD:
  assumes "arbValid s"
  shows "s \<noteq> - 1" "unat (s + 1) = Suc (unat s)" "s + 1 \<noteq> - 1"
proof -
  show u: "unat (s + 1) = Suc (unat s)" using assms by (intro unat_inc) (simp add: arbValid_def)
  have m: "unat (- 1 :: u64) = 2 ^ 64 - 1" by (simp add: unsigned_minus_1_eq_mask mask_eq_exp_minus_1)
  have lt: "unat s \<noteq> 2 ^ 64 - 1" "Suc (unat s) \<noteq> 2 ^ 64 - 1" using assms by (simp_all add: arbValid_def)
  show "s \<noteq> - 1" using lt(1) m by metis
  show "s + 1 \<noteq> - 1" using lt(2) m u by metis
qed

lemma arbCall_eq:
  assumes "i < length (arbJ a)" "arbValid s" "arbSeq a \<noteq> - 1"
  defines "a1 \<equiv> a\<lparr>arbJ := (arbJ a)[i := s]\<rparr>"
  shows "arbCall a i s =
     (if s = arbSeq a then Ret (True, [Hit s], a1\<lparr>arbSeq := s + 1\<rparr>)
      else if s < arbSeq a then Ret (True, [], a1)
      else if arbSeq a < jLow a1 then Ret (False, [Gap (jLow a1 - arbSeq a)], a1\<lparr>arbSeq := jLow a1\<rparr>)
      else Ret (False, [], a1))"
  using assms by (auto simp: arbCall_def valCompareAndSwap_def arbGap_def Let_def)

lemma arbCall_step:
  assumes "arbCall a i s = Ret (r, ev, a')" "arbValid s" "arbSeq a \<noteq> - 1" "\<forall>x \<in> set (arbJ a). arbValid x"
  shows "covers (unat (arbSeq a)) ev (unat (arbSeq a'))" "arbSeq a' \<noteq> - 1"
    "\<forall>x \<in> set (arbJ a'). arbValid x" "arbJ a' = (arbJ a)[i := s]" "r \<longleftrightarrow> s \<le> arbSeq a"
    "i < length (arbJ a)" "r \<Longrightarrow> s \<in> {x. Hit x \<in> set ev} \<or> s < arbSeq a"
proof -
  show i: "i < length (arbJ a)" using assms(1) by (auto simp: arbCall_def split: if_splits)
  let ?a1 = "a\<lparr>arbJ := (arbJ a)[i := s]\<rparr>"
  have j: "\<forall>x \<in> set ((arbJ a)[i := s]). arbValid x"
    using assms(2,4) set_update_subset_insert [of "arbJ a" i s] by blast
  have "jLow ?a1 \<le> arbJ ?a1 ! i" using i by (intro jLow_le) simp
  then have "unat (jLow ?a1) \<le> unat s" using i by (simp add: word_le_nat_alt)
  then have lv: "arbValid (jLow ?a1)" using assms(2) by (simp add: arbValid_def)
  note E = assms(1) [unfolded arbCall_eq [OF i assms(2,3)]]
  note V = arbValidD [OF assms(2)] arbValidD(1) [OF lv]
  show "covers (unat (arbSeq a)) ev (unat (arbSeq a'))"
    using E V(2) by (auto simp: unat_sub word_less_nat_alt less_imp_le split: if_splits)
  show "arbSeq a' \<noteq> - 1" using E V assms(3) by (auto split: if_splits)
  show "\<forall>x \<in> set (arbJ a'). arbValid x" "arbJ a' = (arbJ a)[i := s]" using E j by (auto split: if_splits)
  show "r \<longleftrightarrow> s \<le> arbSeq a" using E by (auto split: if_splits)
  show "r \<Longrightarrow> s \<in> {x. Hit x \<in> set ev} \<or> s < arbSeq a" using E by (auto split: if_splits)
qed

lemma arbRun_covers:
  assumes "arbRun a cs = Ret (rs, evs, a')" "\<forall>(i, s) \<in> set cs. arbValid s" "arbSeq a \<noteq> - 1"
    "\<forall>x \<in> set (arbJ a). arbValid x"
  shows "covers (unat (arbSeq a)) evs (unat (arbSeq a')) \<and> arbSeq a' \<noteq> - 1"
  using assms
proof (induction cs arbitrary: a rs evs)
  case (Cons c cs)
  obtain i s where c: "c = (i, s)" by fastforce
  from Cons.prems(1) obtain r ev a1 rs1 evs1 where
    1: "arbCall a i s = Ret (r, ev, a1)" "arbRun a1 cs = Ret (rs1, evs1, a')" "evs = ev @ evs1"
    by (auto simp: c obind_Ret_iff)
  have "arbValid s" using Cons.prems(2) by (simp add: c)
  note S = arbCall_step [OF 1(1) this Cons.prems(3,4)]
  have "\<forall>(i, s) \<in> set cs. arbValid s" using Cons.prems(2) by simp
  with Cons.IH [OF 1(2) _ S(2,3)] S(1) show ?case by (auto simp: 1(3) covers_append)
qed simp

text \<open>With every participant known, the calls always return.\<close>

lemma arbRun_returns:
  assumes "\<forall>(i, s) \<in> set cs. i < length (arbJ a) \<and> arbValid s" "arbSeq a \<noteq> - 1"
    "\<forall>x \<in> set (arbJ a). arbValid x"
  shows "\<exists>rs evs a'. arbRun a cs = Ret (rs, evs, a')"
  using assms
proof (induction cs arbitrary: a)
  case (Cons c cs)
  obtain i s where c: "c = (i, s)" by fastforce
  have i: "i < length (arbJ a)" "arbValid s" using Cons.prems(1) by (simp_all add: c)
  obtain r ev a1 where 1: "arbCall a i s = Ret (r, ev, a1)"
    using arbCall_eq [OF i Cons.prems(2)] by (metis (mono_tags))
  note S = arbCall_step [OF 1 i(2) Cons.prems(2,3)]
  have "\<forall>(i, s) \<in> set cs. i < length (arbJ a1) \<and> arbValid s" using Cons.prems(1) S(4) by simp
  from Cons.IH [OF this S(2,3)] 1 show ?case by (auto simp: c)
qed simp

section \<open>Properties\<close>

text \<open>A batch call of \<^verbatim>\<open>SeqArb\<close> that uses two messages leaves the expected number too
  high: after the messages 10 and 11 it waits for 13, so message 12 of this line is discarded
  although no client ever saw it.\<close>

lemma arb_batch_skips:
  "\<exists>a a'. newSeqArb 1 10 = a \<and> arbBatch a 0 (\<lambda>k. 10 + of_nat k) 2 = Ret (2, [Hit 10, Hit 11], a') \<and>
     arbSeq a' = 13 \<and> arbCall a' 0 12 = Ret (True, [], a'\<lparr>arbJ := [12]\<rparr>)"
  by (simp add: newSeqArb_def arbBatch_def arbBatchLoop.simps valCompareAndSwap_def Let_def arbCall_def)

end
