(* ===== verification/SeqArbThreads.thy ===== *)
theory SeqArbThreads
  imports SeqArb
begin

text \<open>
  The thread-safe \<^verbatim>\<open>SeqArb\<close>: one thread per participant, interleaved at every read and write
  of shared memory. Between the compare-and-swap that takes the lock and the store that
  releases it a thread runs the client's \<^verbatim>\<open>h\<close> or \<^verbatim>\<open>g\<close>.
\<close>

section \<open>Threads and steps\<close>

datatype arb_pc =
    AIdle
  | AOffer u64          \<comment> \<open>stored its number, before the compare-and-swap\<close>
  | AHit u64            \<comment> \<open>holds the lock, runs \<^verbatim>\<open>h\<close>\<close>
  | AScan u64 nat u64   \<comment> \<open>in \<^verbatim>\<open>jLow\<close>: the value found, the next index, the least so far\<close>
  | AGapping u64 u64    \<comment> \<open>holds the lock, runs \<^verbatim>\<open>g\<close>\<close>

text \<open>\<open>arbLog\<close> is the history of what the clients were told, \<open>dropped\<close> the numbers discarded.\<close>

record arb_sys =
  arb :: SeqArb
  pcs :: "nat \<Rightarrow> arb_pc"
  arbLog :: "arbEvent list"
  dropped :: "u64 list"

definition init_arb :: "nat \<Rightarrow> u64 \<Rightarrow> arb_sys" where
  "init_arb n startSeq = \<lparr>arb = newSeqArb n startSeq, pcs = (\<lambda>_. AIdle), arbLog = [], dropped = []\<rparr>"

text \<open>A participant's numbers do not decrease; the same one is offered again after a \<open>False\<close>.\<close>

inductive arb_step :: "arb_sys \<Rightarrow> arb_sys \<Rightarrow> bool" where
  a_offer: "pcs s i = AIdle \<Longrightarrow> i < length (arbJ (arb s)) \<Longrightarrow> arbValid q \<Longrightarrow> arbJ (arb s) ! i \<le> q \<Longrightarrow>
     arb_step s (s\<lparr>arb := (arb s)\<lparr>arbJ := (arbJ (arb s))[i := q]\<rparr>, pcs := (pcs s)(i := AOffer q)\<rparr>)"
| a_hit: "pcs s i = AOffer q \<Longrightarrow> valCompareAndSwap (arbSeq (arb s)) q (- 1) = (q, new) \<Longrightarrow>
     arb_step s (s\<lparr>arb := (arb s)\<lparr>arbSeq := new\<rparr>, pcs := (pcs s)(i := AHit q)\<rparr>)"
| a_busy: "pcs s i = AOffer q \<Longrightarrow> arbSeq (arb s) = - 1 \<Longrightarrow>
     arb_step s (s\<lparr>pcs := (pcs s)(i := AIdle)\<rparr>)"
| a_drop: "pcs s i = AOffer q \<Longrightarrow> arbSeq (arb s) \<noteq> - 1 \<Longrightarrow> q < arbSeq (arb s) \<Longrightarrow>
     arb_step s (s\<lparr>pcs := (pcs s)(i := AIdle), dropped := q # dropped s\<rparr>)"
| a_ahead: "pcs s i = AOffer q \<Longrightarrow> arbSeq (arb s) \<noteq> - 1 \<Longrightarrow> arbSeq (arb s) < q \<Longrightarrow>
     arb_step s (s\<lparr>pcs := (pcs s)(i := AScan (arbSeq (arb s)) 1 (arbJ (arb s) ! 0))\<rparr>)"
| a_scan: "pcs s i = AScan old k res \<Longrightarrow> k < length (arbJ (arb s)) \<Longrightarrow>
     arb_step s (s\<lparr>pcs := (pcs s)(i := AScan old (k + 1)
       (if res > arbJ (arb s) ! k then arbJ (arb s) ! k else res))\<rparr>)"
| a_gap: "pcs s i = AScan old k low \<Longrightarrow> k \<ge> length (arbJ (arb s)) \<Longrightarrow> low > old \<Longrightarrow>
     valCompareAndSwap (arbSeq (arb s)) old (- 1) = (old, new) \<Longrightarrow>
     arb_step s (s\<lparr>arb := (arb s)\<lparr>arbSeq := new\<rparr>, pcs := (pcs s)(i := AGapping old low)\<rparr>)"
| a_nogap: "pcs s i = AScan old k low \<Longrightarrow> k \<ge> length (arbJ (arb s)) \<Longrightarrow> low \<le> old \<or> arbSeq (arb s) \<noteq> old \<Longrightarrow>
     arb_step s (s\<lparr>pcs := (pcs s)(i := AIdle)\<rparr>)"
| a_hit_done: "pcs s i = AHit q \<Longrightarrow>
     arb_step s (s\<lparr>arb := (arb s)\<lparr>arbSeq := q + 1\<rparr>, pcs := (pcs s)(i := AIdle), arbLog := arbLog s @ [Hit q]\<rparr>)"
| a_gap_done: "pcs s i = AGapping old low \<Longrightarrow>
     arb_step s (s\<lparr>arb := (arb s)\<lparr>arbSeq := low\<rparr>, pcs := (pcs s)(i := AIdle), arbLog := arbLog s @ [Gap (low - old)]\<rparr>)"

inductive arb_reach :: "nat \<Rightarrow> u64 \<Rightarrow> arb_sys \<Rightarrow> bool" for n startSeq where
  arb_init: "arb_reach n startSeq (init_arb n startSeq)"
| arb_trans: "arb_reach n startSeq s \<Longrightarrow> arb_step s t \<Longrightarrow> arb_reach n startSeq t"

section \<open>The invariant\<close>

text \<open>The numbers inside the gaps of a log that starts at \<open>a\<close>.\<close>

fun gapSet :: "nat \<Rightarrow> arbEvent list \<Rightarrow> nat set" where
  "gapSet a [] = {}"
| "gapSet a (Hit s # l) = gapSet (Suc a) l"
| "gapSet a (Gap n # l) = {a ..< a + unat n} \<union> gapSet (a + unat n) l"

lemma gapSet_append: "covers a l e \<Longrightarrow> gapSet a (l @ l') = gapSet a l \<union> gapSet e l'"
  by (induction a l e rule: covers.induct) auto

lemma covers_hit_or_gap: "covers a l e \<Longrightarrow> {a ..< e} \<subseteq> set (hits l) \<union> gapSet a l"
proof (induction a l e rule: covers.induct)
  case (2 a s l e)
  then have "{a ..< e} \<subseteq> insert a {Suc a ..< e}" by auto
  with 2 show ?case by fastforce
next
  case (3 a n l e)
  then have "{a ..< e} \<subseteq> {a ..< a + unat n} \<union> {a + unat n ..< e}" by auto
  with 3 show ?case by fastforce
qed simp

text \<open>The number a lock holder took the lock at.\<close>

fun holds :: "arb_pc \<Rightarrow> u64 option" where
  "holds (AHit q) = Some q"
| "holds (AGapping old low) = Some old"
| "holds _ = None"

text \<open>What a thread knows about the shared numbers \<open>js\<close>; its own is the one it offered.\<close>

fun pc_ok :: "u64 list \<Rightarrow> nat \<Rightarrow> arb_pc \<Rightarrow> bool" where
  "pc_ok js i AIdle = True"
| "pc_ok js i (AOffer q) = (i < length js \<and> q = js ! i)"
| "pc_ok js i (AHit q) = (arbValid q)"
| "pc_ok js i (AScan old k res) = (arbValid res \<and> 0 < length js \<and> (\<forall>m < min k (length js). res \<le> js ! m))"
| "pc_ok js i (AGapping old low) = (arbValid low \<and> old < low \<and> (\<forall>m < length js. low \<le> js ! m))"

definition arb_inv :: "nat \<Rightarrow> arb_sys \<Rightarrow> nat \<Rightarrow> bool" where
  "arb_inv a s e \<longleftrightarrow>
     covers a (arbLog s) e \<and>
     (\<forall>x \<in> set (arbJ (arb s)). arbValid x) \<and>
     (\<forall>i. pc_ok (arbJ (arb s)) i (pcs s i)) \<and>
     (\<forall>i q. holds (pcs s i) = Some q \<longrightarrow> unat q = e \<and> arbSeq (arb s) = - 1) \<and>
     (\<forall>i j q p. holds (pcs s i) = Some q \<and> holds (pcs s j) = Some p \<longrightarrow> i = j) \<and>
     (arbSeq (arb s) \<noteq> - 1 \<longrightarrow> unat (arbSeq (arb s)) = e) \<and>
     (arbSeq (arb s) = - 1 \<longrightarrow> (\<exists>i q. holds (pcs s i) = Some q)) \<and>
     (\<forall>x \<in> gapSet a (arbLog s). \<forall>m < length (arbJ (arb s)). x < unat (arbJ (arb s) ! m)) \<and>
     (\<forall>q \<in> set (dropped s). unat q < a \<or> unat q \<in> set (hits (arbLog s)))"

lemma arb_invD:
  assumes "arb_inv a s e"
  shows "covers a (arbLog s) e" "x \<in> set (arbJ (arb s)) \<Longrightarrow> arbValid x"
    "pc_ok (arbJ (arb s)) i (pcs s i)" "holds (pcs s i) = Some q \<Longrightarrow> unat q = e"
    "holds (pcs s i) = Some q \<Longrightarrow> arbSeq (arb s) = - 1"
    "holds (pcs s i) = Some q \<Longrightarrow> holds (pcs s j) = Some p \<Longrightarrow> i = j"
    "arbSeq (arb s) \<noteq> - 1 \<Longrightarrow> unat (arbSeq (arb s)) = e"
    "arbSeq (arb s) = - 1 \<Longrightarrow> \<exists>i q. holds (pcs s i) = Some q"
    "y \<in> gapSet a (arbLog s) \<Longrightarrow> m < length (arbJ (arb s)) \<Longrightarrow> y < unat (arbJ (arb s) ! m)"
    "z \<in> set (dropped s) \<Longrightarrow> unat z < a \<or> unat z \<in> set (hits (arbLog s))"
  using assms unfolding arb_inv_def by blast+

lemma arb_invI:
  assumes "covers a (arbLog s) e" "\<And>x. x \<in> set (arbJ (arb s)) \<Longrightarrow> arbValid x"
    and "\<And>i. pc_ok (arbJ (arb s)) i (pcs s i)"
    and "\<And>i q. holds (pcs s i) = Some q \<Longrightarrow> unat q = e \<and> arbSeq (arb s) = - 1"
    and "\<And>i j q p. holds (pcs s i) = Some q \<Longrightarrow> holds (pcs s j) = Some p \<Longrightarrow> i = j"
    and "arbSeq (arb s) \<noteq> - 1 \<Longrightarrow> unat (arbSeq (arb s)) = e"
    and "arbSeq (arb s) = - 1 \<Longrightarrow> \<exists>i q. holds (pcs s i) = Some q"
    and "\<And>y m. y \<in> gapSet a (arbLog s) \<Longrightarrow> m < length (arbJ (arb s)) \<Longrightarrow> y < unat (arbJ (arb s) ! m)"
    and "\<And>z. z \<in> set (dropped s) \<Longrightarrow> unat z < a \<or> unat z \<in> set (hits (arbLog s))"
  shows "arb_inv a s e"
  using assms unfolding arb_inv_def by blast

lemma arb_inv_init:
  assumes "unat startSeq < 2 ^ 64 - 1"
  shows "arb_inv (unat startSeq) (init_arb n startSeq) (unat startSeq)"
proof -
  have "unat (- 1 :: u64) = 2 ^ 64 - 1" by (simp add: unsigned_minus_1_eq_mask mask_eq_exp_minus_1)
  then have "startSeq \<noteq> - 1" using assms by (metis less_irrefl)
  then show ?thesis
    by (intro arb_invI) (auto simp: init_arb_def newSeqArb_def arbValid_def)
qed

text \<open>Shared numbers only grow, which keeps what the scanning threads know.\<close>

lemma pc_ok_mono:
  assumes "pc_ok js i pc" "i < length js \<longrightarrow> js' ! i = js ! i" "length js' = length js"
    "\<And>m. m < length js \<Longrightarrow> js ! m \<le> js' ! m"
  shows "pc_ok js' i pc"
  using assms by (cases pc) (auto intro: order_trans)

section \<open>Preservation\<close>

text \<open>A step of a thread without the lock that changes nothing shared.\<close>

lemma arb_inv_quiet:
  assumes inv: "arb_inv a s e" and "holds (pcs s i) = None" "holds pc = None" "pc_ok (arbJ (arb s)) i pc"
    and "\<And>z. z \<in> set ds \<Longrightarrow> unat z < a \<or> unat z \<in> set (hits (arbLog s))"
  shows "arb_inv a (s\<lparr>pcs := (pcs s)(i := pc), dropped := ds\<rparr>) e"
proof -
  note D = arb_invD [OF inv]
  have h: "holds (((pcs s)(i := pc)) j) = holds (pcs s j)" for j using assms(2,3) by simp
  show ?thesis
    by (rule arb_invI) (use D assms(4,5) in \<open>simp_all add: h del: fun_upd_apply\<close>, simp_all)
qed

lemma arb_inv_offer:
  assumes inv: "arb_inv a s e" and i: "pcs s i = AIdle" "i < length (arbJ (arb s))"
    and q: "arbValid q" "arbJ (arb s) ! i \<le> q"
  shows "arb_inv a (s\<lparr>arb := (arb s)\<lparr>arbJ := (arbJ (arb s))[i := q]\<rparr>, pcs := (pcs s)(i := AOffer q)\<rparr>) e"
proof -
  note D = arb_invD [OF inv]
  let ?js = "arbJ (arb s)"
  have up: "?js ! m \<le> ?js[i := q] ! m" if "m < length ?js" for m
    using q(2) i(2) that by (cases "m = i") auto
  have h: "holds (((pcs s)(i := AOffer q)) j) = holds (pcs s j)" for j using i(1) by simp
  have ok: "pc_ok (?js[i := q]) j (((pcs s)(i := AOffer q)) j)" for j
  proof (cases "j = i")
    case False
    then show ?thesis using pc_ok_mono [OF D(3) _ _ up, of j] by simp
  qed (use i(2) in simp)
  have val: "arbValid x" if "x \<in> set (?js[i := q])" for x
    using that q(1) D(2) set_update_subset_insert [of ?js i q] by blast
  have gap: "y < unat (?js[i := q] ! m)" if "y \<in> gapSet a (arbLog s)" "m < length ?js" for y m
    using D(9) [OF that] up [OF that(2)] by (simp add: word_le_nat_alt)
  show ?thesis
    by (rule arb_invI) (use D ok val gap in \<open>simp_all add: h del: fun_upd_apply\<close>)
qed

text \<open>Taking the lock: the compare-and-swap found the expected number.\<close>

lemma arb_inv_lock:
  assumes inv: "arb_inv a s e" and "arbSeq (arb s) \<noteq> - 1" "holds pc = Some (arbSeq (arb s))"
    "pc_ok (arbJ (arb s)) i pc"
  shows "arb_inv a (s\<lparr>arb := (arb s)\<lparr>arbSeq := - 1\<rparr>, pcs := (pcs s)(i := pc)\<rparr>) e"
proof -
  note D = arb_invD [OF inv]
  have free: "holds (pcs s j) = None" for j using D(5) assms(2) by (cases "holds (pcs s j)") auto
  have h: "holds (((pcs s)(i := pc)) j) = Some q \<longleftrightarrow> j = i \<and> q = arbSeq (arb s)" for j q
    using free assms(3) by auto
  have ok: "pc_ok (arbJ (arb s)) j (((pcs s)(i := pc)) j)" for j using D(3) assms(4) by simp
  show ?thesis
    by (rule arb_invI) (use D(1,2,7,9,10) ok assms(2) in \<open>simp_all add: h del: fun_upd_apply\<close>)
qed

text \<open>Releasing it: the log grows by the event, up to the new expected number.\<close>

lemma arb_inv_unlock:
  assumes inv: "arb_inv a s e" and i: "holds (pcs s i) = Some q"
    and ev: "covers e [ev] (unat new)" "new \<noteq> - 1"
    and gap: "\<And>y m. y \<in> gapSet e [ev] \<Longrightarrow> m < length (arbJ (arb s)) \<Longrightarrow> y < unat (arbJ (arb s) ! m)"
  shows "arb_inv a (s\<lparr>arb := (arb s)\<lparr>arbSeq := new\<rparr>, pcs := (pcs s)(i := AIdle), arbLog := arbLog s @ [ev]\<rparr>) (unat new)"
proof -
  note D = arb_invD [OF inv]
  have h: "holds (((pcs s)(i := AIdle)) j) = None" for j
    using D(6) [OF i, of j] by (cases "holds (pcs s j)") auto
  have ok: "pc_ok (arbJ (arb s)) j (((pcs s)(i := AIdle)) j)" for j using D(3) by simp
  have c: "covers a (arbLog s @ [ev]) (unat new)" using D(1) ev(1) covers_append by blast
  have g: "gapSet a (arbLog s @ [ev]) = gapSet a (arbLog s) \<union> gapSet e [ev]"
    by (rule gapSet_append [OF D(1)])
  have dr: "unat z < a \<or> unat z \<in> set (hits (arbLog s @ [ev]))" if "z \<in> set (dropped s)" for z
    using D(10) [OF that] by auto
  show ?thesis
    by (rule arb_invI)
      (use D(1-9) c ok gap ev(2) dr in \<open>auto simp add: h g simp del: fun_upd_apply hits_append\<close>)
qed

lemma arb_step_inv:
  assumes "arb_step s t" "arb_inv a s e"
  shows "\<exists>e'. arb_inv a t e'"
  using assms(1)
proof cases
  case (a_offer i q)
  then show ?thesis using arb_inv_offer [OF assms(2)] by blast
next
  case (a_hit i q new)
  note D = arb_invD [OF assms(2)]
  have q: "arbSeq (arb s) = q" "new = - 1" using a_hit(3) by (auto simp: valCompareAndSwap_def)
  have "i < length (arbJ (arb s))" "q = arbJ (arb s) ! i" using D(3) [of i] a_hit(2) by simp_all
  then have v: "arbValid q" using D(2) by simp
  have "arb_inv a (s\<lparr>arb := (arb s)\<lparr>arbSeq := - 1\<rparr>, pcs := (pcs s)(i := AHit q)\<rparr>) e"
    by (rule arb_inv_lock [OF assms(2)]) (use q v arbValidD(1) [OF v] in simp_all)
  then show ?thesis using a_hit(1) q(2) by auto
next
  case (a_busy i q)
  have "arb_inv a (s\<lparr>pcs := (pcs s)(i := AIdle), dropped := dropped s\<rparr>) e"
    by (rule arb_inv_quiet [OF assms(2)]) (use a_busy arb_invD(10) [OF assms(2)] in auto)
  then show ?thesis using a_busy(1) by auto
next
  case (a_drop i q)
  note D = arb_invD [OF assms(2)]
  have q: "i < length (arbJ (arb s))" "q = arbJ (arb s) ! i" using D(3) [of i] a_drop(2) by simp_all
  have "unat q < e" using a_drop(3,4) D(7) by (simp add: word_less_nat_alt)
  moreover have "unat q \<notin> gapSet a (arbLog s)" using D(9) [of "unat q" i] q by auto
  ultimately have "unat q < a \<or> unat q \<in> set (hits (arbLog s))"
    using covers_hit_or_gap [OF D(1)] by (metis UnE atLeastLessThan_iff not_le subsetD)
  then have "arb_inv a (s\<lparr>pcs := (pcs s)(i := AIdle), dropped := q # dropped s\<rparr>) e"
    by (intro arb_inv_quiet [OF assms(2)]) (use a_drop(2) D(10) in auto)
  then show ?thesis using a_drop(1) by auto
next
  case (a_ahead i q)
  note D = arb_invD [OF assms(2)]
  have i: "i < length (arbJ (arb s))" using D(3) [of i] a_ahead(2) by simp
  then have n: "0 < length (arbJ (arb s))" by linarith
  then have "arbValid (arbJ (arb s) ! 0)" using D(2) by simp
  then have "pc_ok (arbJ (arb s)) i (AScan (arbSeq (arb s)) 1 (arbJ (arb s) ! 0))" using n by simp
  then have "arb_inv a (s\<lparr>pcs := (pcs s)(i := AScan (arbSeq (arb s)) 1 (arbJ (arb s) ! 0)), dropped := dropped s\<rparr>) e"
    by (intro arb_inv_quiet [OF assms(2)]) (use a_ahead(2) D(10) in auto)
  then show ?thesis using a_ahead(1) by auto
next
  case (a_scan i old k res)
  note D = arb_invD [OF assms(2)]
  let ?res = "if res > arbJ (arb s) ! k then arbJ (arb s) ! k else res"
  have ok: "pc_ok (arbJ (arb s)) i (AScan old k res)" using D(3) [of i] a_scan(2) by simp
  have "\<forall>m < min (Suc k) (length (arbJ (arb s))). ?res \<le> arbJ (arb s) ! m"
    using ok a_scan(3) by (auto simp: less_Suc_eq not_less intro: order_trans)
  then have "pc_ok (arbJ (arb s)) i (AScan old (k + 1) ?res)" using ok a_scan(3) D(2) by simp
  then have "arb_inv a (s\<lparr>pcs := (pcs s)(i := AScan old (k + 1) ?res), dropped := dropped s\<rparr>) e"
    by (intro arb_inv_quiet [OF assms(2)]) (use a_scan(2) D(10) in auto)
  then show ?thesis using a_scan(1) by auto
next
  case (a_gap i old k low new)
  note D = arb_invD [OF assms(2)]
  have o: "arbSeq (arb s) = old" "new = - 1" using a_gap(5) by (auto simp: valCompareAndSwap_def)
  have ok: "pc_ok (arbJ (arb s)) i (AScan old k low)" using D(3) [of i] a_gap(2) by simp
  then have "pc_ok (arbJ (arb s)) i (AGapping old low)" using a_gap(3,4) by (simp add: min_absorb2)
  moreover have "old \<noteq> - 1"
  proof
    assume "old = - 1"
    then have "- 1 < low" using a_gap(4) by simp
    then show False by (simp add: word_order.extremum_strict)
  qed
  ultimately have "arb_inv a (s\<lparr>arb := (arb s)\<lparr>arbSeq := - 1\<rparr>, pcs := (pcs s)(i := AGapping old low)\<rparr>) e"
    by (intro arb_inv_lock [OF assms(2)]) (use o in simp_all)
  then show ?thesis using a_gap(1) o(2) by auto
next
  case (a_nogap i old k low)
  have "arb_inv a (s\<lparr>pcs := (pcs s)(i := AIdle), dropped := dropped s\<rparr>) e"
    by (rule arb_inv_quiet [OF assms(2)]) (use a_nogap arb_invD(10) [OF assms(2)] in auto)
  then show ?thesis using a_nogap(1) by auto
next
  case (a_hit_done i q)
  note D = arb_invD [OF assms(2)]
  have "arbValid q" "unat q = e" using D(3,4) [of i] a_hit_done(2) by simp_all
  then have "arb_inv a (s\<lparr>arb := (arb s)\<lparr>arbSeq := q + 1\<rparr>, pcs := (pcs s)(i := AIdle), arbLog := arbLog s @ [Hit q]\<rparr>) (unat (q + 1))"
    by (intro arb_inv_unlock [OF assms(2)]) (use a_hit_done(2) arbValidD in auto)
  then show ?thesis using a_hit_done(1) by auto
next
  case (a_gap_done i old low)
  note D = arb_invD [OF assms(2)]
  have ok: "arbValid low" "old < low" "\<forall>m < length (arbJ (arb s)). low \<le> arbJ (arb s) ! m" and o: "unat old = e"
    using D(3,4) [of i] a_gap_done(2) by simp_all
  have n: "unat (low - old) = unat low - e" "e < unat low"
    using ok(2) o by (simp_all add: unat_sub word_less_nat_alt word_le_nat_alt)
  have "arb_inv a (s\<lparr>arb := (arb s)\<lparr>arbSeq := low\<rparr>, pcs := (pcs s)(i := AIdle), arbLog := arbLog s @ [Gap (low - old)]\<rparr>) (unat low)"
  proof (rule arb_inv_unlock [OF assms(2)])
    show "holds (pcs s i) = Some old" using a_gap_done(2) by simp
    show "covers e [Gap (low - old)] (unat low)" using n by simp
    show "low \<noteq> - 1" by (rule arbValidD(1) [OF ok(1)])
    show "y < unat (arbJ (arb s) ! m)" if "y \<in> gapSet e [Gap (low - old)]" "m < length (arbJ (arb s))" for y m
    proof -
      have "y < unat low" using that(1) n by auto
      also have "unat low \<le> unat (arbJ (arb s) ! m)" using ok(3) that(2) by (simp add: word_le_nat_alt)
      finally show ?thesis .
    qed
  qed
  then show ?thesis using a_gap_done(1) by auto
qed

lemma arb_reach_inv:
  assumes "unat startSeq < 2 ^ 64 - 1"
  shows "arb_reach n startSeq s \<Longrightarrow> \<exists>e. arb_inv (unat startSeq) s e"
proof (induction rule: arb_reach.induct)
  case arb_init
  show ?case using arb_inv_init [OF assms] by blast
next
  case (arb_trans s t)
  then show ?case using arb_step_inv by blast
qed

section \<open>Properties\<close>

text \<open>C31: in every interleaving of the participants of a thread-safe \<^verbatim>\<open>SeqArb\<close>, the messages
  let through and the gaps reported account for the sequence numbers from the first one on,
  each exactly once and in order; and a copy is discarded only if its message was let through.\<close>

lemma arb_exactly_once:
  assumes "unat startSeq < 2 ^ 64 - 1" "arb_reach n startSeq s"
  shows "\<exists>e. covers (unat startSeq) (arbLog s) e \<and> sorted (hits (arbLog s)) \<and> distinct (hits (arbLog s)) \<and>
     (\<forall>q \<in> set (dropped s). unat q < unat startSeq \<or> unat q \<in> set (hits (arbLog s)))"
proof -
  obtain e where "arb_inv (unat startSeq) s e" using arb_reach_inv [OF assms] by blast
  then show ?thesis using arb_invD(1,10) covers_hits by blast
qed

lemma arb_exactly_once_witness:
  "\<exists>s e. arb_reach 2 5 s \<and> arbLog s = [Hit 5] \<and> covers 5 (arbLog s) e \<and> sorted (hits (arbLog s)) \<and> e = 6"
proof -
  let ?st = "\<lambda>q js p l. \<lparr>arb = \<lparr>arbSeq = q, arbJ = js\<rparr>, pcs = (\<lambda>_. AIdle)(0 := p), arbLog = l, dropped = []\<rparr>"
  have "arb_reach 2 5 (init_arb 2 5)" by (rule arb_init)
  then have "arb_reach 2 5 (?st 5 [0, 0] AIdle [])"
    by (simp add: init_arb_def newSeqArb_def numeral_2_eq_2 fun_upd_idem)
  from arb_trans [OF this a_offer [of _ 0 5]]
  have "arb_reach 2 5 (?st 5 [5, 0] (AOffer 5) [])" by (simp add: arbValid_def)
  from arb_trans [OF this a_hit [of _ 0 5 "- 1"]]
  have "arb_reach 2 5 (?st (- 1) [5, 0] (AHit 5) [])" by (simp add: valCompareAndSwap_def)
  from arb_trans [OF this a_hit_done [of _ 0 5]]
  have r: "arb_reach 2 5 (?st 6 [5, 0] AIdle [Hit 5])" by simp
  have b: "unat (5 :: u64) < 2 ^ 64 - 1" by simp
  obtain e where "covers (unat (5 :: u64)) [Hit 5] e" "sorted (hits [Hit 5])"
    using arb_exactly_once [OF b r] by auto
  then show ?thesis using r by (intro exI [of _ "?st 6 [5, 0] AIdle [Hit 5]"] exI [of _ e]) simp
qed

end
