(* ===== verification/BlockingBufferRt.thy ===== *)
theory BlockingBufferRt
  imports BlockingBufferSpec
begin

text \<open>
  \<^verbatim>\<open>hmbdc/pattern/BlockingBufferRt.hpp\<close>: the variant for real-time producers, which never
  wait: a put into a full buffer hands the oldest messages to a handler and drops them. The
  state is that of \<^verbatim>\<open>BlockingBuffer\<close>; its fields for exclusive peeks stay unused. An operation
  returns the slots it handed to the handler, in order.
\<close>

section \<open>Operations\<close>

type_synonym BlockingBufferRt = BlockingBuffer

definition newBlockingBufferRt :: "(nat \<Rightarrow> u8) \<Rightarrow> u64 \<Rightarrow> u64 \<Rightarrow> BlockingBufferRt" where
  "newBlockingBufferRt junk sz cap = newBlockingBuffer junk sz cap"

text \<open>\<^verbatim>\<open>handlePushedOut(getItem(seq_ - size_--))\<close>: the slot handed over, the size one less.\<close>

definition rtPushOut :: "BlockingBufferRt \<Rightarrow> bytes \<times> BlockingBufferRt" where
  "rtPushOut b =
     (take (unat (maxItemSize b)) (drop (unat (getItem b (bbSeq b - bbSize b))) (store b)),
      b\<lparr>bbSize := bbSize b - 1\<rparr>)"

text \<open>\<^verbatim>\<open>while (capacity_ <= size_ + k)\<close>; the sum goes down by one in each round.\<close>

function rtPushOutUntil :: "BlockingBufferRt \<Rightarrow> u64 \<Rightarrow> bytes list \<times> BlockingBufferRt" where
  "rtPushOutUntil b k =
     (if capacity b \<noteq> 0 \<and> capacity b \<le> bbSize b + k
      then (case rtPushOut b of (x, b1) \<Rightarrow> case rtPushOutUntil b1 k of (xs, b2) \<Rightarrow> (x # xs, b2))
      else ([], b))"
  by auto
termination
proof (relation "measure (\<lambda>(b, k). unat (bbSize b + k))")
  fix b :: BlockingBufferRt and k x b1
  assume g: "capacity b \<noteq> 0 \<and> capacity b \<le> bbSize b + k" and e: "(x, b1) = rtPushOut b"
  have ne: "bbSize b + k \<noteq> 0" using g by auto
  have "bbSize b1 + k = bbSize b + k - 1" using e by (simp add: rtPushOut_def)
  moreover have "unat (bbSize b + k - 1) < unat (bbSize b + k)"
    unfolding unat_minus_one [OF ne] using ne by (simp add: unat_gt_0)
  ultimately show "((b1, k), b, k) \<in> measure (\<lambda>(b, k). unat (bbSize b + k))"
    by (simp only: in_measure case_prod_conv)
qed simp

declare rtPushOutUntil.simps [simp del]

definition rtPut :: "BlockingBufferRt \<Rightarrow> bytes \<Rightarrow> nat \<Rightarrow> (bytes list \<times> notice \<times> BlockingBufferRt) outcome" where
  "rtPut b item sizeHint =
     (let (out, b1) = if capacity b \<le> bbSize b then (case rtPushOut b of (x, b1) \<Rightarrow> ([x], b1)) else ([], b)
      in obind (bbWrite b1 item (bbHint b1 sizeHint)) (\<lambda>b2. Ret (out, bbGrow b2 1)))"


definition rtPutBatchInPlace ::
    "('a \<Rightarrow> bytes) \<Rightarrow> BlockingBufferRt \<Rightarrow> 'a list \<Rightarrow> (bytes list \<times> notice \<times> BlockingBufferRt) outcome" where
  "rtPutBatchInPlace mk b elems =
     (if capacity b = 0 then Undefined
      else let n = of_nat (length elems); (out, b1) = rtPushOutUntil b n
           in obind (bbFill b1 (map mk elems)) (\<lambda>b2. Ret (out, bbGrow b2 n)))"

definition rtPutInPlace :: "BlockingBufferRt \<Rightarrow> bytes \<Rightarrow> (bytes list \<times> notice \<times> BlockingBufferRt) outcome" where
  "rtPutInPlace b obj =
     (let (out, b1) = if capacity b \<le> bbSize b then (case rtPushOut b of (x, b1) \<Rightarrow> ([x], b1)) else ([], b)
      in obind (bbWrite b1 obj (length obj)) (\<lambda>b2. Ret (out, bbGrow b2 1)))"

definition rtTryPutInPlace :: "BlockingBufferRt \<Rightarrow> bytes \<Rightarrow> (bool \<times> notice \<times> BlockingBufferRt) outcome" where
  "rtTryPutInPlace b obj =
     (if capacity b \<le> bbSize b then Ret (False, NoNotice, b)
      else obind (bbWrite b obj (length obj)) (\<lambda>b'. Ret (True, bbGrow b' 1)))"

text \<open>The timeout of \<^verbatim>\<open>tryPut\<close> is not used.\<close>

definition rtTryPut :: "BlockingBufferRt \<Rightarrow> bytes \<Rightarrow> nat \<Rightarrow> (bool \<times> notice \<times> BlockingBufferRt) outcome" where
  "rtTryPut b item sizeHint =
     (if capacity b \<le> bbSize b then Ret (False, NoNotice, b)
      else obind (bbWrite b item (bbHint b sizeHint)) (\<lambda>b'. Ret (True, bbGrow b' 1)))"

definition rtIsFull :: "BlockingBufferRt \<Rightarrow> bool" where
  "rtIsFull b \<longleftrightarrow> bbSize b = capacity b"

text \<open>Taking gives the slot's bytes to the copy-out handler; no producer waits, so no notice.\<close>

definition rtTake :: "BlockingBufferRt \<Rightarrow> nat \<Rightarrow> (bytes \<times> BlockingBufferRt) outcome" where
  "rtTake b sizeHint =
     (if bbSize b = 0 then Spins
      else obind (bbRead b (bbSeq b - bbSize b) (bbHint b sizeHint)) (\<lambda>x. Ret (x, b\<lparr>bbSize := bbSize b - 1\<rparr>)))"

definition rtTryTake :: "BlockingBufferRt \<Rightarrow> nat \<Rightarrow> (bytes option \<times> BlockingBufferRt) outcome" where
  "rtTryTake b sizeHint =
     (if bbSize b = 0 then Ret (None, b)
      else obind (bbRead b (bbSeq b - bbSize b) (bbHint b sizeHint))
             (\<lambda>x. Ret (Some x, b\<lparr>bbSize := bbSize b - 1\<rparr>)))"

definition rtTakeRange :: "BlockingBufferRt \<Rightarrow> nat \<Rightarrow> nat \<Rightarrow> (bytes list \<times> u64 \<times> BlockingBufferRt) outcome" where
  "rtTakeRange b room elemSize =
     (if bbSize b = 0 then Spins
      else obind (bbTakeLoop b (bbSize b) room elemSize)
             (\<lambda>(xs, s). Ret (xs, bbSize b - s, b\<lparr>bbSize := s\<rparr>)))"

definition rtRemainingSize :: "BlockingBufferRt \<Rightarrow> u64" where
  "rtRemainingSize b = bbSize b"

definition rtReset :: "BlockingBufferRt \<Rightarrow> BlockingBufferRt" where
  "rtReset b = b\<lparr>bbSize := 0, bbSeq := 0\<rparr>"

section \<open>What they do\<close>

lemma rtPushOut_spec:
  assumes "bb_inv b" "noPeeks b" "bbItems b \<noteq> []"
  shows "rtPushOut b = (hd (bbItems b), b\<lparr>bbSize := bbSize b - 1\<rparr>)" "bb_inv (b\<lparr>bbSize := bbSize b - 1\<rparr>)"
    "bbItems (b\<lparr>bbSize := bbSize b - 1\<rparr>) = tl (bbItems b)" "noPeeks (b\<lparr>bbSize := bbSize b - 1\<rparr>)"
    "unat (bbSize b - 1) = length (bbItems b) - 1"
proof -
  note D = bb_invD [OF assms(1)]
  have s: "sizeN b \<noteq> 0" using assms(3) bbItems_length [OF D(1)] by (metis length_0_conv)
  then have x: "unat (bbSize b - 1) = sizeN b - 1" by (simp add: sizeN_def unat_minus_one unat_eq_0)
  then show "unat (bbSize b - 1) = length (bbItems b) - 1" by (simp add: bbItems_length [OF D(1)])
  have k: "1 \<le> length (bbItems b)" using assms(3) by (cases "bbItems b") simp_all
  note S = bb_shrink_step [OF assms(1,2) k x]
  show "bb_inv (b\<lparr>bbSize := bbSize b - 1\<rparr>)" "noPeeks (b\<lparr>bbSize := bbSize b - 1\<rparr>)" by (rule S)+
  show "bbItems (b\<lparr>bbSize := bbSize b - 1\<rparr>) = tl (bbItems b)" using S(2) by (simp add: drop_Suc)
  show "rtPushOut b = (hd (bbItems b), b\<lparr>bbSize := bbSize b - 1\<rparr>)"
    using bbItems_Cons [OF D(1) s]
    by (simp add: rtPushOut_def getItem_offset [OF D(1)] bb_oldest [OF D(1)] slotAt_def flip: itemN_def)
qed


text \<open>A put of one message.\<close>

lemma rt_room_for_one:
  assumes "bb_inv b" "noPeeks b"
  obtains out b1 where "(if capacity b \<le> bbSize b then (case rtPushOut b of (x, b1) \<Rightarrow> ([x], b1)) else ([], b)) = (out, b1)"
    "bb_inv b1" "noPeeks b1" "length (bbItems b1) < capN b" "out @ bbItems b1 = bbItems b"
    "out = [] \<longleftrightarrow> length (bbItems b) < capN b" "length out \<le> 1"
    "capN b1 = capN b" "itemN b1 = itemN b" "seqN b1 = seqN b" "maxItemSize b1 = maxItemSize b"
proof (cases "capacity b \<le> bbSize b")
  case True
  note D = bb_invD [OF assms(1)] and sh = bb_shapeD [OF bb_invD(1) [OF assms(1)]]
  have full: "length (bbItems b) = capN b"
    using True sh(4) bbItems_length [OF D(1)] by (simp add: word_le_nat_alt sizeN_def capN_def)
  then have ne: "bbItems b \<noteq> []" using sh(1) by auto
  note P = rtPushOut_spec [OF assms ne]
  show ?thesis
    by (rule that [of "[hd (bbItems b)]" "b\<lparr>bbSize := bbSize b - 1\<rparr>"])
       (use True P ne full sh(1) in \<open>simp_all\<close>)
next
  case False
  note D = bb_invD [OF assms(1)]
  have "length (bbItems b) < capN b"
    using False bb_room [OF D(1)] by (simp add: not_le)
  then show ?thesis
    by (intro that [of "[]" b]) (use False assms in simp_all)
qed

lemma rtPut_spec:
  assumes "bb_inv b" "noPeeks b" "length x = itemN b" "seqN b < bb_limit"
  shows "\<exists>out nt b'. rtPut b x 0 = Ret (out, nt, b') \<and> bb_inv b' \<and> noPeeks b' \<and>
     out @ bbItems b' = bbItems b @ [x] \<and> (out = [] \<longleftrightarrow> length (bbItems b) < capN b) \<and> length out \<le> 1 \<and>
     capN b' = capN b \<and> itemN b' = itemN b \<and> seqN b' = Suc (seqN b)"
proof -
  obtain out b1 where R: "(if capacity b \<le> bbSize b then (case rtPushOut b of (x, b1) \<Rightarrow> ([x], b1)) else ([], b)) = (out, b1)"
    "bb_inv b1" "noPeeks b1" "length (bbItems b1) < capN b" "out @ bbItems b1 = bbItems b"
    "out = [] \<longleftrightarrow> length (bbItems b) < capN b" "length out \<le> 1"
    "capN b1 = capN b" "itemN b1 = itemN b" "seqN b1 = seqN b" "maxItemSize b1 = maxItemSize b"
    by (rule rt_room_for_one [OF assms(1,2)]) (rule that)
  have l: "length (bbItems b1) < capN b1" using R(4,8) by simp
  have x: "length x = itemN b1" "seqN b1 < bb_limit" using assms(3,4) R(9,10) by simp_all
  obtain nt b' where T: "bbTryPut b1 x 0 = Ret (True, nt, b')" "bb_inv b'" "noPeeks b'" "bbItems b' = bbItems b1 @ [x]"
    "capN b' = capN b1" "itemN b' = itemN b1"
    using bbTryPut_spec [OF R(2,3) x] l by auto
  have w: "obind (bbWrite b1 x (bbHint b1 0)) (\<lambda>b'. Ret (True, bbGrow b' 1)) = Ret (True, nt, b')"
    using T(1) l bb_room [OF bb_invD(1) [OF R(2)]] by (simp add: bbTryPut_def)
  then obtain b2 where b2: "bbWrite b1 x (bbHint b1 0) = Ret b2" "bbGrow b2 1 = (nt, b')"
    by (auto simp: obind_Ret_iff)
  have "seqN b2 = Suc (seqN b1)"
    using b2(1) x(2) by (auto simp: bbWrite_def obind_Ret_iff seqN_def bb_limit_def unat_inc split: if_splits)
  then have "seqN b' = Suc (seqN b)" using b2(2) R(10) by (auto simp: bbGrow_def)
  moreover have "rtPut b x 0 = Ret (out, nt, b')" by (simp add: rtPut_def R(1) b2)
  moreover have "out @ bbItems b' = bbItems b @ [x]" by (simp add: T(4) R(5) [symmetric])
  ultimately show ?thesis using T R(6-9) by auto
qed


section \<open>Properties\<close>

definition demoRt :: BlockingBufferRt where
  "demoRt = newBlockingBufferRt (\<lambda>_. 0) 1 2"




text \<open>A batch put of exactly the capacity into an empty \<^verbatim>\<open>BlockingBufferRt\<close> hands the
  handler a slot that holds no message and keeps only the last of the two messages, because its
  loop waits for one slot more than the batch needs and the size wraps around.\<close>

lemma rt_batch_loses_message:
  "\<exists>nt b'. rtPutBatchInPlace (\<lambda>x. [x]) demoRt [1, 2] = Ret ([[0]], nt, b') \<and>
     rtTryTake b' 0 = Ret (Some [2], b'\<lparr>bbSize := 0\<rparr>)"
  by (simp add: demoRt_def newBlockingBufferRt_def newBlockingBuffer_def rtPutBatchInPlace_def Let_def
      rtPushOutUntil.simps rtPushOut_def getItem_def bbWrite_def memcpyAt_def bbGrow_def rtTryTake_def
      bbRead_def readAt_def bbHint_def upt_rec word_le_nat_alt)

end
