(* ===== verification/MemRingBufferRt.thy ===== *)
theory MemRingBufferRt
  imports RingOperations
begin

text \<open>
  \<^verbatim>\<open>hmbdc/pattern/MemRingBufferRt.hpp\<close>: the ring buffer whose producers never wait and
  overwrite the oldest messages. A reader keeps its own read sequence (\<^verbatim>\<open>ReadRecord\<close>, or a
  thread-local one), finds out what it missed, and checks the slot again after copying.
\<close>

section \<open>State and operations\<close>

record MemRingBufferRt =
  CAPACITYr :: u64
  VALUE_TYPE_SIZEr :: nat
  MASKr :: u64
  bufferr :: chunk_base_ptr
  toBeClaimedSeqr :: u64

abbreviation UPDATING :: u64 where "UPDATING \<equiv> - 1"

definition newMemRingBufferRt :: "(nat \<Rightarrow> slot) \<Rightarrow> nat \<Rightarrow> nat \<Rightarrow> MemRingBufferRt outcome" where
  "newMemRingBufferRt junk v r =
     obind (chunk_base_ptr junk v r) (\<lambda>c.
       let cap = push_bit r 1 in
       Ret \<lparr>CAPACITYr = cap, VALUE_TYPE_SIZEr = 2 ^ v - seqBytes, MASKr = cap - 1,
            bufferr = c\<lparr>space := map (\<lambda>s. s\<lparr>slotSeq := - 1\<rparr>) (space c)\<rparr>, toBeClaimedSeqr = 0\<rparr>)"

definition remainingSizer :: "MemRingBufferRt \<Rightarrow> u64 \<Rightarrow> u64" where
  "remainingSizer b readSeq = (let w = toBeClaimedSeqr b in if w > readSeq then w - readSeq else 0)"

text \<open>
  \<^verbatim>\<open>put\<close>: claim, mark the slot, copy, publish. An item that is too big throws after the slot
  was marked; the exception is a value here because the buffer has changed.
\<close>

definition markUpdating :: "MemRingBufferRt \<Rightarrow> u64 \<Rightarrow> MemRingBufferRt" where
  "markUpdating b s = b\<lparr>bufferr := setSeq (bufferr b) (s AND MASKr b) UPDATING\<rparr>"

definition publishr :: "MemRingBufferRt \<Rightarrow> u64 \<Rightarrow> MemRingBufferRt" where
  "publishr b s = b\<lparr>bufferr := setSeq (bufferr b) (s AND MASKr b) s\<rparr>"

definition putSized :: "MemRingBufferRt \<Rightarrow> bytes \<Rightarrow> nat \<Rightarrow> (exn option \<times> MemRingBufferRt) outcome" where
  "putSized b item n =
     (let s = toBeClaimedSeqr b; b1 = markUpdating (b\<lparr>toBeClaimedSeqr := s + 1\<rparr>) s in
      if n \<le> VALUE_TYPE_SIZEr b1
      then if n \<le> length item
           then Ret (None, publishr (b1\<lparr>bufferr := copyIn (bufferr b1) (s AND MASKr b1) item n\<rparr>) s)
           else Undefined
      else Ret (Some ItemTooBig, b1))"

definition putr :: "MemRingBufferRt \<Rightarrow> bytes \<Rightarrow> nat \<Rightarrow> (exn option \<times> MemRingBufferRt) outcome" where
  "putr b item sizeHint = putSized b item (if sizeHint \<noteq> 0 then sizeHint else VALUE_TYPE_SIZEr b)"

text \<open>\<^verbatim>\<open>put<T>\<close> and \<^verbatim>\<open>putInPlace<T>\<close> build an object, here its bytes, in the slot.\<close>

definition putObject :: "MemRingBufferRt \<Rightarrow> bytes \<Rightarrow> (exn option \<times> MemRingBufferRt) outcome" where
  "putObject b obj = putSized b obj (length obj)"

definition putInPlacer :: "MemRingBufferRt \<Rightarrow> bytes \<Rightarrow> (exn option \<times> MemRingBufferRt) outcome" where
  "putInPlacer b obj = putSized b obj (length obj)"

definition seqAtr :: "MemRingBufferRt \<Rightarrow> u64 \<Rightarrow> u64" where
  "seqAtr b s = getSeq (bufferr b) (s AND MASKr b)"

text \<open>
  The search for the next message: \<open>Some (Some s)\<close> when the slot of \<open>s\<close> holds message \<open>s\<close>,
  \<open>Some None\<close> when the reader starves, \<open>None\<close> if the loop never ends.
\<close>

partial_function (option) seek :: "MemRingBufferRt \<Rightarrow> u64 \<Rightarrow> u64 option option" where
  "seek b readSeq =
     (let itemSeq = seqAtr b readSeq in
      if readSeq = itemSeq then Some (Some readSeq)
      else if itemSeq \<noteq> UPDATING \<and> readSeq < itemSeq
      then if toBeClaimedSeqr b - readSeq \<ge> 2 * CAPACITYr b then seek b (readSeq + CAPACITYr b)
           else seek b (readSeq + 1)
      else Some None)"

definition readItemr :: "MemRingBufferRt \<Rightarrow> u64 \<Rightarrow> nat \<Rightarrow> bytes outcome" where
  "readItemr b s sizeHint =
     (let n = if sizeHint \<noteq> 0 then sizeHint else VALUE_TYPE_SIZEr b in
      if n \<le> VALUE_TYPE_SIZEr b then Ret (copyOut (bufferr b) (s AND MASKr b) n) else Undefined)"

text \<open>\<^verbatim>\<open>take\<close>: alone, a starving reader waits for ever; the check after the copy succeeds.\<close>

definition taker :: "MemRingBufferRt \<Rightarrow> u64 \<Rightarrow> nat \<Rightarrow> (bytes \<times> u64) outcome" where
  "taker b readSeq sizeHint =
     (case seek b readSeq of None \<Rightarrow> Spins | Some None \<Rightarrow> Spins
      | Some (Some s) \<Rightarrow> obind (readItemr b s sizeHint) (\<lambda>x. Ret (x, s + 1)))"

text \<open>\<^verbatim>\<open>tryTake\<close>: 0 nothing, 1 read the next message, -1 read a message and missed some.\<close>

definition tryTaker :: "MemRingBufferRt \<Rightarrow> u64 \<Rightarrow> nat \<Rightarrow> (int \<times> bytes option \<times> u64) outcome" where
  "tryTaker b readSeq sizeHint =
     (case seek b readSeq of None \<Rightarrow> Spins | Some None \<Rightarrow> Ret (0, None, readSeq)
      | Some (Some s) \<Rightarrow> obind (readItemr b s sizeHint)
          (\<lambda>x. Ret (if readSeq = s then 1 else - 1, Some x, s + 1)))"

text \<open>
  \<^verbatim>\<open>T tryTake(int& result)\<close>: when it starves it returns a \<^verbatim>\<open>T\<close> made from 0 and leaves the
  caller's \<open>result\<close> as it was.
\<close>

definition tryTakeObject ::
    "bytes \<Rightarrow> MemRingBufferRt \<Rightarrow> int \<Rightarrow> u64 \<Rightarrow> nat \<Rightarrow> (int \<times> bytes \<times> u64) outcome" where
  "tryTakeObject fromZero b result readSeq sz =
     (case seek b readSeq of None \<Rightarrow> Spins | Some None \<Rightarrow> Ret (result, fromZero, readSeq)
      | Some (Some s) \<Rightarrow> obind (readItemr b s sz) (\<lambda>x. Ret (if readSeq = s then 1 else - 1, x, s + 1)))"

section \<open>Invariant\<close>

definition claimedR :: "MemRingBufferRt \<Rightarrow> nat" where
  "claimedR b = unat (toBeClaimedSeqr b)"

definition slotR :: "MemRingBufferRt \<Rightarrow> nat \<Rightarrow> slot" where
  "slotR b n = slotOf (bufferr b) n"

definition limitR :: nat where "limitR = 2 ^ 63"

definition shapeR :: "nat \<Rightarrow> MemRingBufferRt \<Rightarrow> bool" where
  "shapeR r b \<longleftrightarrow> chunk_wf (bufferr b) r \<and> CAPACITYr b = 2 ^ r \<and> MASKr b = chunkMASK (bufferr b) \<and>
     VALUE_TYPE_SIZEr b + seqBytes = 2 ^ valueTypeSizePower2Num (bufferr b)"

text \<open>The oldest message still in the ring.\<close>

definition oldestR :: "nat \<Rightarrow> MemRingBufferRt \<Rightarrow> nat" where
  "oldestR r b = claimedR b - 2 ^ r"

text \<open>\<open>H n\<close> is the value of message \<open>n\<close>; all puts so far have completed.\<close>

definition ringR_inv :: "nat \<Rightarrow> (nat \<Rightarrow> bytes) \<Rightarrow> MemRingBufferRt \<Rightarrow> bool" where
  "ringR_inv r H b \<longleftrightarrow> shapeR r b \<and> claimedR b \<le> limitR \<and>
     (\<forall>n. oldestR r b \<le> n \<and> n < claimedR b \<longrightarrow>
        slotSeq (slotR b n) = of_nat n \<and> slotData (slotR b n) = H n) \<and>
     (\<forall>n. claimedR b \<le> n \<and> n < 2 ^ r \<longrightarrow> slotSeq (slotR b n) = UPDATING)"

lemma ringR_invD:
  assumes "ringR_inv r H b"
  shows "shapeR r b" "claimedR b \<le> limitR"
    "oldestR r b \<le> n \<Longrightarrow> n < claimedR b \<Longrightarrow> slotSeq (slotR b n) = of_nat n"
    "oldestR r b \<le> n \<Longrightarrow> n < claimedR b \<Longrightarrow> slotData (slotR b n) = H n"
    "claimedR b \<le> n \<Longrightarrow> n < 2 ^ r \<Longrightarrow> slotSeq (slotR b n) = UPDATING"
  using assms unfolding ringR_inv_def by blast+

lemma shapeRD:
  assumes "shapeR r b"
  shows "chunk_wf (bufferr b) r" "unat (CAPACITYr b) = 2 ^ r" "(2::nat) ^ r \<le> 2 ^ 32"
    "MASKr b = chunkMASK (bufferr b)" "VALUE_TYPE_SIZEr b + seqBytes = 2 ^ valueTypeSizePower2Num (bufferr b)"
proof -
  have r: "r \<le> 32" using assms by (simp add: shapeR_def chunk_wf_def)
  then show "unat (CAPACITYr b) = 2 ^ r" using assms unat_pow2 [of r] by (simp add: shapeR_def)
  show "(2::nat) ^ r \<le> 2 ^ 32" using r power_increasing [of r 32 "2::nat"] by simp
qed (use assms in \<open>simp_all add: shapeR_def\<close>)

lemma seqAtr_eq: "shapeR r b \<Longrightarrow> seqAtr b s = slotSeq (slotR b (unat s))"
  by (simp add: seqAtr_def slotR_def shapeRD(4) chunk_mask_slots(1) [OF shapeRD(1)])

lemma slotR_mod:
  assumes "shapeR r b" "m mod 2 ^ r = n mod 2 ^ r"
  shows "slotR b m = slotR b n"
  using assms shapeRD(1) [OF assms(1)] by (simp add: slotR_def slotOf_def chunk_wf_def)

section \<open>Reading\<close>

lemma window_has_residue:
  assumes "0 < (M :: nat)"
  shows "\<exists>m. lo \<le> m \<and> m < lo + M \<and> m mod M = n mod M"
proof -
  let ?m = "lo + (n mod M + (M - lo mod M)) mod M"
  have "lo mod M < M" using assms by simp
  moreover have "M * (lo div M) + lo mod M = lo" by simp
  moreover have "M * Suc (lo div M) = M + M * (lo div M)" by simp
  ultimately have eq: "lo + (n mod M + (M - lo mod M)) = n mod M + M * Suc (lo div M)" by linarith
  have "(lo + (n mod M + (M - lo mod M))) mod M = n mod M"
    unfolding eq by (rule trans [OF mod_mult_self2 mod_mod_trivial])
  then have "?m mod M = n mod M" by (simp add: mod_add_right_eq)
  moreover have "?m < lo + M" using assms by simp
  ultimately show ?thesis by (intro exI [of _ ?m]) simp
qed

lemma unat_limitR: "n \<le> limitR \<Longrightarrow> unat (of_nat n :: u64) = n"
  by (simp add: limitR_def unsigned_of_nat take_bit_nat_eq_self)

lemma of_nat_not_updating: "n \<le> limitR \<Longrightarrow> (of_nat n :: u64) \<noteq> UPDATING"
proof
  assume "n \<le> limitR" "(of_nat n :: u64) = UPDATING"
  then have "n = 2 ^ 64 - 1"
    using unat_limitR [of n] by (simp add: unsigned_minus_1_eq_mask mask_eq_exp_minus_1)
  with \<open>n \<le> limitR\<close> show False by (simp add: limitR_def)
qed

text \<open>The search ends, at the oldest message the reader has not read and the ring still has.\<close>

lemma seek_spec:
  assumes "ringR_inv r H b" "claimedR b < limitR"
  shows "unat s \<le> claimedR b \<Longrightarrow>
    seek b s = Some (if unat s = claimedR b then None else Some (of_nat (max (unat s) (oldestR r b))))"
proof (induction "claimedR b - unat s" arbitrary: s rule: less_induct)
  case less
  note D = ringR_invD [OF assms(1)] and sh = shapeRD [OF ringR_invD(1) [OF assms(1)]]
  let ?M = "2 ^ r :: nat"
  have at: "seqAtr b s = slotSeq (slotR b (unat s))" by (rule seqAtr_eq [OF D(1)])
  have lim: "n \<le> claimedR b \<Longrightarrow> n \<le> limitR" for n using D(2) by simp
  consider (all) "unat s = claimedR b" | (here) "oldestR r b \<le> unat s" "unat s < claimedR b"
    | (behind) "unat s < oldestR r b"
    using less.prems by linarith
  then show ?case
  proof cases
    case all
    have st: "seqAtr b s = UPDATING \<or> unat (seqAtr b s) < unat s"
    proof (cases "claimedR b < ?M")
      case True
      then show ?thesis using D(5) [of "unat s"] all at by simp
    next
      case False
      let ?m = "unat s - ?M"
      have pos: "0 < ?M" by simp
      have "oldestR r b \<le> ?m" "?m mod ?M = unat s mod ?M"
        using False all by (simp_all add: oldestR_def le_mod_geq)
      moreover have "?m < claimedR b" using False all pos by linarith
      ultimately have "seqAtr b s = of_nat ?m"
        using slotR_mod [OF D(1)] D(3) at by metis
      then have "unat (seqAtr b s) = ?m" using unat_limitR [of ?m] lim [of ?m] all by simp
      with False all pos show ?thesis by linarith
    qed
    moreover have "(of_nat (unat s) :: u64) \<noteq> UPDATING"
      by (rule of_nat_not_updating) (use lim all in simp)
    then have "s \<noteq> UPDATING" by simp
    ultimately have "seek b s = Some None"
      by (subst seek.simps) (auto simp: Let_def word_less_nat_alt)
    with all show ?thesis by simp
  next
    case here
    then have "seqAtr b s = s" using D(3) [OF here] at by simp
    then have "seek b s = Some (Some s)" by (subst seek.simps) (simp add: Let_def)
    with here show ?thesis by (simp add: max_absorb1)
  next
    case behind
    have c: "?M \<le> claimedR b" "oldestR r b + ?M = claimedR b" using behind by (simp_all add: oldestR_def)
    have "0 < ?M" by simp
    from window_has_residue [OF this, of "oldestR r b" "unat s"] obtain m where
      m: "oldestR r b \<le> m" "m < claimedR b" "m mod ?M = unat s mod ?M" using c(2) by auto
    have it: "seqAtr b s = of_nat m"
      using D(3) [OF m(1,2)] slotR_mod [OF D(1) m(3)] at by simp
    have um: "unat (of_nat m :: u64) = m" using unat_limitR lim m(2) by simp
    have miss: "s \<noteq> seqAtr b s" "seqAtr b s \<noteq> UPDATING" "s < seqAtr b s"
      using um m behind it of_nat_not_updating [of m] lim [of m] by (auto simp: word_less_nat_alt)
    have d: "unat (toBeClaimedSeqr b - s) = claimedR b - unat s"
      using less.prems by (simp add: unat_sub word_le_nat_alt claimedR_def)
    have two: "unat (2 * CAPACITYr b) = 2 * ?M"
      using sh(2,3) by (simp add: unat_word_ariths)
    have jump: "toBeClaimedSeqr b - s \<ge> 2 * CAPACITYr b \<longleftrightarrow> 2 * ?M \<le> claimedR b - unat s"
      by (simp only: word_le_nat_alt d two)
    have bound: "unat s + ?M < 2 ^ 64" using c behind D(2) by (simp add: limitR_def)
    define s' where "s' = (if 2 * ?M \<le> claimedR b - unat s then s + CAPACITYr b else s + 1)"
    have u: "unat s < unat s'" "unat s' \<le> oldestR r b"
    proof -
      have "unat (s + CAPACITYr b) = unat s + ?M" using bound sh(2) by (simp add: unat_add_small)
      moreover have "Suc (unat s) < 2 ^ 64"
        using bound zero_less_power [of "2 :: nat" r] by linarith
      then have "unat (s + 1) = Suc (unat s)" by (rule unat_inc)
      ultimately show "unat s < unat s'" "unat s' \<le> oldestR r b"
        using behind c by (auto simp: s'_def)
    qed
    have "seek b s = seek b s'"
      using miss jump by (subst seek.simps) (simp add: Let_def s'_def)
    also have "\<dots> = Some (if unat s' = claimedR b then None else Some (of_nat (max (unat s') (oldestR r b))))"
      using u less.prems c(2) by (intro less.hyps) linarith+
    also have "\<dots> = Some (Some (of_nat (oldestR r b)))"
    proof -
      have "unat s' \<noteq> claimedR b" using u(2) c(2) zero_less_power [of "2 :: nat" r] by linarith
      then show ?thesis using u(2) by (simp add: max_absorb2)
    qed
    finally show ?thesis using behind c by (simp add: max_absorb2)
  qed
qed

section \<open>Putting\<close>

lemma putSized_state:
  assumes "shapeR r b" "n \<le> VALUE_TYPE_SIZEr b" "n \<le> length item" "claimedR b < limitR"
  obtains b' where "putSized b item n = Ret (None, b')" "shapeR r b'" "claimedR b' = Suc (claimedR b)"
    "\<And>m. slotR b' m = (if m mod 2 ^ r = claimedR b mod 2 ^ r
       then (slotR b m)\<lparr>slotSeq := toBeClaimedSeqr b, slotData := memcpy (slotData (slotR b m)) item n\<rparr>
       else slotR b m)" "VALUE_TYPE_SIZEr b' = VALUE_TYPE_SIZEr b"
proof -
  note sh = shapeRD [OF assms(1)]
  let ?s = "toBeClaimedSeqr b"
  let ?c1 = "setSeq (bufferr b) (?s AND MASKr b) UPDATING"
  let ?c2 = "copyIn ?c1 (?s AND MASKr b) item n"
  let ?c3 = "setSeq ?c2 (?s AND MASKr b) ?s"
  let ?b = "b\<lparr>toBeClaimedSeqr := ?s + 1, bufferr := ?c3\<rparr>"
  have k: "n + seqBytes \<le> 2 ^ valueTypeSizePower2Num (bufferr b)" using assms(2) sh(5) by linarith
  have m: "MASKr b = chunkMASK (bufferr b)" "MASKr b = chunkMASK ?c1" "MASKr b = chunkMASK ?c2" using sh(4) by simp_all
  have w1: "chunk_wf ?c1 r" unfolding m(1) by (rule chunk_wf_setSeq [OF sh(1)])
  have w2: "chunk_wf ?c2 r" using chunk_wf_copyIn [OF w1 assms(3), of ?s] k m(2) by simp
  have w3: "chunk_wf ?c3 r" using chunk_wf_setSeq [OF w2, of ?s ?s] m(3) by simp
  have r: "putSized b item n = Ret (None, ?b)"
    using assms(2,3) by (simp add: putSized_def markUpdating_def publishr_def Let_def)
  have sl: "slotR ?b k = (if k mod 2 ^ r = claimedR b mod 2 ^ r
       then (slotR b k)\<lparr>slotSeq := ?s, slotData := memcpy (slotData (slotR b k)) item n\<rparr> else slotR b k)" for k
    using slotOf_setSeq [OF sh(1), of ?s UPDATING k, folded m(1)] slotOf_copyIn [OF w1, of ?s item n k, folded m(2)]
      slotOf_setSeq [OF w2, of ?s ?s k, folded m(3)]
    by (simp add: slotR_def claimedR_def)
  have "shapeR r ?b" using assms(1) w3 by (simp add: shapeR_def)
  moreover have "claimedR ?b = Suc (claimedR b)"
    using assms(4) by (simp add: claimedR_def limitR_def unat_inc)
  ultimately show ?thesis using r sl by (intro that [of ?b]) simp_all
qed

text \<open>A put that fits appends a message; the oldest one goes when the ring is full.\<close>

lemma putSized_inv:
  assumes "ringR_inv r H b" "claimedR b < limitR" "n \<le> VALUE_TYPE_SIZEr b" "n \<le> length item"
  shows "\<exists>b' d. putSized b item n = Ret (None, b') \<and> ringR_inv r (H(claimedR b := d)) b' \<and>
     claimedR b' = Suc (claimedR b) \<and> take n d = take n item \<and> VALUE_TYPE_SIZEr b' = VALUE_TYPE_SIZEr b"
proof -
  note D = ringR_invD [OF assms(1)]
  obtain b' where P: "putSized b item n = Ret (None, b')" "shapeR r b'" "claimedR b' = Suc (claimedR b)"
    "\<And>m. slotR b' m = (if m mod 2 ^ r = claimedR b mod 2 ^ r
       then (slotR b m)\<lparr>slotSeq := toBeClaimedSeqr b, slotData := memcpy (slotData (slotR b m)) item n\<rparr>
       else slotR b m)" "VALUE_TYPE_SIZEr b' = VALUE_TYPE_SIZEr b"
    by (rule putSized_state [OF D(1) assms(3,4,2)]) (rule that)
  let ?d = "memcpy (slotData (slotR b (claimedR b))) item n"
  have old: "slotR b' m = slotR b m" if "oldestR r b' \<le> m" "m < claimedR b" for m
  proof -
    have "m mod 2 ^ r \<noteq> claimedR b mod 2 ^ r"
    proof
      assume e: "m mod 2 ^ r = claimedR b mod 2 ^ r"
      have "claimedR b < m + 2 ^ r" using that(1) unfolding oldestR_def P(3) by linarith
      then show False using window_mod_inj [of m m "2 ^ r" "claimedR b"] that(2) e by simp
    qed
    then show ?thesis using P(4) by simp
  qed
  have new: "slotSeq (slotR b' (claimedR b)) = of_nat (claimedR b)" "slotData (slotR b' (claimedR b)) = ?d"
    using P(4) by (simp_all add: claimedR_def)
  have "slotSeq (slotR b' m) = of_nat m \<and> slotData (slotR b' m) = (H(claimedR b := ?d)) m"
    if m: "oldestR r b' \<le> m" "m < claimedR b'" for m
  proof (cases "m = claimedR b")
    case True
    then show ?thesis using new by simp
  next
    case False
    then have lt: "m < claimedR b" using m(2) P(3) by simp
    moreover have "oldestR r b \<le> m" using m(1) P(3) by (simp add: oldestR_def)
    ultimately show ?thesis using old [OF m(1) lt] D(3,4) False by simp
  qed
  moreover have "slotSeq (slotR b' m) = UPDATING" if "claimedR b' \<le> m" "m < 2 ^ r" for m
  proof -
    have "m mod 2 ^ r \<noteq> claimedR b mod 2 ^ r" using that P(3) by simp
    then show ?thesis using P(3,4) D(5) [of m] that by simp
  qed
  ultimately have "ringR_inv r (H(claimedR b := ?d)) b'"
    unfolding ringR_inv_def using P(2,3) assms(2) by simp
  moreover have "take n ?d = take n item" using assms(4) by (simp add: memcpy_def)
  ultimately show ?thesis using P(1,3,5) by blast
qed

lemma newMemRingBufferRt_spec:
  assumes "newMemRingBufferRt junk v r = Ret b" "3 \<le> v"
    and "\<And>i. length (slotData (junk i)) + seqBytes = 2 ^ v"
  shows "ringR_inv r H b" "claimedR b = 0" "VALUE_TYPE_SIZEr b = 2 ^ v - seqBytes"
proof -
  have vr: "v + r \<le> 32"
    using assms(1) by (cases "v + r > 32") (simp_all add: newMemRingBufferRt_def chunk_base_ptr_def)
  let ?sp = "map (\<lambda>s. s\<lparr>slotSeq := - 1\<rparr>) (map junk [0..<2 ^ r])"
  have b: "b = \<lparr>CAPACITYr = 2 ^ r, VALUE_TYPE_SIZEr = 2 ^ v - seqBytes, MASKr = 2 ^ r - 1,
      bufferr = \<lparr>space = ?sp, chunkMASK = 2 ^ r - 1, valueTypeSizePower2Num = v\<rparr>, toBeClaimedSeqr = 0\<rparr>"
    using assms(1) vr by (simp add: newMemRingBufferRt_def chunk_base_ptr_def Let_def push_bit_eq_mult)
  have "(2::nat) ^ 3 \<le> 2 ^ v" using assms(2) by (intro power_increasing) simp_all
  then have sh: "shapeR r b" using vr assms(3) by (simp add: shapeR_def chunk_wf_def b)
  show "claimedR b = 0" "VALUE_TYPE_SIZEr b = 2 ^ v - seqBytes" by (simp_all add: b claimedR_def)
  have "slotSeq (slotR b n) = UPDATING" for n by (simp add: b slotR_def slotOf_def)
  then show "ringR_inv r H b" using sh by (simp add: ringR_inv_def b claimedR_def)
qed

section \<open>Properties\<close>

definition demoRtRing :: MemRingBufferRt where
  "demoRtRing = (case newMemRingBufferRt (\<lambda>_. \<lparr>slotSeq = 0, slotData = replicate 8 0\<rparr>) 4 1 of Ret b \<Rightarrow> b)"

lemma demoRtRing_ok:
  "ringR_inv 1 H demoRtRing" "claimedR demoRtRing = 0" "VALUE_TYPE_SIZEr demoRtRing = 8"
proof -
  have n: "newMemRingBufferRt (\<lambda>_. \<lparr>slotSeq = 0, slotData = replicate 8 0\<rparr>) 4 1 = Ret demoRtRing"
    by (simp add: demoRtRing_def newMemRingBufferRt_def chunk_base_ptr_def Let_def)
  show "ringR_inv 1 H demoRtRing" "claimedR demoRtRing = 0" "VALUE_TYPE_SIZEr demoRtRing = 8"
    using newMemRingBufferRt_spec [OF n] by simp_all
qed

text \<open>A reader of \<^verbatim>\<open>MemRingBufferRt\<close> that is not ahead of the writers always gets an answer:
  nothing exactly when it has read everything, and otherwise the oldest message that it has not
  read and the ring still holds, reported as a gap exactly when older ones were overwritten.\<close>

lemma rtr_tryTake_latest:
  assumes "ringR_inv r H b" "claimedR b < limitR" "unat readSeq \<le> claimedR b"
  shows "tryTaker b readSeq 0 =
     (if unat readSeq = claimedR b then Ret (0, None, readSeq)
      else Ret (if oldestR r b \<le> unat readSeq then 1 else - 1,
             Some (take (VALUE_TYPE_SIZEr b) (H (max (unat readSeq) (oldestR r b)))),
             of_nat (Suc (max (unat readSeq) (oldestR r b)))))"
proof (cases "unat readSeq = claimedR b")
  case True
  then show ?thesis by (simp add: tryTaker_def seek_spec [OF assms])
next
  case False
  note D = ringR_invD [OF assms(1)] and sh = shapeRD [OF ringR_invD(1) [OF assms(1)]]
  let ?m = "max (unat readSeq) (oldestR r b)"
  have pos: "(0::nat) < 2 ^ r" by simp
  have m: "oldestR r b \<le> ?m" "?m < claimedR b"
    using False assms(3) pos by (simp_all add: oldestR_def)
  have um: "unat (of_nat ?m :: u64) = ?m" using unat_limitR m(2) D(2) by simp
  have rd: "readItemr b (of_nat ?m) 0 = Ret (take (VALUE_TYPE_SIZEr b) (H ?m))"
    using D(4) [OF m] um
    by (simp add: readItemr_def Let_def sh(4) chunk_mask_slots(2) [OF sh(1)] slotR_def)
  have "readSeq = of_nat ?m \<longleftrightarrow> oldestR r b \<le> unat readSeq"
    using um by (auto simp: max_def)
  with False rd show ?thesis by (simp add: tryTaker_def seek_spec [OF assms] add.commute)
qed

lemma rtr_tryTake_witness:
  "tryTaker demoRtRing 0 0 = Ret (0, None, 0)"
proof -
  have "claimedR demoRtRing < limitR" "unat (0 :: u64) \<le> claimedR demoRtRing"
    by (simp_all add: demoRtRing_ok limitR_def)
  from rtr_tryTake_latest [OF demoRtRing_ok(1) this] show ?thesis by (simp add: demoRtRing_ok)
qed

text \<open>\<^verbatim>\<open>put\<close> on \<^verbatim>\<open>MemRingBufferRt\<close> never waits: an item that fits becomes the newest
  message and the ring keeps the latest ones; one that is too big throws after the slot was
  marked, so the reader of that slot finds neither the old message nor the new one.\<close>

lemma rtr_put:
  assumes "ringR_inv r H b" "claimedR b < limitR" "length obj = n"
  shows "(if n \<le> VALUE_TYPE_SIZEr b
      then \<exists>b' d. putObject b obj = Ret (None, b') \<and> ringR_inv r (H(claimedR b := d)) b' \<and>
        claimedR b' = Suc (claimedR b) \<and> take n d = obj
      else \<exists>b'. putObject b obj = Ret (Some ItemTooBig, b') \<and> claimedR b' = Suc (claimedR b) \<and>
        seek b' (toBeClaimedSeqr b) = Some None)"
proof (cases "n \<le> VALUE_TYPE_SIZEr b")
  case True
  have "n \<le> length obj" "take n obj = obj" using assms(3) by simp_all
  with putSized_inv [OF assms(1,2) True this(1)] True assms(3) show ?thesis
    unfolding putObject_def by auto
next
  case False
  note D = ringR_invD [OF assms(1)] and sh = shapeRD [OF ringR_invD(1) [OF assms(1)]]
  let ?s = "toBeClaimedSeqr b"
  let ?b = "markUpdating (b\<lparr>toBeClaimedSeqr := ?s + 1\<rparr>) ?s"
  have "seqAtr ?b ?s = UPDATING"
    using chunk_mask_slots(1) [OF chunk_wf_setSeq [OF sh(1), of ?s UPDATING], of ?s] sh(4)
    by (simp add: seqAtr_def markUpdating_def slotOf_setSeq [OF sh(1)])
  moreover have "(of_nat (unat ?s) :: u64) \<noteq> UPDATING"
    by (rule of_nat_not_updating) (use D(2) in \<open>simp add: claimedR_def\<close>)
  then have "?s \<noteq> UPDATING" by simp
  ultimately have "seek ?b ?s = Some None" by (subst seek.simps) simp
  moreover have "putObject b obj = Ret (Some ItemTooBig, ?b)"
    using False assms(3) by (simp add: putObject_def putSized_def markUpdating_def Let_def)
  moreover have "claimedR ?b = Suc (claimedR b)"
    using assms(2) by (simp add: claimedR_def markUpdating_def limitR_def unat_inc)
  ultimately show ?thesis using False by auto
qed

lemma rtr_put_witness:
  "(\<exists>b' d. putObject demoRtRing (replicate 8 7) = Ret (None, b') \<and> ringR_inv 1 ((\<lambda>_. [])(0 := d)) b' \<and>
        claimedR b' = 1 \<and> take 8 d = replicate 8 7) \<and>
   (\<exists>b'. putObject demoRtRing (replicate 9 7) = Ret (Some ItemTooBig, b') \<and> claimedR b' = 1)"
proof -
  have l: "claimedR demoRtRing < limitR" by (simp add: demoRtRing_ok limitR_def)
  show ?thesis
    using rtr_put [OF demoRtRing_ok(1) l, of "replicate 8 7" 8 "\<lambda>_. []"]
      rtr_put [OF demoRtRing_ok(1) l, of "replicate 9 7" 9 "\<lambda>_. []"]
    by (simp add: demoRtRing_ok) fastforce
qed

end
