(* ===== verification/AttachmentTrain.thy ===== *)
theory AttachmentTrain
  imports Prelude
begin

text \<open>
  A message with a memory attachment on its way through the reliable transports: the sender
  cuts the attachment into a train of messages (\<^verbatim>\<open>queueMemorySegTrain\<close> in
  \<^verbatim>\<open>hmbdc/tips/rmcast/SendTransportEngine.hpp\<close>, the header in \<^verbatim>\<open>rmcast/Messages.hpp\<close>), the
  receiver puts it together again (\<^verbatim>\<open>hmbdc/tips/reliable/AttBufferAdaptor.hpp\<close>).
\<close>

section \<open>Messages of a transport\<close>

text \<open>
  \<open>attMem\<close> is the memory \<^verbatim>\<open>attachment\<close> points to (\<open>None\<close> for the null pointer), \<open>attCleanup\<close>
  whether \<^verbatim>\<open>afterConsumedCleanupFunc\<close> is set. The user's \<^verbatim>\<open>clientData\<close> is carried along untouched
  and left out.
\<close>

record MemoryAttachment =
  attMem :: "bytes option"
  attLen :: u64
  attCleanup :: bool

definition releaseAtt :: "MemoryAttachment \<Rightarrow> MemoryAttachment" where
  "releaseAtt a = (if attCleanup a then a\<lparr>attCleanup := False, attMem := None\<rparr> else a)"

text \<open>
  The payloads the transport tells apart: the head of a train (underlying tag, attachment,
  segment count), a segment as the sender holds it (a pointer, given as the bytes from there on,
  the length and the underlying tag), the bytes of a segment as they arrive, a message that has
  an attachment as its first base (tag, attachment, the other bytes), and any other message.
\<close>

datatype Payload =
    StartMemorySegTrain u16 MemoryAttachment u64
  | MemorySeg bytes u16 u16
  | WireSeg bytes
  | AttMessage u16 MemoryAttachment bytes
  | PlainMessage u16 bytes

record TransportMessage =
  thFlag :: u8
  messagePayloadLen :: u16
  seqField :: u64
  thPayload :: Payload

fun payloadTag :: "Payload \<Rightarrow> u16" where
  "payloadTag (StartMemorySegTrain tag att n) = 5"
| "payloadTag (MemorySeg seg l tag) = 6"
| "payloadTag (WireSeg seg) = 6"
| "payloadTag (AttMessage tag att rest) = tag"
| "payloadTag (PlainMessage tag body) = tag"

definition typeTag :: "TransportMessage \<Rightarrow> u16" where
  "typeTag h = payloadTag (thPayload h)"

text \<open>The sequence number travels in 48 bits; all ones stand for "none".\<close>

definition setMsgSeq :: "u64 \<Rightarrow> TransportMessage \<Rightarrow> TransportMessage" where
  "setMsgSeq s h = h\<lparr>seqField := take_bit 48 s\<rparr>"

definition getSeqOf :: "TransportMessage \<Rightarrow> u64" where
  "getSeqOf h = (if seqField h = 0xffffffffffff then noSeq else seqField h)"

text \<open>\<^verbatim>\<open>sizeof(TransportMessageHeader) + messagePayloadLen\<close>; the packed header has 3 bytes.\<close>

definition wireSize :: "TransportMessage \<Rightarrow> u64" where
  "wireSize h = 3 + ucast (messagePayloadLen h)"

definition wireSizeMemorySeg :: "TransportMessage \<Rightarrow> u64" where
  "wireSizeMemorySeg h = (case thPayload h of MemorySeg seg l tag \<Rightarrow> ucast l | _ \<Rightarrow> 0)"

text \<open>
  The two pieces \<^verbatim>\<open>sendmsg\<close> gets for a segment, header and \<open>len\<close> bytes at its pointer, arrive as
  one message.
\<close>

definition onWire :: "TransportMessage \<Rightarrow> TransportMessage" where
  "onWire h = (case thPayload h of
     MemorySeg seg l tag \<Rightarrow> h\<lparr>thPayload := WireSeg (take (unat l) seg)\<rparr>
   | _ \<Rightarrow> h)"

section \<open>The sender\<close>

text \<open>\<^verbatim>\<open>while (totalLen > offset)\<close>, one slot for each segment.\<close>

function segLoop :: "u16 \<Rightarrow> u16 \<Rightarrow> bytes \<Rightarrow> u64 \<Rightarrow> u64 \<Rightarrow> u64 \<Rightarrow> TransportMessage list" where
  "segLoop maxSeg tag base totalLen sq offset =
     (if offset < totalLen \<and> maxSeg \<noteq> 0
      then let l = ucast (min (ucast maxSeg) (totalLen - offset)) :: u16
           in setMsgSeq sq \<lparr>thFlag = 0, messagePayloadLen = 8 + l, seqField = 0,
                thPayload = MemorySeg (drop (unat offset) base) l tag\<rparr>
              # segLoop maxSeg tag base totalLen (sq + 1) (offset + ucast l)
      else [])"
  by auto

lemma segLen_unat:
  fixes maxSeg :: u16 and totalLen offset :: u64
  assumes "offset < totalLen"
  shows "unat (ucast (min (ucast maxSeg) (totalLen - offset)) :: u16) =
    min (unat maxSeg) (unat totalLen - unat offset)"
proof -
  have "unat (ucast maxSeg :: u64) = unat maxSeg" by (rule unat_u16_u64)
  moreover have "unat (totalLen - offset) = unat totalLen - unat offset"
    using assms by (simp add: unat_sub_if' word_less_nat_alt)
  ultimately have m: "unat (min (ucast maxSeg :: u64) (totalLen - offset)) =
      min (unat maxSeg) (unat totalLen - unat offset)"
    by (simp add: min_def word_le_nat_alt)
  have "min (unat maxSeg) (unat totalLen - unat offset) < 2 ^ 16"
    using unat_u16_lt [of maxSeg] by simp
  then show ?thesis by (simp add: unsigned_ucast_eq m take_bit_nat_eq_self)
qed

lemma segStep_unat:
  fixes maxSeg l :: u16 and totalLen offset :: u64
  assumes "offset < totalLen" "l = ucast (min (ucast maxSeg) (totalLen - offset))"
  shows "unat (offset + ucast l) = unat offset + unat l" "unat l \<le> unat totalLen - unat offset"
    "unat (ucast l :: u64) = unat l"
proof -
  show le: "unat l \<le> unat totalLen - unat offset" by (simp only: assms(2) segLen_unat [OF assms(1)])
  show l: "unat (ucast l :: u64) = unat l" by (rule unat_u16_u64)
  have "unat offset < unat totalLen" "unat totalLen < 2 ^ 64"
    using assms(1) unat_u64_lt by (simp_all add: word_less_nat_alt)
  then show "unat (offset + ucast l) = unat offset + unat l"
    using le l unat_add_small [of offset "ucast l"] by simp
qed

termination segLoop
proof (relation "measure (\<lambda>(m, tag, base, n, sq, offset). unat n - unat offset)")
  fix maxSeg tag :: u16 and base :: bytes and totalLen sq offset :: u64 and l :: u16
  assume c: "offset < totalLen \<and> maxSeg \<noteq> 0" and l: "l = ucast (min (ucast maxSeg) (totalLen - offset))"
  have "unat l = min (unat maxSeg) (unat totalLen - unat offset)"
    using segLen_unat c by (simp add: l)
  moreover have "0 < unat maxSeg" "unat offset < unat totalLen"
    using c by (simp_all add: unat_gt_0 word_less_nat_alt)
  moreover have "unat (offset + ucast l) = unat offset + unat l" using segStep_unat(1) c l by blast
  ultimately have "unat totalLen - unat (offset + ucast l) < unat totalLen - unat offset" by simp
  then show "((maxSeg, tag, base, totalLen, sq + 1, offset + ucast l), maxSeg, tag, base, totalLen, sq, offset)
      \<in> measure (\<lambda>(m, tag, base, n, sq, offset). unat n - unat offset)"
    by (simp only: in_measure case_prod_conv)
qed simp

declare segLoop.simps [simp del]

text \<open>
  The slots \<^verbatim>\<open>queueMemorySegTrain\<close> writes from sequence number \<open>sq\<close> on. \<open>szTrain\<close> and \<open>szMsg\<close> are
  the sizes of the wrapped train head and message.
\<close>

definition queueMemorySegTrain ::
    "u16 \<Rightarrow> u16 \<Rightarrow> u16 \<Rightarrow> u64 \<Rightarrow> u64 \<Rightarrow> u16 \<Rightarrow> MemoryAttachment \<Rightarrow> bytes \<Rightarrow> TransportMessage list outcome" where
  "queueMemorySegTrain maxSeg szTrain szMsg sq n tag att rest =
     (case attMem att of
        None \<Rightarrow> Undefined
      | Some base \<Rightarrow>
          (let segs = segLoop maxSeg tag base (attLen att) (sq + 1) 0
           in Ret (setMsgSeq sq \<lparr>thFlag = 0, messagePayloadLen = szTrain, seqField = 0,
                     thPayload = StartMemorySegTrain tag att (n - 2)\<rparr>
                   # segs
                   @ [setMsgSeq (sq + 1 + of_nat (length segs))
                        \<lparr>thFlag = 1, messagePayloadLen = szMsg, seqField = 0,
                         thPayload = AttMessage tag att rest\<rparr>])))"

text \<open>
  \<^verbatim>\<open>queue\<close> of a message with an attachment: dropped and released when nobody subscribes,
  refused when it cannot fit, otherwise \<open>n\<close> slots claimed at \<open>sq\<close>, written and committed.
\<close>

datatype Queued = NotWanted MemoryAttachment | Slots "TransportMessage list"

definition trainLength :: "u16 \<Rightarrow> u64 \<Rightarrow> u64" where
  "trainLength maxSeg len = (len + ucast maxSeg - 1) div ucast maxSeg + 2"

definition queueAttachment ::
    "bool \<Rightarrow> bool \<Rightarrow> u64 \<Rightarrow> u16 \<Rightarrow> u16 \<Rightarrow> u16 \<Rightarrow> u64 \<Rightarrow> u16 \<Rightarrow> MemoryAttachment \<Rightarrow> bytes \<Rightarrow> Queued outcome" where
  "queueAttachment subscribed tooBig ringCapacity maxSeg szTrain szMsg sq tag att rest =
     (if \<not> subscribed then Ret (NotWanted (releaseAtt att))
      else if tooBig then Throw OutOfRange
      else if maxSeg = 0 then Undefined
      else (let n = trainLength maxSeg (attLen att)
            in if ringCapacity < n then Throw OutOfRange
               else obind (queueMemorySegTrain maxSeg szTrain szMsg sq n tag att rest) (\<lambda>ms. Ret (Slots ms))))"

section \<open>The receiver\<close>

text \<open>
  \<open>wrapTag\<close>, \<open>wrapRest\<close> and the attachment are the parts of the space the message with an
  attachment is built in; \<open>attPending\<close> says whether \<^verbatim>\<open>hasMemoryAttachment_\<close> is set and holds it.
\<close>

record AttBufferAdaptor =
  attPending :: "MemoryAttachment option"
  attTrainCount :: u64
  wrapTag :: u16
  wrapRest :: bytes

text \<open>What reaches the output buffer: bytes as they came, or the wrapped message with its attachment.\<close>

datatype Delivery = PutBytes Payload u16 | PutAtt u16 MemoryAttachment bytes

definition newAttBufferAdaptor :: "u64 \<Rightarrow> AttBufferAdaptor" where
  "newAttBufferAdaptor maxItemSize =
     \<lparr>attPending = None, attTrainCount = 0, wrapTag = 0, wrapRest = replicate (unat maxItemSize - 48) 0\<rparr>"

definition abortAtt :: "AttBufferAdaptor \<Rightarrow> AttBufferAdaptor" where
  "abortAtt b = b\<lparr>attPending := None\<rparr>"

text \<open>The head of a train is ignored while another is under way.\<close>

definition startTrain :: "(u16 \<Rightarrow> u64 \<Rightarrow> bytes) \<Rightarrow> AttBufferAdaptor \<Rightarrow> MemoryAttachment \<Rightarrow> u64 \<Rightarrow> AttBufferAdaptor" where
  "startTrain alloc b att n =
     (case attPending b of
        Some a \<Rightarrow> b
      | None \<Rightarrow> b\<lparr>attPending := Some (att\<lparr>attMem := Some (alloc 5 (attLen att)), attCleanup := True, attLen := 0\<rparr>),
                   attTrainCount := n\<rparr>)"

definition addSeg :: "AttBufferAdaptor \<Rightarrow> MemoryAttachment \<Rightarrow> bytes \<Rightarrow> u16 \<Rightarrow> AttBufferAdaptor outcome" where
  "addSeg b a seg payloadLen =
     (if attTrainCount b = 0 then Ret (abortAtt b)
      else let segLen = payloadLen - 8; at = unat (attLen a)
           in case attMem a of
                None \<Rightarrow> Undefined
              | Some m \<Rightarrow>
                  if payloadLen < 8 \<or> length m < at + unat segLen \<or> length seg < unat segLen then Undefined
                  else Ret (b\<lparr>attPending := Some (a\<lparr>attMem := Some (take at m @ memcpy (drop at m) seg (unat segLen)),
                                                   attLen := attLen a + ucast segLen\<rparr>),
                              attTrainCount := attTrainCount b - 1\<rparr>))"

text \<open>
  The message itself: the first \<open>min(maxItemSize, messagePayloadLen)\<close> bytes of the payload are
  copied, 8 of the head and 40 of the attachment before the rest, and the attachment restored.
\<close>

fun payloadRest :: "Payload \<Rightarrow> bytes" where
  "payloadRest (AttMessage tag att rest) = rest"
| "payloadRest (PlainMessage tag body) = drop 40 body"
| "payloadRest p = []"

definition finishTrain ::
    "u64 \<Rightarrow> AttBufferAdaptor \<Rightarrow> MemoryAttachment \<Rightarrow> TransportMessage \<Rightarrow> Delivery list \<times> AttBufferAdaptor" where
  "finishTrain maxItemSize b a h =
     (if attTrainCount b = 0 \<and> thFlag h = 1
      then let l = min maxItemSize (ucast (messagePayloadLen h));
               rest = memcpy (wrapRest b) (payloadRest (thPayload h)) (unat l - 48)
           in ([PutAtt (typeTag h) a rest], b\<lparr>attPending := None, wrapTag := typeTag h, wrapRest := rest\<rparr>)
      else ([], abortAtt b))"

definition attPut ::
    "(u16 \<Rightarrow> u64 \<Rightarrow> bytes) \<Rightarrow> u64 \<Rightarrow> AttBufferAdaptor \<Rightarrow> TransportMessage \<Rightarrow> (Delivery list \<times> AttBufferAdaptor) outcome" where
  "attPut alloc maxItemSize b h =
     (case thPayload h of
        StartMemorySegTrain tag att n \<Rightarrow> Ret ([], startTrain alloc b att n)
      | p \<Rightarrow>
          (case attPending b of
             None \<Rightarrow> Ret ([PutBytes p (messagePayloadLen h)], b)
           | Some a \<Rightarrow>
               (case p of
                  WireSeg seg \<Rightarrow> obind (addSeg b a seg (messagePayloadLen h)) (\<lambda>b'. Ret ([], b'))
                | _ \<Rightarrow> Ret (finishTrain maxItemSize b a h))))"

fun attPutAll ::
    "(u16 \<Rightarrow> u64 \<Rightarrow> bytes) \<Rightarrow> u64 \<Rightarrow> AttBufferAdaptor \<Rightarrow> TransportMessage list \<Rightarrow> (Delivery list \<times> AttBufferAdaptor) outcome" where
  "attPutAll alloc maxItemSize b [] = Ret ([], b)"
| "attPutAll alloc maxItemSize b (h # hs) =
     obind (attPut alloc maxItemSize b h) (\<lambda>(ds, b1).
     obind (attPutAll alloc maxItemSize b1 hs) (\<lambda>(ds', b2). Ret (ds @ ds', b2)))"

end
