(* ===== verification/AttachmentTrainSpec.thy ===== *)
theory AttachmentTrainSpec
  imports AttachmentTrain
begin

text \<open>
  A train queued by the sender and put message by message into the receiver's adaptor gives the
  attachment back, whatever its length.
\<close>

section \<open>Feeding a train\<close>

lemma attPutAll_append:
  "attPutAll alloc mx b (xs @ ys) =
     obind (attPutAll alloc mx b xs) (\<lambda>(ds, b1).
     obind (attPutAll alloc mx b1 ys) (\<lambda>(ds', b2). Ret (ds @ ds', b2)))"
proof (induction xs arbitrary: b)
  case Nil
  show ?case by (cases "attPutAll alloc mx b ys") auto
next
  case (Cons h xs)
  show ?case
  proof (cases "attPut alloc mx b h")
    case (Ret p)
    obtain ds b1 where p: "p = (ds, b1)" by force
    show ?thesis
    proof (cases "attPutAll alloc mx b1 xs")
      case Ret1: (Ret q)
      obtain ds1 b2 where q: "q = (ds1, b2)" by force
      show ?thesis
        by (cases "attPutAll alloc mx b2 ys") (auto simp: Ret p Cons.IH Ret1 q)
    qed (simp_all add: Ret p Cons.IH)
  qed simp_all
qed

lemma onWire_setMsgSeq [simp]: "onWire (setMsgSeq s h) = setMsgSeq s (onWire h)"
  by (simp add: onWire_def setMsgSeq_def split: Payload.splits)

lemma setMsgSeq_sel [simp]:
  "thPayload (setMsgSeq s h) = thPayload h" "thFlag (setMsgSeq s h) = thFlag h"
  "messagePayloadLen (setMsgSeq s h) = messagePayloadLen h" "typeTag (setMsgSeq s h) = typeTag h"
  by (simp_all add: setMsgSeq_def typeTag_def)

text \<open>The adaptor in the middle of a train: the bytes up to \<open>at\<close> are there.\<close>

definition partlyFilled :: "AttBufferAdaptor \<Rightarrow> MemoryAttachment \<Rightarrow> bytes \<Rightarrow> nat \<Rightarrow> bool" where
  "partlyFilled b a base at \<longleftrightarrow> attPending b = Some a \<and> unat (attLen a) = at \<and>
     (\<exists>m. attMem a = Some m \<and> length m = length base \<and> take at m = take at base)"

lemma memcpy_fill:
  assumes "at + n \<le> length base" "length m = length base" "take at m = take at base"
  shows "take (at + n) (take at m @ memcpy (drop at m) (take n (drop at base)) n) = take (at + n) base"
    "length (take at m @ memcpy (drop at m) (take n (drop at base)) n) = length base"
  using assms by (simp_all add: memcpy_def take_add)

lemma addSeg_fills:
  assumes "partlyFilled b a base at" "attTrainCount b \<noteq> 0" "at + unat l \<le> length base"
    "length base < 2 ^ 63" "unat l + 8 < 2 ^ 16"
  shows "\<exists>a'. addSeg b a (take (unat l) (drop at base)) (8 + l) =
       Ret (b\<lparr>attPending := Some a', attTrainCount := attTrainCount b - 1\<rparr>) \<and>
     partlyFilled (b\<lparr>attPending := Some a', attTrainCount := attTrainCount b - 1\<rparr>) a' base (at + unat l) \<and>
     attCleanup a' = attCleanup a"
proof -
  obtain m where m: "attMem a = Some m" "length m = length base" "take at m = take at base"
    and at: "unat (attLen a) = at"
    using assms(1) by (auto simp: partlyFilled_def)
  have l8: "unat (8 + l) = 8 + unat l" using assms(5) by (simp add: unat_word_ariths)
  then have g: "\<not> 8 + l < 8" by (simp add: word_less_nat_alt)
  have "unat (attLen a + ucast l) = at + unat l"
    using at assms(3,4) by (subst unat_add_small) (simp_all add: unat_u16_u64)
  then show ?thesis
    using assms(2,3) m at g memcpy_fill [OF assms(3) m(2,3)]
    by (auto simp: addSeg_def Let_def partlyFilled_def)
qed

text \<open>The number of segments for \<open>k\<close> bytes.\<close>

definition segsFor :: "nat \<Rightarrow> nat \<Rightarrow> nat" where
  "segsFor mx k = (k + mx - 1) div mx"

lemma segsFor_step: "0 < mx \<Longrightarrow> 0 < k \<Longrightarrow> segsFor mx k = Suc (segsFor mx (k - mx))"
proof -
  assume mx: "0 < mx" "0 < k"
  show ?thesis
  proof (cases "mx \<le> k")
    case True
    then have "k + mx - 1 = (k - mx + mx - 1) + mx" using mx by simp
    then have "segsFor mx k = (k - mx + mx - 1) div mx + 1"
      unfolding segsFor_def using mx by (metis div_add_self2 less_not_refl)
    then show ?thesis by (simp add: segsFor_def)
  next
    case False
    then have "(k + mx - 1) div mx = 1" using mx by (intro div_nat_eqI) simp_all
    moreover have "(mx - 1) div mx = 0" using mx by simp
    ultimately show ?thesis using False mx by (simp add: segsFor_def)
  qed
qed

lemma segsFor_le: "0 < mx \<Longrightarrow> segsFor mx k \<le> k"
proof (induction k rule: less_induct)
  case (less k)
  show ?case
  proof (cases "k = 0")
    case False
    then have "segsFor mx (k - mx) \<le> k - mx" using less.IH [of "k - mx"] less.prems by simp
    then show ?thesis using segsFor_step [of mx k] less.prems False by simp
  qed (use less.prems in \<open>simp add: segsFor_def\<close>)
qed

lemma segsFor_0 [simp]: "segsFor mx 0 = 0"
  by (cases mx) (simp_all add: segsFor_def)

text \<open>What the loop over the segments writes, one step of it.\<close>

lemma segLoop_step:
  assumes "offset < totalLen" "maxSeg \<noteq> 0" "l = ucast (min (ucast maxSeg) (totalLen - offset))"
  shows "segLoop maxSeg tag base totalLen sq offset =
     setMsgSeq sq \<lparr>thFlag = 0, messagePayloadLen = 8 + l, seqField = 0,
       thPayload = MemorySeg (drop (unat offset) base) l tag\<rparr>
     # segLoop maxSeg tag base totalLen (sq + 1) (offset + ucast l)"
  by (subst segLoop.simps) (simp add: assms Let_def)

lemma segLoop_done: "\<not> offset < totalLen \<Longrightarrow> segLoop maxSeg tag base totalLen sq offset = []"
  by (subst segLoop.simps) simp

lemma length_segLoop:
  "maxSeg \<noteq> 0 \<Longrightarrow> length (segLoop maxSeg tag base totalLen sq offset) =
     segsFor (unat maxSeg) (unat totalLen - unat offset)"
proof (induction maxSeg tag base totalLen sq offset rule: segLoop.induct)
  case (1 maxSeg tag base totalLen sq offset)
  show ?case
  proof (cases "offset < totalLen")
    case True
    let ?l = "ucast (min (ucast maxSeg) (totalLen - offset)) :: u16"
    note u = segStep_unat(1) [OF True refl, of maxSeg] segLen_unat [OF True, of maxSeg]
    have pos: "0 < unat maxSeg" "0 < unat totalLen - unat offset"
      using 1(2) True by (simp_all add: unat_gt_0 word_less_nat_alt)
    have "length (segLoop maxSeg tag base totalLen (sq + 1) (offset + ucast ?l)) =
        segsFor (unat maxSeg) (unat totalLen - unat (offset + ucast ?l))"
      using 1(1) [OF conjI [OF True 1(2)] refl] 1(2) by blast
    moreover have "unat totalLen - unat (offset + ucast ?l) =
        unat totalLen - unat offset - unat maxSeg"
      by (simp only: u)
    ultimately show ?thesis
      using segsFor_step [OF pos] by (simp add: segLoop_step [OF True 1(2) refl])
  next
    case False
    then show ?thesis by (simp add: segLoop_done word_less_nat_alt)
  qed
qed

lemma feed_segs:
  assumes "maxSeg \<noteq> 0" "unat maxSeg + 8 < 2 ^ 16" "length base = unat totalLen" "unat totalLen < 2 ^ 63"
    "offset \<le> totalLen" "partlyFilled b a base (unat offset)"
    "attTrainCount b = of_nat (segsFor (unat maxSeg) (unat totalLen - unat offset))"
  shows "\<exists>a' b'. attPutAll alloc mx b (map onWire (segLoop maxSeg tag base totalLen sq offset)) = Ret ([], b') \<and>
     b' = b\<lparr>attPending := Some a', attTrainCount := 0\<rparr> \<and>
     partlyFilled b' a' base (unat totalLen) \<and> attCleanup a' = attCleanup a"
  using assms
proof (induction maxSeg tag base totalLen sq offset arbitrary: a b rule: segLoop.induct)
  case (1 maxSeg tag base totalLen sq offset)
  show ?case
  proof (cases "offset < totalLen")
    case True
    let ?l = "ucast (min (ucast maxSeg) (totalLen - offset)) :: u16"
    let ?k = "unat totalLen - unat offset"
    note u = segStep_unat [OF True refl, of maxSeg] and len = segLen_unat [OF True, of maxSeg]
    have pos: "0 < unat maxSeg" "0 < ?k"
      using "1.prems"(1) True by (simp_all add: unat_gt_0 word_less_nat_alt)
    have more: "segsFor (unat maxSeg) ?k = Suc (segsFor (unat maxSeg) (?k - unat maxSeg))"
      by (rule segsFor_step [OF pos])
    have "segsFor (unat maxSeg) ?k < 2 ^ 64"
      using segsFor_le [OF pos(1), of ?k] "1.prems"(4) by simp
    then have "unat (attTrainCount b) = segsFor (unat maxSeg) ?k"
      unfolding "1.prems"(7) by (simp only: unsigned_of_nat) (simp add: take_bit_nat_eq_self)
    then have nz: "attTrainCount b \<noteq> 0" using more by (auto simp: unat_gt_0)
    have l: "unat offset + unat ?l \<le> length base" "unat ?l + 8 < 2 ^ 16"
      using u(2) pos len "1.prems"(2,3) by simp_all
    obtain a1 where a1: "addSeg b a (take (unat ?l) (drop (unat offset) base)) (8 + ?l) =
        Ret (b\<lparr>attPending := Some a1, attTrainCount := attTrainCount b - 1\<rparr>)"
      "partlyFilled (b\<lparr>attPending := Some a1, attTrainCount := attTrainCount b - 1\<rparr>) a1 base (unat offset + unat ?l)"
      "attCleanup a1 = attCleanup a"
      using addSeg_fills [OF "1.prems"(6) nz l(1) _ l(2)] "1.prems"(3,4) by auto
    let ?b1 = "b\<lparr>attPending := Some a1, attTrainCount := attTrainCount b - 1\<rparr>"
    have rest: "unat totalLen - unat (offset + ucast ?l) = ?k - unat maxSeg"
      by (simp only: u len)
    have o': "offset + ucast ?l \<le> totalLen"
      using u(1,2) pos by (simp add: word_le_nat_alt)
    have "\<exists>a' b'. attPutAll alloc mx ?b1 (map onWire (segLoop maxSeg tag base totalLen (sq + 1) (offset + ucast ?l))) = Ret ([], b') \<and>
        b' = ?b1\<lparr>attPending := Some a', attTrainCount := 0\<rparr> \<and> partlyFilled b' a' base (unat totalLen) \<and>
        attCleanup a' = attCleanup a1"
    proof (rule "1.IH" [OF conjI [OF True "1.prems"(1)] refl "1.prems"(1-4) o'])
      show "partlyFilled ?b1 a1 base (unat (offset + ucast ?l))" using a1(2) by (simp only: u(1))
      show "attTrainCount ?b1 = of_nat (segsFor (unat maxSeg) (unat totalLen - unat (offset + ucast ?l)))"
        using "1.prems"(7) more rest by simp
    qed
    moreover have "attPut alloc mx b (onWire (setMsgSeq sq \<lparr>thFlag = 0, messagePayloadLen = 8 + ?l, seqField = 0,
        thPayload = MemorySeg (drop (unat offset) base) ?l tag\<rparr>)) = Ret ([], ?b1)"
      using "1.prems"(6) a1(1) by (simp add: attPut_def onWire_def partlyFilled_def)
    ultimately show ?thesis
      using a1(3) by (force simp: segLoop_step [OF True "1.prems"(1) refl])
  next
    case False
    then have "unat offset = unat totalLen" using "1.prems"(5) by (simp add: word_less_nat_alt word_le_nat_alt)
    then show ?thesis using "1.prems"(6,7) False
      by (intro exI [of _ a] exI [of _ b]) (simp add: segLoop_done partlyFilled_def)
  qed
qed

section \<open>Properties\<close>

lemma trainLength_unat:
  assumes "maxSeg \<noteq> 0" "unat len < 2 ^ 63"
  shows "unat (trainLength maxSeg len) = segsFor (unat maxSeg) (unat len) + 2"
proof -
  have mx: "0 < unat maxSeg" "unat maxSeg < 2 ^ 16" using assms(1) unat_u16_lt [of maxSeg] by (simp_all add: unat_gt_0)
  have s: "unat (len + ucast maxSeg) = unat len + unat maxSeg"
    using assms(2) mx by (subst unat_add_small) (simp_all add: unat_u16_u64)
  then have "len + ucast maxSeg \<noteq> 0" using mx(1) by (metis add_gr_0 less_not_refl unat_0)
  then have "unat (len + ucast maxSeg - 1) = unat len + unat maxSeg - 1" by (simp add: unat_minus_one s)
  then have "unat ((len + ucast maxSeg - 1) div ucast maxSeg) = segsFor (unat maxSeg) (unat len)"
    by (simp add: unat_div unat_u16_u64 segsFor_def)
  moreover have "segsFor (unat maxSeg) (unat len) < 2 ^ 63"
    using segsFor_le [OF mx(1), of "unat len"] assms(2) by simp
  ultimately show ?thesis
    unfolding trainLength_def by (subst unat_add_small) simp_all
qed

lemma train_count:
  assumes "maxSeg \<noteq> 0" "unat len < 2 ^ 63"
  shows "trainLength maxSeg len - 2 = of_nat (segsFor (unat maxSeg) (unat len))"
proof -
  have "of_nat (unat (trainLength maxSeg len)) = (of_nat (segsFor (unat maxSeg) (unat len) + 2) :: u64)"
    by (simp only: trainLength_unat [OF assms])
  then show ?thesis by simp
qed

text \<open>C12: a message with an attachment that the reliable sender queues takes exactly the slots it
  claimed, and, put message by message into an idle receiver, comes out once, with the bytes of
  the attachment and of the message as they were sent; the receiver is idle again.\<close>

lemma train_roundtrip:
  assumes "attMem att = Some base" "length base = unat (attLen att)" "unat (attLen att) < 2 ^ 63"
    "maxSeg \<noteq> 0" "unat maxSeg \<le> 1015" "trainLength maxSeg (attLen att) \<le> ringCapacity"
    "\<forall>t n. length (alloc t n) = unat n" "attPending b = None"
    "unat szMsg = 48 + length rest" "unat szMsg \<le> unat maxItem" "length (wrapRest b) = unat maxItem - 48"
  shows "\<exists>ms att' rest' b'.
     queueAttachment True False ringCapacity maxSeg szTrain szMsg sq tag att rest = Ret (Slots ms) \<and>
     length ms = unat (trainLength maxSeg (attLen att)) \<and>
     attPutAll alloc maxItem b (map onWire ms) = Ret ([PutAtt tag att' rest'], b') \<and>
     attMem att' = Some base \<and> attLen att' = attLen att \<and> take (length rest) rest' = rest \<and>
     attPending b' = None \<and> length (wrapRest b') = length (wrapRest b)"
proof -
  let ?n = "trainLength maxSeg (attLen att)"
  let ?segs = "segLoop maxSeg tag base (attLen att) (sq + 1) 0"
  let ?m = "\<lparr>thFlag = 1, messagePayloadLen = szMsg, seqField = 0, thPayload = AttMessage tag att rest\<rparr>"
  let ?a = "att\<lparr>attMem := Some (alloc 5 (attLen att)), attCleanup := True, attLen := 0\<rparr>"
  let ?b = "b\<lparr>attPending := Some ?a, attTrainCount := ?n - 2\<rparr>"
  have len: "length ?segs = segsFor (unat maxSeg) (unat (attLen att))"
    using length_segLoop [OF assms(4), of tag base "attLen att" "sq + 1" 0] by simp
  obtain a' b1 where feed: "attPutAll alloc maxItem ?b (map onWire ?segs) = Ret ([], b1)"
      "b1 = ?b\<lparr>attPending := Some a', attTrainCount := 0\<rparr>" "partlyFilled b1 a' base (unat (attLen att))"
  proof (rule exE [OF feed_segs [of maxSeg base "attLen att" 0 ?b ?a alloc maxItem tag "sq + 1"]])
    show "partlyFilled ?b ?a base (unat (0 :: u64))" using assms(2,7) by (simp add: partlyFilled_def)
    show "attTrainCount ?b = of_nat (segsFor (unat maxSeg) (unat (attLen att) - unat (0 :: u64)))"
      by (simp add: train_count [OF assms(4,3)])
  qed (use assms that in \<open>auto\<close>)
  have mem: "attMem a' = Some base" "attLen a' = attLen att"
    using feed(3) assms(2) by (auto simp: partlyFilled_def word_unat_eq_iff)
  let ?r = "memcpy (wrapRest b) rest (length rest)"
  have l: "unat (min maxItem (ucast szMsg :: u64)) - 48 = length rest"
    using assms(9,10) by (simp add: min_def word_le_nat_alt unat_u16_u64)
  have fin: "attPut alloc maxItem b1 (setMsgSeq s ?m) =
      Ret ([PutAtt tag a' ?r], b1\<lparr>attPending := None, wrapTag := tag, wrapRest := ?r\<rparr>)" for s
    using feed(2) l by (simp add: attPut_def finishTrain_def Let_def typeTag_def)
  have out: "onWire ?m = ?m" by (simp add: onWire_def)
  let ?head = "setMsgSeq sq \<lparr>thFlag = 0, messagePayloadLen = szTrain, seqField = 0,
      thPayload = StartMemorySegTrain tag att (?n - 2)\<rparr>"
  let ?ms = "?head # ?segs @ [setMsgSeq (sq + 1 + of_nat (length ?segs)) ?m]"
  let ?b2 = "b1\<lparr>attPending := None, wrapTag := tag, wrapRest := ?r\<rparr>"
  have q: "queueAttachment True False ringCapacity maxSeg szTrain szMsg sq tag att rest = Ret (Slots ?ms)"
    using assms(1,4,6) by (auto simp: queueAttachment_def queueMemorySegTrain_def Let_def)
  have "attPut alloc maxItem b (onWire ?head) = Ret ([], ?b)"
    using assms(8) by (simp add: attPut_def onWire_def startTrain_def)
  then have "attPutAll alloc maxItem b (map onWire ?ms) = Ret ([PutAtt tag a' ?r], ?b2)"
    by (simp add: attPutAll_append feed(1) fin out)
  moreover have "length ?ms = unat ?n" using len trainLength_unat [OF assms(4,3)] by simp
  moreover have "length (wrapRest ?b2) = length (wrapRest b)" using assms(9-11) by simp
  ultimately show ?thesis
    using q mem by (intro exI [of _ ?ms] exI [of _ a'] exI [of _ ?r] exI [of _ ?b2]) simp
qed

lemma train_witness:
  "\<exists>ms att' rest' b'.
     queueAttachment True False 8 4 64 50 7 1001 \<lparr>attMem = Some [1, 2, 3, 4, 5, 6], attLen = 6, attCleanup = True\<rparr> [9, 9]
       = Ret (Slots ms) \<and> length ms = 4 \<and>
     attPutAll (\<lambda>t n. replicate (unat n) 0) 64 (newAttBufferAdaptor 64) (map onWire ms) = Ret ([PutAtt 1001 att' rest'], b') \<and>
     attMem att' = Some [1, 2, 3, 4, 5, 6]"
proof -
  have n: "trainLength 4 6 = 4" by (simp add: trainLength_def)
  show ?thesis
    using train_roundtrip [of "\<lparr>attMem = Some [1, 2, 3, 4, 5, 6], attLen = 6, attCleanup = True\<rparr>" "[1, 2, 3, 4, 5, 6]"
        4 8 "\<lambda>t n. replicate (unat n) 0" "newAttBufferAdaptor 64" 50 "[9, 9]" 64 64 7 1001]
    by (auto simp: n newAttBufferAdaptor_def)
qed

text \<open>A receiver that joins in the middle of a train hands the segments and the message on as
  ordinary messages; the attachment pointer in the message is still the sender's.\<close>

lemma stray_train_forwarded:
  "attPending b = None \<Longrightarrow>
   attPutAll alloc maxItem b
     [onWire \<lparr>thFlag = 0, messagePayloadLen = 8 + l, seqField = s, thPayload = MemorySeg seg l tag\<rparr>,
      onWire \<lparr>thFlag = 1, messagePayloadLen = n, seqField = s + 1, thPayload = AttMessage tag att rest\<rparr>] =
   Ret ([PutBytes (WireSeg (take (unat l) seg)) (8 + l), PutBytes (AttMessage tag att rest) n], b)"
  by (simp add: attPut_def onWire_def)

lemma stray_witness:
  "attPutAll (\<lambda>t n. []) 64 (newAttBufferAdaptor 64)
     [onWire \<lparr>thFlag = 0, messagePayloadLen = 8 + 1, seqField = 5, thPayload = MemorySeg [1] 1 1001\<rparr>,
      onWire \<lparr>thFlag = 1, messagePayloadLen = 50, seqField = 5 + 1,
        thPayload = AttMessage 1001 \<lparr>attMem = Some [1], attLen = 1, attCleanup = True\<rparr> [9, 9]\<rparr>] =
   Ret ([PutBytes (WireSeg (take (unat (1 :: u16)) [1])) (8 + 1),
         PutBytes (AttMessage 1001 \<lparr>attMem = Some [1], attLen = 1, attCleanup = True\<rparr> [9, 9]) 50], newAttBufferAdaptor 64)"
  by (rule stray_train_forwarded) (simp add: newAttBufferAdaptor_def)

text \<open>The 48 bits of a sequence number are enough for \<open>2 ^ 48 - 1\<close> messages, and for "none".\<close>

lemma seq_roundtrip:
  assumes "unat s < 2 ^ 48 - 1 \<or> s = noSeq"
  shows "getSeqOf (setMsgSeq s h) = s"
proof (cases "s = noSeq")
  case True
  have "take_bit 48 (- 1 :: u64) = 0xffffffffffff" by (simp add: take_bit_minus_one_eq_mask mask_eq_exp_minus_1)
  then show ?thesis by (simp add: True getSeqOf_def setMsgSeq_def noSeq_def)
next
  case False
  then have "unat s < 2 ^ 48 - 1" using assms by blast
  then have "unat (take_bit 48 s) = unat s" by (simp add: unsigned_take_bit_eq take_bit_nat_eq_self)
  then have "take_bit 48 s = s" by (simp add: word_unat_eq_iff)
  moreover have "s \<noteq> 0xffffffffffff" using \<open>unat s < 2 ^ 48 - 1\<close> by auto
  ultimately show ?thesis by (simp add: getSeqOf_def setMsgSeq_def)
qed

end
