(* ===== verification/SessionText.thy ===== *)
theory SessionText
  imports Prelude
begin

text \<open>
  The parts of the C++ library that the text commands between the two ends of a reliable session
  go through: decimal printing (\<^verbatim>\<open>sprintf\<close>, \<^verbatim>\<open>ostream\<close>), \<^verbatim>\<open>std::stoi\<close> and \<^verbatim>\<open>sscanf\<close>
  with \<^verbatim>\<open>%lu,%zu\<close>, and the partial writes of \<^verbatim>\<open>sendmsg\<close> with \<^verbatim>\<open>extractRelicTo\<close> of
  \<^verbatim>\<open>hmbdc/comm/inet/Misc.hpp\<close>.
\<close>

section \<open>Decimal numbers\<close>

definition isDigit :: "char \<Rightarrow> bool" where
  "isDigit c \<longleftrightarrow> 48 \<le> (of_char c :: nat) \<and> (of_char c :: nat) \<le> 57"

definition isSpace :: "char \<Rightarrow> bool" where
  "isSpace c \<longleftrightarrow> (of_char c :: nat) = 32 \<or> 9 \<le> (of_char c :: nat) \<and> (of_char c :: nat) \<le> 13"

definition digitChar :: "nat \<Rightarrow> char" where
  "digitChar n = char_of (48 + n)"

definition digitsVal :: "string \<Rightarrow> nat" where
  "digitsVal s = foldl (\<lambda>a c. 10 * a + (of_char c - 48)) 0 s"

fun showNat :: "nat \<Rightarrow> string" where
  "showNat n = (if n < 10 then [digitChar n] else showNat (n div 10) @ [digitChar (n mod 10)])"

declare showNat.simps [simp del]

text \<open>White space, an optional sign, then the digits: the sign, the digits, and what follows.\<close>

definition scanSigned :: "string \<Rightarrow> bool \<times> string \<times> string" where
  "scanSigned s =
     (let s1 = dropWhile isSpace s;
          neg = (s1 \<noteq> [] \<and> hd s1 = CHR ''-'');
          s2 = (if s1 \<noteq> [] \<and> (hd s1 = CHR ''-'' \<or> hd s1 = CHR ''+'') then tl s1 else s1)
      in (neg, takeWhile isDigit s2, dropWhile isDigit s2))"

text \<open>\<open>LogicError\<close> is \<^verbatim>\<open>std::invalid_argument\<close>: no digits.\<close>

definition stoi :: "string \<Rightarrow> int outcome" where
  "stoi s = (case scanSigned s of (neg, ds, rest) \<Rightarrow>
     if ds = [] then Throw LogicError
     else let v = (if neg then - int (digitsVal ds) else int (digitsVal ds))
          in if v < - (2 ^ 31) \<or> 2 ^ 31 \<le> v then Throw OutOfRange else Ret v)"

definition scanU64 :: "string \<Rightarrow> (u64 \<times> string) option" where
  "scanU64 s = (case scanSigned s of (neg, ds, rest) \<Rightarrow>
     if ds = [] then None
     else let v = (if 2 ^ 64 \<le> digitsVal ds then - 1 else of_nat (digitsVal ds))
          in Some (if neg then - v else v, rest))"

definition scanPair :: "string \<Rightarrow> (u64 \<times> u64) option" where
  "scanPair s = (case scanU64 s of
     Some (a, c # r) \<Rightarrow>
       if c = CHR '','' then map_option (\<lambda>(b, r'). (a, b)) (scanU64 r) else None
   | _ \<Rightarrow> None)"

lemma of_char_digit [simp]: "n < 10 \<Longrightarrow> (of_char (digitChar n) :: nat) = 48 + n"
  by (simp add: digitChar_def)

lemma isDigit_digit [simp]: "n < 10 \<Longrightarrow> isDigit (digitChar n)"
  by (simp add: isDigit_def)

lemma showNat_digits: "\<forall>c \<in> set (showNat n). isDigit c"
  by (induction n rule: showNat.induct) (subst showNat.simps, auto)

lemma showNat_nonempty [simp]: "showNat n \<noteq> []"
  by (subst showNat.simps) simp

lemma digitsVal_append: "digitsVal (s @ [c]) = 10 * digitsVal s + (of_char c - 48)"
  by (simp add: digitsVal_def)

lemma digitsVal_showNat [simp]: "digitsVal (showNat n) = n"
proof (induction n rule: showNat.induct)
  case (1 n)
  show ?case
  proof (cases "n < 10")
    case True
    then show ?thesis by (subst showNat.simps) (simp add: digitsVal_def)
  next
    case False
    then have "digitsVal (showNat n) = 10 * (n div 10) + n mod 10"
      by (subst showNat.simps) (simp add: digitsVal_append 1)
    then show ?thesis by simp
  qed
qed

lemma takeWhile_digits:
  assumes "r = [] \<or> \<not> isDigit (hd r)"
  shows "takeWhile isDigit (showNat n @ r) = showNat n" "dropWhile isDigit (showNat n @ r) = r"
proof -
  have "takeWhile isDigit (showNat n @ r) = showNat n @ takeWhile isDigit r"
    "dropWhile isDigit (showNat n @ r) = dropWhile isDigit r"
    using showNat_digits by (auto intro!: takeWhile_append2 dropWhile_append2)
  with assms show "takeWhile isDigit (showNat n @ r) = showNat n" "dropWhile isDigit (showNat n @ r) = r"
    by (cases r; simp)+
qed

lemma scanSigned_showNat:
  assumes "r = [] \<or> \<not> isDigit (hd r)"
  shows "scanSigned (showNat n @ r) = (False, showNat n, r)"
proof -
  obtain c cs where s: "showNat n = c # cs" by (cases "showNat n") auto
  then have "isDigit c" using showNat_digits [of n] by simp
  then have "\<not> isSpace c" "c \<noteq> CHR ''-''" "c \<noteq> CHR ''+''"
    by (auto simp: isDigit_def isSpace_def)
  then show ?thesis
    using takeWhile_digits [OF assms, of n] by (simp add: scanSigned_def Let_def s)
qed

lemma stoi_showNat:
  assumes "n < 2 ^ 31" "r = [] \<or> \<not> isDigit (hd r)"
  shows "stoi (showNat n @ r) = Ret (int n)"
  using assms(1) by (simp add: stoi_def scanSigned_showNat [OF assms(2)])

lemma scanU64_showNat:
  assumes "n < 2 ^ 64" "r = [] \<or> \<not> isDigit (hd r)"
  shows "scanU64 (showNat n @ r) = Some (of_nat n, r)"
  using assms(1) by (simp add: scanU64_def scanSigned_showNat [OF assms(2)])

lemma scanPair_show:
  assumes "a < 2 ^ 64" "b < 2 ^ 64"
  shows "scanPair (showNat a @ CHR '','' # showNat b) = Some (of_nat a, of_nat b)"
proof -
  have "scanU64 (showNat a @ CHR '','' # showNat b) = Some (of_nat a, CHR '','' # showNat b)"
    by (rule scanU64_showNat [OF assms(1)]) (simp add: isDigit_def)
  moreover have "scanU64 (showNat b) = Some (of_nat b, [])"
    using scanU64_showNat [OF assms(2), of "[]"] by simp
  ultimately show ?thesis by (simp add: scanPair_def)
qed

section \<open>Partial writes\<close>

text \<open>
  The pieces of a \<^verbatim>\<open>msghdr\<close> as the bytes they point to. \<open>skipSent\<close> is the loop that passes the
  pieces sent in full; the piece after the last one is outside the array.
\<close>

fun skipSent :: "bytes list \<Rightarrow> nat \<Rightarrow> bytes list \<times> nat" where
  "skipSent [] l = ([], l)"
| "skipSent (p # ps) l = (if 0 < l \<and> length p \<le> l then skipSent ps (l - length p) else (p # ps, l))"

definition extractRelicTo :: "bytes list \<Rightarrow> nat \<Rightarrow> bytes list outcome" where
  "extractRelicTo from sent = (case skipSent from sent of
     ([], l) \<Rightarrow> Undefined
   | (p # ps, l) \<Rightarrow> Ret (drop l p # ps))"

lemma skipSent_spec:
  "skipSent ps l = (qs, k) \<Longrightarrow> l < length (concat ps) \<Longrightarrow>
     qs \<noteq> [] \<and> drop k (concat qs) = drop l (concat ps) \<and> k \<le> length (hd qs) \<and> l \<le> length (concat ps)"
  by (induction ps l rule: skipSent.induct) (auto split: if_splits)

lemma extractRelicTo_spec:
  assumes "sent < length (concat from)"
  shows "\<exists>r. extractRelicTo from sent = Ret r \<and> r \<noteq> [] \<and> concat r = drop sent (concat from)"
proof -
  obtain qs k where q: "skipSent from sent = (qs, k)" by force
  obtain p ps where "qs = p # ps" "drop k (concat qs) = drop sent (concat from)" "k \<le> length p"
    using skipSent_spec [OF q assms] by (cases qs) auto
  then show ?thesis using q by (simp add: extractRelicTo_def)
qed

end
