(* ===== verification/TypeTagSet.thy ===== *)
theory TypeTagSet
  imports Prelude "HOL-Library.AList"
begin

text \<open>
  \<^verbatim>\<open>hmbdc/tips/TypeTagSet.hpp\<close>: how many parties subscribe to each 16-bit message tag, in the
  form shared by threads (an array of counters) and the single-threaded form (a hash map), and
  the walk over a tuple of message types that marks the tags one transport is responsible for.
\<close>

section \<open>The array of counters\<close>

record TypeTagSet =
  subCounts :: "u16 \<Rightarrow> u16"

definition newTypeTagSet :: TypeTagSet where
  "newTypeTagSet = \<lparr>subCounts = (\<lambda>_. 0)\<rparr>"

text \<open>The counters are 16 bits wide, the results of the operations 8.\<close>

definition tagAdd :: "TypeTagSet \<Rightarrow> u16 \<Rightarrow> u8 \<times> TypeTagSet" where
  "tagAdd t tag = (let c = subCounts t tag + 1 in (ucast c, t\<lparr>subCounts := (subCounts t)(tag := c)\<rparr>))"

definition tagSet :: "TypeTagSet \<Rightarrow> u16 \<Rightarrow> bool \<times> TypeTagSet" where
  "tagSet t tag =
     (if subCounts t tag \<noteq> 0 then (False, t) else (True, t\<lparr>subCounts := (subCounts t)(tag := 1)\<rparr>))"

definition tagUnset :: "TypeTagSet \<Rightarrow> u16 \<Rightarrow> bool \<times> TypeTagSet" where
  "tagUnset t tag =
     (if subCounts t tag = 0 then (False, t) else (True, t\<lparr>subCounts := (subCounts t)(tag := 0)\<rparr>))"

definition tagSub :: "TypeTagSet \<Rightarrow> u16 \<Rightarrow> u8 \<times> TypeTagSet" where
  "tagSub t tag = (let c = subCounts t tag - 1 in (ucast c, t\<lparr>subCounts := (subCounts t)(tag := c)\<rparr>))"

definition tagCheck :: "TypeTagSet \<Rightarrow> u16 \<Rightarrow> u8" where
  "tagCheck t tag = ucast (subCounts t tag)"

text \<open>The calls \<^verbatim>\<open>exportTo\<close> makes, in order.\<close>

definition exportTags :: "TypeTagSet \<Rightarrow> (u16 \<times> u8) list" where
  "exportTags t = filter (\<lambda>(tag, c). c \<noteq> 0) (map (\<lambda>i. (of_nat i, tagCheck t (of_nat i))) [0..<2 ^ 16])"

section \<open>The hash map\<close>

text \<open>The map as a list of entries with distinct keys; its order stands for the hash order.\<close>

record TypeTagSetST =
  stCounts :: "(u16 \<times> u8) list"

definition newTypeTagSetST :: TypeTagSetST where
  "newTypeTagSetST = \<lparr>stCounts = []\<rparr>"

definition stCheck :: "TypeTagSetST \<Rightarrow> u16 \<Rightarrow> u8" where
  "stCheck t tag = (case map_of (stCounts t) tag of None \<Rightarrow> 0 | Some c \<Rightarrow> c)"

text \<open>\<^verbatim>\<open>subCounts_[tag]\<close> makes an entry 0 first when there is none.\<close>

definition stAdd :: "TypeTagSetST \<Rightarrow> u16 \<Rightarrow> exn option \<times> u8 \<times> TypeTagSetST" where
  "stAdd t tag =
     (let c = stCheck t tag + 1; t' = t\<lparr>stCounts := AList.update tag c (stCounts t)\<rparr>
      in (if c = 0xff then (Some OutOfRange, c, t') else (None, c, t')))"

definition stSet :: "TypeTagSetST \<Rightarrow> u16 \<Rightarrow> bool \<times> TypeTagSetST" where
  "stSet t tag =
     (if stCheck t tag \<noteq> 0 then (False, t) else (True, t\<lparr>stCounts := AList.update tag 1 (stCounts t)\<rparr>))"

definition stUnset :: "TypeTagSetST \<Rightarrow> u16 \<Rightarrow> bool \<times> TypeTagSetST" where
  "stUnset t tag = (map_of (stCounts t) tag \<noteq> None, t\<lparr>stCounts := AList.delete tag (stCounts t)\<rparr>)"

definition stSub :: "TypeTagSetST \<Rightarrow> u16 \<Rightarrow> u8 \<times> TypeTagSetST" where
  "stSub t tag = (let c = stCheck t tag - 1 in (c, t\<lparr>stCounts := AList.update tag c (stCounts t)\<rparr>))"

definition exportST :: "TypeTagSetST \<Rightarrow> (u16 \<times> u8) list" where
  "exportST t = filter (\<lambda>(tag, c). c \<noteq> 0) (stCounts t)"

section \<open>Marking the tags of message types\<close>

text \<open>A message type has one tag, a range of tags, or is \<^verbatim>\<open>JustBytes\<close> (tag 4, any tag on the wire).\<close>

datatype MessageType = PlainTag u16 | TagRange u16 u16 | JustBytes

fun adder :: "u16 \<Rightarrow> u16 \<Rightarrow> MessageType list \<Rightarrow> TypeTagSet \<Rightarrow> TypeTagSet" where
  "adder m r [] t = t"
| "adder m r (PlainTag tag # ms) t =
     adder m r ms (if unat tag mod unat m = unat r then snd (tagAdd t tag) else t)"
| "adder m r (JustBytes # ms) t =
     adder m r ms (if 4 mod unat m = unat r then snd (tagAdd t 4) else t)"
| "adder m r (TagRange start len # ms) t =
     adder m r ms
       (fold (\<lambda>i t. if (unat start + i) mod unat m = unat r then snd (tagAdd t (of_nat (unat start + i))) else t)
             [0..<unat len] t)"

text \<open>
  One call of the lambda with a tag: it is set when it is ours, and \<^verbatim>\<open>afterAddTag\<close> runs when it
  was new. \<open>sett\<close> is the \<^verbatim>\<open>set\<close> of the class the template is used with.
\<close>

definition markTag ::
    "('s \<Rightarrow> u16 \<Rightarrow> bool \<times> 's) \<Rightarrow> u16 \<Rightarrow> u16 \<Rightarrow> nat \<Rightarrow> u16 list \<times> 's \<Rightarrow> u16 list \<times> 's" where
  "markTag sett m r tag acc =
     (case acc of (added, s) \<Rightarrow>
        if tag mod unat m = unat r
        then (case sett s (of_nat tag) of (new, s') \<Rightarrow> (if new then added @ [of_nat tag] else added, s'))
        else (added, s))"

fun markOffsets ::
    "('s \<Rightarrow> u16 \<Rightarrow> bool \<times> 's) \<Rightarrow> u16 \<Rightarrow> u16 \<Rightarrow> u16 \<Rightarrow> u16 \<Rightarrow> u16 list \<Rightarrow> u16 list \<times> 's
       \<Rightarrow> exn option \<times> u16 list \<times> 's" where
  "markOffsets sett m r start len [] acc = (None, acc)"
| "markOffsets sett m r start len (off # offs) acc =
     (if len \<le> off then (Some OutOfRange, acc)
      else markOffsets sett m r start len offs (markTag sett m r (unat start + unat off) acc))"

text \<open>\<open>cfg\<close> is what the node's configuration passes to the callback for a message type.\<close>

fun subscribeFor ::
    "('s \<Rightarrow> u16 \<Rightarrow> bool \<times> 's) \<Rightarrow> (MessageType \<Rightarrow> u16 list) \<Rightarrow> u16 \<Rightarrow> u16 \<Rightarrow> MessageType list
       \<Rightarrow> u16 list \<times> 's \<Rightarrow> exn option \<times> u16 list \<times> 's" where
  "subscribeFor sett cfg m r [] acc = (None, acc)"
| "subscribeFor sett cfg m r (TagRange start len # ms) acc =
     (case markOffsets sett m r start len (cfg (TagRange start len)) acc of
        (None, acc') \<Rightarrow> subscribeFor sett cfg m r ms acc'
      | (Some e, acc') \<Rightarrow> (Some e, acc'))"
| "subscribeFor sett cfg m r (JustBytes # ms) acc =
     subscribeFor sett cfg m r ms (fold (\<lambda>tag. markTag sett m r (unat tag)) (cfg JustBytes) acc)"
| "subscribeFor sett cfg m r (PlainTag tag # ms) acc =
     subscribeFor sett cfg m r ms (markTag sett m r (unat tag) acc)"

definition markSubsFor ::
    "(MessageType \<Rightarrow> u16 list) \<Rightarrow> u16 \<Rightarrow> u16 \<Rightarrow> MessageType list \<Rightarrow> TypeTagSet
       \<Rightarrow> (exn option \<times> u16 list \<times> TypeTagSet) outcome" where
  "markSubsFor cfg m r ms t = (if m = 0 \<and> ms \<noteq> [] then Undefined else Ret (subscribeFor tagSet cfg m r ms ([], t)))"

text \<open>\<^verbatim>\<open>markPubsFor\<close> walks the tuple in the same way and tells nobody about new tags.\<close>

definition markPubsFor ::
    "(MessageType \<Rightarrow> u16 list) \<Rightarrow> u16 \<Rightarrow> u16 \<Rightarrow> MessageType list \<Rightarrow> TypeTagSetST
       \<Rightarrow> (exn option \<times> TypeTagSetST) outcome" where
  "markPubsFor cfg m r ms t =
     (if m = 0 \<and> ms \<noteq> [] then Undefined
      else Ret (case subscribeFor stSet cfg m r ms ([], t) of (e, added, t') \<Rightarrow> (e, t')))"

section \<open>What the two classes share\<close>

text \<open>The tags a message type stands for in a node, and that its offsets are in range.\<close>

definition tagsOf :: "(MessageType \<Rightarrow> u16 list) \<Rightarrow> MessageType \<Rightarrow> u16 set" where
  "tagsOf cfg msg = (case msg of
     PlainTag tag \<Rightarrow> {tag}
   | TagRange start len \<Rightarrow> (\<lambda>off. start + off) ` set (cfg msg)
   | JustBytes \<Rightarrow> set (cfg msg))"

definition inRange :: "(MessageType \<Rightarrow> u16 list) \<Rightarrow> MessageType \<Rightarrow> bool" where
  "inRange cfg msg = (case msg of
     TagRange start len \<Rightarrow> list_all (\<lambda>off. off < len \<and> unat start + unat off < 2 ^ 16) (cfg msg)
   | _ \<Rightarrow> True)"

locale tag_set =
  fixes sett :: "'s \<Rightarrow> u16 \<Rightarrow> bool \<times> 's" and marked :: "'s \<Rightarrow> u16 \<Rightarrow> bool"
  assumes set_new: "fst (sett s tag) \<longleftrightarrow> \<not> marked s tag"
    and set_marks: "marked (snd (sett s tag)) = (marked s)(tag := True)"
begin

text \<open>What \<open>added\<close> holds after marking: the tags of \<open>T\<close> that were not marked before, once each.\<close>

definition marks :: "u16 set \<Rightarrow> u16 list \<times> 's \<Rightarrow> u16 list \<times> 's \<Rightarrow> bool" where
  "marks T acc acc' \<longleftrightarrow>
     (\<forall>x. marked (snd acc') x \<longleftrightarrow> marked (snd acc) x \<or> x \<in> T) \<and>
     (\<exists>new. fst acc' = fst acc @ new \<and> distinct new \<and> set new = {x \<in> T. \<not> marked (snd acc) x})"

lemma marks_empty: "marks {} acc acc"
  by (simp add: marks_def)

lemma marks_trans:
  assumes "marks T a b" "marks U b c"
  shows "marks (T \<union> U) a c"
proof -
  obtain n1 n2 where
    "fst b = fst a @ n1" "distinct n1" "set n1 = {x \<in> T. \<not> marked (snd a) x}"
    "fst c = fst b @ n2" "distinct n2" "set n2 = {x \<in> U. \<not> marked (snd b) x}"
    using assms unfolding marks_def by blast
  moreover have "\<And>x. marked (snd b) x \<longleftrightarrow> marked (snd a) x \<or> x \<in> T"
    "\<And>x. marked (snd c) x \<longleftrightarrow> marked (snd b) x \<or> x \<in> U"
    using assms by (simp_all add: marks_def)
  ultimately show ?thesis
    unfolding marks_def by (intro conjI allI exI [of _ "n1 @ n2"]) auto
qed

lemma markTag_marks:
  "marks (if tag mod unat m = unat r then {of_nat tag} else {}) acc (markTag sett m r tag acc)"
proof (cases "tag mod unat m = unat r")
  case True
  obtain added s where acc: "acc = (added, s)" by force
  obtain b s' where s: "sett s (of_nat tag) = (b, s')" by force
  have "b \<longleftrightarrow> \<not> marked s (of_nat tag)" "marked s' = (marked s)(of_nat tag := True)"
    using set_new [of s "of_nat tag"] set_marks [of s "of_nat tag"] by (simp_all add: s)
  then show ?thesis
    using True by (auto simp: marks_def markTag_def acc s)
next
  case False
  then show ?thesis by (cases acc) (simp add: markTag_def marks_empty)
qed

lemma fold_markTag_marks:
  "marks (of_nat ` {tag \<in> set tags. tag mod unat m = unat r}) acc (fold (markTag sett m r) tags acc)"
proof (induction tags arbitrary: acc)
  case Nil
  then show ?case by (simp add: marks_empty)
next
  case (Cons tag tags)
  have "of_nat ` {x \<in> set (tag # tags). x mod unat m = unat r} =
      (if tag mod unat m = unat r then {of_nat tag} else {}) \<union>
      (of_nat ` {x \<in> set tags. x mod unat m = unat r} :: u16 set)" by auto
  then show ?case using marks_trans [OF markTag_marks Cons.IH] by simp
qed

lemma markOffsets_fold:
  "\<forall>off \<in> set offs. off < len \<Longrightarrow> markOffsets sett m r start len offs acc =
     (None, fold (markTag sett m r) (map (\<lambda>off. unat start + unat off) offs) acc)"
  by (induction offs arbitrary: acc) (auto simp: word_less_nat_alt word_le_nat_alt)

lemma ours_image:
  assumes "\<forall>x \<in> X. unat (f x) = g x"
  shows "of_nat ` {n \<in> g ` X. n mod unat m = unat r} = {t \<in> f ` X. unat t mod unat m = unat r}"
    (is "?L = ?R")
proof
  have eq: "of_nat (g x) = f x" if "x \<in> X" for x
    by (simp add: word_unat_eq_iff flip: bspec [OF assms that])
  show "?L \<subseteq> ?R" using assms eq by fastforce
  show "?R \<subseteq> ?L" using assms eq by (force simp: image_iff)
qed

lemma subscribe_one:
  assumes "inRange cfg msg"
  shows "\<exists>acc'. subscribeFor sett cfg m r (msg # ms) acc = subscribeFor sett cfg m r ms acc' \<and>
     marks {t \<in> tagsOf cfg msg. unat t mod unat m = unat r} acc acc'"
proof (cases msg)
  case (PlainTag tag)
  have "(if unat tag mod unat m = unat r then {of_nat (unat tag)} else {}) =
      {t \<in> tagsOf cfg msg. unat t mod unat m = unat r}" by (auto simp: tagsOf_def PlainTag)
  with markTag_marks [of "unat tag" m r acc] show ?thesis
    by (intro exI [of _ "markTag sett m r (unat tag) acc"]) (simp add: PlainTag)
next
  case (TagRange start len)
  let ?offs = "cfg (TagRange start len)" and ?g = "\<lambda>off. unat start + unat off"
  have r: "\<forall>off \<in> set ?offs. off < len" "\<forall>off \<in> set ?offs. unat (start + off) = ?g off"
    using assms by (auto simp: inRange_def TagRange unat_word_ariths list_all_iff)
  have "tagsOf cfg msg = (\<lambda>off. start + off) ` set ?offs" by (simp add: tagsOf_def TagRange)
  then have "of_nat ` {n \<in> set (map ?g ?offs). n mod unat m = unat r} =
      {t \<in> tagsOf cfg msg. unat t mod unat m = unat r}"
    using ours_image [OF r(2)] by simp
  with fold_markTag_marks [of "map ?g ?offs" m r acc] markOffsets_fold [OF r(1), of m r start acc]
  show ?thesis
    by (intro exI [of _ "fold (markTag sett m r) (map ?g ?offs) acc"]) (simp add: TagRange)
next
  case JustBytes
  let ?tags = "cfg JustBytes"
  have "of_nat ` {n \<in> unat ` set ?tags. n mod unat m = unat r} =
      {t \<in> (\<lambda>t. t) ` set ?tags. unat t mod unat m = unat r}" by (rule ours_image) simp
  then have "of_nat ` {n \<in> set (map unat ?tags). n mod unat m = unat r} =
      {t \<in> tagsOf cfg msg. unat t mod unat m = unat r}" by (simp add: tagsOf_def JustBytes)
  with fold_markTag_marks [of "map unat ?tags" m r acc]
  show ?thesis
    by (intro exI [of _ "fold (markTag sett m r) (map unat ?tags) acc"]) (simp add: JustBytes fold_map comp_def)
qed

lemma subscribe_marks:
  "\<forall>msg \<in> set ms. inRange cfg msg \<Longrightarrow> \<exists>acc'. subscribeFor sett cfg m r ms acc = (None, acc') \<and>
     marks {t \<in> \<Union> (tagsOf cfg ` set ms). unat t mod unat m = unat r} acc acc'"
proof (induction ms arbitrary: acc)
  case Nil
  then show ?case by (simp add: marks_empty)
next
  case (Cons msg ms)
  obtain b where b: "subscribeFor sett cfg m r (msg # ms) acc = subscribeFor sett cfg m r ms b"
      "marks {t \<in> tagsOf cfg msg. unat t mod unat m = unat r} acc b"
    using subscribe_one [of cfg msg m r ms acc] Cons.prems by auto
  obtain c where c: "subscribeFor sett cfg m r ms b = (None, c)"
      "marks {t \<in> \<Union> (tagsOf cfg ` set ms). unat t mod unat m = unat r} b c"
    using Cons.IH [of b] Cons.prems by auto
  have "{t \<in> \<Union> (tagsOf cfg ` set (msg # ms)). unat t mod unat m = unat r} =
      {t \<in> tagsOf cfg msg. unat t mod unat m = unat r} \<union>
      {t \<in> \<Union> (tagsOf cfg ` set ms). unat t mod unat m = unat r}" by auto
  then show ?case using marks_trans [OF b(2) c(2)] b(1) c(1) by simp
qed

end

section \<open>The laws, for both classes\<close>

lemma map_of_st_update: "map_of (AList.update k v xs) = (map_of xs)(k \<mapsto> v)"
  by (simp add: update_conv')

interpretation tags: tag_set tagSet "\<lambda>t tag. subCounts t tag \<noteq> 0"
  by unfold_locales (auto simp: tagSet_def fun_eq_iff)

interpretation tagsST: tag_set stSet "\<lambda>t tag. stCheck t tag \<noteq> 0"
  by unfold_locales (auto simp: stSet_def stCheck_def map_of_st_update fun_eq_iff)

section \<open>Exporting\<close>

lemma exported_tags:
  "distinct (map fst (exportTags t))" "fst ` set (exportTags t) = {tag. tagCheck t tag \<noteq> 0}"
proof -
  have inj: "inj_on (of_nat :: nat \<Rightarrow> u16) {0..<2 ^ 16}"
  proof (rule inj_onI)
    have u: "unat (of_nat x :: u16) = x" if "x \<in> {0..<2 ^ 16}" for x
      using that by (simp add: unsigned_of_nat take_bit_nat_eq_self)
    fix x y :: nat assume xy: "x \<in> {0..<2 ^ 16}" "y \<in> {0..<2 ^ 16}" "(of_nat x :: u16) = of_nat y"
    have "x = unat (of_nat x :: u16)" using u [OF xy(1)] by (rule sym)
    also have "\<dots> = unat (of_nat y :: u16)" by (simp only: xy(3))
    also have "\<dots> = y" by (rule u [OF xy(2)])
    finally show "x = y" .
  qed
  have e: "exportTags t = map (\<lambda>i. (of_nat i, tagCheck t (of_nat i)))
      (filter (\<lambda>i. tagCheck t (of_nat i) \<noteq> 0) [0..<2 ^ 16])"
    by (simp add: exportTags_def filter_map comp_def case_prod_beta)
  have "inj_on (of_nat :: nat \<Rightarrow> u16) (set (filter (\<lambda>i. tagCheck t (of_nat i) \<noteq> 0) [0..<2 ^ 16]))"
    by (rule inj_on_subset [OF inj]) auto
  then show "distinct (map fst (exportTags t))"
    by (simp only: e map_map comp_def fst_conv distinct_map) simp
  show "fst ` set (exportTags t) = {tag. tagCheck t tag \<noteq> 0}"
  proof
    show "fst ` set (exportTags t) \<subseteq> {tag. tagCheck t tag \<noteq> 0}" by (auto simp: e)
    show "{tag. tagCheck t tag \<noteq> 0} \<subseteq> fst ` set (exportTags t)"
    proof
      fix tag assume "tag \<in> {tag. tagCheck t tag \<noteq> 0}"
      moreover have "of_nat (unat tag) = tag" by simp
      ultimately have "(tag, tagCheck t tag) \<in> set (exportTags t)"
        using unat_u16_lt [of tag] unfolding e by (auto simp: image_iff intro!: bexI [of _ "unat tag"])
      then show "tag \<in> fst ` set (exportTags t)" by force
    qed
  qed
qed

section \<open>Properties\<close>

text \<open>A transport marks exactly the tags of the message types that fall to it, those whose
  remainder is its own; with the remainders \<open>0 ..< m\<close> every tag goes to exactly one transport.
  The callback learns of each newly marked tag once.\<close>

lemma markSubs_partition:
  assumes "m \<noteq> 0" "\<forall>msg \<in> set ms. inRange cfg msg"
  shows "\<exists>added t'. markSubsFor cfg m r ms t = Ret (None, added, t') \<and>
     (\<forall>tag. (subCounts t' tag \<noteq> 0) = (subCounts t tag \<noteq> 0 \<or>
        tag \<in> \<Union> (tagsOf cfg ` set ms) \<and> unat tag mod unat m = unat r)) \<and>
     distinct added \<and> (\<forall>tag. (tag \<in> set added) = (subCounts t tag = 0 \<and> subCounts t' tag \<noteq> 0))"
proof -
  obtain acc where acc: "subscribeFor tagSet cfg m r ms ([], t) = (None, acc)"
      "tags.marks {x \<in> \<Union> (tagsOf cfg ` set ms). unat x mod unat m = unat r} ([], t) acc"
    using tags.subscribe_marks [OF assms(2)] by blast
  obtain added t' where [simp]: "acc = (added, t')" by force
  show ?thesis
    using acc assms(1) unfolding markSubsFor_def tags.marks_def by auto
qed

lemma markSubs_witness:
  "\<exists>added t'. markSubsFor (\<lambda>_. [1]) 2 1 [PlainTag 1000, TagRange 1010 4] newTypeTagSet = Ret (None, added, t') \<and>
     subCounts t' 1011 \<noteq> 0 \<and> subCounts t' 1000 = 0"
proof -
  have r: "\<forall>msg \<in> set [PlainTag 1000, TagRange 1010 4]. inRange (\<lambda>_. [1]) msg"
    by (simp add: inRange_def)
  obtain added t' where
    "markSubsFor (\<lambda>_. [1]) 2 1 [PlainTag 1000, TagRange 1010 4] newTypeTagSet = Ret (None, added, t')" and
    t': "\<forall>tag. (subCounts t' tag \<noteq> 0) = (subCounts newTypeTagSet tag \<noteq> 0 \<or>
       tag \<in> \<Union> (tagsOf (\<lambda>_. [1]) ` set [PlainTag 1000, TagRange 1010 4]) \<and>
       unat tag mod unat (2 :: u16) = unat (1 :: u16))"
    using markSubs_partition [of 2 "[PlainTag 1000, TagRange 1010 4]" "\<lambda>_. [1]" 1 newTypeTagSet, OF _ r]
    by auto
  moreover have "subCounts t' 1011 \<noteq> 0" "subCounts t' 1000 = 0"
    using spec [OF t', of 1011] spec [OF t', of 1000] by (simp_all add: newTypeTagSet_def tagsOf_def)
  ultimately show ?thesis by blast
qed

text \<open>The number of subscribers a sender sees is the true one modulo 256, so with 256
  subscribers of a tag the sender finds none and drops its messages.\<close>

lemma tag_count_wraps:
  "tagCheck (((\<lambda>t. snd (tagAdd t tag)) ^^ n) newTypeTagSet) tag = of_nat n \<and>
   tagCheck (((\<lambda>t. snd (tagAdd t tag)) ^^ 256) newTypeTagSet) tag = 0 \<and>
   subCounts (((\<lambda>t. snd (tagAdd t tag)) ^^ 256) newTypeTagSet) tag = 256"
proof -
  have c: "subCounts (((\<lambda>t. snd (tagAdd t tag)) ^^ n) newTypeTagSet) tag = of_nat n" for n
    by (induction n) (simp_all add: newTypeTagSet_def tagAdd_def Let_def)
  show ?thesis by (simp add: tagCheck_def c word_unat_eq_iff unsigned_ucast_eq unsigned_of_nat take_bit_nat_def mod_mod_cancel)
qed

end
