(* ===== verification/BackupSendSession.thy ===== *)
theory BackupSendSession
  imports SessionText TypeTagSet
begin

text \<open>
  \<^verbatim>\<open>hmbdc/tips/reliable/BackupSendSessionT.hpp\<close>: the sender's end of the TCP connection beside
  the multicast. It reads text commands (subscriptions, gap reports) and sends the messages of
  reported gaps again from the ring. The sockets are the environment: what \<^verbatim>\<open>recv\<close> and
  \<^verbatim>\<open>sendmsg\<close> return are arguments, the bytes handed to the connection are results.
\<close>

section \<open>Messages on the wire\<close>

text \<open>
  A slot of the ring as it goes out: the packed header (flag, payload length), the message head
  (48 bits of scratchpad, which hold the sequence number, and the tag), the rest of the payload.
  \<open>wInband\<close> is the underlying tag a segment or train head carries in the sender's memory.
\<close>

record WireMessage =
  wFlag :: u8
  wSeq :: u64
  wTag :: u16
  wBody :: bytes
  wInband :: u16

fun leBytes :: "nat \<Rightarrow> nat \<Rightarrow> bytes" where
  "leBytes 0 v = []"
| "leBytes (Suc k) v = of_nat v # leBytes k (v div 256)"

fun leVal :: "bytes \<Rightarrow> nat" where
  "leVal [] = 0"
| "leVal (b # bs) = unat b + 256 * leVal bs"

definition wireHeader :: "WireMessage \<Rightarrow> bytes" where
  "wireHeader m = wFlag m # leBytes 2 (8 + length (wBody m)) @ leBytes 6 (unat (wSeq m)) @ leBytes 2 (unat (wTag m))"

definition wireBytes :: "WireMessage \<Rightarrow> bytes" where
  "wireBytes m = wireHeader m @ wBody m"

text \<open>A segment goes out in two pieces, because its bytes are not in the slot.\<close>

definition wirePieces :: "WireMessage \<Rightarrow> bytes list" where
  "wirePieces m = (if wTag m = 6 then [wireHeader m, wBody m] else [wireBytes m])"

section \<open>The session\<close>

text \<open>
  \<open>readBuf\<close> is \<open>data_[0 ..< filledLen_]\<close>, \<open>relic\<close> the pieces of \<^verbatim>\<open>msghdrRelic_\<close>, \<open>batchMax\<close> the
  capacity of \<^verbatim>\<open>toSend_\<close>, \<open>queueMax\<close> that of \<^verbatim>\<open>toSendQueue_\<close>.
\<close>

record BackupSendSession =
  clientSubscriptions :: TypeTagSet
  readBuf :: string
  ready :: bool
  toSendQueue :: "(u64 \<times> u64) list"
  relic :: "bytes list"
  relicSize :: u64
  bufIt :: u64
  bufItNext :: u64
  sendBackupMessageCount :: u64
  flushBytes :: bytes
  batchMax :: nat
  queueMax :: nat

definition newBackupSendSession :: "u64 \<Rightarrow> u64 \<Rightarrow> nat \<Rightarrow> u8 \<Rightarrow> BackupSendSession" where
  "newBackupSendSession it maxSendBatchHint ringCapacity junk =
     \<lparr>clientSubscriptions = newTypeTagSet, readBuf = [], ready = False, toSendQueue = [], relic = [],
      relicSize = 0, bufIt = it, bufItNext = it, sendBackupMessageCount = 0, flushBytes = [junk, 0, 0],
      batchMax = unat (min (maxSendBatchHint * 2) 1024), queueMax = ringCapacity\<rparr>"

text \<open>\<^verbatim>\<open>push_back\<close> of a full circular buffer drops its oldest element.\<close>

definition pushCircular :: "nat \<Rightarrow> 'a list \<Rightarrow> 'a \<Rightarrow> 'a list" where
  "pushCircular cap q x = (if cap = 0 then q else if length q < cap then q @ [x] else tl q @ [x])"

definition TAB :: char where "TAB = CHR 0x09"
definition NUL :: char where "NUL = CHR 0x00"

section \<open>Reading commands\<close>

text \<open>
  One command, the bytes before the tab, which is overwritten with a null byte; \<open>rest\<close> is what
  follows it in the buffer. A lone tab makes the string start in \<open>rest\<close>. The flag is the
  \<^verbatim>\<open>return false\<close> for bad data.
\<close>

definition handleCommand ::
    "string \<Rightarrow> string \<Rightarrow> BackupSendSession \<Rightarrow> TypeTagSet \<Rightarrow> (bool \<times> BackupSendSession \<times> TypeTagSet) outcome" where
  "handleCommand line rest s out =
     (case line of
        [] \<Rightarrow> (case rest of [] \<Rightarrow> Undefined | c # _ \<Rightarrow> Ret (True, if c = NUL then s\<lparr>ready := True\<rparr> else s, out))
      | c # cs \<Rightarrow>
          (let t = takeWhile (\<lambda>x. x \<noteq> NUL) cs
           in if t = [] then Ret (True, s\<lparr>ready := True\<rparr>, out)
              else if c = CHR ''+''
              then obind (stoi t) (\<lambda>v. let tag = word_of_int v in
                     case tagSet (clientSubscriptions s) tag of (new, subs) \<Rightarrow>
                       Ret (True, s\<lparr>clientSubscriptions := subs\<rparr>, if new then snd (tagAdd out tag) else out))
              else if c = CHR ''-''
              then obind (stoi t) (\<lambda>v. let tag = word_of_int v in
                     case tagUnset (clientSubscriptions s) tag of (old, subs) \<Rightarrow>
                       Ret (True, s\<lparr>clientSubscriptions := subs\<rparr>, if old then snd (tagSub out tag) else out))
              else if c = CHR ''=''
              then (case scanPair t of
                      Some p \<Rightarrow> Ret (True, s\<lparr>toSendQueue := pushCircular (queueMax s) (toSendQueue s) p\<rparr>, out)
                    | None \<Rightarrow> Ret (False, s, out))
              else Ret (True, s, out)))"

text \<open>What follows a tab is shorter.\<close>

lemma rest_shorter:
  assumes "TAB \<in> set buf"
  shows "length (tl (dropWhile (\<lambda>c. c \<noteq> TAB) buf)) < length buf"
proof -
  have "dropWhile (\<lambda>c. c \<noteq> TAB) buf \<noteq> []" using assms by (simp add: dropWhile_eq_Nil_conv)
  moreover have "length (dropWhile (\<lambda>c. c \<noteq> TAB) buf) \<le> length buf" by (rule length_dropWhile_le)
  ultimately show ?thesis by (cases "dropWhile (\<lambda>c. c \<noteq> TAB) buf") auto
qed

text \<open>The loop over the complete commands in the buffer.\<close>

function readCommands ::
    "string \<Rightarrow> BackupSendSession \<Rightarrow> TypeTagSet \<Rightarrow> (bool \<times> BackupSendSession \<times> TypeTagSet) outcome" where
  "readCommands buf s out =
     (if TAB \<in> set buf
      then let line = takeWhile (\<lambda>c. c \<noteq> TAB) buf; rest = tl (dropWhile (\<lambda>c. c \<noteq> TAB) buf)
           in obind (handleCommand line rest s out) (\<lambda>(ok, s1, out1).
                if ok then readCommands rest s1 out1 else Ret (False, s1\<lparr>readBuf := buf\<rparr>, out1))
      else Ret (True, s\<lparr>readBuf := buf\<rparr>, out))"
  by auto
termination
proof (relation "measure (\<lambda>(buf, s, out). length buf)")
  fix buf rest :: string and s s1 :: BackupSendSession and out out1 :: TypeTagSet
  assume "TAB \<in> set buf" "rest = tl (dropWhile (\<lambda>c. c \<noteq> TAB) buf)"
  then show "((rest, s1, out1), buf, s, out) \<in> measure (\<lambda>(buf, s, out). length buf)"
    using rest_shorter by simp
qed simp

declare readCommands.simps [simp del]

text \<open>What the socket says when it is ready for reading; \<open>NotReady\<close> when it is not.\<close>

datatype 'a RecvResult = NotReady | WouldBlock | RecvError | PeerDropped | Received 'a

definition sendSessionDoRead ::
    "string RecvResult \<Rightarrow> BackupSendSession \<Rightarrow> TypeTagSet \<Rightarrow> (bool \<times> BackupSendSession \<times> TypeTagSet) outcome" where
  "sendSessionDoRead r s out =
     (case r of
        RecvError \<Rightarrow> Ret (False, s, out)
      | PeerDropped \<Rightarrow> Ret (False, s, out)
      | Received chunk \<Rightarrow> readCommands (readBuf s @ chunk) s out
      | _ \<Rightarrow> readCommands (readBuf s) s out)"

section \<open>Sending gaps again\<close>

definition ifResend :: "TypeTagSet \<Rightarrow> WireMessage \<Rightarrow> bool" where
  "ifResend subs m \<longleftrightarrow> tagCheck subs (wTag m) \<noteq> 0 \<and>
     (wTag m \<noteq> 6 \<or> tagCheck subs (wInband m) \<noteq> 0) \<and> (wTag m \<noteq> 5 \<or> tagCheck subs (wInband m) \<noteq> 0)"

text \<open>The pieces pushed for a message: the message, or a flush when the receiver would drop it.\<close>

definition resendPieces :: "BackupSendSession \<Rightarrow> WireMessage \<Rightarrow> bytes list" where
  "resendPieces s m = (if ifResend (clientSubscriptions s) m then wirePieces m else [flushBytes s])"

text \<open>\<^verbatim>\<open>for (; len && toSend_.size() < toSend_.capacity() - 1; len--)\<close>\<close>

fun fillToSend ::
    "(u64 \<Rightarrow> WireMessage) \<Rightarrow> BackupSendSession \<Rightarrow> u64 \<Rightarrow> nat \<Rightarrow> bytes list \<Rightarrow> bytes list \<times> u64 \<times> nat" where
  "fillToSend ring s sq 0 acc = (acc, sq, 0)"
| "fillToSend ring s sq (Suc len) acc =
     (if batchMax s = 0 \<or> length acc < batchMax s - 1
      then fillToSend ring s (sq + 1) len (acc @ resendPieces s (ring sq))
      else (acc, sq, Suc len))"

text \<open>
  What the connection can do for a \<^verbatim>\<open>sendmsg\<close>: take so many bytes (all, when there are fewer),
  nothing at the moment, or fail.
\<close>

datatype SendResult = Room nat | TryAgain | SendError

text \<open>
  The loop over the queue. \<open>rs\<close> are the results of the coming \<^verbatim>\<open>sendmsg\<close> calls (\<open>TryAgain\<close> after
  the last), \<open>cap\<close> and \<open>readSeq0\<close> the ring's capacity and the position of the multicast sender.
  The bytes taken by the connection are returned. The rater is only told, never asked.
\<close>

function sendQueue ::
    "(u64 \<Rightarrow> WireMessage) \<Rightarrow> u64 \<Rightarrow> u64 \<Rightarrow> SendResult list \<Rightarrow> BackupSendSession \<Rightarrow> (bool \<times> bytes \<times> BackupSendSession) outcome" where
  "sendQueue ring cap readSeq0 rs s =
     (if relicSize s \<noteq> 0 \<or> toSendQueue s = [] then Ret (True, [], s)
      else (case hd (toSendQueue s) of (sq, len) \<Rightarrow>
        if sq < bufItNext s \<or> cap < len \<or> readSeq0 < sq + len then Ret (False, [], s)
        else if len = 0
        then sendQueue ring cap readSeq0 rs (s\<lparr>bufItNext := sq, toSendQueue := tl (toSendQueue s)\<rparr>)
        else (case fillToSend ring s sq (unat len) [] of (pieces, sq', left) \<Rightarrow>
          let bytesToSend = length (concat pieces);
              s1 = s\<lparr>bufIt := sq', sendBackupMessageCount := sendBackupMessageCount s + of_nat (length pieces)\<rparr>
          in (case rs of
                [] \<Rightarrow> Ret (True, [], s1)
              | TryAgain # _ \<Rightarrow> Ret (True, [], s1)
              | SendError # _ \<Rightarrow> Ret (False, [], s1)
              | Room room # rs' \<Rightarrow>
                  (let l = min room bytesToSend;
                       s2 = s1\<lparr>relicSize := of_nat bytesToSend - of_nat l,
                               toSendQueue := (if left = 0 then tl (toSendQueue s)
                                               else (sq + (len - of_nat left), of_nat left) # tl (toSendQueue s))\<rparr>
                   in if relicSize s2 \<noteq> 0
                      then obind (extractRelicTo pieces l) (\<lambda>r. Ret (True, take l (concat pieces), s2\<lparr>relic := r\<rparr>))
                      else obind (sendQueue ring cap readSeq0 rs' (s2\<lparr>bufItNext := bufIt s2\<rparr>))
                             (\<lambda>(ok, bs, s3). Ret (ok, take l (concat pieces) @ bs, s3)))))))"
  by auto
termination
  by (relation "measure (\<lambda>(ring, cap, rd, rs, s). length rs + length (toSendQueue s))")
    (auto simp: neq_Nil_conv split: if_splits)

declare sendQueue.simps [simp del]

definition sendRelic ::
    "SendResult list \<Rightarrow> BackupSendSession \<Rightarrow> (bool \<times> bytes \<times> SendResult list \<times> BackupSendSession \<times> bool) outcome" where
  "sendRelic rs s = (case rs of
     [] \<Rightarrow> Ret (True, [], [], s, False)
   | TryAgain # rs' \<Rightarrow> Ret (True, [], rs', s, False)
   | SendError # rs' \<Rightarrow> Ret (False, [], rs', s, False)
   | Room room # rs' \<Rightarrow>
       (let l = min room (length (concat (relic s)));
            s1 = s\<lparr>relicSize := relicSize s - of_nat l\<rparr>
        in if relicSize s1 \<noteq> 0
           then obind (extractRelicTo (relic s) l)
                  (\<lambda>r. Ret (True, take l (concat (relic s)), rs', s1\<lparr>relic := r\<rparr>, False))
           else Ret (True, take l (concat (relic s)), rs', s1\<lparr>bufItNext := bufIt s1, relic := []\<rparr>, True)))"

text \<open>
  \<^verbatim>\<open>runOnce\<close>: the outer flag of \<open>sendRelic\<close> says whether the queue is looked at. A relic that went
  out in full stays in the code's array and is never read again; here it becomes empty.
\<close>

definition sendSessionRunOnce ::
    "(u64 \<Rightarrow> WireMessage) \<Rightarrow> u64 \<Rightarrow> u64 \<Rightarrow> string RecvResult \<Rightarrow> bool \<Rightarrow> SendResult list \<Rightarrow> BackupSendSession \<Rightarrow> TypeTagSet
       \<Rightarrow> (bool \<times> bytes \<times> BackupSendSession \<times> TypeTagSet) outcome" where
  "sendSessionRunOnce ring cap readSeq0 r writable rs s out =
     obind (sendSessionDoRead r s out) (\<lambda>(ok, s1, out1).
       if \<not> ok then Ret (False, [], s1, out1)
       else if writable \<and> relicSize s1 \<noteq> 0
       then obind (sendRelic rs s1) (\<lambda>(ok, bs, rs', s2, more).
              if \<not> ok \<or> \<not> more then Ret (ok, bs, s2, out1)
              else obind (sendQueue ring cap readSeq0 rs' s2) (\<lambda>(ok, bs', s3). Ret (ok, bs @ bs', s3, out1)))
       else obind (sendQueue ring cap readSeq0 rs s1) (\<lambda>(ok, bs, s2). Ret (ok, bs, s2, out1)))"

text \<open>The destructor gives the session's subscriptions back.\<close>

definition retireSession :: "BackupSendSession \<Rightarrow> TypeTagSet \<Rightarrow> TypeTagSet" where
  "retireSession s out =
     fold (\<lambda>(tag, c) o'. snd (tagSub o' tag)) (exportTags (clientSubscriptions s)) out"

end
