(* ===== verification/BackupRecvSession.thy ===== *)
theory BackupRecvSession
  imports BackupSendSession SeqArb
begin

text \<open>
  \<^verbatim>\<open>hmbdc/tips/reliable/BackupRecvSessionT.hpp\<close>: the receiver's end. Messages come over
  multicast (\<^verbatim>\<open>accept\<close>) and, when a gap was reported, again over TCP (\<^verbatim>\<open>doRead\<close>); an
  arbitrator keeps the sequence. The socket is the environment: \<open>ok\<close> says whether \<^verbatim>\<open>send\<close> takes
  a command in full, what \<^verbatim>\<open>recv\<close> returns is an argument.
\<close>

section \<open>State\<close>

text \<open>\<open>outPut\<close> and \<open>sentText\<close> are what went to the output buffer and onto the connection.\<close>

record BackupRecvSession =
  minSeq :: u64
  recvSubs :: TypeTagSet
  filled :: bytes
  seqArb :: SeqArb
  initialized :: bool
  stopped :: bool
  recvBackupMessageCount :: u64
  gapPending :: bool
  gapPendingSeq :: u64
  outPut :: "WireMessage list"
  sentText :: string

definition newBackupRecvSession :: "TypeTagSet \<Rightarrow> BackupRecvSession" where
  "newBackupRecvSession subs =
     \<lparr>minSeq = noSeq, recvSubs = subs, filled = [], seqArb = newSeqArb 2 noSeq, initialized = False,
      stopped = False, recvBackupMessageCount = 0, gapPending = False, gapPendingSeq = 0, outPut = [],
      sentText = []\<rparr>"

definition expectingSeq :: "BackupRecvSession \<Rightarrow> u64" where
  "expectingSeq s = arbSeq (seqArb s)"

text \<open>The 48 bits in the message head, all ones for "no sequence number".\<close>

definition getSeq48 :: "WireMessage \<Rightarrow> u64" where
  "getSeq48 m = (if wSeq m = 0xffffffffffff then noSeq else wSeq m)"

definition SeqAlertTag :: u16 where "SeqAlertTag = 456"

text \<open>The payload of a \<^verbatim>\<open>SeqAlert\<close>, eight bytes.\<close>

definition expectSeq :: "WireMessage \<Rightarrow> u64" where
  "expectSeq m = of_nat (leVal (take 8 (wBody m)))"

section \<open>Commands to the sender\<close>

definition sendText :: "bool \<Rightarrow> string \<Rightarrow> BackupRecvSession \<Rightarrow> BackupRecvSession" where
  "sendText ok t s = (if ok then s\<lparr>sentText := sentText s @ t\<rparr> else s\<lparr>stopped := True\<rparr>)"

definition subscriptionsText :: "TypeTagSet \<Rightarrow> string" where
  "subscriptionsText t =
     concat (map (\<lambda>(tag, c). CHR ''+'' # showNat (unat tag) @ [TAB]) (exportTags t)) @ [CHR ''+'', TAB]"

definition sendSubscriptions :: "bool \<Rightarrow> BackupRecvSession \<Rightarrow> BackupRecvSession" where
  "sendSubscriptions ok s = sendText ok (subscriptionsText (recvSubs s)) s"

text \<open>\<^verbatim>\<open>sprintf\<close> returns the length with the tab; one less is sent.\<close>

definition unsubscribeText :: "u16 \<Rightarrow> string" where
  "unsubscribeText tag = butlast (CHR ''-'' # showNat (unat tag) @ [TAB])"

definition sendUnsubscribe :: "bool \<Rightarrow> u16 \<Rightarrow> BackupRecvSession \<Rightarrow> BackupRecvSession" where
  "sendUnsubscribe ok tag s = sendText ok (unsubscribeText tag) s"

definition gapText :: "u64 \<Rightarrow> u64 \<Rightarrow> string" where
  "gapText missSeq len = CHR ''='' # showNat (unat missSeq) @ CHR '','' # showNat (unat len) @ [TAB]"

definition sendGapReport :: "bool \<Rightarrow> u64 \<Rightarrow> u64 \<Rightarrow> BackupRecvSession \<Rightarrow> BackupRecvSession" where
  "sendGapReport ok missSeq len s =
     (if \<not> gapPending s \<and> missSeq \<noteq> noSeq
      then let s1 = sendText ok (gapText missSeq len) s
           in if len \<noteq> 0 then s1\<lparr>gapPendingSeq := missSeq + len - 1, gapPending := True\<rparr> else s1
      else s)"

text \<open>The timer's callback.\<close>

definition recvTimer :: "bool \<Rightarrow> BackupRecvSession \<Rightarrow> BackupRecvSession" where
  "recvTimer ok s = sendGapReport ok (expectingSeq s) 0 s"

definition initializeConn :: "bool \<Rightarrow> BackupRecvSession \<Rightarrow> BackupRecvSession" where
  "initializeConn ok s = (sendSubscriptions ok s)\<lparr>initialized := True\<rparr>"

section \<open>Arbitration\<close>

definition recvArb :: "bool \<Rightarrow> nat \<Rightarrow> u64 \<Rightarrow> WireMessage \<Rightarrow> BackupRecvSession \<Rightarrow> (int \<times> BackupRecvSession) outcome" where
  "recvArb ok part q h s =
     (if gapPending s \<and> part = 0 then Ret (0, s)
      else if q \<noteq> noSeq
      then obind (singleThreadCall (seqArb s) part q) (\<lambda>(res, ev, a).
             let s1 = s\<lparr>seqArb := a\<rparr>
             in if res = 0 then Ret (0, sendGapReport ok (arbSeq a) (q - arbSeq a) s1)
                else if q = gapPendingSeq s1 then Ret (res, s1\<lparr>gapPending := False\<rparr>)
                else Ret (res, s1))
      else if wTag h = SeqAlertTag
      then Ret (- 1, if expectingSeq s < expectSeq h
                     then sendGapReport ok (expectingSeq s) (expectSeq h - expectingSeq s) s else s)
      else Ret (1, s))"

text \<open>A message from the multicast; 0 tells the caller to come back with it.\<close>

definition accept :: "bool \<Rightarrow> WireMessage \<Rightarrow> BackupRecvSession \<Rightarrow> (int \<times> BackupRecvSession) outcome" where
  "accept ok h s =
     obind (recvArb ok 0 (getSeq48 h) h s) (\<lambda>(a, s1).
       let tag = (if wTag h = 5 then wInband h else wTag h)
       in Ret (a, if a = 1 \<and> tagCheck (recvSubs s1) tag \<noteq> 0 then s1\<lparr>outPut := outPut s1 @ [h]\<rparr> else s1))"

section \<open>Reading the TCP stream\<close>

text \<open>The message at the front of the bytes: the length in its header, and its parts.\<close>

definition payloadLen :: "bytes \<Rightarrow> nat" where
  "payloadLen b = leVal (take 2 (drop 1 b))"

definition decodeWire :: "bytes \<Rightarrow> WireMessage" where
  "decodeWire b =
     (let tag = of_nat (leVal (take 2 (drop 9 b))); body = drop 11 (take (3 + payloadLen b) b)
      in \<lparr>wFlag = hd b, wSeq = of_nat (leVal (take 6 (drop 3 b))), wTag = tag, wBody = body,
          wInband = (if tag = 5 then of_nat (leVal (take 2 body)) else 0)\<rparr>)"

text \<open>
  One message of the stream; \<open>None\<close> is a flush, which has no payload and stands for a message the
  receiver does not want. "Just punch the card": the arbitrator is told the number it expects.
\<close>

definition recvStreamMessage :: "bool \<Rightarrow> WireMessage option \<Rightarrow> BackupRecvSession \<Rightarrow> BackupRecvSession outcome" where
  "recvStreamMessage ok h s =
     (let s1 = (case h of
                  Some m \<Rightarrow> if tagCheck (recvSubs s) (wTag m) \<noteq> 0 then s\<lparr>outPut := outPut s @ [m]\<rparr> else s
                | None \<Rightarrow> s);
          m = (case h of Some m \<Rightarrow> m | None \<Rightarrow> decodeWire [])
      in obind (recvArb ok 1 (expectingSeq s1) m s1) (\<lambda>(a, s2).
           Ret (s2\<lparr>recvBackupMessageCount := recvBackupMessageCount s2 + 1\<rparr>)))"

text \<open>The loop over complete messages; a payload shorter than a message head is not defined.\<close>

function streamLoop :: "bool \<Rightarrow> bytes \<Rightarrow> BackupRecvSession \<Rightarrow> BackupRecvSession outcome" where
  "streamLoop ok b s =
     (if minSeq s \<noteq> noSeq \<and> 3 \<le> length b \<and> 3 + payloadLen b \<le> length b
      then (if 0 < payloadLen b \<and> payloadLen b < 8 then Undefined
            else obind (recvStreamMessage ok (if payloadLen b = 0 then None else Some (decodeWire b)) s)
                   (streamLoop ok (drop (3 + payloadLen b) b)))
      else Ret (s\<lparr>filled := b\<rparr>))"
  by auto
termination by (relation "measure (\<lambda>(ok, b, s). length b)") auto

declare streamLoop.simps [simp del]

text \<open>The first eight bytes of the stream are the first sequence number.\<close>

definition readMinSeq :: "BackupRecvSession \<Rightarrow> BackupRecvSession" where
  "readMinSeq s =
     (if expectingSeq s = noSeq \<and> 8 \<le> length (filled s)
      then let q = of_nat (leVal (take 8 (filled s)))
           in s\<lparr>minSeq := q, filled := drop 8 (filled s), seqArb := (seqArb s)\<lparr>arbSeq := q\<rparr>\<rparr>
      else s)"

definition recvSessionDoRead ::
    "bool \<Rightarrow> bytes RecvResult \<Rightarrow> BackupRecvSession \<Rightarrow> (bool \<times> BackupRecvSession) outcome" where
  "recvSessionDoRead ok r s =
     obind (let s1 = readMinSeq s in streamLoop ok (filled s1) s1) (\<lambda>s2.
       case r of
         Received chunk \<Rightarrow> Ret (True, s2\<lparr>filled := filled s2 @ chunk\<rparr>)
       | RecvError \<Rightarrow> Ret (False, s2)
       | PeerDropped \<Rightarrow> Ret (False, s2)
       | _ \<Rightarrow> Ret (True, s2))"

definition recvSessionRunOnce ::
    "bool \<Rightarrow> bool \<Rightarrow> bytes RecvResult \<Rightarrow> BackupRecvSession \<Rightarrow> (bool \<times> BackupRecvSession) outcome" where
  "recvSessionRunOnce ok writable r s =
     (if stopped s then Ret (False, s)
      else recvSessionDoRead ok r (if \<not> initialized s \<and> writable then initializeConn ok s else s))"

end
