(* ===== verification/BackupSendSpec.thy ===== *)
theory BackupSendSpec
  imports BackupSendSession
begin

text \<open>
  What a \<^verbatim>\<open>BackupSendSessionT\<close> puts on its connection: for every queued gap exactly its messages,
  in order, however the connection splits the writes; and that its bookkeeping of subscriptions
  and of the sender's totals stays in step.
\<close>

section \<open>The bytes owed\<close>

definition rangeBytes :: "(u64 \<Rightarrow> WireMessage) \<Rightarrow> BackupSendSession \<Rightarrow> u64 \<Rightarrow> nat \<Rightarrow> bytes" where
  "rangeBytes ring s sq n = concat (map (\<lambda>i. concat (resendPieces s (ring (sq + of_nat i)))) [0..<n])"

definition owed :: "(u64 \<Rightarrow> WireMessage) \<Rightarrow> BackupSendSession \<Rightarrow> bytes" where
  "owed ring s = concat (relic s) @ concat (map (\<lambda>(sq, len). rangeBytes ring s sq (unat len)) (toSendQueue s))"

text \<open>The relic and its size agree, and the flush message is a bare header.\<close>

definition sendInv :: "BackupSendSession \<Rightarrow> bool" where
  "sendInv s \<longleftrightarrow> length (concat (relic s)) < 2 ^ 60 \<and> relicSize s = of_nat (length (concat (relic s))) \<and>
     (relic s = [] \<or> concat (relic s) \<noteq> []) \<and> length (flushBytes s) = 3"

lemma rangeBytes_add:
  "rangeBytes ring s sq (k + n) = rangeBytes ring s sq k @ rangeBytes ring s (sq + of_nat k) n"
proof -
  have "[0..<k + n] = [0..<k] @ [k..<k + n]" by (rule upt_add_eq_append) simp
  moreover have "[k..<k + n] = map (\<lambda>i. i + k) [0..<n]" by (simp add: map_add_upt add.commute)
  ultimately have "[0..<k + n] = [0..<k] @ map (\<lambda>i. i + k) [0..<n]" by simp
  then show ?thesis by (simp add: rangeBytes_def comp_def ac_simps)
qed

lemma rangeBytes_cong:
  "clientSubscriptions s' = clientSubscriptions s \<Longrightarrow> flushBytes s' = flushBytes s \<Longrightarrow>
     rangeBytes ring s' = rangeBytes ring s"
proof -
  assume "clientSubscriptions s' = clientSubscriptions s" "flushBytes s' = flushBytes s"
  then have "resendPieces s' = resendPieces s" by (auto simp: resendPieces_def fun_eq_iff)
  then show ?thesis by (simp add: rangeBytes_def fun_eq_iff)
qed

lemma fillToSend_spec:
  "fillToSend ring s sq n acc = (pieces, sq', left) \<Longrightarrow>
     \<exists>k. k + left = n \<and> sq' = sq + of_nat k \<and> concat pieces = concat acc @ rangeBytes ring s sq k"
proof (induction ring s sq n acc rule: fillToSend.induct)
  case (1 ring s sq acc)
  then show ?case by (simp add: rangeBytes_def)
next
  case (2 ring s sq len acc)
  show ?case
  proof (cases "batchMax s = 0 \<or> length acc < batchMax s - 1")
    case True
    then obtain k where k: "k + left = len" "sq' = sq + 1 + of_nat k"
        "concat pieces = concat (acc @ resendPieces s (ring sq)) @ rangeBytes ring s (sq + 1) k"
      using 2 by auto
    have "rangeBytes ring s sq (1 + k) = concat (resendPieces s (ring sq)) @ rangeBytes ring s (sq + 1) k"
      by (subst rangeBytes_add) (simp add: rangeBytes_def)
    then show ?thesis using k by (intro exI [of _ "Suc k"]) simp
  next
    case False
    then show ?thesis using 2 by (intro exI [of _ 0]) (auto simp: rangeBytes_def)
  qed
qed

text \<open>The size of a batch stays far from the width of \<open>size_t\<close>.\<close>

lemma leBytes_length [simp]: "length (leBytes k v) = k"
  by (induction k arbitrary: v) auto

lemma piece_size:
  assumes "length (wBody m) < 2 ^ 16" "length (flushBytes s) = 3"
  shows "length (concat (resendPieces s m)) < 2 ^ 17"
  using assms by (simp add: resendPieces_def wirePieces_def wireBytes_def wireHeader_def)

lemma rangeBytes_size:
  assumes "\<forall>q. length (wBody (ring q)) < 2 ^ 16" "length (flushBytes s) = 3"
  shows "length (rangeBytes ring s sq n) \<le> n * 2 ^ 17"
proof (induction n)
  case 0
  then show ?case by (simp add: rangeBytes_def)
next
  case (Suc n)
  have "length (rangeBytes ring s sq (Suc n)) =
      length (rangeBytes ring s sq n) + length (concat (resendPieces s (ring (sq + of_nat n))))"
    by (simp add: rangeBytes_def)
  then show ?case using Suc piece_size [OF spec [OF assms(1)] assms(2), of "sq + of_nat n"] by simp
qed

lemma concat_pieces_ne:
  assumes "length (flushBytes s) = 3"
  shows "concat (resendPieces s m) \<noteq> []"
proof -
  have "flushBytes s \<noteq> []" using assms by auto
  then show ?thesis by (simp add: resendPieces_def wirePieces_def wireBytes_def wireHeader_def)
qed

lemma of_nat_diff_0: "a < 2 ^ 60 \<Longrightarrow> l \<le> a \<Longrightarrow> (of_nat a - of_nat l :: u64) = of_nat (a - l) \<and>
   ((of_nat a - of_nat l :: u64) = 0 \<longleftrightarrow> l = a)"
proof -
  assume a: "a < 2 ^ 60" "l \<le> a"
  have "unat (of_nat (a - l) :: u64) = a - l"
    using a by (simp add: unsigned_of_nat take_bit_nat_eq_self del: of_nat_diff)
  then have "(of_nat (a - l) :: u64) = 0 \<longleftrightarrow> a - l = 0" by (metis unat_eq_zero unsigned_0)
  moreover have "(of_nat (a - l) :: u64) = of_nat a - of_nat l" using a(2) by (rule of_nat_diff)
  ultimately show ?thesis using a by auto
qed

text \<open>One write of a range: \<open>l\<close> bytes are gone, the rest is in the relic or still queued.\<close>

lemma sendQueue_step:
  assumes "sendInv s" "relicSize s = 0" "toSendQueue s = (sq, len) # q" "\<not> (sq < bufItNext s \<or> cap < len \<or> readSeq0 < sq + len)"
    "len \<noteq> 0" "fillToSend ring s sq (unat len) [] = (pieces, sq', left)" "rs = Room room # rs'"
    "s2 = s\<lparr>bufIt := sq', sendBackupMessageCount := sendBackupMessageCount s + of_nat (length pieces),
            relicSize := of_nat (length (concat pieces)) - of_nat (min room (length (concat pieces))),
            toSendQueue := (if left = 0 then q else (sq + (len - of_nat left), of_nat left) # q)\<rparr>"
  shows "sendQueue ring cap readSeq0 rs s =
     (if relicSize s2 \<noteq> 0
      then obind (extractRelicTo pieces (min room (length (concat pieces))))
             (\<lambda>r. Ret (True, take (min room (length (concat pieces))) (concat pieces), s2\<lparr>relic := r\<rparr>))
      else obind (sendQueue ring cap readSeq0 rs' (s2\<lparr>bufItNext := bufIt s2\<rparr>))
             (\<lambda>(ok, bs, s3). Ret (ok, take (min room (length (concat pieces))) (concat pieces) @ bs, s3)))"
  using assms(2-7) by (subst sendQueue.simps) (simp add: Let_def assms(8))

lemma sendQueue_conserves:
  assumes capb: "unat cap \<le> 2 ^ 40" and body: "\<forall>q. length (wBody (ring q)) < 2 ^ 16"
  shows "sendInv s \<Longrightarrow> \<exists>ok bs s'. sendQueue ring cap readSeq0 rs s = Ret (ok, bs, s') \<and> sendInv s' \<and>
     bs @ owed ring s' = owed ring s"
proof (induction "length rs + length (toSendQueue s)" arbitrary: rs s rule: less_induct)
  case less
  note inv = less.prems
  show ?case
  proof (cases "relicSize s \<noteq> 0 \<or> toSendQueue s = []")
    case True
    then show ?thesis using inv by (intro exI [of _ True] exI [of _ "[]"] exI [of _ s]) (subst sendQueue.simps, simp)
  next
    case False
    then obtain sq len q where q: "toSendQueue s = (sq, len) # q" and r0: "relicSize s = 0"
      by (cases "toSendQueue s") auto
    have fb: "length (flushBytes s) = 3" using inv by (simp add: sendInv_def)
    have "concat (relic s) = []"
      using inv r0 of_nat_diff_0 [of "length (concat (relic s))" 0] by (simp add: sendInv_def)
    then have re: "relic s = []" using inv by (simp add: sendInv_def)
    have ow: "owed ring s = rangeBytes ring s sq (unat len) @ concat (map (\<lambda>(sq, len). rangeBytes ring s sq (unat len)) q)"
      by (simp add: owed_def re q)
    show ?thesis
    proof (cases "sq < bufItNext s \<or> cap < len \<or> readSeq0 < sq + len")
      case True
      then show ?thesis using inv r0 q
        by (intro exI [of _ False] exI [of _ "[]"] exI [of _ s]) (subst sendQueue.simps, simp)
    next
      case ok: False
      show ?thesis
      proof (cases "len = 0")
        case True
        let ?s = "s\<lparr>bufItNext := sq, toSendQueue := q\<rparr>"
        have "owed ring ?s = owed ring s"
          using rangeBytes_cong [of ?s s ring] by (simp add: owed_def re q True rangeBytes_def)
        moreover have "sendQueue ring cap readSeq0 rs s = sendQueue ring cap readSeq0 rs ?s"
          using r0 q ok True by (subst sendQueue.simps) simp
        moreover have "sendInv ?s" using inv by (simp add: sendInv_def)
        ultimately show ?thesis using less.hyps [of rs ?s] q by simp
      next
        case ln: False
        obtain pieces sq' left where fill: "fillToSend ring s sq (unat len) [] = (pieces, sq', left)"
          by (metis prod_cases3)
        obtain k where k: "k + left = unat len" "sq' = sq + of_nat k" "concat pieces = rangeBytes ring s sq k"
          using fillToSend_spec [OF fill] by auto
        have "unat len \<le> 2 ^ 40" using ok capb by (auto simp: word_le_nat_alt word_less_nat_alt)
        then have "length (concat pieces) \<le> 2 ^ 40 * 2 ^ 17"
          using rangeBytes_size [OF body fb, of sq k] k by (simp add: k(3))
        then have sz: "length (concat pieces) < 2 ^ 60" by simp
        define s1 where "s1 = s\<lparr>bufIt := sq', sendBackupMessageCount := sendBackupMessageCount s + of_nat (length pieces)\<rparr>"
        have o1: "owed ring s1 = owed ring s" "sendInv s1"
          using inv rangeBytes_cong [of s1 s ring] by (simp_all add: owed_def s1_def sendInv_def)
        show ?thesis
        proof (cases rs)
          case Nil
          then have "sendQueue ring cap readSeq0 rs s = Ret (True, [], s1)"
            using r0 q ok ln fill by (subst sendQueue.simps) (simp add: Let_def s1_def)
          then show ?thesis using o1 by auto
        next
          case (Cons r rs')
          show ?thesis
          proof (cases r)
            case TryAgain
            then have "sendQueue ring cap readSeq0 rs s = Ret (True, [], s1)"
              using r0 q ok ln fill Cons by (subst sendQueue.simps) (simp add: Let_def s1_def)
            then show ?thesis using o1 by auto
          next
            case SendError
            then have "sendQueue ring cap readSeq0 rs s = Ret (False, [], s1)"
              using r0 q ok ln fill Cons by (subst sendQueue.simps) (simp add: Let_def s1_def)
            then show ?thesis using o1 by auto
          next
            case (Room room)
            let ?l = "min room (length (concat pieces))"
            define s2 where "s2 = s\<lparr>bufIt := sq', sendBackupMessageCount := sendBackupMessageCount s + of_nat (length pieces),
              relicSize := of_nat (length (concat pieces)) - of_nat ?l,
              toSendQueue := (if left = 0 then q else (sq + (len - of_nat left), of_nat left) # q)\<rparr>"
            note step = sendQueue_step [OF inv r0 q ok ln fill Cons [unfolded Room] s2_def]
            have rel: "relicSize s2 = of_nat (length (concat pieces) - ?l)"
                "relicSize s2 = 0 \<longleftrightarrow> ?l = length (concat pieces)"
              using of_nat_diff_0 [OF sz, of ?l] by (simp_all add: s2_def)
            have lk: "of_nat k = len - of_nat left"
            proof -
              have "of_nat (k + left) = (of_nat (unat len) :: u64)" using k(1) by simp
              then show ?thesis by (simp add: algebra_simps)
            qed
            have kn: "unat (of_nat left :: u64) = left"
              using k(1) unat_u64_lt [of len] by (simp add: unsigned_of_nat take_bit_nat_eq_self)
            have "rangeBytes ring s sq (unat len) = concat pieces @ rangeBytes ring s (sq + of_nat k) left"
              using rangeBytes_add [of ring s sq k left] by (simp add: k)
            then have all: "owed ring s = concat pieces @ concat (map (\<lambda>(sq, len). rangeBytes ring s sq (unat len)) (toSendQueue s2))"
              using kn by (simp add: ow s2_def lk rangeBytes_def)
            have cong: "rangeBytes ring (s2\<lparr>bufItNext := x\<rparr>) = rangeBytes ring s"
              "rangeBytes ring (s2\<lparr>relic := r\<rparr>) = rangeBytes ring s" for r x
              by (rule rangeBytes_cong; simp add: s2_def)+
            show ?thesis
            proof (cases "relicSize s2 = 0")
              case True
              let ?s = "s2\<lparr>bufItNext := bufIt s2\<rparr>"
              have "relic ?s = []" by (simp add: s2_def re)
              then have "sendInv ?s" using True fb by (simp add: sendInv_def s2_def)
              moreover have "length rs' + length (toSendQueue ?s) < length rs + length (toSendQueue s)"
                by (simp add: Cons q s2_def)
              ultimately obtain ok' bs s' where r: "sendQueue ring cap readSeq0 rs' ?s = Ret (ok', bs, s')" "sendInv s'"
                  "bs @ owed ring s' = owed ring ?s"
                using less.hyps by blast
              have "concat pieces @ owed ring ?s = owed ring s"
                using cong(1) [of "bufIt s2"] \<open>relic ?s = []\<close> by (subst all) (simp add: owed_def)
              then show ?thesis using step True rel(2) r by simp
            next
              case False
              then have lt: "?l < length (concat pieces)" using rel(2) by linarith
              obtain r where r: "extractRelicTo pieces ?l = Ret r" "r \<noteq> []" "concat r = drop ?l (concat pieces)"
                using extractRelicTo_spec [OF lt] by blast
              have ne: "concat r \<noteq> []" using r(3) lt by simp
              have "sendInv (s2\<lparr>relic := r\<rparr>)"
                using rel(1) fb sz ne by (simp only: sendInv_def r(3)) (simp add: s2_def r(3))
              moreover have "take ?l (concat pieces) @ owed ring (s2\<lparr>relic := r\<rparr>) = owed ring s"
                using cong(2) [of r] by (subst all) (simp add: owed_def r(3) flip: append.assoc)
              ultimately show ?thesis using step False r(1) by auto
            qed
          qed
        qed
      qed
    qed
  qed
qed

lemma sendRelic_conserves:
  assumes "sendInv s" "relicSize s \<noteq> 0"
  shows "\<exists>ok bs rs' s' more. sendRelic rs s = Ret (ok, bs, rs', s', more) \<and> sendInv s' \<and>
     bs @ owed ring s' = owed ring s"
proof (cases rs)
  case Nil
  then show ?thesis using assms by (simp add: sendRelic_def) blast
next
  case (Cons r rs')
  show ?thesis
  proof (cases r)
    case (Room room)
    let ?n = "length (concat (relic s))" and ?l = "min room (length (concat (relic s)))"
    have n: "?n < 2 ^ 60" "relicSize s = of_nat ?n" "length (flushBytes s) = 3" using assms(1) by (simp_all add: sendInv_def)
    define s1 where "s1 = s\<lparr>relicSize := relicSize s - of_nat ?l\<rparr>"
    have rel: "relicSize s1 = of_nat (?n - ?l)" "relicSize s1 = 0 \<longleftrightarrow> ?l = ?n"
      using of_nat_diff_0 [OF n(1), of ?l] by (simp_all add: s1_def n(2))
    show ?thesis
    proof (cases "relicSize s1 = 0")
      case True
      let ?s = "s1\<lparr>bufItNext := bufIt s1, relic := []\<rparr>"
      have "take ?l (concat (relic s)) = concat (relic s)" using True rel(2) by simp
      moreover have "concat (relic s) @ owed ring ?s = owed ring s"
        using rangeBytes_cong [of ?s s ring] by (simp add: owed_def s1_def)
      moreover have "sendInv ?s" using True n(3) by (simp add: sendInv_def s1_def)
      ultimately show ?thesis using True by (auto simp: sendRelic_def Cons Room Let_def s1_def)
    next
      case False
      then have lt: "?l < ?n" using rel(2) by linarith
      obtain q where q: "extractRelicTo (relic s) ?l = Ret q" "q \<noteq> []" "concat q = drop ?l (concat (relic s))"
        using extractRelicTo_spec [OF lt] by blast
      have ne: "concat q \<noteq> []" using q(3) lt by simp
      have "sendInv (s1\<lparr>relic := q\<rparr>)"
        using rel(1) n ne by (simp only: sendInv_def q(3)) (simp add: s1_def q(3))
      moreover have "take ?l (concat (relic s)) @ owed ring (s1\<lparr>relic := q\<rparr>) = owed ring s"
        using rangeBytes_cong [of "s1\<lparr>relic := q\<rparr>" s ring]
        by (simp add: owed_def s1_def q(3) flip: append.assoc)
      ultimately show ?thesis using False q(1) by (auto simp: sendRelic_def Cons Room Let_def s1_def)
    qed
  qed (use assms in \<open>auto simp: sendRelic_def Cons\<close>)
qed

section \<open>Subscriptions\<close>

text \<open>A session counts a tag at most once.\<close>

definition atMostOnce :: "TypeTagSet \<Rightarrow> bool" where
  "atMostOnce t \<longleftrightarrow> (\<forall>tag. subCounts t tag = 0 \<or> subCounts t tag = 1)"

text \<open>The subscriptions of the other sessions: the total less this session's own.\<close>

definition others :: "BackupSendSession \<Rightarrow> TypeTagSet \<Rightarrow> u16 \<Rightarrow> u16" where
  "others s out tag = subCounts out tag - subCounts (clientSubscriptions s) tag"

lemma others_cong [simp]:
  "others (s\<lparr>ready := b\<rparr>) = others s" "others (s\<lparr>readBuf := buf\<rparr>) = others s"
  "others (s\<lparr>toSendQueue := q\<rparr>) = others s"
  by (simp_all add: others_def fun_eq_iff)

lemma set_balanced:
  assumes "tagSet (clientSubscriptions s) tag = (new, subs)" "atMostOnce (clientSubscriptions s)"
  shows "atMostOnce subs \<and> others (s\<lparr>clientSubscriptions := subs\<rparr>) (if new then snd (tagAdd out tag) else out) = others s out"
  using assms by (auto simp: tagSet_def tagAdd_def atMostOnce_def others_def Let_def split: if_splits)

lemma unset_balanced:
  assumes "tagUnset (clientSubscriptions s) tag = (old, subs)" "atMostOnce (clientSubscriptions s)"
  shows "atMostOnce subs \<and> others (s\<lparr>clientSubscriptions := subs\<rparr>) (if old then snd (tagSub out tag) else out) = others s out"
proof -
  have "subCounts (clientSubscriptions s) tag = 1" if "subCounts (clientSubscriptions s) tag \<noteq> 0"
    using assms(2) that by (auto simp: atMostOnce_def)
  with assms show ?thesis
    by (auto simp: tagUnset_def tagSub_def atMostOnce_def others_def Let_def split: if_splits)
qed

lemma handleCommand_balanced:
  assumes "handleCommand line rest s out = Ret (ok, s1, out1)" "atMostOnce (clientSubscriptions s)"
  shows "atMostOnce (clientSubscriptions s1) \<and> others s1 out1 = others s out"
proof (cases line)
  case Nil
  then show ?thesis using assms by (auto simp: handleCommand_def split: list.splits)
next
  case (Cons c cs)
  let ?t = "takeWhile (\<lambda>x. x \<noteq> NUL) cs"
  consider "?t \<noteq> []" "c = CHR ''+''" | "?t \<noteq> []" "c = CHR ''-''" | "?t = [] \<or> c \<noteq> CHR ''+'' \<and> c \<noteq> CHR ''-''"
    by blast
  then show ?thesis
  proof cases
    case 1
    then obtain v where v: "stoi ?t = Ret v"
      using assms(1) by (auto simp: handleCommand_def Cons obind_Ret_iff)
    obtain new subs where t: "tagSet (clientSubscriptions s) (word_of_int v) = (new, subs)" by force
    show ?thesis using assms(1) 1 v t set_balanced [OF t assms(2), of out]
      by (auto simp: handleCommand_def Cons)
  next
    case 2
    then obtain v where v: "stoi ?t = Ret v"
      using assms(1) by (auto simp: handleCommand_def Cons obind_Ret_iff)
    obtain old subs where t: "tagUnset (clientSubscriptions s) (word_of_int v) = (old, subs)" by force
    show ?thesis using assms(1) 2 v t unset_balanced [OF t assms(2), of out]
      by (auto simp: handleCommand_def Cons)
  next
    case 3
    then show ?thesis
      using assms by (auto simp: handleCommand_def Cons Let_def split: if_splits option.splits)
  qed
qed

lemma readCommands_balanced:
  "readCommands buf s out = Ret (ok, s1, out1) \<Longrightarrow> atMostOnce (clientSubscriptions s) \<Longrightarrow>
     atMostOnce (clientSubscriptions s1) \<and> others s1 out1 = others s out"
proof (induction buf s out rule: readCommands.induct)
  case (1 buf s out)
  show ?case
  proof (cases "TAB \<in> set buf")
    case False
    then show ?thesis using 1(2,3) by (subst (asm) readCommands.simps) auto
  next
    case True
    let ?line = "takeWhile (\<lambda>c. c \<noteq> TAB) buf" and ?rest = "tl (dropWhile (\<lambda>c. c \<noteq> TAB) buf)"
    obtain ok' s' out' where h: "handleCommand ?line ?rest s out = Ret (ok', s', out')"
      using 1(2) True by (subst (asm) readCommands.simps) (auto simp: obind_Ret_iff Let_def)
    note b = handleCommand_balanced [OF h 1(3)]
    show ?thesis
    proof (cases ok')
      case True
      then have "readCommands ?rest s' out' = Ret (ok, s1, out1)"
        using 1(2) h \<open>TAB \<in> set buf\<close> by (subst (asm) readCommands.simps) (simp add: Let_def)
      then show ?thesis using 1(1) [OF \<open>TAB \<in> set buf\<close> refl refl True] b by auto
    next
      case False
      then show ?thesis
        using 1(2) h b \<open>TAB \<in> set buf\<close> by (subst (asm) readCommands.simps) (auto simp: Let_def)
    qed
  qed
qed

lemma fold_sub:
  "distinct (map fst l) \<Longrightarrow> subCounts (fold (\<lambda>(tag, c) o'. snd (tagSub o' tag)) l out) tag =
     subCounts out tag - (if tag \<in> fst ` set l then 1 else 0)"
proof (induction l arbitrary: out)
  case (Cons p l)
  obtain t c where p: "p = (t, c)" by force
  show ?case using Cons by (auto simp: p tagSub_def Let_def)
qed simp

lemma retire_gives_back:
  assumes "atMostOnce (clientSubscriptions s)"
  shows "subCounts (retireSession s out) tag = others s out tag"
proof -
  have "tagCheck (clientSubscriptions s) tag \<noteq> 0 \<longleftrightarrow> subCounts (clientSubscriptions s) tag = 1"
    using assms spec [of _ tag] by (auto simp: atMostOnce_def tagCheck_def) (metis ucast_0 zero_neq_one)
  then show ?thesis
    using fold_sub [OF exported_tags(1), of "clientSubscriptions s" out tag] assms
    by (auto simp: retireSession_def exported_tags(2) others_def atMostOnce_def)
qed

lemma subscriptions_balanced_lemma:
  assumes "sendSessionDoRead r s out = Ret (ok, s1, out1)" "atMostOnce (clientSubscriptions s)"
  shows "atMostOnce (clientSubscriptions s1) \<and> others s1 out1 = others s out"
  using assms readCommands_balanced by (auto simp: sendSessionDoRead_def split: RecvResult.splits)

section \<open>Properties\<close>

text \<open>C33: while a session reads commands, the subscriptions of the other sessions in the sender's
  totals stay as they are, and when it retires they are all that is left: the totals count each
  session once for every tag it subscribes to.\<close>

lemma subscriptions_balanced:
  assumes "sendSessionDoRead r s out = Ret (ok, s1, out1)" "atMostOnce (clientSubscriptions s)"
  shows "atMostOnce (clientSubscriptions s1) \<and> others s1 out1 = others s out \<and>
     subCounts (retireSession s1 out1) tag = others s out tag"
  using subscriptions_balanced_lemma [OF assms] retire_gives_back by simp

lemma balanced_witness:
  "atMostOnce (clientSubscriptions (newBackupSendSession 0 8 16 0)) \<and>
   subCounts (retireSession (newBackupSendSession 0 8 16 0\<lparr>readBuf := []\<rparr>) newTypeTagSet) 7 = 0"
proof -
  let ?s = "newBackupSendSession 0 8 16 0"
  have "sendSessionDoRead NotReady ?s newTypeTagSet = Ret (True, ?s\<lparr>readBuf := []\<rparr>, newTypeTagSet)"
    by (simp add: sendSessionDoRead_def readCommands.simps newBackupSendSession_def)
  moreover have "atMostOnce (clientSubscriptions ?s)"
    by (simp add: newBackupSendSession_def atMostOnce_def newTypeTagSet_def)
  ultimately have "subCounts (retireSession (?s\<lparr>readBuf := []\<rparr>) newTypeTagSet) 7 = others ?s newTypeTagSet 7 \<and>
      atMostOnce (clientSubscriptions ?s)"
    using subscriptions_balanced by blast
  then show ?thesis by (simp add: others_def newBackupSendSession_def newTypeTagSet_def)
qed

text \<open>C16: whatever the connection takes of each write, the bytes a session hands over followed by
  the bytes it still owes are the bytes it owed after reading the commands: every reported gap is
  answered with exactly its messages (or flushes), in order, with nothing lost or repeated.\<close>

lemma resend_conserves:
  assumes "sendInv s1" "unat cap \<le> 2 ^ 40" "\<forall>q. length (wBody (ring q)) < 2 ^ 16"
    "sendSessionDoRead r s out = Ret (True, s1, out1)"
  shows "\<exists>ok bs s'. sendSessionRunOnce ring cap readSeq0 r writable rs s out = Ret (ok, bs, s', out1) \<and>
     sendInv s' \<and> bs @ owed ring s' = owed ring s1"
proof (cases "writable \<and> relicSize s1 \<noteq> 0")
  case True
  obtain ok bs rs' s2 more where r: "sendRelic rs s1 = Ret (ok, bs, rs', s2, more)" "sendInv s2"
      "bs @ owed ring s2 = owed ring s1"
    using sendRelic_conserves [OF assms(1)] True by metis
  obtain ok' bs' s3 where q: "sendQueue ring cap readSeq0 rs' s2 = Ret (ok', bs', s3)" "sendInv s3"
      "bs' @ owed ring s3 = owed ring s2"
    using sendQueue_conserves [OF assms(2,3) r(2)] by blast
  show ?thesis
    using True r q assms(4) by (cases "ok \<and> more") (auto simp: sendSessionRunOnce_def)
next
  case False
  obtain ok bs s2 where "sendQueue ring cap readSeq0 rs s1 = Ret (ok, bs, s2)" "sendInv s2"
      "bs @ owed ring s2 = owed ring s1"
    using sendQueue_conserves [OF assms(2,3,1)] by blast
  then show ?thesis using False assms(4) by (auto simp: sendSessionRunOnce_def)
qed

lemma resend_witness:
  "\<exists>ok bs s'. sendSessionRunOnce (\<lambda>q. \<lparr>wFlag = 0, wSeq = q, wTag = 1001, wBody = [7], wInband = 0\<rparr>) 16 9 NotReady True
       [Room 5, Room 100] (newBackupSendSession 3 8 16 0\<lparr>toSendQueue := [(4, 2)]\<rparr>) newTypeTagSet = Ret (ok, bs, s', newTypeTagSet) \<and>
     bs @ owed (\<lambda>q. \<lparr>wFlag = 0, wSeq = q, wTag = 1001, wBody = [7], wInband = 0\<rparr>) s' = [0, 0, 0, 0, 0, 0]"
proof -
  let ?s = "newBackupSendSession 3 8 16 0\<lparr>toSendQueue := [(4, 2)]\<rparr>"
  let ?ring = "\<lambda>q. \<lparr>wFlag = 0, wSeq = q, wTag = 1001, wBody = [7], wInband = 0\<rparr>"
  have rb: "readBuf ?s = []" "?s\<lparr>readBuf := []\<rparr> = ?s" by (simp_all add: newBackupSendSession_def)
  have "sendSessionDoRead NotReady ?s newTypeTagSet = Ret (True, ?s, newTypeTagSet)"
    using rb by (simp add: sendSessionDoRead_def readCommands.simps)
  moreover have "sendInv ?s" by (simp add: newBackupSendSession_def sendInv_def)
  ultimately obtain ok bs s' where "sendSessionRunOnce ?ring 16 9 NotReady True [Room 5, Room 100] ?s newTypeTagSet
      = Ret (ok, bs, s', newTypeTagSet)" "bs @ owed ?ring s' = owed ?ring ?s"
    using resend_conserves [of ?s 16 ?ring NotReady ?s newTypeTagSet newTypeTagSet 9 True "[Room 5, Room 100]"] by auto
  moreover have "owed ?ring ?s = [0, 0, 0, 0, 0, 0]"
    by (simp add: owed_def rangeBytes_def newBackupSendSession_def resendPieces_def ifResend_def tagCheck_def
        newTypeTagSet_def upt_rec)
  ultimately show ?thesis by auto
qed

end
