(* ===== verification/BackupText.thy ===== *)
theory BackupText
  imports BackupRecvSession BackupSendSpec
begin

text \<open>
  The two ends together: what a \<^verbatim>\<open>BackupSendSessionT\<close> makes of the commands a
  \<^verbatim>\<open>BackupRecvSessionT\<close> sends, and how the bytes of the resent messages are read back.
\<close>

section \<open>Commands\<close>

lemma TAB_NUL [simp]: "TAB \<noteq> NUL" "TAB \<noteq> CHR ''+''" "TAB \<noteq> CHR ''-''" "TAB \<noteq> CHR ''=''" "TAB \<noteq> CHR '',''"
  "NUL \<noteq> CHR '',''" "NUL \<noteq> CHR ''=''"
  by (simp_all add: TAB_def NUL_def)

lemma digits_no_controls: "TAB \<notin> set (showNat n)" "NUL \<notin> set (showNat n)"
  using showNat_digits [of n] by (auto simp: isDigit_def TAB_def NUL_def)

lemma takeWhile_all: "x \<notin> set s \<Longrightarrow> takeWhile (\<lambda>c. c \<noteq> x) s = s"
  by (induction s) auto

lemma first_line:
  assumes "x \<notin> set line"
  shows "takeWhile (\<lambda>c. c \<noteq> x) (line @ x # rest) = line" "dropWhile (\<lambda>c. c \<noteq> x) (line @ x # rest) = x # rest"
  using assms by (induction line) auto

text \<open>A complete command at the front of the buffer is handled, then the rest.\<close>

lemma readCommands_line:
  assumes "TAB \<notin> set cmd"
  shows "readCommands (cmd @ TAB # rest) s out =
     obind (handleCommand cmd rest s out) (\<lambda>(ok, s1, out1).
       if ok then readCommands rest s1 out1 else Ret (False, s1\<lparr>readBuf := cmd @ TAB # rest\<rparr>, out1))"
  by (subst readCommands.simps) (simp add: first_line [OF assms])

lemma readCommands_open: "TAB \<notin> set buf \<Longrightarrow> readCommands buf s out = Ret (True, s\<lparr>readBuf := buf\<rparr>, out)"
  by (subst readCommands.simps) simp

lemma handle_gap:
  "handleCommand (CHR ''='' # showNat (unat a) @ CHR '','' # showNat (unat b)) rest s out =
     Ret (True, s\<lparr>toSendQueue := pushCircular (queueMax s) (toSendQueue s) (a, b)\<rparr>, out)"
proof -
  have "scanPair (showNat (unat a) @ CHR '','' # showNat (unat b)) = Some (a, b)"
    using scanPair_show [OF unat_u64_lt unat_u64_lt, of a b] by simp
  then show ?thesis by (simp add: handleCommand_def takeWhile_all digits_no_controls)
qed

lemma stoi_tag: "stoi (showNat (unat tag)) = Ret (int (unat tag))" for tag :: u16
  using stoi_showNat [of "unat tag" "[]"] unat_u16_lt [of tag] by simp

lemma handle_subscribe:
  "handleCommand (CHR ''+'' # showNat (unat tag)) rest s out =
     Ret (True, s\<lparr>clientSubscriptions := snd (tagSet (clientSubscriptions s) tag)\<rparr>,
       if fst (tagSet (clientSubscriptions s) tag) then snd (tagAdd out tag) else out)"
  by (simp add: handleCommand_def takeWhile_all digits_no_controls stoi_tag Let_def case_prod_beta)

lemma handle_ready: "handleCommand [CHR ''+''] rest s out = Ret (True, s\<lparr>ready := True\<rparr>, out)"
  by (simp add: handleCommand_def)

section \<open>Properties of the commands\<close>

text \<open>A gap report of the receiver, however long the numbers, is read by the sender as exactly
  the gap it reports, behind the gaps reported before.\<close>

lemma gap_report_roundtrip:
  "sendSessionDoRead (Received (gapText a b)) (s\<lparr>readBuf := []\<rparr>) out =
     Ret (True, s\<lparr>readBuf := [], toSendQueue := pushCircular (queueMax s) (toSendQueue s) (a, b)\<rparr>, out)"
proof -
  have "TAB \<notin> set (CHR ''='' # showNat (unat a) @ CHR '','' # showNat (unat b))"
    by (auto simp: digits_no_controls)
  from readCommands_line [OF this, of "[]"] show ?thesis
    by (simp add: sendSessionDoRead_def gapText_def handle_gap readCommands_open)
qed

lemma read_subscriptions:
  "readCommands (concat (map (\<lambda>(tag, c). CHR ''+'' # showNat (unat tag) @ [TAB]) l) @ rest) s out =
     readCommands rest
       (s\<lparr>clientSubscriptions := fold (\<lambda>(tag, c) t. snd (tagSet t tag)) l (clientSubscriptions s)\<rparr>)
       (fst (fold (\<lambda>(tag, c) (o', t). (if fst (tagSet t tag) then snd (tagAdd o' tag) else o', snd (tagSet t tag)))
          l (out, clientSubscriptions s)))"
proof (induction l arbitrary: s out)
  case (Cons p l)
  obtain tag c where p: "p = (tag, c)" by force
  have "TAB \<notin> set (CHR ''+'' # showNat (unat tag))" by (auto simp: digits_no_controls)
  from readCommands_line [OF this] show ?case
    by (simp add: p handle_subscribe Cons.IH)
qed simp

lemma fold_tagSet:
  "subCounts (fold (\<lambda>(tag, c) t. snd (tagSet t tag)) l t) x \<noteq> 0 \<longleftrightarrow> x \<in> fst ` set l \<or> subCounts t x \<noteq> 0"
proof (induction l arbitrary: t)
  case (Cons p l)
  have "subCounts (snd (tagSet t (fst p))) x \<noteq> 0 \<longleftrightarrow> x = fst p \<or> subCounts t x \<noteq> 0"
    using fun_cong [OF tags.set_marks [of t "fst p"], of x] by simp
  then show ?case using Cons.IH by (auto simp: case_prod_beta)
qed simp

text \<open>After the subscription command of a receiver the sender is ready and knows exactly the
  tags the receiver's set exports.\<close>

lemma subscriptions_roundtrip:
  "\<exists>s' out'. sendSessionDoRead (Received (subscriptionsText t)) (newBackupSendSession it n cap junk) out = Ret (True, s', out') \<and>
     ready s' \<and> (\<forall>tag. (subCounts (clientSubscriptions s') tag \<noteq> 0) = (tagCheck t tag \<noteq> 0)) \<and>
     (\<forall>tag. subCounts out' tag = subCounts out tag + subCounts (clientSubscriptions s') tag)"
proof -
  let ?s = "newBackupSendSession it n cap junk"
  let ?subs = "fold (\<lambda>(tag, c) t. snd (tagSet t tag)) (exportTags t) newTypeTagSet"
  have nil: "readBuf ?s = []" "clientSubscriptions ?s = newTypeTagSet" by (simp_all add: newBackupSendSession_def)
  obtain out' where o: "sendSessionDoRead (Received (subscriptionsText t)) ?s out =
      readCommands [CHR ''+'', TAB] (?s\<lparr>clientSubscriptions := ?subs\<rparr>) out'"
    using read_subscriptions [of "exportTags t" "[CHR ''+'', TAB]" ?s out]
    by (simp add: sendSessionDoRead_def subscriptionsText_def nil)
  have "readCommands [CHR ''+'', TAB] (?s\<lparr>clientSubscriptions := ?subs\<rparr>) out' =
      Ret (True, ?s\<lparr>clientSubscriptions := ?subs, ready := True, readBuf := []\<rparr>, out')"
    using readCommands_line [of "[CHR ''+'']" "[]" "?s\<lparr>clientSubscriptions := ?subs\<rparr>" out']
    by (simp add: handle_ready readCommands_open)
  with o have r: "sendSessionDoRead (Received (subscriptionsText t)) ?s out =
      Ret (True, ?s\<lparr>clientSubscriptions := ?subs, ready := True, readBuf := []\<rparr>, out')" by simp
  have one: "atMostOnce (clientSubscriptions ?s)" by (simp add: nil atMostOnce_def newTypeTagSet_def)
  have "others (?s\<lparr>clientSubscriptions := ?subs, ready := True, readBuf := []\<rparr>) out' = others ?s out"
    using subscriptions_balanced_lemma [OF r one] by simp
  then have "subCounts out' tag = subCounts out tag + subCounts ?subs tag" for tag
    by (simp add: others_def fun_eq_iff nil newTypeTagSet_def algebra_simps)
  moreover have "subCounts ?subs tag \<noteq> 0 \<longleftrightarrow> tagCheck t tag \<noteq> 0" for tag
  proof -
    have "subCounts ?subs tag \<noteq> 0 \<longleftrightarrow> tag \<in> fst ` set (exportTags t)"
      using fold_tagSet [of "exportTags t" newTypeTagSet tag] by (simp add: newTypeTagSet_def)
    then show ?thesis by (simp add: exported_tags(2))
  qed
  ultimately show ?thesis using r by auto
qed

lemma unsubscribe_swallows:
  "\<exists>s'. sendSessionDoRead (Received (unsubscribeText tag @ gapText a b)) (newBackupSendSession it n cap junk) out =
     Ret (True, s', out) \<and> toSendQueue s' = [] \<and> readBuf s' = []"
proof -
  let ?s = "newBackupSendSession it n cap junk"
  let ?cmd = "CHR ''-'' # showNat (unat tag) @ CHR ''='' # showNat (unat a) @ CHR '','' # showNat (unat b)"
  let ?arg = "showNat (unat tag) @ CHR ''='' # showNat (unat a) @ CHR '','' # showNat (unat b)"
  have tx: "unsubscribeText tag @ gapText a b = ?cmd @ TAB # []"
    by (simp add: unsubscribeText_def gapText_def butlast_append)
  have nt: "TAB \<notin> set ?cmd" by (auto simp: digits_no_controls)
  have w: "takeWhile (\<lambda>x. x \<noteq> NUL) ?arg = ?arg"
    by (rule takeWhile_all) (auto simp: digits_no_controls)
  have "stoi ?arg = Ret (int (unat tag))"
    using stoi_showNat [of "unat tag" "CHR ''='' # showNat (unat a) @ CHR '','' # showNat (unat b)"] unat_u16_lt [of tag]
    by (simp add: isDigit_def)
  then have h: "handleCommand ?cmd [] ?s out = Ret (True, ?s, out)"
    by (simp add: handleCommand_def w tagUnset_def newBackupSendSession_def newTypeTagSet_def)
  have "readBuf ?s = []" by (simp add: newBackupSendSession_def)
  then have "sendSessionDoRead (Received (unsubscribeText tag @ gapText a b)) ?s out =
      Ret (True, ?s\<lparr>readBuf := []\<rparr>, out)"
    using readCommands_line [OF nt, of "[]" ?s out] by (simp add: sendSessionDoRead_def tx h readCommands_open)
  then show ?thesis by (simp add: newBackupSendSession_def)
qed

text \<open>The command to unsubscribe leaves its end mark out, so the sender takes the gap report
  sent next for a part of it and the report is lost; the receiver, waiting for the answer, takes
  no multicast message any more and its timer sends nothing.\<close>

lemma unsubscribe_swallows_gap:
  assumes "\<not> gapPending s" "a \<noteq> noSeq" "b \<noteq> 0"
    "s1 = sendGapReport True a b (sendUnsubscribe True tag s)"
  shows "sentText s1 = sentText s @ unsubscribeText tag @ gapText a b \<and>
     (\<exists>t. sendSessionDoRead (Received (unsubscribeText tag @ gapText a b)) (newBackupSendSession it n cap junk) out =
        Ret (True, t, out) \<and> toSendQueue t = [] \<and> readBuf t = []) \<and>
     accept ok h s1 = Ret (0, s1) \<and> recvTimer ok s1 = s1"
proof -
  have "gapPending s1" "sentText s1 = sentText s @ unsubscribeText tag @ gapText a b"
    using assms by (simp_all add: sendGapReport_def sendUnsubscribe_def sendText_def Let_def)
  then show ?thesis
    using unsubscribe_swallows by (simp add: accept_def recvArb_def recvTimer_def sendGapReport_def)
qed

lemma unsubscribe_witness:
  "accept True \<lparr>wFlag = 0, wSeq = 3, wTag = 1001, wBody = [], wInband = 0\<rparr>
     (sendGapReport True 5 2 (sendUnsubscribe True 7 (newBackupRecvSession newTypeTagSet))) =
   Ret (0, sendGapReport True 5 2 (sendUnsubscribe True 7 (newBackupRecvSession newTypeTagSet)))"
  using unsubscribe_swallows_gap [of "newBackupRecvSession newTypeTagSet" 5 2 _ 7, OF _ _ _ refl]
  by (simp add: newBackupRecvSession_def noSeq_def)

end
