(* ===== verification/BackupStream.thy ===== *)
theory BackupStream
  imports BackupRecvSession BackupSendSpec
begin

text \<open>
  The bytes a \<^verbatim>\<open>BackupSendSessionT\<close> sends again, read back by a \<^verbatim>\<open>BackupRecvSessionT\<close>: message
  by message, wherever the connection cuts the stream.
\<close>

section \<open>Encoding and decoding\<close>

lemma leVal_leBytes [simp]: "leVal (leBytes k v) = v mod 256 ^ k"
proof (induction k arbitrary: v)
  case (Suc k)
  have "unat (of_nat v :: u8) = v mod 256" by (simp add: unsigned_of_nat take_bit_nat_def)
  then have "leVal (leBytes (Suc k) v) = v mod 256 + 256 * (v div 256 mod 256 ^ k)" by (simp add: Suc)
  also have "\<dots> = v mod 256 ^ Suc k" by (simp add: mod_mult2_eq)
  finally show ?case .
qed simp

lemma take_leBytes: "take k (leBytes k v @ r) = leBytes k v"
  by simp

text \<open>A message fits the wire when its numbers fit their fields.\<close>

definition fitsWire :: "WireMessage \<Rightarrow> bool" where
  "fitsWire m \<longleftrightarrow> unat (wSeq m) < 2 ^ 48 \<and> 8 + length (wBody m) < 2 ^ 16"

text \<open>What arrives: everything but the sender's note of the underlying tag.\<close>

definition received :: "WireMessage \<Rightarrow> WireMessage" where
  "received m = m\<lparr>wInband := if wTag m = 5 then of_nat (leVal (take 2 (wBody m))) else 0\<rparr>"

lemma wireBytes_parts:
  assumes "fitsWire m"
  shows "payloadLen (wireBytes m @ rest) = 8 + length (wBody m)"
    "length (wireBytes m) = 11 + length (wBody m)"
    "decodeWire (wireBytes m @ rest) = received m"
proof -
  have len: "(8 + length (wBody m)) mod 256 ^ 2 = 8 + length (wBody m)"
    using assms by (simp add: fitsWire_def)
  have sq: "unat (wSeq m) mod 256 ^ 6 = unat (wSeq m)"
    using assms by (simp add: fitsWire_def)
  have tg: "unat (wTag m) mod 256 ^ 2 = unat (wTag m)"
    using unat_u16_lt [of "wTag m"] by simp
  have form: "wireBytes m @ rest = [wFlag m] @ leBytes 2 (8 + length (wBody m)) @ leBytes 6 (unat (wSeq m)) @
      leBytes 2 (unat (wTag m)) @ wBody m @ rest"
    by (simp add: wireBytes_def wireHeader_def)
  have d: "drop 1 (wireBytes m @ rest) = leBytes 2 (8 + length (wBody m)) @ leBytes 6 (unat (wSeq m)) @
      leBytes 2 (unat (wTag m)) @ wBody m @ rest"
    "drop 3 (wireBytes m @ rest) = leBytes 6 (unat (wSeq m)) @ leBytes 2 (unat (wTag m)) @ wBody m @ rest"
    "drop 9 (wireBytes m @ rest) = leBytes 2 (unat (wTag m)) @ wBody m @ rest"
    "drop 11 (wireBytes m @ rest) = wBody m @ rest"
    by (simp_all add: form del: leBytes.simps)
  show p: "payloadLen (wireBytes m @ rest) = 8 + length (wBody m)"
    by (simp only: payloadLen_def d take_leBytes leVal_leBytes len)
  show l: "length (wireBytes m) = 11 + length (wBody m)"
    by (simp add: wireBytes_def wireHeader_def del: leBytes.simps)
  have b: "drop 11 (take (3 + payloadLen (wireBytes m @ rest)) (wireBytes m @ rest)) = wBody m"
    by (simp only: p drop_take d(4)) simp
  have h: "hd (wireBytes m @ rest) = wFlag m" by (simp add: form)
  have s: "of_nat (leVal (take 6 (drop 3 (wireBytes m @ rest)))) = wSeq m"
    by (simp only: d take_leBytes leVal_leBytes sq) simp
  have t: "of_nat (leVal (take 2 (drop 9 (wireBytes m @ rest)))) = wTag m"
    by (simp only: d take_leBytes leVal_leBytes tg) simp
  show "decodeWire (wireBytes m @ rest) = received m"
    unfolding decodeWire_def Let_def b h s t received_def by simp
qed

section \<open>The stream of items\<close>

text \<open>An item of the stream: a message, or a flush in the place of an unwanted one.\<close>

definition itemBytes :: "bytes \<Rightarrow> WireMessage option \<Rightarrow> bytes" where
  "itemBytes flush h = (case h of Some m \<Rightarrow> wireBytes m | None \<Rightarrow> flush)"

definition resendItem :: "TypeTagSet \<Rightarrow> WireMessage \<Rightarrow> WireMessage option" where
  "resendItem subs m = (if ifResend subs m then Some m else None)"

lemma resendPieces_item:
  "concat (resendPieces s m) = itemBytes (flushBytes s) (resendItem (clientSubscriptions s) m)"
  by (simp add: resendPieces_def itemBytes_def resendItem_def wirePieces_def wireBytes_def)

fun streamAll :: "bool \<Rightarrow> WireMessage option list \<Rightarrow> BackupRecvSession \<Rightarrow> BackupRecvSession outcome" where
  "streamAll ok [] s = Ret s"
| "streamAll ok (h # hs) s = obind (recvStreamMessage ok h s) (streamAll ok hs)"

lemma payloadLen_flush: "payloadLen ([junk, 0, 0] @ rest) = 0"
  by (simp add: payloadLen_def)

lemma sendGapReport_minSeq [simp]: "minSeq (sendGapReport ok a b s) = minSeq s"
  by (simp add: sendGapReport_def sendText_def Let_def)

lemma recvArb_minSeq: "recvArb ok p q h s = Ret (a, s') \<Longrightarrow> minSeq s' = minSeq s"
  by (auto simp: recvArb_def obind_Ret_iff Let_def split: if_splits)

lemma recvStreamMessage_minSeq: "recvStreamMessage ok h s = Ret s' \<Longrightarrow> minSeq s' = minSeq s"
proof -
  assume "recvStreamMessage ok h s = Ret s'"
  then obtain a s2 m s1 where "recvArb ok 1 (expectingSeq s1) m s1 = Ret (a, s2)" "minSeq s' = minSeq s2"
      "minSeq s1 = minSeq s"
    unfolding recvStreamMessage_def Let_def obind_Ret_iff by (auto split: option.splits if_splits)
  then show ?thesis using recvArb_minSeq by metis
qed

lemma streamLoop_items:
  assumes "\<forall>h \<in> set hs. case h of Some m \<Rightarrow> fitsWire m | None \<Rightarrow> True"
  shows "minSeq s \<noteq> noSeq \<Longrightarrow>
    streamLoop ok (concat (map (itemBytes [junk, 0, 0]) hs) @ rest) s =
    obind (streamAll ok (map (map_option received) hs) s) (streamLoop ok rest)"
  using assms
proof (induction hs arbitrary: s)
  case (Cons h hs)
  let ?b = "concat (map (itemBytes [junk, 0, 0]) hs) @ rest"
  have head: "streamLoop ok (itemBytes [junk, 0, 0] h @ ?b) s =
      obind (recvStreamMessage ok (map_option received h) s) (streamLoop ok ?b)"
  proof (cases h)
    case None
    have d: "drop 3 ([junk, 0, 0] @ ?b) = ?b" by simp
    show ?thesis
      using Cons.prems(1) payloadLen_flush [of junk ?b] d
      by (subst streamLoop.simps) (simp add: None itemBytes_def)
  next
    case (Some m)
    then have m: "fitsWire m" using Cons.prems(2) by simp
    note w = wireBytes_parts(1) [OF m, of ?b] wireBytes_parts(2) [OF m] wireBytes_parts(3) [OF m, of ?b]
    have "drop (3 + payloadLen (wireBytes m @ ?b)) (wireBytes m @ ?b) = ?b"
      using w(1,2) by simp
    then show ?thesis
      using Cons.prems(1) w by (subst streamLoop.simps) (simp add: Some itemBytes_def)
  qed
  show ?case
  proof (cases "recvStreamMessage ok (map_option received h) s")
    case (Ret s')
    then have "minSeq s' \<noteq> noSeq" using Cons.prems(1) recvStreamMessage_minSeq by metis
    then have "streamLoop ok ?b s' = obind (streamAll ok (map (map_option received) hs) s') (streamLoop ok rest)"
      using Cons.IH Cons.prems(2) by simp
    then show ?thesis using head Ret by simp
  qed (use head in simp_all)
qed simp

section \<open>Properties\<close>

text \<open>C25: the receiver reads the bytes the sender owes for a gap as exactly the messages of the gap,
  one after the other, with a flush for each it does not want; a cut of the stream inside a
  message only leaves that part in the buffer.\<close>

lemma stream_roundtrip:
  assumes "minSeq s \<noteq> noSeq" "\<forall>q. fitsWire (ring q)" "flushBytes t = [junk, 0, 0]"
  shows "streamLoop ok (rangeBytes ring t sq n @ rest) s =
     obind (streamAll ok (map (\<lambda>i. map_option received (resendItem (clientSubscriptions t) (ring (sq + of_nat i)))) [0..<n]) s)
       (streamLoop ok rest)"
proof -
  let ?hs = "map (\<lambda>i. resendItem (clientSubscriptions t) (ring (sq + of_nat i))) [0..<n]"
  have "rangeBytes ring t sq n = concat (map (itemBytes [junk, 0, 0]) ?hs)"
    by (simp add: rangeBytes_def resendPieces_item assms(3) comp_def)
  moreover have "\<forall>h \<in> set ?hs. case h of Some m \<Rightarrow> fitsWire m | None \<Rightarrow> True"
    using assms(2) by (auto simp: resendItem_def)
  ultimately show ?thesis using streamLoop_items [of ?hs s ok junk rest] assms(1) by (simp add: comp_def)
qed

lemma stream_witness:
  "streamLoop True (rangeBytes (\<lambda>q. \<lparr>wFlag = 0, wSeq = 4, wTag = 1001, wBody = [7], wInband = 0\<rparr>)
       (newBackupSendSession 3 8 16 0) 4 1 @ []) ((newBackupRecvSession newTypeTagSet)\<lparr>minSeq := 4\<rparr>) =
   obind (streamAll True [None] ((newBackupRecvSession newTypeTagSet)\<lparr>minSeq := 4\<rparr>)) (streamLoop True [])"
proof -
  have "streamLoop True (rangeBytes (\<lambda>q. \<lparr>wFlag = 0, wSeq = 4, wTag = 1001, wBody = [7], wInband = 0\<rparr>)
       (newBackupSendSession 3 8 16 0) 4 1 @ []) ((newBackupRecvSession newTypeTagSet)\<lparr>minSeq := 4\<rparr>) =
     obind (streamAll True (map (\<lambda>i. map_option received (resendItem (clientSubscriptions (newBackupSendSession 3 8 16 0))
         \<lparr>wFlag = 0, wSeq = 4, wTag = 1001, wBody = [7], wInband = 0\<rparr>)) [0..<1])
       ((newBackupRecvSession newTypeTagSet)\<lparr>minSeq := 4\<rparr>)) (streamLoop True [])"
    by (rule stream_roundtrip [where junk = 0]) (simp_all add: noSeq_def fitsWire_def newBackupSendSession_def)
  then show ?thesis
    by (simp add: newBackupSendSession_def newTypeTagSet_def resendItem_def ifResend_def tagCheck_def)
qed

end
