(* ===== verification/BackupProtocol.thy ===== *)
theory BackupProtocol
  imports BackupText BackupStream
begin

text \<open>
  Reliable delivery over an unreliable multicast: one receiver, the sender's ring and the TCP
  connection between them, under any loss, repetition and order of the multicast messages.
\<close>

section \<open>The net\<close>







section \<open>One call of the arbitrator\<close>




section \<open>Gap reports\<close>



section \<open>The invariant\<close>










section \<open>The steps keep the invariant\<close>
















section \<open>Delivery\<close>








end
