(* ===== verification/PoolConsumer.thy ===== *)
theory PoolConsumer
  imports Prelude
begin

text \<open>
  \<^verbatim>\<open>hmbdc/pattern/PoolConsumer.hpp\<close>: a client of a pool. Every thread of the pool reads every
  message; the threads offer the range they have read to each consumer, and the consumer's
  \<^verbatim>\<open>nextSeq_\<close> decides which of them handles it. First the operations as one thread runs them,
  then \<^verbatim>\<open>handleRange\<close> as the atomic steps of several threads.
\<close>

section \<open>State and callbacks\<close>

text \<open>What a virtual function of the user may throw, as the \<^verbatim>\<open>catch\<close> clauses tell it apart.\<close>

datatype Thrown = StdException | IntThrown int | OtherThrown

text \<open>What \<^verbatim>\<open>stoppedCb\<close> is given.\<close>

datatype StopReason = SameException | ExitCode int | UnknownReason

fun stopReason :: "Thrown \<Rightarrow> StopReason" where
  "stopReason StdException = SameException"
| "stopReason (IntThrown c) = ExitCode c"
| "stopReason OtherThrown = UnknownReason"

datatype ConsumerCall =
    StartedCb "u64 option"
  | HandleRangeImpl u64 u64 u16
  | CheckTimers
  | InvokedCb u64
  | StoppedCb StopReason
  | DroppedCb

record PoolConsumer =
  poolThreadAffinity :: u64
  droppedCount :: u16
  nextSeq :: u64
  interestedInMessages :: bool
  dispatchingStarted :: bool
  dispStartCount :: "u64 option"
  hasTimers :: bool
  calls :: "ConsumerCall list"

text \<open>The user's virtual functions; what they do may depend on everything called before.\<close>

record Callbacks =
  cbStarted :: "ConsumerCall list \<Rightarrow> u64 option \<Rightarrow> Thrown option"
  cbHandle :: "ConsumerCall list \<Rightarrow> u64 \<Rightarrow> u64 \<Rightarrow> u16 \<Rightarrow> Thrown + u64"
  cbTimers :: "ConsumerCall list \<Rightarrow> Thrown option"
  cbInvoked :: "ConsumerCall list \<Rightarrow> u64 \<Rightarrow> Thrown option"
  cbDropped :: "ConsumerCall list \<Rightarrow> Thrown + bool"

definition STOP :: u64 where "STOP = noSeq - 1"

definition IGNORE :: u64 where "IGNORE = noSeq - 2"

definition newPoolConsumer :: "bool \<Rightarrow> bool \<Rightarrow> u64 option \<Rightarrow> PoolConsumer" where
  "newPoolConsumer interested timers cnt =
     \<lparr>poolThreadAffinity = - 1, droppedCount = 0, nextSeq = noSeq, interestedInMessages = interested,
      dispatchingStarted = False, dispStartCount = cnt, hasTimers = timers, calls = []\<rparr>"

definition resetPoolConsumer :: "PoolConsumer \<Rightarrow> PoolConsumer" where
  "resetPoolConsumer c = c\<lparr>poolThreadAffinity := - 1, droppedCount := 0, nextSeq := noSeq\<rparr>"

section \<open>Operations of one thread\<close>

definition call :: "ConsumerCall \<Rightarrow> PoolConsumer \<Rightarrow> PoolConsumer" where
  "call x c = c\<lparr>calls := calls c @ [x]\<rparr>"

definition messageDispatchingStarted :: "Callbacks \<Rightarrow> PoolConsumer \<Rightarrow> Thrown option \<times> PoolConsumer" where
  "messageDispatchingStarted env c =
     (if dispatchingStarted c then (None, c)
      else let n = map_option (\<lambda>k. k + 1) (dispStartCount c);
               c1 = call (StartedCb n) (c\<lparr>dispStartCount := n\<rparr>)
           in case cbStarted env (calls c) n of
                None \<Rightarrow> (None, c1\<lparr>dispatchingStarted := True\<rparr>)
              | Some t \<Rightarrow> (Some t, c1))"

definition invoked :: "Callbacks \<Rightarrow> u64 \<Rightarrow> PoolConsumer \<Rightarrow> Thrown option \<times> PoolConsumer" where
  "invoked env n c =
     (let c1 = (if hasTimers c then call CheckTimers c else c)
      in case (if hasTimers c then cbTimers env (calls c) else None) of
           Some t \<Rightarrow> (Some t, c1)
         | None \<Rightarrow> (cbInvoked env (calls c1) n, call (InvokedCb n) c1))"

text \<open>\<^verbatim>\<open>stopped\<close> swallows what the callback throws, \<^verbatim>\<open>dropped\<close> too: then the consumer goes.\<close>

definition stoppedWith :: "Thrown \<Rightarrow> PoolConsumer \<Rightarrow> PoolConsumer" where
  "stoppedWith t c = call (StoppedCb (stopReason t)) c"

definition dropped :: "Callbacks \<Rightarrow> PoolConsumer \<Rightarrow> bool \<times> PoolConsumer" where
  "dropped env c = ((case cbDropped env (calls c) of Inr b \<Rightarrow> b | Inl t \<Rightarrow> True), call DroppedCb c)"

text \<open>The three \<^verbatim>\<open>catch\<close> clauses: false, and the consumer is stopped.\<close>

definition catchStop :: "Thrown option \<times> PoolConsumer \<Rightarrow> bool \<times> PoolConsumer" where
  "catchStop r = (case r of (None, c) \<Rightarrow> (True, c) | (Some t, c) \<Rightarrow> (False, stoppedWith t (c\<lparr>nextSeq := STOP\<rparr>)))"

text \<open>The body of the first \<^verbatim>\<open>try\<close>: the messages from \<open>n\<close> on, then \<^verbatim>\<open>invoked\<close>.\<close>

definition handleFrom :: "Callbacks \<Rightarrow> u64 \<Rightarrow> u64 \<Rightarrow> u16 \<Rightarrow> PoolConsumer \<Rightarrow> Thrown option \<times> PoolConsumer" where
  "handleFrom env n e thread c =
     (if interestedInMessages c
      then let c1 = call (HandleRangeImpl n e thread) c
           in case cbHandle env (calls c) n e thread of
                Inl t \<Rightarrow> (Some t, c1)
              | Inr k \<Rightarrow> invoked env k c1
      else invoked env 0 c)"

definition handleRange :: "Callbacks \<Rightarrow> u64 \<Rightarrow> u64 \<Rightarrow> u16 \<Rightarrow> PoolConsumer \<Rightarrow> bool \<times> PoolConsumer" where
  "handleRange env b e thread c =
     (let (res, c1) = (if nextSeq c = noSeq
                       then catchStop (messageDispatchingStarted env (c\<lparr>nextSeq := b\<rparr>)) else (True, c));
          n = nextSeq c1
      in if n = STOP then (False, c1)
         else if n = IGNORE then (True, c1)
         else if interestedInMessages c1 \<and> n < b then (True, c1)
         else if n < e then
           (let (r, c2) = catchStop (handleFrom env n e thread (c1\<lparr>nextSeq := IGNORE\<rparr>))
            in (res \<and> r, if res \<and> r then c2\<lparr>nextSeq := e\<rparr> else c2))
         else if \<not> interestedInMessages c1 \<or> (e = n \<and> b = n) then
           (let (r, c2) = catchStop (invoked env 0 (c1\<lparr>nextSeq := IGNORE\<rparr>))
            in (res \<and> r, if res \<and> r then c2\<lparr>nextSeq := e\<rparr> else c2))
         else (res, c1))"

section \<open>The steps of several threads\<close>

text \<open>
  Between two of these a thread can be overtaken: each one has a single access to \<^verbatim>\<open>nextSeq_\<close>
  that others can see. \<open>HrRun\<close> and \<open>HrStart\<close> contain the user's callbacks.
\<close>

datatype HrPc =
    HrIdle
  | HrEnter u64 u64
  | HrStart u64 u64
  | HrLoad u64 u64 bool
  | HrClaim u64 u64 u64 bool
  | HrRun u64 u64 u64 bool
  | HrPublish u64
  | HrDone u64 bool

fun hrThread :: "Callbacks \<Rightarrow> u16 \<Rightarrow> HrPc \<times> PoolConsumer \<Rightarrow> HrPc \<times> PoolConsumer" where
  "hrThread env t (HrEnter b e, c) =
     (if nextSeq c = noSeq then (HrStart b e, c\<lparr>nextSeq := b\<rparr>) else (HrLoad b e True, c))"
| "hrThread env t (HrStart b e, c) =
     (let (res, c1) = catchStop (messageDispatchingStarted env c) in (HrLoad b e res, c1))"
| "hrThread env t (HrLoad b e res, c) =
     (let n = nextSeq c
      in if n = STOP then (HrDone e False, c)
         else if n = IGNORE then (HrDone e True, c)
         else if interestedInMessages c \<and> n < b then (HrDone e True, c)
         else if n < e \<or> \<not> interestedInMessages c \<or> (e = n \<and> b = n) then (HrClaim b e n res, c)
         else (HrDone e res, c))"
| "hrThread env t (HrClaim b e n res, c) =
     (if nextSeq c = n then (HrRun b e n res, c\<lparr>nextSeq := IGNORE\<rparr>) else (HrDone e res, c))"
| "hrThread env t (HrRun b e n res, c) =
     (let (r, c1) = catchStop (if n < e then handleFrom env n e t c else invoked env 0 c)
      in if res \<and> r then (HrPublish e, c1) else (HrDone e False, c1))"
| "hrThread env t (HrPublish e, c) = (HrDone e True, c\<lparr>nextSeq := e\<rparr>)"
| "hrThread env t (HrDone e res, c) = (HrDone e res, c)"
| "hrThread env t (HrIdle, c) = (HrIdle, c)"

text \<open>
  \<open>readPos\<close> is where each thread's reader stands: its calls offer contiguous ranges. \<open>owner\<close> notes
  the last thread whose compare-and-swap of \<^verbatim>\<open>nextSeq_\<close> succeeded.
\<close>

record HrState =
  con :: PoolConsumer
  pcs :: "u16 \<Rightarrow> HrPc"
  readPos :: "u16 \<Rightarrow> u64"
  owner :: u16

inductive hr_step :: "Callbacks \<Rightarrow> HrState \<Rightarrow> HrState \<Rightarrow> bool" for env where
  offer: "pcs s t = HrIdle \<Longrightarrow> readPos s t \<le> e \<Longrightarrow> e < IGNORE \<Longrightarrow>
    hr_step env s (s\<lparr>pcs := (pcs s)(t := HrEnter (readPos s t) e)\<rparr>)"
| run: "hrThread env t (pcs s t, con s) = (pc', c') \<Longrightarrow> (\<forall>e r. pcs s t \<noteq> HrDone e r) \<Longrightarrow>
    hr_step env s (s\<lparr>con := c', pcs := (pcs s)(t := pc'),
      owner := (if nextSeq c' \<noteq> nextSeq (con s) \<and> (nextSeq c' = IGNORE \<or> nextSeq (con s) = noSeq)
                then t else owner s)\<rparr>)"
| returned: "pcs s t = HrDone e r \<Longrightarrow>
    hr_step env s (s\<lparr>pcs := (pcs s)(t := HrIdle), readPos := (readPos s)(t := e)\<rparr>)"

inductive hr_reach :: "Callbacks \<Rightarrow> HrState \<Rightarrow> HrState \<Rightarrow> bool" for env s0 where
  start: "hr_reach env s0 s0"
| step: "hr_reach env s0 s \<Longrightarrow> hr_step env s s' \<Longrightarrow> hr_reach env s0 s'"

definition newHrState :: "bool \<Rightarrow> u64 option \<Rightarrow> (u16 \<Rightarrow> u64) \<Rightarrow> HrState" where
  "newHrState timers cnt p =
     \<lparr>con = newPoolConsumer True timers cnt, pcs = (\<lambda>_. HrIdle), readPos = p, owner = 0\<rparr>"

text \<open>The numbers of the messages handled, in the order of the calls.\<close>

fun handledBy :: "ConsumerCall \<Rightarrow> nat list" where
  "handledBy (HandleRangeImpl n e t) = [unat n..<unat e]"
| "handledBy _ = []"

definition handledSeqs :: "PoolConsumer \<Rightarrow> nat list" where
  "handledSeqs c = concat (map handledBy (calls c))"

end
