(* ===== verification/Pool.thy ===== *)
theory Pool
  imports PoolConsumer BitMath
begin

text \<open>
  \<^verbatim>\<open>hmbdc/pattern/PoolMinusImpl.hpp\<close> and \<^verbatim>\<open>hmbdc/pattern/PoolT.ipp\<close>: pools of threads that run
  consumers, without and with messages. A consumer is known by a number; \<open>mem\<close> holds the consumers.
  The queues of consumers are \<^verbatim>\<open>RingBuffer<PoolConsumer*, 0>\<close>, here by the contract that
  \<^verbatim>\<open>MemRingBuffer<0>\<close> is proved to keep: the waiting entries in order, and a capacity.
  Each function is one thread's work; what the threads share while they work is in \<open>PoolConsumer\<close>.
\<close>

type_synonym ConsumerMem = "nat \<Rightarrow> PoolConsumer"

definition queuePut :: "nat \<Rightarrow> nat list \<Rightarrow> nat \<Rightarrow> nat list outcome" where
  "queuePut cap q c = (if length q < cap then Ret (q @ [c]) else Spins)"

text \<open>\<^verbatim>\<open>(1ul << n) - 1u\<close>\<close>

definition threadMask :: "nat \<Rightarrow> u64 outcome" where
  "threadMask n = (if n < 64 then Ret (2 ^ n - 1) else Undefined)"

text \<open>\<^verbatim>\<open>poolThreadAffinity & (1u << n)\<close>: the constant has 32 bits.\<close>

definition affine32 :: "u64 \<Rightarrow> u16 \<Rightarrow> bool outcome" where
  "affine32 a n = (if unat n < 32 then Ret (bit a (unat n)) else Undefined)"

section \<open>PoolMinusImpl\<close>

record PoolMinus =
  minusStopped :: bool
  minusMask :: u64
  minusCount :: u32
  minusQueue :: "nat list"
  minusCap :: nat

definition newPoolMinus :: "u16 \<Rightarrow> u64 \<Rightarrow> PoolMinus" where
  "newPoolMinus maxConsumerSize m0 =
     \<lparr>minusStopped = False, minusMask = m0, minusCount = 0, minusQueue = [],
      minusCap = 2 ^ log2Upper (of_nat (unat maxConsumerSize * 2))\<rparr>"

definition addConsumerMinus :: "nat \<Rightarrow> u64 \<Rightarrow> ConsumerMem \<times> PoolMinus \<Rightarrow> (ConsumerMem \<times> PoolMinus) outcome" where
  "addConsumerMinus c aff s = (case s of (mem, pm) \<Rightarrow>
     let count = minusCount pm + 1
     in if minusCap pm < unat count then Throw RuntimeError
        else obind (queuePut (minusCap pm) (minusQueue pm) c) (\<lambda>q.
          Ret (mem(c := (resetPoolConsumer (mem c))\<lparr>poolThreadAffinity := aff\<rparr>),
               pm\<lparr>minusCount := count, minusQueue := q\<rparr>)))"

text \<open>The threads it starts are named by their serial numbers.\<close>

definition startMinus :: "u16 \<Rightarrow> PoolMinus \<Rightarrow> (nat list \<times> PoolMinus) outcome" where
  "startMinus threadCount pm =
     (if 64 < threadCount then Throw RuntimeError
      else if minusMask pm \<noteq> 0 then Throw RuntimeError
      else obind (threadMask (unat threadCount)) (\<lambda>m. Ret ([0..<unat threadCount], pm\<lparr>minusMask := m\<rparr>)))"

text \<open>
  \<^verbatim>\<open>do invoked(..) while (hoggingCond() && queue empty && !stopped_)\<close>: \<open>hogs\<close> are the answers of
  \<^verbatim>\<open>hoggingCond\<close> as they come, false when they run out.
\<close>

fun invokeLoop :: "Callbacks \<Rightarrow> bool \<Rightarrow> u64 \<Rightarrow> bool list \<Rightarrow> PoolConsumer \<Rightarrow> Thrown option \<times> PoolConsumer" where
  "invokeLoop env alone n hogs c =
     (case invoked env n c of
        (Some t, c1) \<Rightarrow> (Some t, c1)
      | (None, c1) \<Rightarrow> (case hogs of h # hs \<Rightarrow> if h \<and> alone then invokeLoop env alone n hs c1 else (None, c1)
                       | [] \<Rightarrow> (None, c1)))"

text \<open>Only \<^verbatim>\<open>std::exception\<close> is caught; anything else leaves the thread.\<close>

definition runOnceMinus ::
    "Callbacks \<Rightarrow> u16 \<Rightarrow> bool list \<Rightarrow> ConsumerMem \<times> PoolMinus \<Rightarrow> (ConsumerMem \<times> PoolMinus) outcome" where
  "runOnceMinus env t hogs s = (case s of (mem, pm) \<Rightarrow>
     if minusStopped pm then Ret s
     else case minusQueue pm of [] \<Rightarrow> Ret s | c # q \<Rightarrow>
       obind (affine32 (poolThreadAffinity (mem c)) t) (\<lambda>mine.
         if \<not> mine then Ret (mem, pm\<lparr>minusQueue := q @ [c]\<rparr>)
         else
           (case (case messageDispatchingStarted env (mem c) of
                    (None, c1) \<Rightarrow> invokeLoop env (q = []) (ucast t) hogs c1 | r \<Rightarrow> r) of
              (None, c2) \<Rightarrow> Ret (mem(c := c2), pm\<lparr>minusQueue := q @ [c]\<rparr>)
            | (Some StdException, c2) \<Rightarrow>
                let pm1 = pm\<lparr>minusQueue := q, minusCount := minusCount pm - 1\<rparr>;
                    (gone, c3) = dropped env (stoppedWith StdException c2); mem1 = mem(c := c3)
                in if gone then Ret (mem1, pm1)
                   else addConsumerMinus c (poolThreadAffinity c3 AND minusMask pm) (mem1, pm1)
            | (Some x, c2) \<Rightarrow> Throw UnknownException)))"

text \<open>The loop of \<^verbatim>\<open>cleanup\<close>; out of fuel, it spins.\<close>

fun cleanupLoop :: "nat \<Rightarrow> Callbacks \<Rightarrow> u16 \<Rightarrow> ConsumerMem \<times> PoolMinus \<Rightarrow> (ConsumerMem \<times> PoolMinus) outcome" where
  "cleanupLoop 0 env t s = Spins"
| "cleanupLoop (Suc k) env t (mem, pm) =
     (if minusCount pm = 0 then Ret (mem, pm)
      else case minusQueue pm of
        [] \<Rightarrow> cleanupLoop k env t (mem, pm)
      | c # q \<Rightarrow> obind (affine32 (poolThreadAffinity (mem c)) t) (\<lambda>mine.
          if mine
          then cleanupLoop k env t (mem(c := snd (dropped env (mem c))),
                 pm\<lparr>minusQueue := q, minusCount := minusCount pm - 1\<rparr>)
          else cleanupLoop k env t (mem, pm\<lparr>minusQueue := q @ [c]\<rparr>)))"

definition cleanupMinus :: "nat \<Rightarrow> Callbacks \<Rightarrow> u16 \<Rightarrow> ConsumerMem \<times> PoolMinus \<Rightarrow> (ConsumerMem \<times> PoolMinus) outcome" where
  "cleanupMinus fuel env t s = (if minusStopped (snd s) then cleanupLoop fuel env t s else Ret s)"

section \<open>PoolTImpl\<close>

text \<open>What the pool tells the message buffer.\<close>

datatype BufferCall = MarkDead u16 | ResetReader u16

record Pool =
  mem :: ConsumerMem
  consumerQueues :: "nat list list"
  queueCap :: nat
  poolMinus :: PoolMinus
  poolStopped :: bool
  activeMask :: u64
  consumerCount :: u32
  hmbdcNumbers :: "u16 list"
  bufferCalls :: "BufferCall list"

text \<open>The initializer \<^verbatim>\<open>hmbdcNumbers_{0xffff}\<close> sets the first element; the others are 0.\<close>

definition newPool :: "nat \<Rightarrow> u16 \<Rightarrow> ConsumerMem \<Rightarrow> Pool" where
  "newPool maxParallel maxConsumerSize m =
     \<lparr>mem = m, consumerQueues = replicate maxParallel [],
      queueCap = 2 ^ log2Upper (of_nat (unat maxConsumerSize * 2)),
      poolMinus = newPoolMinus maxConsumerSize (- 1), poolStopped = False, activeMask = 0, consumerCount = 0,
      hmbdcNumbers = (replicate maxParallel 0)[0 := 0xffff], bufferCalls = []\<rparr>"

definition consumerSize :: "Pool \<Rightarrow> u32" where
  "consumerSize p = consumerCount p + minusCount (poolMinus p)"

text \<open>Putting the consumer into the queue of each thread it may run on.\<close>

fun putQueues :: "nat \<Rightarrow> u64 \<Rightarrow> nat \<Rightarrow> nat \<Rightarrow> nat list list \<Rightarrow> nat list list outcome" where
  "putQueues cap aff c i [] = Ret []"
| "putQueues cap aff c i (q # qs) =
     obind (if bit aff i then queuePut cap q c else Ret q) (\<lambda>q'.
       obind (putQueues cap aff c (Suc i) qs) (\<lambda>qs'. Ret (q' # qs')))"

definition addConsumer :: "nat \<Rightarrow> u64 \<Rightarrow> Pool \<Rightarrow> Pool outcome" where
  "addConsumer c aff p =
     (if \<not> interestedInMessages (mem p c)
      then obind (addConsumerMinus c aff (mem p, poolMinus p)) (\<lambda>(m, pm). Ret (p\<lparr>mem := m, poolMinus := pm\<rparr>))
      else let count = consumerCount p + 1
        in if queueCap p div 2 < unat count then Throw RuntimeError
           else obind (putQueues (queueCap p) aff c 0 (consumerQueues p)) (\<lambda>qs.
             Ret (p\<lparr>consumerCount := count, consumerQueues := qs,
                 mem := (mem p)(c := (resetPoolConsumer (mem p c))\<lparr>poolThreadAffinity := aff\<rparr>)\<rparr>)))"

definition start :: "u16 \<Rightarrow> bool \<Rightarrow> Pool \<Rightarrow> (nat list \<times> Pool) outcome" where
  "start threadCount thatIsAll p =
     (let n = unat threadCount; maxParallel = length (consumerQueues p)
      in if maxParallel < n then Throw RuntimeError
         else if activeMask p \<noteq> 0 then Throw RuntimeError
         else obind (threadMask n) (\<lambda>m.
           Ret ([0..<n], p\<lparr>activeMask := m, hmbdcNumbers := map of_nat [0..<n] @ drop n (hmbdcNumbers p),
             bufferCalls := bufferCalls p @ (if thatIsAll then map (\<lambda>i. MarkDead (of_nat i)) [n..<maxParallel] else [])\<rparr>)))"

definition startAt :: "u16 \<Rightarrow> u16 list \<Rightarrow> Pool \<Rightarrow> (nat list \<times> Pool) outcome" where
  "startAt threadCount slots p =
     (let n = unat threadCount
      in if activeMask p \<noteq> 0 then Throw RuntimeError
         else if length slots < n then Throw RuntimeError
         else if length (hmbdcNumbers p) < n then Undefined
         else obind (threadMask n) (\<lambda>m.
           Ret ([0..<n], p\<lparr>activeMask := m, hmbdcNumbers := take n slots @ drop n (hmbdcNumbers p),
             bufferCalls := bufferCalls p @ map ResetReader (take n slots)\<rparr>)))"

definition startAll :: "Pool \<Rightarrow> (nat list \<times> Pool) outcome" where
  "startAll p =
     (let n = length (consumerQueues p)
      in if activeMask p \<noteq> 0 then Throw RuntimeError
         else obind (threadMask n) (\<lambda>m. Ret ([0..<n], p\<lparr>activeMask := m, hmbdcNumbers := map of_nat [0..<n]\<rparr>)))"

definition stopPool :: "Pool \<Rightarrow> Pool" where
  "stopPool p = p\<lparr>poolStopped := True, poolMinus := (poolMinus p)\<lparr>minusStopped := True\<rparr>\<rparr>"

text \<open>The threads a consumer may run on, of those that were started.\<close>

definition threadsOf :: "Pool \<Rightarrow> PoolConsumer \<Rightarrow> nat" where
  "threadsOf p c = setBitsCount (poolThreadAffinity c AND activeMask p)"

text \<open>One consumer of the loop in \<^verbatim>\<open>runOnceImpl\<close>, offered the messages from \<open>b\<close> up to \<open>e\<close>.\<close>

definition offerConsumer :: "Callbacks \<Rightarrow> u16 \<Rightarrow> u64 \<Rightarrow> u64 \<Rightarrow> nat \<Rightarrow> Pool \<Rightarrow> Pool outcome" where
  "offerConsumer env t b e c p =
     (let (ok, c1) = handleRange env b e t (mem p c); i = unat t; q = consumerQueues p ! i
      in if ok
         then obind (queuePut (queueCap p) q c) (\<lambda>q'.
           Ret (p\<lparr>mem := (mem p)(c := c1), consumerQueues := (consumerQueues p)[i := q']\<rparr>))
         else
           let c2 = c1\<lparr>droppedCount := droppedCount c1 + 1\<rparr>
           in if unat (droppedCount c2) = threadsOf p c2
              then let (gone, c3) = dropped env c2;
                       p1 = p\<lparr>mem := (mem p)(c := c3), consumerCount := consumerCount p - 1\<rparr>
                   in if gone then Ret p1 else addConsumer c (poolThreadAffinity c3 AND activeMask p) p1
              else Ret (p\<lparr>mem := (mem p)(c := c2)\<rparr>))"

fun offerLoop :: "Callbacks \<Rightarrow> u16 \<Rightarrow> u64 \<Rightarrow> u64 \<Rightarrow> nat list \<Rightarrow> Pool \<Rightarrow> Pool outcome" where
  "offerLoop env t b e [] p = Ret p"
| "offerLoop env t b e (c # cs) p = obind (offerConsumer env t b e c p) (offerLoop env t b e cs)"

text \<open>\<^verbatim>\<open>peekAll\<close>, the loop, and \<^verbatim>\<open>wasteAfterPeek\<close> of what was peeked.\<close>

definition offerAll :: "Callbacks \<Rightarrow> u16 \<Rightarrow> u64 \<Rightarrow> u64 \<Rightarrow> Pool \<Rightarrow> Pool outcome" where
  "offerAll env t b e p =
     (let i = unat t; q = consumerQueues p ! i
      in obind (offerLoop env t b e q p) (\<lambda>p'.
           Ret (p'\<lparr>consumerQueues := (consumerQueues p')[i := drop (length q) (consumerQueues p' ! i)]\<rparr>)))"

text \<open>
  \<^verbatim>\<open>runOnceImpl\<close>; the range is what the message buffer let the thread peek, and the flag of the
  result says whether the thread gives it back as read.
\<close>

definition runOnceImpl :: "Callbacks \<Rightarrow> u16 \<Rightarrow> u64 \<Rightarrow> u64 \<Rightarrow> bool list \<Rightarrow> Pool \<Rightarrow> (bool \<times> Pool) outcome" where
  "runOnceImpl env t b e bufferEmpty p =
     (if poolStopped p then Ret (False, p)
      else obind (offerAll env t b e p) (\<lambda>p1.
        obind (runOnceMinus env t (map (\<lambda>h. h \<and> consumerQueues p1 ! unat t = []) bufferEmpty) (mem p1, poolMinus p1))
          (\<lambda>(m, pm). Ret (True, p1\<lparr>mem := m, poolMinus := pm\<rparr>))))"

text \<open>The end of \<^verbatim>\<open>threadEntry\<close>, once the pool is stopped.\<close>

definition dropAtStop :: "Callbacks \<Rightarrow> nat \<Rightarrow> Pool \<Rightarrow> Pool" where
  "dropAtStop env c p =
     (let c1 = (mem p c)\<lparr>droppedCount := droppedCount (mem p c) + 1\<rparr>
      in if unat (droppedCount c1) = threadsOf p c1
         then p\<lparr>mem := (mem p)(c := snd (dropped env c1)), consumerCount := consumerCount p - 1\<rparr>
         else p\<lparr>mem := (mem p)(c := c1)\<rparr>)"

definition threadExit :: "nat \<Rightarrow> Callbacks \<Rightarrow> u16 \<Rightarrow> Pool \<Rightarrow> Pool outcome" where
  "threadExit fuel env t p =
     (let p1 = fold (dropAtStop env) (consumerQueues p ! unat t) p; n = hmbdcNumbers p ! unat t;
          p2 = p1\<lparr>bufferCalls := bufferCalls p1 @ [MarkDead n]\<rparr>
      in obind (cleanupMinus fuel env n (mem p2, poolMinus p2)) (\<lambda>(m, pm). Ret (p2\<lparr>mem := m, poolMinus := pm\<rparr>)))"

end
