(* ===== verification/PoolConsumerSpec.thy ===== *)
theory PoolConsumerSpec
  imports PoolConsumer
begin

text \<open>
  A consumer of a pool gets every message once and in order, although several threads offer them.
\<close>

section \<open>Callbacks and the fields they leave alone\<close>

lemma call_fields [simp]:
  "nextSeq (call x c) = nextSeq c" "interestedInMessages (call x c) = interestedInMessages c"
  "calls (call x c) = calls c @ [x]"
  by (simp_all add: call_def)

lemma handledSeqs_call [simp]: "handledSeqs (call x c) = handledSeqs c @ handledBy x"
  by (simp add: handledSeqs_def)

lemma handledSeqs_cong: "calls c = calls c' \<Longrightarrow> handledSeqs c = handledSeqs c'"
  by (simp add: handledSeqs_def)

lemma handledSeqs_upd [simp]:
  "handledSeqs (c\<lparr>nextSeq := n\<rparr>) = handledSeqs c"
  "handledSeqs (c\<lparr>dispatchingStarted := b\<rparr>) = handledSeqs c"
  "handledSeqs (c\<lparr>dispStartCount := k\<rparr>) = handledSeqs c"
  by (simp_all add: handledSeqs_def)

lemma started_fields:
  assumes "messageDispatchingStarted env c = (r, c')"
  shows "nextSeq c' = nextSeq c" "interestedInMessages c' = interestedInMessages c" "handledSeqs c' = handledSeqs c"
  using assms by (auto simp: messageDispatchingStarted_def Let_def split: if_splits option.splits)

lemma invoked_fields:
  assumes "invoked env n c = (r, c')"
  shows "nextSeq c' = nextSeq c" "interestedInMessages c' = interestedInMessages c" "handledSeqs c' = handledSeqs c"
  using assms by (auto simp: invoked_def Let_def split: if_splits option.splits)

lemma handleFrom_fields:
  assumes "handleFrom env n e t c = (r, c')"
  shows "nextSeq c' = nextSeq c" "interestedInMessages c' = interestedInMessages c"
    "interestedInMessages c \<Longrightarrow> handledSeqs c' = handledSeqs c @ [unat n..<unat e]"
  using assms invoked_fields
  by (auto simp: handleFrom_def Let_def split: if_splits sum.splits)

text \<open>The start callback does not throw.\<close>

definition startsQuietly :: "Callbacks \<Rightarrow> bool" where
  "startsQuietly env \<longleftrightarrow> (\<forall>h n. cbStarted env h n = None)"

lemma quiet_start:
  assumes "startsQuietly env" "catchStop (messageDispatchingStarted env c) = (r, c')"
  shows "r" "nextSeq c' = nextSeq c" "interestedInMessages c' = interestedInMessages c" "handledSeqs c' = handledSeqs c"
  using assms
  by (auto simp: catchStop_def startsQuietly_def messageDispatchingStarted_def Let_def split: if_splits)

text \<open>What a thread that has claimed the consumer does to it.\<close>

lemma run_fields:
  assumes "catchStop (if n < e then handleFrom env n e t c else invoked env 0 c) = (r, c')"
    "interestedInMessages c" "n \<le> e"
  shows "nextSeq c' = (if r then nextSeq c else STOP)" "interestedInMessages c'"
    "handledSeqs c' = handledSeqs c @ [unat n..<unat e]"
proof -
  obtain x c1 where x: "(if n < e then handleFrom env n e t c else invoked env 0 c) = (x, c1)" by fastforce
  have c1: "nextSeq c1 = nextSeq c" "interestedInMessages c1" "handledSeqs c1 = handledSeqs c @ [unat n..<unat e]"
    using x assms(2,3) handleFrom_fields [of env n e t c x c1] invoked_fields [of env 0 c x c1]
    by (auto split: if_splits)
  show "nextSeq c' = (if r then nextSeq c else STOP)" "interestedInMessages c'"
    "handledSeqs c' = handledSeqs c @ [unat n..<unat e]"
    using assms(1) c1 unfolding x by (auto simp: catchStop_def stoppedWith_def split: option.splits)
qed

section \<open>The invariant\<close>

lemma marks [simp]: "STOP \<noteq> noSeq" "IGNORE \<noteq> noSeq" "STOP \<noteq> IGNORE" "noSeq \<noteq> STOP" "noSeq \<noteq> IGNORE" "IGNORE \<noteq> STOP"
  "\<not> STOP < IGNORE" "\<not> noSeq < IGNORE"
  by (simp_all add: STOP_def IGNORE_def noSeq_def)

lemma below_marks: "n < IGNORE \<Longrightarrow> n \<noteq> STOP \<and> n \<noteq> IGNORE \<and> n \<noteq> noSeq"
  by (auto simp: STOP_def IGNORE_def noSeq_def)

lemma mark_cases: "n < IGNORE \<or> n = IGNORE \<or> n = STOP \<or> n = noSeq" for n :: u64
proof (rule ccontr)
  assume a: "\<not> (n < IGNORE \<or> n = IGNORE \<or> n = STOP \<or> n = noSeq)"
  have u: "unat IGNORE = 2 ^ 64 - 3" "unat STOP = 2 ^ 64 - 2" "unat (noSeq :: u64) = 2 ^ 64 - 1"
    by (simp_all add: IGNORE_def STOP_def noSeq_def unsigned_minus_1_eq_mask mask_eq_exp_minus_1)
  have "unat n < 2 ^ 64" by (rule unat_u64_lt)
  then show False using a u by (auto simp: word_less_nat_alt word_unat_eq_iff)
qed

text \<open>What holds of thread state \<open>pc\<close>: \<open>n\<close> is the shared number, \<open>own\<close> says the thread is the owner.\<close>

fun pcOk :: "u64 \<Rightarrow> bool \<Rightarrow> u64 \<Rightarrow> HrPc \<Rightarrow> bool" where
  "pcOk n own p HrIdle \<longleftrightarrow> True"
| "pcOk n own p (HrEnter b e) \<longleftrightarrow> b = p \<and> p \<le> e \<and> e < IGNORE"
| "pcOk n own p (HrStart b e) \<longleftrightarrow> b = p \<and> p \<le> e \<and> e < IGNORE \<and> n \<noteq> noSeq"
| "pcOk n own p (HrLoad b e r) \<longleftrightarrow> r \<and> b = p \<and> p \<le> e \<and> e < IGNORE \<and> n \<noteq> noSeq"
| "pcOk n own p (HrClaim b e m r) \<longleftrightarrow>
     r \<and> b = p \<and> p \<le> m \<and> m \<le> e \<and> e < IGNORE \<and> n \<noteq> noSeq \<and> (own \<and> n < IGNORE \<longrightarrow> m = n)"
| "pcOk n own p (HrRun b e m r) \<longleftrightarrow> r \<and> b = p \<and> p \<le> m \<and> m \<le> e \<and> e < IGNORE \<and> own \<and> n = IGNORE"
| "pcOk n own p (HrPublish e) \<longleftrightarrow> p \<le> e \<and> e < IGNORE \<and> own \<and> n = IGNORE"
| "pcOk n own p (HrDone e r) \<longleftrightarrow> p \<le> e \<and> e < IGNORE \<and> (own \<and> n < IGNORE \<longrightarrow> e \<le> n) \<and> n \<noteq> noSeq"

fun busy :: "HrPc \<Rightarrow> bool" where
  "busy (HrRun b e m r) = True"
| "busy (HrPublish e) = True"
| "busy _ = False"

text \<open>How far the messages have been handled.\<close>

fun handledTo :: "u64 \<Rightarrow> HrPc \<Rightarrow> u64" where
  "handledTo n (HrRun b e m r) = m"
| "handledTo n (HrPublish e) = e"
| "handledTo n _ = n"

definition hr_inv :: "HrState \<Rightarrow> bool" where
  "hr_inv s \<longleftrightarrow>
     interestedInMessages (con s) \<and>
     (\<forall>t. pcOk (nextSeq (con s)) (t = owner s) (readPos s t) (pcs s t)) \<and>
     (\<forall>t. readPos s t < IGNORE) \<and>
     (nextSeq (con s) = IGNORE \<longrightarrow> busy (pcs s (owner s))) \<and>
     (nextSeq (con s) < IGNORE \<longrightarrow> readPos s (owner s) \<le> nextSeq (con s)) \<and>
     (nextSeq (con s) = noSeq \<longrightarrow> handledSeqs (con s) = []) \<and>
     (\<exists>i j. i \<le> j \<and> handledSeqs (con s) = [i..<j] \<and>
        (nextSeq (con s) < IGNORE \<or> nextSeq (con s) = IGNORE \<longrightarrow>
          j = unat (handledTo (nextSeq (con s)) (pcs s (owner s)))))"

lemma pcOk_frame: "pcOk n own p pc \<Longrightarrow> \<not> busy pc \<Longrightarrow> n' \<noteq> noSeq \<Longrightarrow> pcOk n' False p pc"
  by (cases pc) auto

lemma busy_own: "pcOk n own p pc \<Longrightarrow> busy pc \<Longrightarrow> own \<and> n = IGNORE"
  by (cases pc) auto

lemma handledTo_idle [simp]: "\<not> busy pc \<Longrightarrow> handledTo n pc = n"
  by (cases pc) auto

lemma hr_invD:
  assumes "hr_inv s"
  shows "interestedInMessages (con s)" "pcOk (nextSeq (con s)) (t = owner s) (readPos s t) (pcs s t)"
    "readPos s t < IGNORE" "nextSeq (con s) = IGNORE \<Longrightarrow> busy (pcs s (owner s))"
    "nextSeq (con s) < IGNORE \<Longrightarrow> readPos s (owner s) \<le> nextSeq (con s)"
    "nextSeq (con s) = noSeq \<Longrightarrow> handledSeqs (con s) = []"
  using assms by (simp_all add: hr_inv_def)

lemma hr_invE:
  assumes "hr_inv s"
  obtains i j where "i \<le> j" "handledSeqs (con s) = [i..<j]"
    "nextSeq (con s) < IGNORE \<or> nextSeq (con s) = IGNORE \<Longrightarrow>
      j = unat (handledTo (nextSeq (con s)) (pcs s (owner s)))"
  using assms unfolding hr_inv_def by blast

lemma hr_invI:
  assumes "interestedInMessages (con s)"
    "\<And>t. pcOk (nextSeq (con s)) (t = owner s) (readPos s t) (pcs s t)"
    "\<And>t. readPos s t < IGNORE" "nextSeq (con s) = IGNORE \<Longrightarrow> busy (pcs s (owner s))"
    "nextSeq (con s) < IGNORE \<Longrightarrow> readPos s (owner s) \<le> nextSeq (con s)"
    "nextSeq (con s) = noSeq \<Longrightarrow> handledSeqs (con s) = []"
    "i \<le> j" "handledSeqs (con s) = [i..<j]"
    "nextSeq (con s) < IGNORE \<or> nextSeq (con s) = IGNORE \<Longrightarrow>
      j = unat (handledTo (nextSeq (con s)) (pcs s (owner s)))"
  shows "hr_inv s"
  using assms unfolding hr_inv_def by blast

section \<open>The steps keep the invariant\<close>

text \<open>A step of a thread that leaves the consumer's number alone.\<close>

lemma hr_inv_quiet:
  assumes inv: "hr_inv s" and same: "nextSeq c' = nextSeq (con s)" "handledSeqs c' = handledSeqs (con s)"
    "interestedInMessages c' = interestedInMessages (con s)"
    and pc: "\<not> busy (pcs s t)" "\<not> busy pc'" "pcOk (nextSeq (con s)) (t = owner s) (readPos s t) pc'"
  shows "hr_inv (s\<lparr>con := c', pcs := (pcs s)(t := pc')\<rparr>)"
proof -
  from inv obtain i j where h: "i \<le> j" "handledSeqs (con s) = [i..<j]"
    "nextSeq (con s) < IGNORE \<or> nextSeq (con s) = IGNORE \<Longrightarrow>
      j = unat (handledTo (nextSeq (con s)) (pcs s (owner s)))" by (rule hr_invE) blast
  let ?s = "s\<lparr>con := c', pcs := (pcs s)(t := pc')\<rparr>"
  have "pcOk (nextSeq (con s)) (u = owner s) (readPos s u) (pcs ?s u)" for u
    using pc(3) hr_invD(2) [OF inv, of u] by simp
  moreover have "handledTo (nextSeq (con s)) (pcs ?s (owner s)) = handledTo (nextSeq (con s)) (pcs s (owner s))"
    using pc by simp
  moreover have "nextSeq (con s) = IGNORE \<Longrightarrow> busy (pcs ?s (owner s))"
    using hr_invD(4) [OF inv] pc(1) by auto
  ultimately show ?thesis
    using same h hr_invD(1,3,5,6) [OF inv] by (intro hr_invI [of ?s i j]) simp_all
qed

text \<open>A step of the thread that has, or takes, the consumer.\<close>

lemma hr_inv_own:
  assumes inv: "hr_inv s" and others: "\<And>u. u \<noteq> t \<Longrightarrow> \<not> busy (pcs s u)" and n: "nextSeq c' \<noteq> noSeq"
    and pc: "pcOk (nextSeq c') True (readPos s t) pc'" and c: "interestedInMessages c'"
    and b: "nextSeq c' = IGNORE \<Longrightarrow> busy pc'" and p: "nextSeq c' < IGNORE \<Longrightarrow> readPos s t \<le> nextSeq c'"
    and h: "i \<le> j" "handledSeqs c' = [i..<j]"
      "nextSeq c' < IGNORE \<or> nextSeq c' = IGNORE \<Longrightarrow> j = unat (handledTo (nextSeq c') pc')"
  shows "hr_inv (s\<lparr>con := c', pcs := (pcs s)(t := pc'), owner := t\<rparr>)"
proof -
  let ?s = "s\<lparr>con := c', pcs := (pcs s)(t := pc'), owner := t\<rparr>"
  have "pcOk (nextSeq c') (u = t) (readPos s u) (pcs ?s u)" for u
    using pc pcOk_frame [OF hr_invD(2) [OF inv] others n] by simp
  then show ?thesis
    using n c b p h hr_invD(3) [OF inv] by (intro hr_invI [of ?s i j]) simp_all
qed

lemma not_busy:
  assumes "hr_inv s" "nextSeq (con s) \<noteq> IGNORE \<or> (u \<noteq> owner s)"
  shows "\<not> busy (pcs s u)"
  using busy_own [OF hr_invD(2) [OF assms(1)]] assms(2) by blast

lemma hr_inv_offer:
  assumes inv: "hr_inv s" and "pcs s t = HrIdle" "readPos s t \<le> e" "e < IGNORE"
  shows "hr_inv (s\<lparr>pcs := (pcs s)(t := HrEnter (readPos s t) e)\<rparr>)"
  using hr_inv_quiet [OF inv refl refl refl, of t "HrEnter (readPos s t) e"] assms by simp

lemma hr_inv_return:
  assumes inv: "hr_inv s" and pc: "pcs s t = HrDone e r"
  shows "hr_inv (s\<lparr>pcs := (pcs s)(t := HrIdle), readPos := (readPos s)(t := e)\<rparr>)"
proof -
  have ok: "pcOk (nextSeq (con s)) (t = owner s) (readPos s t) (HrDone e r)"
    using hr_invD(2) [OF inv, of t] pc by simp
  from inv obtain i j where h: "i \<le> j" "handledSeqs (con s) = [i..<j]"
    "nextSeq (con s) < IGNORE \<or> nextSeq (con s) = IGNORE \<Longrightarrow>
      j = unat (handledTo (nextSeq (con s)) (pcs s (owner s)))" by (rule hr_invE) blast
  let ?s = "s\<lparr>pcs := (pcs s)(t := HrIdle), readPos := (readPos s)(t := e)\<rparr>"
  have "pcOk (nextSeq (con s)) (u = owner s) (readPos ?s u) (pcs ?s u)" for u
    using hr_invD(2) [OF inv, of u] by simp
  moreover have "nextSeq (con s) = IGNORE \<Longrightarrow> busy (pcs ?s (owner s))"
    using hr_invD(4) [OF inv] pc by auto
  moreover have "nextSeq (con s) < IGNORE \<Longrightarrow> readPos ?s (owner s) \<le> nextSeq (con s)"
    using hr_invD(5) [OF inv] ok by auto
  moreover have "handledTo (nextSeq (con s)) (pcs ?s (owner s)) = handledTo (nextSeq (con s)) (pcs s (owner s))"
    using pc by simp
  ultimately show ?thesis
    using h ok hr_invD(1,3,6) [OF inv] by (intro hr_invI [of ?s i j]) simp_all
qed

text \<open>The new owner of the rule is as the two lemmas above have it.\<close>

lemma hr_inv_run:
  assumes inv: "hr_inv s" and q: "startsQuietly env" and r: "hrThread env t (pcs s t, con s) = (pc', c')"
    and nd: "\<forall>e r. pcs s t \<noteq> HrDone e r"
  shows "hr_inv (s\<lparr>con := c', pcs := (pcs s)(t := pc'),
      owner := (if nextSeq c' \<noteq> nextSeq (con s) \<and> (nextSeq c' = IGNORE \<or> nextSeq (con s) = noSeq)
                then t else owner s)\<rparr>)"
proof -
  let ?n = "nextSeq (con s)"
  have ok: "pcOk ?n (t = owner s) (readPos s t) (pcs s t)" and int: "interestedInMessages (con s)"
    and pos: "readPos s t < IGNORE" using hr_invD [OF inv] by blast+
  from inv obtain i j where h: "i \<le> j" "handledSeqs (con s) = [i..<j]"
    "?n < IGNORE \<or> ?n = IGNORE \<Longrightarrow> j = unat (handledTo ?n (pcs s (owner s)))" by (rule hr_invE) blast
  have quiet: ?thesis if "nextSeq c' = ?n" "handledSeqs c' = handledSeqs (con s)" "interestedInMessages c'"
    "\<not> busy (pcs s t)" "\<not> busy pc'" "pcOk ?n (t = owner s) (readPos s t) pc'"
    using hr_inv_quiet [OF inv that(1,2) _ that(4,5,6)] that int by simp
  have same: "s\<lparr>con := c', pcs := x, owner := owner s\<rparr> = s\<lparr>con := c', pcs := x\<rparr>" for x by simp
  show ?thesis
  proof (cases "pcs s t")
    case HrIdle
    then show ?thesis using quiet r int by simp
  next
    case (HrEnter b e)
    show ?thesis
    proof (cases "?n = noSeq")
      case True
      have c': "pc' = HrStart b e" "c' = (con s)\<lparr>nextSeq := b\<rparr>" using r HrEnter True by auto
      have b: "b = readPos s t" "b \<le> e" "e < IGNORE" using ok HrEnter by auto
      then have bl: "b < IGNORE" "b \<noteq> noSeq" using below_marks pos by auto
      have "handledSeqs c' = [unat b..<unat b]" using hr_invD(6) [OF inv] True c' by simp
      then have "hr_inv (s\<lparr>con := c', pcs := (pcs s)(t := pc'), owner := t\<rparr>)"
        using not_busy [OF inv, unfolded True] c' b bl int below_marks [OF bl(1)]
        by (intro hr_inv_own [OF inv, of t c' pc' "unat b" "unat b"]) auto
      then show ?thesis using True c' bl by simp
    next
      case False
      then have "c' = con s" "pc' = HrLoad b e True" using r HrEnter by auto
      then show ?thesis using False quiet HrEnter ok int by simp
    qed
  next
    case (HrStart b e)
    obtain res where "catchStop (messageDispatchingStarted env (con s)) = (res, c')" "pc' = HrLoad b e res"
      using r HrStart by (auto split: prod.splits)
    with quiet_start [OF q this(1)] show ?thesis using quiet ok int HrStart by simp
  next
    case (HrLoad b e res)
    have own: "?n < IGNORE \<and> t = owner s \<longrightarrow> b \<le> ?n" using hr_invD(5) [OF inv] ok HrLoad by auto
    have nb: "\<not> (?n = IGNORE \<and> t = owner s)" using hr_invD(4) [OF inv] HrLoad by auto
    have "c' = con s" "\<not> busy pc'" using r HrLoad by (auto simp: Let_def split: if_splits)
    moreover have "pcOk ?n (t = owner s) (readPos s t) pc'"
      using r HrLoad ok own nb int mark_cases [of ?n] by (auto simp: Let_def not_less split: if_splits)
    ultimately show ?thesis using quiet HrLoad int by simp
  next
    case (HrClaim b e m res)
    show ?thesis
    proof (cases "?n = m")
      case True
      have c': "pc' = HrRun b e m res" "c' = (con s)\<lparr>nextSeq := IGNORE\<rparr>" using r HrClaim True by auto
      have m: "m < IGNORE" using ok HrClaim by auto
      then have nb: "\<not> busy (pcs s u)" for u using not_busy [OF inv] True below_marks by blast
      have "hr_inv (s\<lparr>con := c', pcs := (pcs s)(t := pc'), owner := t\<rparr>)"
        using nb c' ok HrClaim True h m int
        by (intro hr_inv_own [OF inv, of t c' pc' i j]) auto
      then show ?thesis using True c' below_marks [OF m] by auto
    next
      case False
      then have "c' = con s" "pc' = HrDone e res" using r HrClaim by auto
      then show ?thesis
        using False quiet HrClaim ok int order_trans [of "readPos s t" m e] by auto
    qed
  next
    case (HrRun b e m res)
    have o: "t = owner s" "?n = IGNORE" "m \<le> e" "res" "e < IGNORE" "readPos s t \<le> m" using ok HrRun by auto
    obtain x where x: "catchStop (if m < e then handleFrom env m e t (con s) else invoked env 0 (con s)) = (x, c')"
      "pc' = (if x then HrPublish e else HrDone e False)"
      using r HrRun o by (auto simp: split_beta prod_eq_iff split: if_splits)
    note f = run_fields [OF x(1) int o(3)]
    have "unat m \<le> unat e" using o by (simp add: word_le_nat_alt)
    moreover have "j = unat m" using h(3) o HrRun by simp
    ultimately have "handledSeqs c' = [i..<unat e]" "i \<le> unat e"
      using f(3) h(1,2) by (auto simp: upt_add_eq_append [symmetric] le_iff_add)
    then have "hr_inv (s\<lparr>con := c', pcs := (pcs s)(t := pc'), owner := t\<rparr>)"
      using not_busy [OF inv] o x f
      by (intro hr_inv_own [OF inv, of t c' pc' i "unat e"]) (auto split: if_splits)
    then show ?thesis using o f by (auto split: if_splits)
  next
    case (HrPublish e)
    have o: "t = owner s" "?n = IGNORE" "e < IGNORE" "readPos s t \<le> e" using ok HrPublish by auto
    have c': "pc' = HrDone e True" "c' = (con s)\<lparr>nextSeq := e\<rparr>" using r HrPublish by auto
    have "hr_inv (s\<lparr>con := c', pcs := (pcs s)(t := pc'), owner := t\<rparr>)"
      using not_busy [OF inv] o c' h HrPublish int below_marks [OF o(3)]
      by (intro hr_inv_own [OF inv, of t c' pc' i j]) auto
    then show ?thesis using o c' below_marks [OF o(3)] by simp
  next
    case (HrDone e r)
    then show ?thesis using nd by simp
  qed
qed

lemma hr_inv_step: "hr_step env s s' \<Longrightarrow> hr_inv s \<Longrightarrow> startsQuietly env \<Longrightarrow> hr_inv s'"
proof (induction rule: hr_step.induct)
  case (offer s t e)
  then show ?case by (blast intro: hr_inv_offer)
next
  case (run t s pc' c')
  then show ?case by (blast intro: hr_inv_run)
next
  case (returned s t e r)
  then show ?case by (blast intro: hr_inv_return)
qed

lemma hr_inv_new: "(\<And>t. p t < IGNORE) \<Longrightarrow> hr_inv (newHrState timers cnt p)"
  by (rule hr_invI [of _ 0 0]) (simp_all add: newHrState_def newPoolConsumer_def handledSeqs_def)

lemma hr_reach_inv:
  "hr_reach env (newHrState timers cnt p) s \<Longrightarrow> startsQuietly env \<Longrightarrow> (\<And>t. p t < IGNORE) \<Longrightarrow> hr_inv s"
  by (induction rule: hr_reach.induct) (auto intro: hr_inv_new hr_inv_step)

section \<open>Schedules\<close>

text \<open>A schedule names who moves; events that cannot happen are skipped.\<close>

datatype HrEvent = Offer u16 u64 | Run u16 | Return u16

definition isDone :: "HrPc \<Rightarrow> bool" where
  "isDone pc = (case pc of HrDone e r \<Rightarrow> True | _ \<Rightarrow> False)"

fun hrEvent :: "Callbacks \<Rightarrow> HrEvent \<Rightarrow> HrState \<Rightarrow> HrState" where
  "hrEvent env (Offer t e) s =
     (if pcs s t = HrIdle \<and> readPos s t \<le> e \<and> e < IGNORE
      then s\<lparr>pcs := (pcs s)(t := HrEnter (readPos s t) e)\<rparr> else s)"
| "hrEvent env (Run t) s =
     (if isDone (pcs s t) then s
      else let (pc', c') = hrThread env t (pcs s t, con s)
           in s\<lparr>con := c', pcs := (pcs s)(t := pc'),
                owner := (if nextSeq c' \<noteq> nextSeq (con s) \<and> (nextSeq c' = IGNORE \<or> nextSeq (con s) = noSeq)
                          then t else owner s)\<rparr>)"
| "hrEvent env (Return t) s =
     (case pcs s t of HrDone e r \<Rightarrow> s\<lparr>pcs := (pcs s)(t := HrIdle), readPos := (readPos s)(t := e)\<rparr> | _ \<Rightarrow> s)"

definition hrSchedule :: "Callbacks \<Rightarrow> HrEvent list \<Rightarrow> HrState \<Rightarrow> HrState" where
  "hrSchedule env es s = fold (hrEvent env) es s"

lemma hrEvent_step: "hrEvent env x s = s \<or> hr_step env s (hrEvent env x s)"
proof (cases x)
  case (Offer t e)
  then show ?thesis using hr_step.offer [of s t e env] by simp
next
  case (Run t)
  obtain pc' c' where r: "hrThread env t (pcs s t, con s) = (pc', c')" by fastforce
  have "\<forall>e r. pcs s t \<noteq> HrDone e r" if "\<not> isDone (pcs s t)" using that by (auto simp: isDone_def)
  then show ?thesis using hr_step.run [OF r] r Run by simp
next
  case (Return t)
  then show ?thesis using hr_step.returned [of s t _ _ env] by (simp split: HrPc.splits)
qed

lemma hrSchedule_reach: "hr_reach env s (hrSchedule env es s)"
proof -
  have "hr_reach env s u \<Longrightarrow> hr_reach env s (fold (hrEvent env) es u)" for u
  proof (induction es arbitrary: u)
    case (Cons x es)
    have "hr_reach env s (hrEvent env x u)"
      using Cons.prems hrEvent_step [of env x u] hr_reach.step by fastforce
    then show ?case using Cons.IH by simp
  qed simp
  then show ?thesis by (simp add: hrSchedule_def hr_reach.start)
qed

section \<open>Properties\<close>

text \<open>C6: however many threads offer their ranges to a consumer and however their steps are
  interleaved, the consumer handles every message from the first one on once, in order and without
  a gap, by one thread at a time; and the next message is never stranded: some thread's reader has
  not passed it yet.\<close>

lemma consumer_exactly_once:
  assumes "hr_reach env (newHrState timers cnt p) s" "startsQuietly env" "\<And>t. p t < IGNORE"
  shows "(\<exists>i j. i \<le> j \<and> handledSeqs (con s) = [i..<j] \<and>
       (nextSeq (con s) < IGNORE \<longrightarrow> j = unat (nextSeq (con s)) \<and> (\<exists>t. readPos s t \<le> nextSeq (con s)))) \<and>
     (\<forall>t u. busy (pcs s t) \<longrightarrow> busy (pcs s u) \<longrightarrow> t = u)"
proof -
  have inv: "hr_inv s" using hr_reach_inv assms .
  from inv obtain i j where h: "i \<le> j" "handledSeqs (con s) = [i..<j]"
    "nextSeq (con s) < IGNORE \<or> nextSeq (con s) = IGNORE \<Longrightarrow>
      j = unat (handledTo (nextSeq (con s)) (pcs s (owner s)))" by (rule hr_invE) blast
  have "nextSeq (con s) < IGNORE \<longrightarrow> j = unat (nextSeq (con s)) \<and> (\<exists>t. readPos s t \<le> nextSeq (con s))"
    using h(3) not_busy [OF inv] below_marks hr_invD(5) [OF inv] by (metis handledTo_idle)
  moreover have "t = u" if "busy (pcs s t)" "busy (pcs s u)" for t u
    using not_busy [OF inv] that by metis
  ultimately show ?thesis using h by blast
qed

definition exCallbacks :: "Thrown option \<Rightarrow> Callbacks" where
  "exCallbacks x =
     \<lparr>cbStarted = (\<lambda>_ _. x), cbHandle = (\<lambda>_ n e _. Inr (e - n)), cbTimers = (\<lambda>_. None),
      cbInvoked = (\<lambda>_ _. None), cbDropped = (\<lambda>_. Inr True)\<rparr>"

text \<open>Thread 1 overtakes thread 0 and comes back with the messages that follow.\<close>

definition exSchedule :: "HrEvent list" where
  "exSchedule = [Offer 0 7, Run 0, Offer 1 8, Run 1, Run 1, Run 1, Run 0, Run 1, Run 1, Run 0, Return 1, Return 0,
     Offer 1 9, Run 1, Run 1, Run 1, Run 1, Run 1]"

lemma once_witness:
  "\<exists>i j. handledSeqs (con (hrSchedule (exCallbacks None) exSchedule (newHrState False None (\<lambda>_. 5)))) = [i..<j]"
proof -
  have "startsQuietly (exCallbacks None)" "(5 :: u64) < IGNORE"
    by (simp_all add: startsQuietly_def exCallbacks_def IGNORE_def noSeq_def)
  from consumer_exactly_once [OF hrSchedule_reach this] show ?thesis by blast
qed

text \<open>A thread that runs alone through the steps of \<^verbatim>\<open>handleRange\<close> does what the sequential
  definition says: same result, same consumer, same callbacks.\<close>

lemma handleRange_steps:
  "(hrThread env t ^^ 6) (HrEnter b e, c) =
     (HrDone e (fst (handleRange env b e t c)), snd (handleRange env b e t c))"
proof -
  obtain res c1 where start: "(if nextSeq c = noSeq
      then catchStop (messageDispatchingStarted env (c\<lparr>nextSeq := b\<rparr>)) else (True, c)) = (res, c1)"
    by fastforce
  let ?H = "hrThread env t"
  have steps: "(?H ^^ 6) x = (?H ^^ 4) (?H (?H x))" "(?H ^^ 6) x = (?H ^^ 5) (?H x)" for x
    by (simp_all add: eval_nat_numeral)
  have "(?H ^^ 6) (HrEnter b e, c) = (?H ^^ 4) (HrLoad b e res, c1) \<or>
      (?H ^^ 6) (HrEnter b e, c) = (?H ^^ 5) (HrLoad b e res, c1)"
  proof (cases "nextSeq c = noSeq")
    case True
    then have "?H (?H (HrEnter b e, c)) = (HrLoad b e res, c1)" using start by simp
    then show ?thesis by (simp only: steps(1) simp_thms)
  next
    case False
    then have "?H (HrEnter b e, c) = (HrLoad b e res, c1)" using start by simp
    then show ?thesis by (simp only: steps(2) simp_thms)
  qed
  moreover have "(hrThread env t ^^ 4) (HrLoad b e res, c1) =
      (HrDone e (fst (handleRange env b e t c)), snd (handleRange env b e t c))"
    by (auto simp: handleRange_def start eval_nat_numeral Let_def funpow_swap1 case_prod_beta)
  moreover have "(hrThread env t ^^ 5) x = hrThread env t ((hrThread env t ^^ 4) x)" for x
    by (simp add: eval_nat_numeral)
  ultimately show ?thesis by auto
qed

text \<open>A start callback that throws does not stop the consumer when another thread has already
  claimed it: the user's \<^verbatim>\<open>stoppedCb\<close> has been called, and messages are handled all the same, in
  this call and the next.\<close>

lemma stopped_consumer_runs:
  "\<exists>s. hr_reach (exCallbacks (Some x)) (newHrState False None (\<lambda>_. 5)) s \<and>
     calls (con s) = [StartedCb None, StoppedCb (stopReason x), HandleRangeImpl 5 8 1, InvokedCb 3,
       HandleRangeImpl 8 9 1, InvokedCb 1]"
proof -
  let ?es = "[Offer 0 7, Run 0, Offer 1 8, Run 1, Run 1, Run 1, Run 0, Run 0, Run 1, Run 1, Return 1,
    Offer 1 9, Run 1, Run 1, Run 1, Run 1, Run 1]"
  have "calls (con (hrSchedule (exCallbacks (Some x)) ?es (newHrState False None (\<lambda>_. 5)))) =
      [StartedCb None, StoppedCb (stopReason x), HandleRangeImpl 5 8 1, InvokedCb 3,
       HandleRangeImpl 8 9 1, InvokedCb 1]"
    by (simp add: hrSchedule_def newHrState_def newPoolConsumer_def exCallbacks_def IGNORE_def STOP_def noSeq_def
      catchStop_def messageDispatchingStarted_def call_def stoppedWith_def handleFrom_def invoked_def isDone_def Let_def)
  then show ?thesis using hrSchedule_reach by metis
qed

end
