(* ===== verification/PoolSpec.thy ===== *)
theory PoolSpec
  imports Pool PoolConsumerSpec
begin

text \<open>
  The books of a pool: which consumer waits in which thread's queue, when it is told that it was
  dropped, and when a thread can leave.
\<close>

section \<open>What a call leaves alone\<close>

text \<open>The fields the pool itself keeps in a consumer.\<close>

definition poolFields :: "PoolConsumer \<Rightarrow> u64 \<times> u16 \<times> bool" where
  "poolFields c = (poolThreadAffinity c, droppedCount c, interestedInMessages c)"

lemma poolFields_upd [simp]:
  "poolFields (call x c) = poolFields c" "poolFields (c\<lparr>nextSeq := n\<rparr>) = poolFields c"
  "poolFields (c\<lparr>dispatchingStarted := b\<rparr>) = poolFields c" "poolFields (c\<lparr>dispStartCount := k\<rparr>) = poolFields c"
  by (simp_all add: poolFields_def call_def)

lemma poolFields_started [simp]: "poolFields (snd (messageDispatchingStarted env c)) = poolFields c"
  by (simp add: messageDispatchingStarted_def Let_def split: option.splits)

lemma poolFields_invoked [simp]: "poolFields (snd (invoked env n c)) = poolFields c"
  by (simp add: invoked_def Let_def split: option.splits)

lemma poolFields_handleFrom [simp]: "poolFields (snd (handleFrom env n e t c)) = poolFields c"
  by (simp add: handleFrom_def Let_def split: sum.splits)

lemma poolFields_catchStop [simp]: "poolFields (snd (catchStop r)) = poolFields (snd r)"
  by (cases r) (simp add: catchStop_def stoppedWith_def split: option.splits)



section \<open>The books\<close>

text \<open>The active threads a consumer may run on.\<close>

definition homes :: "Pool \<Rightarrow> nat \<Rightarrow> nat set" where
  "homes p c = onBits (poolThreadAffinity (mem p c) AND activeMask p)"



lemma homes_finite [simp]: "finite (homes p c)"
  by (simp add: homes_def)







section \<open>A consumer put back, or taken off\<close>





section \<open>A consumer added\<close>




section \<open>The loop over the consumers\<close>






section \<open>Properties\<close>





text \<open>One consumer of the clean-up that may run on the thread.\<close>

lemma cleanupLoop_take:
  assumes "minusQueue pm = c # q" "minusCount pm \<noteq> 0" "affine32 (poolThreadAffinity (m c)) t = Ret True"
  shows "cleanupLoop (Suc k) env t (m, pm) = cleanupLoop k env t (m(c := snd (dropped env (m c))),
     pm\<lparr>minusQueue := q, minusCount := minusCount pm - 1\<rparr>)"
  using assms by simp

lemma cleanupLoop_all:
  "minusQueue pm = q \<Longrightarrow> distinct q \<Longrightarrow> unat (minusCount pm) = length q \<Longrightarrow> length q < fuel \<Longrightarrow>
   \<forall>c \<in> set q. affine32 (poolThreadAffinity (m c)) t = Ret True \<Longrightarrow>
   cleanupLoop fuel env t (m, pm) =
     Ret (\<lambda>c. if c \<in> set q then snd (dropped env (m c)) else m c, pm\<lparr>minusQueue := [], minusCount := 0\<rparr>)"
proof (induction q arbitrary: m pm fuel)
  case Nil
  then obtain k where "fuel = Suc k" by (cases fuel) auto
  moreover have "minusCount pm = 0" using Nil by (simp add: unat_eq_0)
  moreover have "pm\<lparr>minusQueue := [], minusCount := 0\<rparr> = pm" using Nil(1) \<open>minusCount pm = 0\<close> by simp
  ultimately show ?case by simp
next
  case (Cons c q)
  then obtain k where k: "fuel = Suc k" "length q < k" by (cases fuel) auto
  have n0: "minusCount pm \<noteq> 0" using Cons.prems(3) by auto
  then have n: "unat (minusCount pm - 1) = length q" using Cons.prems(3) by (simp add: unat_minus_one)
  let ?m = "m(c := snd (dropped env (m c)))" and ?pm = "pm\<lparr>minusQueue := q, minusCount := minusCount pm - 1\<rparr>"
  have ne: "\<forall>d \<in> set q. d \<noteq> c" using Cons.prems(2) by auto
  have "cleanupLoop fuel env t (m, pm) = cleanupLoop k env t (?m, ?pm)"
    unfolding k(1) by (rule cleanupLoop_take) (use Cons.prems n0 in auto)
  also have "\<dots> = Ret (\<lambda>d. if d \<in> set q then snd (dropped env (?m d)) else ?m d, ?pm\<lparr>minusQueue := [], minusCount := 0\<rparr>)"
    using Cons.prems ne n k(2) by (intro Cons.IH) auto
  also have "(\<lambda>d. if d \<in> set q then snd (dropped env (?m d)) else ?m d) =
      (\<lambda>d. if d \<in> set (c # q) then snd (dropped env (m d)) else m d)"
    using ne by (auto simp: fun_eq_iff)
  finally show ?case by simp
qed

text \<open>The clean-up of a stopped pool ends: when the consumers that wait may run on the thread, it
  needs no more rounds than there are consumers and one, tells each of them once that it was
  dropped, and leaves none registered.\<close>

lemma cleanup_ends:
  assumes "minusStopped pm" "distinct (minusQueue pm)" "unat (minusCount pm) = length (minusQueue pm)"
    "\<forall>c \<in> set (minusQueue pm). bit (poolThreadAffinity (m c)) (unat t)" "unat t < 32"
    "length (minusQueue pm) < fuel"
  shows "\<exists>m' pm'. cleanupMinus fuel env t (m, pm) = Ret (m', pm') \<and> minusCount pm' = 0 \<and> minusQueue pm' = [] \<and>
     (\<forall>c. calls (m' c) = calls (m c) @ (if c \<in> set (minusQueue pm) then [DroppedCb] else []))"
  using cleanupLoop_all [of pm "minusQueue pm" fuel m t env] assms
  by (auto simp: cleanupMinus_def affine32_def dropped_def call_def)

lemma cleanup_witness:
  "\<exists>m' pm'. cleanupMinus 3 (exCallbacks None) 1 (\<lambda>_. newPoolConsumer False False None,
       \<lparr>minusStopped = True, minusMask = 3, minusCount = 2, minusQueue = [5, 8], minusCap = 8\<rparr>) = Ret (m', pm') \<and>
     minusCount pm' = 0 \<and> calls (m' 8) = [DroppedCb]"
proof -
  let ?pm = "\<lparr>minusStopped = True, minusMask = 3, minusCount = 2, minusQueue = [5, 8], minusCap = 8\<rparr>"
  obtain m' pm' where "cleanupMinus 3 (exCallbacks None) 1 (\<lambda>_. newPoolConsumer False False None, ?pm) = Ret (m', pm')"
    "minusCount pm' = 0" "\<forall>c. calls (m' c) = calls (newPoolConsumer False False None) @
      (if c \<in> set (minusQueue ?pm) then [DroppedCb] else [])"
    using cleanup_ends [of ?pm "\<lambda>_. newPoolConsumer False False None" 1 3 "exCallbacks None"]
    by (auto simp: newPoolConsumer_def)
  then show ?thesis by (auto simp: newPoolConsumer_def)
qed

lemma cleanupLoop_spins:
  "minusCount pm \<noteq> 0 \<Longrightarrow> \<forall>c \<in> set (minusQueue pm). affine32 (poolThreadAffinity (m c)) t = Ret False \<Longrightarrow>
   cleanupLoop fuel env t (m, pm) = Spins"
proof (induction fuel arbitrary: pm)
  case (Suc k)
  show ?case
  proof (cases "minusQueue pm")
    case Nil
    then show ?thesis using Suc by simp
  next
    case (Cons c q)
    then have "cleanupLoop k env t (m, pm\<lparr>minusQueue := q @ [c]\<rparr>) = Spins" using Suc.prems by (intro Suc.IH) auto
    then show ?thesis using Cons Suc.prems by simp
  qed
qed simp

text \<open>A pool thread leaves with the number of its reader in the message buffer where the
  clean-up expects its own number; when the pool was started on other readers, no consumer without
  messages matches, and the thread never ends.\<close>

lemma exit_spins:
  assumes "minusStopped (poolMinus p)" "minusCount (poolMinus p) \<noteq> 0" "consumerQueues p ! unat t = []"
    "n = hmbdcNumbers p ! unat t" "unat n < 32"
    "\<forall>c \<in> set (minusQueue (poolMinus p)). \<not> bit (poolThreadAffinity (mem p c)) (unat n)"
  shows "threadExit fuel env t p = Spins"
  using assms cleanupLoop_spins [of "poolMinus p" "mem p" n fuel env]
  by (simp add: threadExit_def cleanupMinus_def affine32_def Let_def)

text \<open>One thread on reader 4, with a consumer for thread 0.\<close>

lemma exit_witness:
  "(case startAt 1 [4] (newPool 5 4 (\<lambda>_. newPoolConsumer False False None)) of
      Ret (ts, p) \<Rightarrow> (case addConsumer 7 1 p of
         Ret q \<Rightarrow> threadExit 100 (exCallbacks None) 0 (stopPool q) = Spins | _ \<Rightarrow> False) | _ \<Rightarrow> False)"
proof -
  have cap: "log2Upper 8 = 3" by code_simp
  have s: "startAt 1 [4] (newPool 5 4 (\<lambda>_. newPoolConsumer False False None)) =
      Ret ([0], (newPool 5 4 (\<lambda>_. newPoolConsumer False False None))
        \<lparr>activeMask := 1, hmbdcNumbers := 4 # drop 1 (hmbdcNumbers (newPool 5 4 (\<lambda>_. newPoolConsumer False False None))),
         bufferCalls := [ResetReader 4]\<rparr>)" (is "_ = Ret ([0], ?p)")
    by (simp add: startAt_def newPool_def threadMask_def)
  have a: "\<exists>q. addConsumer 7 1 ?p = Ret q \<and> minusCount (poolMinus q) = 1 \<and> consumerQueues q = replicate 5 [] \<and>
      hmbdcNumbers q ! 0 = 4 \<and> minusQueue (poolMinus q) = [7] \<and> poolThreadAffinity (mem q 7) = 1"
    by (simp add: addConsumer_def newPool_def newPoolConsumer_def addConsumerMinus_def newPoolMinus_def cap
      queuePut_def resetPoolConsumer_def)
  then obtain q where q: "addConsumer 7 1 ?p = Ret q" "minusCount (poolMinus q) = 1" "consumerQueues q = replicate 5 []"
    "hmbdcNumbers q ! 0 = 4" "minusQueue (poolMinus q) = [7]" "poolThreadAffinity (mem q 7) = 1" by blast
  have "threadExit 100 (exCallbacks None) 0 (stopPool q) = Spins"
    using q by (intro exit_spins [where n = 4]) (simp_all add: stopPool_def bit_1_iff)
  then show ?thesis using s q(1) by simp
qed

end
