(* ===== verification/TimeTypes.thy ===== *)
theory TimeTypes
  imports Prelude "HOL-Library.Signed_Division"
begin

text \<open>
  \<^verbatim>\<open>hmbdc/time/Time.hpp\<close>: points in time and durations, a signed 64-bit count of nanoseconds
  each. Signed overflow has no meaning in C++, so the arithmetic is checked: out of range it is
  \<open>Undefined\<close>. Division and remainder are those of C++, toward zero. 
\<close>

section \<open>64-bit signed arithmetic\<close>

definition inI64 :: "int \<Rightarrow> bool" where
  "inI64 x \<longleftrightarrow> - (2 ^ 63) \<le> x \<and> x < 2 ^ 63"

definition i64 :: "int \<Rightarrow> int outcome" where
  "i64 x = (if inI64 x then Ret x else Undefined)"

definition addI :: "int \<Rightarrow> int \<Rightarrow> int outcome" where "addI a b = i64 (a + b)"
definition subI :: "int \<Rightarrow> int \<Rightarrow> int outcome" where "subI a b = i64 (a - b)"
definition mulI :: "int \<Rightarrow> int \<Rightarrow> int outcome" where "mulI a b = i64 (a * b)"

definition divI :: "int \<Rightarrow> int \<Rightarrow> int outcome" where
  "divI a b = (if b = 0 then Undefined else i64 (a sdiv b))"

definition modI :: "int \<Rightarrow> int \<Rightarrow> int outcome" where
  "modI a b = (if b = 0 \<or> \<not> inI64 (a sdiv b) then Undefined else Ret (a smod b))"

section \<open>SysTime and Duration\<close>

datatype SysTime = SysTime (nsecSinceEpoch: int)

datatype Duration = Duration (nsec: int)

text \<open>The comparison operators of both types are those of their counts.\<close>

definition sysTimeLeq :: "SysTime \<Rightarrow> SysTime \<Rightarrow> bool" where
  "sysTimeLeq a b \<longleftrightarrow> nsecSinceEpoch a \<le> nsecSinceEpoch b"

definition sysTimeLess :: "SysTime \<Rightarrow> SysTime \<Rightarrow> bool" where
  "sysTimeLess a b \<longleftrightarrow> nsecSinceEpoch a < nsecSinceEpoch b"

definition durationLeq :: "Duration \<Rightarrow> Duration \<Rightarrow> bool" where
  "durationLeq a b \<longleftrightarrow> nsec a \<le> nsec b"

definition durationLess :: "Duration \<Rightarrow> Duration \<Rightarrow> bool" where
  "durationLess a b \<longleftrightarrow> nsec a < nsec b"

declare sysTimeLeq_def [simp] sysTimeLess_def [simp] durationLeq_def [simp] durationLess_def [simp]

instantiation SysTime :: linorder
begin

definition less_eq_SysTime :: "SysTime \<Rightarrow> SysTime \<Rightarrow> bool" where
  "less_eq_SysTime = sysTimeLeq"

definition less_SysTime :: "SysTime \<Rightarrow> SysTime \<Rightarrow> bool" where
  "less_SysTime = sysTimeLess"

instance
  by standard (auto simp: less_eq_SysTime_def less_SysTime_def SysTime.expand)

end

instantiation Duration :: linorder
begin

definition less_eq_Duration :: "Duration \<Rightarrow> Duration \<Rightarrow> bool" where
  "less_eq_Duration = durationLeq"

definition less_Duration :: "Duration \<Rightarrow> Duration \<Rightarrow> bool" where
  "less_Duration = durationLess"

instance
  by standard (auto simp: less_eq_Duration_def less_Duration_def Duration.expand)

end

text \<open>\<^verbatim>\<open>sec * 1000000000l + usec * 1000l + nsec\<close>\<close>

definition nsecOf :: "int \<Rightarrow> int \<Rightarrow> int \<Rightarrow> int outcome" where
  "nsecOf sec usec ns = obind (mulI sec 1000000000) (\<lambda>a. obind (mulI usec 1000) (\<lambda>b. obind (addI a b) (\<lambda>c. addI c ns)))"

definition sysTime :: "int \<Rightarrow> int \<Rightarrow> int \<Rightarrow> SysTime outcome" where
  "sysTime sec usec ns = obind (nsecOf sec usec ns) (\<lambda>n. Ret (SysTime n))"

definition duration :: "int \<Rightarrow> int \<Rightarrow> int \<Rightarrow> Duration outcome" where
  "duration sec usec ns = obind (nsecOf sec usec ns) (\<lambda>n. Ret (Duration n))"

definition seconds :: "int \<Rightarrow> Duration outcome" where "seconds s = duration s 0 0"
definition milliseconds :: "int \<Rightarrow> Duration outcome" where "milliseconds m = obind (mulI m 1000) (\<lambda>u. duration 0 u 0)"
definition microseconds :: "int \<Rightarrow> Duration outcome" where "microseconds u = duration 0 u 0"
definition nanoseconds :: "int \<Rightarrow> Duration outcome" where "nanoseconds n = duration 0 0 n"

definition usecSinceEpoch :: "SysTime \<Rightarrow> int" where "usecSinceEpoch t = nsecSinceEpoch t sdiv 1000"
definition toSeconds :: "Duration \<Rightarrow> int" where "toSeconds d = nsec d sdiv 1000000000"
definition toMilliseconds :: "Duration \<Rightarrow> int" where "toMilliseconds d = nsec d sdiv 1000000"
definition toMicroseconds :: "Duration \<Rightarrow> int" where "toMicroseconds d = nsec d sdiv 1000"

definition durationAdd :: "Duration \<Rightarrow> Duration \<Rightarrow> Duration outcome" where
  "durationAdd a b = obind (addI (nsec a) (nsec b)) nanoseconds"

definition durationSub :: "Duration \<Rightarrow> Duration \<Rightarrow> Duration outcome" where
  "durationSub a b = obind (subI (nsec a) (nsec b)) nanoseconds"

definition durationNeg :: "Duration \<Rightarrow> Duration outcome" where
  "durationNeg a = obind (i64 (- nsec a)) nanoseconds"

definition durationMul :: "Duration \<Rightarrow> int \<Rightarrow> Duration outcome" where
  "durationMul a m = obind (mulI (nsec a) m) nanoseconds"

definition durationDiv :: "Duration \<Rightarrow> int \<Rightarrow> Duration outcome" where
  "durationDiv a d = obind (divI (nsec a) d) nanoseconds"

definition durationMod :: "Duration \<Rightarrow> Duration \<Rightarrow> Duration outcome" where
  "durationMod a d = obind (modI (nsec a) (nsec d)) nanoseconds"

definition timeDiff :: "SysTime \<Rightarrow> SysTime \<Rightarrow> Duration outcome" where
  "timeDiff a b = obind (subI (nsecSinceEpoch a) (nsecSinceEpoch b)) nanoseconds"

definition timeAdd :: "SysTime \<Rightarrow> Duration \<Rightarrow> SysTime outcome" where
  "timeAdd t d = obind (addI (nsecSinceEpoch t) (nsec d)) (sysTime 0 0)"

definition timeSub :: "SysTime \<Rightarrow> Duration \<Rightarrow> SysTime outcome" where
  "timeSub t d = obind (subI (nsecSinceEpoch t) (nsec d)) (sysTime 0 0)"

definition durationMax :: Duration where "durationMax = (Duration (2 ^ 63 - 1))"
definition durationMin :: Duration where "durationMin = (Duration (- (2 ^ 63)))"

section \<open>The calendar\<close>

text \<open>\<^verbatim>\<open>struct tm\<close>, the fields the code uses.\<close>

record tm =
  tm_year :: int
  tm_mon :: int
  tm_mday :: int
  tm_hour :: int
  tm_min :: int
  tm_sec :: int

text \<open>The decimal fields of a number \<^verbatim>\<open>YYYYMMDDhhmmSSmmm\<close>, and the milliseconds.\<close>

definition splitYYYYMMDDhhmmSSmmm :: "int \<Rightarrow> tm \<times> int" where
  "splitYYYYMMDDhhmmSSmmm v =
     (let year = v sdiv 10000000000000 - 1900; v1 = v smod 10000000000000;
          mon = v1 sdiv 100000000000 - 1; v2 = v1 smod 100000000000;
          mday = v2 sdiv 1000000000; v3 = v2 smod 1000000000;
          hour = v3 sdiv 10000000; v4 = v3 smod 10000000;
          minute = v4 sdiv 100000; v5 = v4 smod 100000;
          sec = v5 sdiv 1000; v6 = v5 smod 1000
      in (\<lparr>tm_year = year, tm_mon = mon, tm_mday = mday, tm_hour = hour, tm_min = minute, tm_sec = sec\<rparr>, v6))"

text \<open>\<open>seconds\<close> is \<^verbatim>\<open>timegm\<close> for \<^verbatim>\<open>fromYYYYMMDDhhmmSSmmmUtc\<close> and \<^verbatim>\<open>mktime\<close> for \<^verbatim>\<open>fromYYYYMMDDhhmmSSmmm\<close>.\<close>

definition fromYYYYMMDDhhmmSSmmm :: "(tm \<Rightarrow> int) \<Rightarrow> int \<Rightarrow> SysTime outcome" where
  "fromYYYYMMDDhhmmSSmmm secondsOf v =
     (case splitYYYYMMDDhhmmSSmmm v of (f, ms) \<Rightarrow> obind (mulI ms 1000) (\<lambda>us. sysTime (secondsOf f) us 0))"

text \<open>\<open>local\<close> is \<^verbatim>\<open>localtime_r\<close>.\<close>

definition previousMidnight :: "(int \<Rightarrow> tm) \<Rightarrow> SysTime \<Rightarrow> SysTime outcome" where
  "previousMidnight local t =
     (let sec = nsecSinceEpoch t sdiv 1000000000; ts = local sec
      in obind (sysTime sec 0 0) (\<lambda>s.
           obind (seconds (tm_hour ts * 3600 + tm_min ts * 60 + tm_sec ts)) (timeSub s)))"

definition sinceMidnight :: "(int \<Rightarrow> tm) \<Rightarrow> SysTime \<Rightarrow> Duration outcome" where
  "sinceMidnight local t = obind (previousMidnight local t) (timeDiff t)"

section \<open>Facts\<close>

lemma i64_Ret [simp]: "inI64 x \<Longrightarrow> i64 x = Ret x"
  by (simp add: i64_def)

lemma inI64_0 [simp]: "inI64 0"
  by (simp add: inI64_def)

lemma nsecOf_nsec [simp]: "inI64 n \<Longrightarrow> nsecOf 0 0 n = Ret n"
  by (simp add: nsecOf_def mulI_def addI_def)

lemma nanoseconds_Ret [simp]: "inI64 n \<Longrightarrow> nanoseconds n = Ret (Duration n)"
  by (simp add: nanoseconds_def duration_def)

lemma sysTime_nsec [simp]: "inI64 n \<Longrightarrow> sysTime 0 0 n = Ret (SysTime n)"
  by (simp add: sysTime_def)

text \<open>The operators are those of the integers as long as the result is in range.\<close>

lemma time_ops:
  "inI64 (nsec a + nsec b) \<Longrightarrow> durationAdd a b = Ret (Duration (nsec a + nsec b))"
  "inI64 (nsec a - nsec b) \<Longrightarrow> durationSub a b = Ret (Duration (nsec a - nsec b))"
  "inI64 (nsec a * m) \<Longrightarrow> durationMul a m = Ret (Duration (nsec a * m))"
  "inI64 (nsecSinceEpoch t + nsec b) \<Longrightarrow> timeAdd t b = Ret (SysTime (nsecSinceEpoch t + nsec b))"
  "inI64 (nsecSinceEpoch t - nsec b) \<Longrightarrow> timeSub t b = Ret (SysTime (nsecSinceEpoch t - nsec b))"
  "inI64 (nsecSinceEpoch t - nsecSinceEpoch u) \<Longrightarrow> timeDiff t u = Ret (Duration (nsecSinceEpoch t - nsecSinceEpoch u))"
  by (simp_all add: durationAdd_def durationSub_def durationMul_def timeAdd_def timeSub_def timeDiff_def
      addI_def subI_def mulI_def)

lemma sdiv_nonneg: "0 \<le> a \<Longrightarrow> 0 < b \<Longrightarrow> a sdiv b = a div b" for a b :: int
  by (cases "a = 0") (simp_all add: signed_divide_int_def)

lemma smod_nonneg: "0 \<le> a \<Longrightarrow> 0 < b \<Longrightarrow> a smod b = a mod b" for a b :: int
  by (cases "a = 0") (simp_all add: signed_modulo_int_def)

lemma digits_split:
  "0 \<le> r \<Longrightarrow> r < k \<Longrightarrow> 0 \<le> a \<Longrightarrow> (a * k + r) sdiv k = a \<and> (a * k + r) smod k = r" for a k r :: int
proof -
  assume a: "0 \<le> r" "r < k" "0 \<le> a"
  then have "0 \<le> a * k + r" "0 < k" by auto
  then show ?thesis using a by (simp add: sdiv_nonneg smod_nonneg)
qed

section \<open>Properties\<close>

definition timestamp :: "int \<Rightarrow> int \<Rightarrow> int \<Rightarrow> int \<Rightarrow> int \<Rightarrow> int \<Rightarrow> int \<Rightarrow> int" where
  "timestamp y mon d h m s ms =
     y * 10000000000000 + (mon * 100000000000 + (d * 1000000000 + (h * 10000000 + (m * 100000 + (s * 1000 + ms)))))"

lemma digits_below: "0 \<le> x \<Longrightarrow> x < b \<Longrightarrow> 0 \<le> r \<Longrightarrow> r < k \<Longrightarrow> 0 \<le> x * k + r \<and> x * k + r < b * k" for x b k r :: int
proof -
  assume a: "0 \<le> x" "x < b" "0 \<le> r" "r < k"
  then have "x * k + r < (x + 1) * k" by (simp add: algebra_simps)
  also have "\<dots> \<le> b * k" using a by (intro mult_right_mono) auto
  finally show ?thesis using a by simp
qed

text \<open>The number written as \<^verbatim>\<open>YYYYMMDDhhmmSSmmm\<close> is taken apart into exactly the fields it was
  written with, as the calendar of the C library wants them, and the time is the second the
  library makes of them plus the milliseconds.\<close>

lemma timestamp_roundtrip:
  assumes "0 \<le> y" "0 \<le> mon" "mon < 100" "0 \<le> d" "d < 100" "0 \<le> h" "h < 100" "0 \<le> m" "m < 100" "0 \<le> s" "s < 100"
    "0 \<le> ms" "ms < 1000"
    and f: "f = \<lparr>tm_year = y - 1900, tm_mon = mon - 1, tm_mday = d, tm_hour = h, tm_min = m, tm_sec = s\<rparr>"
    and range: "inI64 (secondsOf f * 1000000000)" "inI64 (secondsOf f * 1000000000 + ms * 1000000)"
  shows "splitYYYYMMDDhhmmSSmmm (timestamp y mon d h m s ms) = (f, ms) \<and>
     fromYYYYMMDDhhmmSSmmm secondsOf (timestamp y mon d h m s ms) =
       Ret (SysTime (secondsOf f * 1000000000 + ms * 1000000))"
proof -
  let ?v5 = "s * 1000 + ms"
  let ?v4 = "m * 100000 + ?v5"
  let ?v3 = "h * 10000000 + ?v4"
  let ?v2 = "d * 1000000000 + ?v3"
  let ?v1 = "mon * 100000000000 + ?v2"
  have v5: "0 \<le> ?v5 \<and> ?v5 < 100000" using digits_below [of s 100 ms 1000] assms by simp
  then have v4: "0 \<le> ?v4 \<and> ?v4 < 10000000" using digits_below [of m 100 ?v5 100000] assms by simp
  then have v3: "0 \<le> ?v3 \<and> ?v3 < 1000000000" using digits_below [of h 100 ?v4 10000000] assms by simp
  then have v2: "0 \<le> ?v2 \<and> ?v2 < 100000000000" using digits_below [of d 100 ?v3 1000000000] assms by simp
  then have v1: "0 \<le> ?v1 \<and> ?v1 < 10000000000000" using digits_below [of mon 100 ?v2 100000000000] assms by simp
  have split: "splitYYYYMMDDhhmmSSmmm (timestamp y mon d h m s ms) = (f, ms)"
    using digits_split [of ?v1 10000000000000 y] digits_split [of ?v2 100000000000 mon]
      digits_split [of ?v3 1000000000 d] digits_split [of ?v4 10000000 h] digits_split [of ?v5 100000 m]
      digits_split [of ms 1000 s] v1 v2 v3 v4 v5 assms
    by (simp add: splitYYYYMMDDhhmmSSmmm_def timestamp_def Let_def f del: distrib_right_numeral)
  have "inI64 (ms * 1000)" "inI64 (ms * 1000000)" "inI64 (1000000 * ms)" using assms by (simp_all add: inI64_def)
  moreover have "inI64 (secondsOf f * 1000000000 + 1000000 * ms)" using range(2) by (simp add: mult.commute)
  ultimately show ?thesis
    using split range by (simp add: fromYYYYMMDDhhmmSSmmm_def sysTime_def nsecOf_def mulI_def addI_def)
qed

lemma timestamp_witness:
  "fromYYYYMMDDhhmmSSmmm (\<lambda>f. tm_sec f) (timestamp 2021 7 4 12 30 45 678) = Ret (SysTime 45678000000)"
  using timestamp_roundtrip [of 2021 7 4 12 30 45 678
    "\<lparr>tm_year = 121, tm_mon = 6, tm_mday = 4, tm_hour = 12, tm_min = 30, tm_sec = 45\<rparr>" "\<lambda>f. tm_sec f"]
  by (simp add: inI64_def)

text \<open>Where local time is a fixed offset from UTC, \<^verbatim>\<open>sinceMidnight\<close> of a time from 1970 on is
  less than a day, and \<^verbatim>\<open>previousMidnight\<close> is that much before the time, at a local midnight.\<close>

lemma midnight_bounds:
  assumes t: "86400000000000 \<le> nsecSinceEpoch t" "inI64 (nsecSinceEpoch t)"
    and local: "\<And>sec. tm_hour (local sec) * 3600 + tm_min (local sec) * 60 + tm_sec (local sec) = (sec + off) mod 86400"
  shows "\<exists>mid d. previousMidnight local t = Ret mid \<and> sinceMidnight local t = Ret d \<and>
     nsecSinceEpoch mid + nsec d = nsecSinceEpoch t \<and> 0 \<le> nsec d \<and> nsec d < 86400000000000 \<and>
     nsecSinceEpoch mid mod 1000000000 = 0 \<and> (nsecSinceEpoch mid div 1000000000 + off) mod 86400 = 0"
proof -
  let ?s = "nsecSinceEpoch t div 1000000000"
  let ?r = "(?s + off) mod 86400"
  have r: "0 \<le> ?r" "?r < 86400" by simp_all
  have s: "nsecSinceEpoch t sdiv 1000000000 = ?s" "86400 \<le> ?s" "?s * 1000000000 \<le> nsecSinceEpoch t"
    "nsecSinceEpoch t < ?s * 1000000000 + 1000000000" using t by (simp_all add: sdiv_nonneg)
  let ?mid = "(?s - ?r) * 1000000000"
  have range: "inI64 (?s * 1000000000)" "inI64 (?r * 1000000000)" "inI64 (?s * 1000000000 - ?r * 1000000000)"
    "inI64 (nsecSinceEpoch t - ?mid)"
    using r s t by (auto simp: inI64_def algebra_simps)
  have mid: "previousMidnight local t = Ret (SysTime ?mid)"
  proof -
    have "sysTime ?s 0 0 = Ret (SysTime (?s * 1000000000))" "seconds ?r = Ret (Duration (?r * 1000000000))"
      using range by (simp_all add: sysTime_def seconds_def duration_def nsecOf_def mulI_def addI_def)
    moreover have "timeSub (SysTime (?s * 1000000000)) (Duration (?r * 1000000000)) = Ret (SysTime ?mid)"
      using range time_ops(5) by (simp add: left_diff_distrib)
    ultimately show ?thesis by (simp only: previousMidnight_def s(1) local Let_def obind.simps)
  qed
  moreover have "sinceMidnight local t = Ret (Duration (nsecSinceEpoch t - ?mid))"
    using range mid time_ops(6) [of t "(SysTime ?mid)"] by (simp add: sinceMidnight_def)
  moreover have "(?s - ?r + off) mod 86400 = 0"
  proof -
    have "?s - ?r + off = (?s + off) - ?r" by simp
    then show ?thesis by (simp only: minus_mod_eq_mult_div) simp
  qed
  moreover have "nsecSinceEpoch t - ?mid < 86400000000000" "0 \<le> nsecSinceEpoch t - ?mid"
    using r s by (auto simp: algebra_simps)
  ultimately show ?thesis by auto
qed

definition utcFields :: "int \<Rightarrow> tm" where
  "utcFields sec =
     (let x = sec mod 86400
      in \<lparr>tm_year = 70, tm_mon = 0, tm_mday = 1, tm_hour = x div 3600, tm_min = x mod 3600 div 60, tm_sec = x mod 60\<rparr>)"

lemma utcFields_sum:
  "tm_hour (utcFields sec) * 3600 + tm_min (utcFields sec) * 60 + tm_sec (utcFields sec) = (sec + 0) mod 86400"
proof -
  have "x div 3600 * 3600 + x mod 3600 div 60 * 60 + x mod 60 = x" for x :: int
  proof -
    have "x mod 3600 mod 60 = x mod 60" by (rule mod_mod_cancel) simp
    then show ?thesis using div_mult_mod_eq [of x 3600] div_mult_mod_eq [of "x mod 3600" 60] by linarith
  qed
  then show ?thesis by (simp only: utcFields_def Let_def tm.select_convs add_0_right)
qed

lemma midnight_witness:
  "\<exists>mid d. previousMidnight utcFields (SysTime 86500000000005) = Ret mid \<and>
     sinceMidnight utcFields (SysTime 86500000000005) = Ret d \<and>
     nsecSinceEpoch mid + nsec d = 86500000000005 \<and> nsec d < 86400000000000"
  using midnight_bounds [of "(SysTime 86500000000005)" utcFields 0, OF _ _ utcFields_sum]
  by (auto simp: inI64_def)

end
