(* ===== verification/Timers.thy ===== *)
theory Timers
  imports TimeTypes
begin

text \<open>
  \<^verbatim>\<open>hmbdc/time/Timers.hpp\<close>: timers in an intrusive multiset ordered by the time they fire. A timer
  is known by a number. A callback may schedule and cancel timers: what it does is an argument, as a
  list of commands that may depend on everything fired before.
\<close>

section \<open>State\<close>

datatype TimerKind = ReoccuringTimer Duration | DailyTimer | OneTimeTimer

record Timer =
  armed :: bool
  fireAt :: SysTime
  kind :: TimerKind

text \<open>\<open>linked\<close> are the timers in the multiset, in its order; \<open>fired\<close> the callbacks made.\<close>

record TimerManager =
  timer :: "nat \<Rightarrow> Timer"
  linked :: "nat list"
  fired :: "(nat \<times> SysTime) list"

definition at :: "TimerManager \<Rightarrow> nat \<Rightarrow> int" where
  "at m x = nsecSinceEpoch (fireAt (timer m x))"

definition setArmed :: "nat \<Rightarrow> bool \<Rightarrow> TimerManager \<Rightarrow> TimerManager" where
  "setArmed x b m = m\<lparr>timer := (timer m)(x := (timer m x)\<lparr>armed := b\<rparr>)\<rparr>"

section \<open>Scheduling\<close>

text \<open>A multiset puts a new element behind those that are equal.\<close>

definition insertTimer :: "nat \<Rightarrow> TimerManager \<Rightarrow> TimerManager" where
  "insertTimer x m =
     m\<lparr>linked := takeWhile (\<lambda>y. at m y \<le> at m x) (linked m) @ x # dropWhile (\<lambda>y. at m y \<le> at m x) (linked m)\<rparr>"

text \<open>A timer that is in the multiset already must not be scheduled.\<close>

definition schedule :: "SysTime \<Rightarrow> nat \<Rightarrow> TimerManager \<Rightarrow> TimerManager outcome" where
  "schedule t x m =
     (if x \<in> set (linked m) then Undefined
      else Ret (setArmed x True (insertTimer x (m\<lparr>timer := (timer m)(x := (timer m x)\<lparr>fireAt := t\<rparr>)\<rparr>))))"

definition cancel :: "nat \<Rightarrow> TimerManager \<Rightarrow> TimerManager" where
  "cancel x m =
     (if x \<in> set (filter (\<lambda>y. at m y = at m x) (linked m))
      then setArmed x False (m\<lparr>linked := remove1 x (linked m)\<rparr>) else m)"

definition untilNextFire :: "SysTime \<Rightarrow> TimerManager \<Rightarrow> Duration outcome" where
  "untilNextFire now m =
     (case linked m of [] \<Rightarrow> Ret durationMax
      | x # _ \<Rightarrow> obind (timeDiff (fireAt (timer m x)) now) (\<lambda>d. Ret (max (Duration 0) d)))"

text \<open>\<^verbatim>\<open>while (newFireTime < now) newFireTime += day;\<close> with \<^verbatim>\<open>day\<close> a Duration of 86400 seconds.\<close>

definition dayNs :: int where "dayNs = 86400000000000"

function dailyLoop :: "int \<Rightarrow> int \<Rightarrow> int outcome" where
  "dailyLoop t now = (if t < now then (if inI64 (t + dayNs) then dailyLoop (t + dayNs) now else Undefined) else Ret t)"
  by auto
termination
  by (relation "measure (\<lambda>(t, now). nat (now - t))") (auto simp: dayNs_def)

declare dailyLoop.simps [simp del]

definition reschedule :: "SysTime \<Rightarrow> nat \<Rightarrow> TimerManager \<Rightarrow> TimerManager outcome" where
  "reschedule now x m =
     (case kind (timer m x) of
        ReoccuringTimer d \<Rightarrow> obind (timeAdd now d) (\<lambda>t. schedule t x m)
      | DailyTimer \<Rightarrow> obind (addI (at m x) dayNs) (\<lambda>t.
          obind (dailyLoop t (nsecSinceEpoch now)) (\<lambda>u. schedule (SysTime u) x m))
      | OneTimeTimer \<Rightarrow> Ret m)"

section \<open>Checking\<close>

datatype TimerCommand = Schedule SysTime nat | Cancel nat

fun runCommands :: "TimerCommand list \<Rightarrow> TimerManager \<Rightarrow> TimerManager outcome" where
  "runCommands [] m = Ret m"
| "runCommands (Schedule t x # cs) m = obind (schedule t x m) (runCommands cs)"
| "runCommands (Cancel x # cs) m = runCommands cs (cancel x m)"

type_synonym TimerCallback = "(nat \<times> SysTime) list \<Rightarrow> nat \<Rightarrow> SysTime \<Rightarrow> TimerCommand list"

definition due :: "SysTime \<Rightarrow> TimerManager \<Rightarrow> nat list" where
  "due now m = takeWhile (\<lambda>x. at m x \<le> nsecSinceEpoch now) (linked m)"

text \<open>
  The first loop: the first armed timer that is due fires, then the search starts anew. A callback
  that keeps scheduling timers that are due keeps the loop going: it runs on fuel.
\<close>

fun fireLoop :: "nat \<Rightarrow> TimerCallback \<Rightarrow> SysTime \<Rightarrow> TimerManager \<Rightarrow> TimerManager outcome" where
  "fireLoop 0 cb now m = Spins"
| "fireLoop (Suc k) cb now m =
     (case find (\<lambda>x. armed (timer m x)) (due now m) of
        None \<Rightarrow> Ret m
      | Some x \<Rightarrow> obind (runCommands (cb (fired m) x now) ((setArmed x False m)\<lparr>fired := fired m @ [(x, now)]\<rparr>))
                   (fireLoop k cb now))"

text \<open>The timer after \<open>x\<close>; an iterator is a timer, or \<open>None\<close> for the end.\<close>

fun nextTimer :: "nat list \<Rightarrow> nat \<Rightarrow> nat option" where
  "nextTimer [] x = None"
| "nextTimer (y # ys) x = (if y = x then (case ys of [] \<Rightarrow> None | z # _ \<Rightarrow> Some z) else nextTimer ys x)"

text \<open>The second loop; beside an armed timer it steps on twice, and the end must not be stepped over.\<close>

fun rearmLoop :: "nat \<Rightarrow> SysTime \<Rightarrow> nat option \<Rightarrow> TimerManager \<Rightarrow> TimerManager outcome" where
  "rearmLoop 0 now it m = Spins"
| "rearmLoop (Suc k) now None m = Ret m"
| "rearmLoop (Suc k) now (Some x) m =
     (if nsecSinceEpoch now < at m x then Ret m
      else let it = nextTimer (linked m) x
        in if \<not> armed (timer m x)
           then obind (reschedule now x (m\<lparr>linked := remove1 x (linked m)\<rparr>)) (rearmLoop k now it)
           else (case it of None \<Rightarrow> Undefined | Some y \<Rightarrow> rearmLoop k now (nextTimer (linked m) y) m))"

definition firstTimer :: "TimerManager \<Rightarrow> nat option" where
  "firstTimer m = (case linked m of [] \<Rightarrow> None | x # _ \<Rightarrow> Some x)"

definition checkTimers :: "nat \<Rightarrow> TimerCallback \<Rightarrow> SysTime \<Rightarrow> TimerManager \<Rightarrow> TimerManager outcome" where
  "checkTimers fuel cb now m = obind (fireLoop fuel cb now m) (\<lambda>m1. rearmLoop fuel now (firstTimer m1) m1)"

end
