(* ===== verification/TimersSpec.thy ===== *)
theory TimersSpec
  imports Timers
begin

text \<open>
  What a check of the timers does: who fires, when the next time is, and the one case in which the
  second loop runs off the end of the multiset.
\<close>

section \<open>Invariant and next time\<close>


definition nextFire :: "SysTime \<Rightarrow> int \<Rightarrow> TimerKind \<Rightarrow> int outcome" where
  "nextFire now t k =
     (case k of
        ReoccuringTimer d \<Rightarrow> addI (nsecSinceEpoch now) (nsec d)
      | DailyTimer \<Rightarrow> obind (addI t dayNs) (\<lambda>u. dailyLoop u (nsecSinceEpoch now))
      | OneTimeTimer \<Rightarrow> Undefined)"


lemma at_setArmed [simp]: "at (setArmed x b m) = at m"
  by (simp add: at_def setArmed_def fun_eq_iff)

lemma at_linked [simp]: "at (m\<lparr>linked := l\<rparr>) = at m" "at (m\<lparr>fired := f\<rparr>) = at m"
  by (simp_all add: at_def fun_eq_iff)

lemma setArmed_linked [simp]: "linked (setArmed x b m) = linked m" "fired (setArmed x b m) = fired m"
  by (simp_all add: setArmed_def)

lemma reschedule_next:
  assumes "kind (timer m x) \<noteq> OneTimeTimer" "nextFire now (at m x) (kind (timer m x)) = Ret u"
  shows "reschedule now x m = schedule (SysTime u) x m"
proof (cases "kind (timer m x)")
  case (ReoccuringTimer d)
  then have "u = nsecSinceEpoch now + nsec d" "inI64 (nsecSinceEpoch now + nsec d)"
    using assms(2) by (auto simp: nextFire_def addI_def i64_def split: if_splits)
  then show ?thesis using ReoccuringTimer time_ops(4) [of now d] by (simp add: reschedule_def)
next
  case DailyTimer
  then show ?thesis using assms(2) by (auto simp: reschedule_def nextFire_def obind_Ret_iff)
next
  case OneTimeTimer
  then show ?thesis using assms(1) by simp
qed

section \<open>The first loop\<close>

definition disarm :: "nat set \<Rightarrow> TimerManager \<Rightarrow> TimerManager" where
  "disarm S m = m\<lparr>timer := \<lambda>x. if x \<in> S then (timer m x)\<lparr>armed := False\<rparr> else timer m x\<rparr>"

lemma at_disarm [simp]: "at (disarm S m) = at m"
  by (simp add: at_def disarm_def fun_eq_iff)

lemma find_first: "\<forall>y \<in> set pre. \<not> P y \<Longrightarrow> P x \<Longrightarrow> find P (pre @ x # suf) = Some x"
  by (induction pre) auto

lemma find_none: "\<forall>y \<in> set xs. \<not> P y \<Longrightarrow> find P xs = None"
  by (induction xs) auto

lemma fireLoop_due:
  assumes "due now m = pre @ suf" "distinct (due now m)" "\<forall>x \<in> set pre. \<not> armed (timer m x)"
    "\<forall>x \<in> set suf. armed (timer m x)" "\<And>h x t. cb h x t = []" "length suf < fuel"
  shows "fireLoop fuel cb now m =
     Ret ((disarm (set suf) m)\<lparr>fired := fired m @ map (\<lambda>x. (x, now)) suf\<rparr>)"
  using assms(1-4,6)
proof (induction suf arbitrary: pre m fuel)
  case Nil
  then obtain k where "fuel = Suc k" by (cases fuel) auto
  moreover have "find (\<lambda>x. armed (timer m x)) (due now m) = None" using Nil by (intro find_none) auto
  moreover have "disarm {} m = m" by (simp add: disarm_def)
  ultimately show ?case by simp
next
  case (Cons x suf)
  obtain k where k: "fuel = Suc k" "length suf < k" using Cons.prems(5) by (cases fuel) auto
  let ?m = "(setArmed x False m)\<lparr>fired := fired m @ [(x, now)]\<rparr>"
  have "find (\<lambda>x. armed (timer m x)) (due now m) = Some x"
    unfolding Cons.prems(1) using Cons.prems(3,4) by (intro find_first) auto
  then have "fireLoop fuel cb now m = fireLoop k cb now ?m" by (simp add: k assms(5))
  also have d: "due now ?m = (pre @ [x]) @ suf" using Cons.prems(1) by (simp add: due_def)
  have "fireLoop k cb now ?m = Ret ((disarm (set suf) ?m)\<lparr>fired := fired ?m @ map (\<lambda>x. (x, now)) suf\<rparr>)"
    using Cons.prems k(2) d by (intro Cons.IH [OF d]) (auto simp: setArmed_def)
  also have "disarm (set suf) ?m = (disarm (set (x # suf)) m)\<lparr>fired := fired m @ [(x, now)]\<rparr>"
    by (auto simp: disarm_def setArmed_def fun_eq_iff)
  finally show ?case by simp
qed

section \<open>The second loop\<close>

text \<open>The multiset behind a timer that is put back at time \<open>u\<close>.\<close>

lemma schedule_new:
  assumes "x \<notin> set (linked m)"
  shows "schedule (SysTime u) x m =
     Ret (m\<lparr>timer := (timer m)(x := (timer m x)\<lparr>fireAt := (SysTime u), armed := True\<rparr>),
       linked := takeWhile (\<lambda>y. at m y \<le> u) (linked m) @ x # dropWhile (\<lambda>y. at m y \<le> u) (linked m)\<rparr>)"
proof -
  let ?m = "m\<lparr>timer := (timer m)(x := (timer m x)\<lparr>fireAt := (SysTime u)\<rparr>)\<rparr>"
  have a: "at ?m x = u" "\<And>y. y \<in> set (linked m) \<Longrightarrow> at ?m y = at m y" using assms by (auto simp: at_def)
  have "takeWhile (\<lambda>y. at ?m y \<le> at ?m x) (linked m) = takeWhile (\<lambda>y. at m y \<le> u) (linked m)"
    "dropWhile (\<lambda>y. at ?m y \<le> at ?m x) (linked m) = dropWhile (\<lambda>y. at m y \<le> u) (linked m)"
    using a by (intro takeWhile_cong dropWhile_cong; simp)+
  then show ?thesis using assms by (simp add: schedule_def insertTimer_def setArmed_def)
qed



section \<open>Properties\<close>


definition exTimers :: TimerManager where
  "exTimers = \<lparr>timer = (\<lambda>x. \<lparr>armed = True, fireAt = (SysTime (10 * int x)),
       kind = (if x = 2 then ReoccuringTimer (Duration 30) else if x = 3 then DailyTimer else OneTimeTimer)\<rparr>),
     linked = [1, 2, 3, 4], fired = []\<rparr>"


lemma dailyLoop_steps:
  "t \<le> now \<Longrightarrow> now + dayNs < 2 ^ 63 \<Longrightarrow> - (2 ^ 63) \<le> t \<Longrightarrow>
   dailyLoop t now = Ret (now + (t - now) mod dayNs)"
proof (induction t now rule: dailyLoop.induct)
  case (1 t now)
  show ?case
  proof (cases "t < now")
    case True
    have range: "inI64 (t + dayNs)" using 1(2-4) True by (simp add: inI64_def dayNs_def)
    have step: "dailyLoop t now = dailyLoop (t + dayNs) now" using True range by (subst dailyLoop.simps) simp
    have m: "(t + dayNs - now) mod dayNs = (t - now) mod dayNs"
      using mod_add_self2 [of "t - now" dayNs] by (simp add: algebra_simps)
    show ?thesis
    proof (cases "t + dayNs \<le> now")
      case le: True
      have "dailyLoop (t + dayNs) now = Ret (now + (t + dayNs - now) mod dayNs)"
        by (rule 1(1) [OF True range le 1(3)]) (use 1(4) in \<open>simp add: dayNs_def\<close>)
      then show ?thesis by (simp only: step m)
    next
      case False
      then have "dailyLoop (t + dayNs) now = Ret (t + dayNs)" by (subst dailyLoop.simps) simp
      moreover have "(t + dayNs - now) mod dayNs = t + dayNs - now"
        using False True by (intro mod_pos_pos_trivial) auto
      ultimately show ?thesis using step m by simp
    qed
  next
    case False
    then have "t = now" using 1(2) by simp
    then show ?thesis by (subst dailyLoop.simps) simp
  qed
qed

text \<open>A daily timer's next time. The loop ends, without overflow, and finds the first time not
  before now that is whole days after the last one.\<close>

lemma daily_next:
  assumes "nsecSinceEpoch (fireAt (timer m x)) \<le> nsecSinceEpoch now" "0 \<le> nsecSinceEpoch (fireAt (timer m x))"
    "nsecSinceEpoch now + dayNs < 2 ^ 63" "kind (timer m x) = DailyTimer" "x \<notin> set (linked m)"
  shows "\<exists>m'. reschedule now x m = Ret m' \<and> x \<in> set (linked m') \<and> armed (timer m' x) \<and>
     nsecSinceEpoch now \<le> at m' x \<and> at m x < at m' x \<and> (at m' x - at m x) mod dayNs = 0 \<and>
     (nsecSinceEpoch now < at m x + dayNs \<or> at m' x < nsecSinceEpoch now + dayNs)"
proof -
  let ?n = "nsecSinceEpoch now" and ?t = "at m x"
  have a: "?t \<le> ?n" "0 \<le> ?t" using assms(1,2) by (simp_all add: at_def)
  have pos: "0 < dayNs" by (simp add: dayNs_def)
  let ?u = "if ?t + dayNs \<le> ?n then ?n + (?t + dayNs - ?n) mod dayNs else ?t + dayNs"
  have "inI64 (?t + dayNs)" using a assms(3) by (simp add: inI64_def dayNs_def)
  moreover have "dailyLoop (?t + dayNs) ?n = Ret ?u"
  proof (cases "?t + dayNs \<le> ?n")
    case True
    then show ?thesis using dailyLoop_steps [of "?t + dayNs" ?n] assms(3) a by (simp add: dayNs_def)
  next
    case False
    then show ?thesis by (subst dailyLoop.simps) simp
  qed
  ultimately have "reschedule now x m = schedule (SysTime ?u) x m"
    using assms(4) by (simp add: reschedule_def addI_def)
  then have "\<exists>m'. reschedule now x m = Ret m' \<and> x \<in> set (linked m') \<and> armed (timer m' x) \<and> at m' x = ?u"
    using schedule_new [OF assms(5), of ?u] by (simp add: at_def)
  moreover have "?n \<le> ?u" "?t < ?u" "?n < ?t + dayNs \<or> ?u < ?n + dayNs"
  proof -
    have main: "?n \<le> (if ?t + dayNs \<le> ?n then ?n + r else ?t + dayNs) \<and>
        ?t < (if ?t + dayNs \<le> ?n then ?n + r else ?t + dayNs) \<and>
        (?n < ?t + dayNs \<or> (if ?t + dayNs \<le> ?n then ?n + r else ?t + dayNs) < ?n + dayNs)"
      if "0 \<le> r" "r < dayNs" for r using that a pos by auto
    show "?n \<le> ?u" "?t < ?u" "?n < ?t + dayNs \<or> ?u < ?n + dayNs"
      using main [of "(?t + dayNs - ?n) mod dayNs"] pos_mod_bound [OF pos] pos_mod_sign [OF pos] by blast+
  qed
  moreover have "(?u - ?t) mod dayNs = 0"
  proof (cases "?t + dayNs \<le> ?n")
    case True
    have "(?n + (?t + dayNs - ?n) mod dayNs - ?t) mod dayNs = ((?t + dayNs - ?n) mod dayNs + (?n - ?t)) mod dayNs"
      by (simp add: algebra_simps)
    also have "\<dots> = dayNs mod dayNs" by (simp only: mod_add_left_eq) simp
    finally show ?thesis using True by simp
  qed simp
  ultimately show ?thesis by (elim exE conjE) (auto split: if_splits)
qed

lemma daily_witness:
  "\<exists>m'. reschedule (SysTime (100 * dayNs + 7)) 3 (exTimers\<lparr>linked := []\<rparr>) = Ret m' \<and>
     100 * dayNs + 7 \<le> at m' 3 \<and> (at m' 3 - 30) mod dayNs = 0"
proof -
  have "at (exTimers\<lparr>linked := []\<rparr>) 3 = 30" by (simp add: at_def exTimers_def)
  then show ?thesis
    using daily_next [of "exTimers\<lparr>linked := []\<rparr>" 3 "(SysTime (100 * dayNs + 7))"]
    by (auto simp: exTimers_def dayNs_def)
qed

text \<open>A reoccuring timer whose interval is zero and a one-time timer, both due: the second loop of the
  check steps twice beside the timer it has just put back and so over the end of the multiset, which
  C++ gives no meaning to.\<close>

lemma zero_interval_undefined:
  assumes l: "linked m = [x, w]" "x \<noteq> w" and a: "armed (timer m x)" "armed (timer m w)"
    and k: "kind (timer m x) = ReoccuringTimer (Duration 0)" "kind (timer m w) = OneTimeTimer"
    and t: "at m x \<le> nsecSinceEpoch now" "at m w \<le> nsecSinceEpoch now" "inI64 (nsecSinceEpoch now)"
    and cb: "\<And>h y t. cb h y t = []"
  shows "checkTimers (Suc (Suc (Suc j))) cb now m = Undefined"
proof -
  have d: "due now m = [x, w]" using l t by (simp add: due_def)
  define m1 where "m1 = (disarm {x, w} m)\<lparr>fired := fired m @ [(x, now), (w, now)]\<rparr>"
  have fire: "fireLoop (Suc (Suc (Suc j))) cb now m = Ret m1"
    using fireLoop_due [of now m "[]" "[x, w]" cb "Suc (Suc (Suc j))"] d l a cb by (simp add: m1_def)
  have m1: "linked m1 = [x, w]" "\<not> armed (timer m1 x)" "\<not> armed (timer m1 w)" "kind (timer m1 x) = ReoccuringTimer (Duration 0)"
    "kind (timer m1 w) = OneTimeTimer" "at m1 = at m"
    using l k by (simp_all add: m1_def disarm_def at_def fun_eq_iff)
  let ?m2 = "m1\<lparr>linked := [w]\<rparr>"
  have "\<exists>m3. reschedule now x ?m2 = Ret m3 \<and> linked m3 = [w, x] \<and> armed (timer m3 x) \<and> at m3 x = nsecSinceEpoch now \<and>
      timer m3 w = timer m1 w"
    using reschedule_next [of ?m2 x now "nsecSinceEpoch now"] schedule_new [of x ?m2 "nsecSinceEpoch now"] l m1 t
    by (simp add: nextFire_def addI_def at_def)
  then obtain m3 where m3: "reschedule now x ?m2 = Ret m3" "linked m3 = [w, x]" "armed (timer m3 x)"
    "at m3 x = nsecSinceEpoch now" "timer m3 w = timer m1 w" by blast
  have w: "at m3 w \<le> nsecSinceEpoch now" using m3(5) m1(6) t(2) by (simp add: at_def fun_eq_iff)
  have "rearmLoop (Suc (Suc (Suc j))) now (Some x) m1 = rearmLoop (Suc (Suc j)) now (Some w) m3"
    using m1 m3(1) l t by simp
  also have "\<dots> = rearmLoop (Suc j) now (Some x) (m3\<lparr>linked := [x]\<rparr>)"
    using m1(3,5) m3(2,5) l(2) w by (simp add: reschedule_def not_less)
  also have "\<dots> = Undefined" using m3 by simp
  finally show ?thesis using fire m1(1) by (simp add: checkTimers_def firstTimer_def)
qed

lemma zero_interval_witness:
  "checkTimers 3 (\<lambda>_ _ _. []) (SysTime 100)
     \<lparr>timer = (\<lambda>x. \<lparr>armed = True, fireAt = (SysTime (int x)),
        kind = (if x = 1 then ReoccuringTimer (Duration 0) else OneTimeTimer)\<rparr>), linked = [1, 2], fired = []\<rparr> = Undefined"
  using zero_interval_undefined [of _ 1 2 "(SysTime 100)" "\<lambda>_ _ _. []" 0]
  by (simp add: at_def inI64_def numeral_3_eq_3)

end
