(* ===== verification/Rater.thy ===== *)
theory Rater
  imports TimeTypes
begin

text \<open>
  \<^verbatim>\<open>hmbdc/time/Rater.hpp\<close>: a token bucket that limits how often something is done. \<open>now\<close> is what
  \<^verbatim>\<open>SysTime::now()\<close> returns.
\<close>

record Rater =
  drop_ns :: Duration
  bucket :: Duration
  currentLevel :: Duration
  previousCheck :: SysTime
  enabled :: bool
  lastN :: nat

definition newRater :: "Duration \<Rightarrow> nat \<Rightarrow> nat \<Rightarrow> bool \<Rightarrow> Rater outcome" where
  "newRater d tms burst en =
     obind (durationDiv d (if tms \<noteq> 0 then int tms else 1)) (\<lambda>dr.
       obind (durationMul dr (int burst)) (\<lambda>bk.
         Ret \<lparr>drop_ns = dr, bucket = bk, currentLevel = bk, previousCheck = (SysTime 0),
              enabled = (if en then tms \<noteq> 0 else False), lastN = 0\<rparr>))"

definition checkRater :: "SysTime \<Rightarrow> nat \<Rightarrow> Rater \<Rightarrow> (bool \<times> Rater) outcome" where
  "checkRater now n r =
     (if \<not> enabled r then Ret (True, r)
      else obind (timeDiff now (previousCheck r)) (\<lambda>el.
        obind (durationAdd (currentLevel r) el) (\<lambda>lv.
          let level = (if bucket r < lv then bucket r else lv)
          in obind (durationMul (drop_ns r) (int n)) (\<lambda>need.
            Ret (need \<le> level, r\<lparr>lastN := n, previousCheck := now, currentLevel := level\<rparr>)))))"

definition commitRater :: "Rater \<Rightarrow> Rater outcome" where
  "commitRater r =
     obind (durationMul (drop_ns r) (int (lastN r))) (\<lambda>need.
       obind (durationSub (currentLevel r) need) (\<lambda>lv. Ret (r\<lparr>currentLevel := lv\<rparr>)))"

text \<open>A user: asks, and commits what it is allowed; the answers in order.\<close>

fun runRater :: "(SysTime \<times> nat) list \<Rightarrow> Rater \<Rightarrow> (bool list \<times> Rater) outcome" where
  "runRater [] r = Ret ([], r)"
| "runRater ((now, n) # cs) r =
     obind (checkRater now n r) (\<lambda>(ok, r1).
       obind (if ok then commitRater r1 else Ret r1) (\<lambda>r2.
         obind (runRater cs r2) (\<lambda>(oks, r3). Ret (ok # oks, r3))))"

text \<open>What was let through.\<close>

definition granted :: "(SysTime \<times> nat) list \<Rightarrow> bool list \<Rightarrow> nat" where
  "granted cs oks = sum_list (map (\<lambda>((now, n), ok). if ok then n else 0) (zip cs oks))"

section \<open>Off\<close>

text \<open>A rater that is turned off, as it is by default: it lets everything through and stays as it is.\<close>

definition raterOff :: "Rater \<Rightarrow> bool" where
  "raterOff r \<longleftrightarrow> \<not> enabled r \<and> lastN r = 0 \<and> inI64 (nsec (currentLevel r))"

lemma raterOff_steps:
  assumes "raterOff r"
  shows "checkRater now n r = Ret (True, r)" "commitRater r = Ret r"
proof -
  show "checkRater now n r = Ret (True, r)" using assms by (simp add: raterOff_def checkRater_def)
  have "inI64 0" by (simp add: inI64_def)
  then show "commitRater r = Ret r"
    using assms time_ops(3) [of "drop_ns r" 0] time_ops(2) [of "currentLevel r" "Duration 0"]
    by (simp add: raterOff_def commitRater_def)
qed

section \<open>Levels\<close>

text \<open>An enabled rater whose numbers are in the range the arithmetic allows up to time \<open>T\<close>.\<close>

definition rater_ok :: "int \<Rightarrow> Rater \<Rightarrow> bool" where
  "rater_ok T r \<longleftrightarrow>
     enabled r \<and> 0 \<le> nsec (drop_ns r) \<and> 0 \<le> nsec (currentLevel r) \<and> nsec (currentLevel r) \<le> nsec (bucket r) \<and>
     0 \<le> nsecSinceEpoch (previousCheck r) \<and> nsecSinceEpoch (previousCheck r) \<le> T \<and>
     nsec (bucket r) + T < 2 ^ 63"

lemma check_spec:
  assumes ok: "rater_ok T r" and t: "nsecSinceEpoch (previousCheck r) \<le> nsecSinceEpoch now" "nsecSinceEpoch now \<le> T"
    and n: "inI64 (nsec (drop_ns r) * int n)"
  shows "\<exists>b r1. checkRater now n r = Ret (b, r1) \<and> rater_ok T r1 \<and> previousCheck r1 = now \<and> lastN r1 = n \<and>
     drop_ns r1 = drop_ns r \<and> bucket r1 = bucket r \<and>
     b = (nsec (drop_ns r) * int n \<le> nsec (currentLevel r1)) \<and>
     nsec (currentLevel r1) =
       min (nsec (bucket r)) (nsec (currentLevel r) + (nsecSinceEpoch now - nsecSinceEpoch (previousCheck r)))"
proof -
  let ?el = "nsecSinceEpoch now - nsecSinceEpoch (previousCheck r)"
  have range: "inI64 ?el" "inI64 (nsec (currentLevel r) + ?el)" using ok t by (auto simp: rater_ok_def inI64_def)
  show ?thesis
    using ok t n range time_ops(1) [of "currentLevel r" "(Duration ?el)"] time_ops(3) [of "drop_ns r" "int n"]
      time_ops(6) [of now "previousCheck r"]
    by (auto simp: checkRater_def rater_ok_def less_eq_Duration_def less_Duration_def Let_def)
qed

lemma commit_spec:
  assumes "rater_ok T r" "0 \<le> nsec (drop_ns r) * int (lastN r)" "nsec (drop_ns r) * int (lastN r) \<le> nsec (currentLevel r)"
  shows "\<exists>r1. commitRater r = Ret r1 \<and> rater_ok T r1 \<and> previousCheck r1 = previousCheck r \<and>
     drop_ns r1 = drop_ns r \<and> bucket r1 = bucket r \<and>
     nsec (currentLevel r1) = nsec (currentLevel r) - nsec (drop_ns r) * int (lastN r)"
proof -
  let ?need = "nsec (drop_ns r) * int (lastN r)"
  have "inI64 k" "inI64 (nsec (currentLevel r) - k)" if "0 \<le> k" "k \<le> nsec (currentLevel r)" for k
    using assms(1) that by (auto simp: rater_ok_def inI64_def)
  then have "inI64 ?need" "inI64 (nsec (currentLevel r) - ?need)" using assms(2,3) by blast+
  moreover have "nsec (currentLevel r) - ?need \<le> nsec (bucket r)"
    using assms by (simp only: rater_ok_def) linarith
  ultimately show ?thesis
    using assms time_ops(3) [of "drop_ns r" "int (lastN r)"] time_ops(2) [of "currentLevel r" "(Duration ?need)"]
    by (simp add: commitRater_def rater_ok_def)
qed

text \<open>Questions at times that do not go back, in range.\<close>

fun asked :: "int \<Rightarrow> int \<Rightarrow> int \<Rightarrow> (SysTime \<times> nat) list \<Rightarrow> bool" where
  "asked T dr t [] \<longleftrightarrow> True"
| "asked T dr t ((now, n) # cs) \<longleftrightarrow>
     t \<le> nsecSinceEpoch now \<and> nsecSinceEpoch now \<le> T \<and> inI64 (dr * int n) \<and> asked T dr (nsecSinceEpoch now) cs"

lemma run_levels:
  "rater_ok T r \<Longrightarrow> asked T (nsec (drop_ns r)) (nsecSinceEpoch (previousCheck r)) cs \<Longrightarrow>
   \<exists>oks r1. runRater cs r = Ret (oks, r1) \<and> rater_ok T r1 \<and> length oks = length cs \<and>
     nsec (drop_ns r) * int (granted cs oks) + nsec (currentLevel r1) \<le>
       nsec (currentLevel r) + (nsecSinceEpoch (previousCheck r1) - nsecSinceEpoch (previousCheck r)) \<and>
     previousCheck r1 = (if cs = [] then previousCheck r else fst (last cs))"
proof (induction cs arbitrary: r)
  case Nil
  then show ?case by (simp add: granted_def)
next
  case (Cons c cs)
  obtain now n where c: "c = (now, n)" by fastforce
  have q: "nsecSinceEpoch (previousCheck r) \<le> nsecSinceEpoch now" "nsecSinceEpoch now \<le> T"
    "inI64 (nsec (drop_ns r) * int n)" "asked T (nsec (drop_ns r)) (nsecSinceEpoch now) cs"
    using Cons.prems(2) by (simp_all add: c)
  obtain b r1 where r1: "checkRater now n r = Ret (b, r1)" "rater_ok T r1" "previousCheck r1 = now" "lastN r1 = n"
    "drop_ns r1 = drop_ns r" "bucket r1 = bucket r" "b = (nsec (drop_ns r) * int n \<le> nsec (currentLevel r1))"
    "nsec (currentLevel r1) \<le> nsec (currentLevel r) + (nsecSinceEpoch now - nsecSinceEpoch (previousCheck r))"
    using check_spec [OF Cons.prems(1) q(1-3)] by auto
  have d0: "0 \<le> nsec (drop_ns r) * int n" using Cons.prems(1) by (simp add: rater_ok_def)
  obtain r2 where r2: "(if b then commitRater r1 else Ret r1) = Ret r2" "rater_ok T r2" "previousCheck r2 = now"
    "drop_ns r2 = drop_ns r" "nsec (currentLevel r2) = nsec (currentLevel r1) - (if b then nsec (drop_ns r) * int n else 0)"
    using commit_spec [OF r1(2)] r1 d0 by (cases b) auto
  obtain oks r3 where r3: "runRater cs r2 = Ret (oks, r3)" "rater_ok T r3" "length oks = length cs"
    "nsec (drop_ns r) * int (granted cs oks) + nsec (currentLevel r3) \<le>
       nsec (currentLevel r2) + (nsecSinceEpoch (previousCheck r3) - nsecSinceEpoch now)"
    "previousCheck r3 = (if cs = [] then now else fst (last cs))"
    using Cons.IH [OF r2(2)] q(4) r2 by auto
  have "granted (c # cs) (b # oks) = (if b then n else 0) + granted cs oks" by (simp add: granted_def c)
  then have "nsec (drop_ns r) * int (granted (c # cs) (b # oks)) + nsec (currentLevel r3) \<le>
      nsec (currentLevel r) + (nsecSinceEpoch (previousCheck r3) - nsecSinceEpoch (previousCheck r))"
    using r3(4) r2(5) r1(8) by (cases b) (simp_all add: distrib_left)
  then show ?case using r1(1) r2(1) r3 by (auto simp: c)
qed

section \<open>Properties\<close>

text \<open>C32: the bound of a token bucket. Over any stretch of questions at times that do not go back, each
  committed when allowed, the time that what was let through is worth is at most the bucket plus
  the time that passed; no overflow happens and no answer is missing.\<close>

lemma rater_bound:
  assumes "rater_ok T r" "asked T (nsec (drop_ns r)) (nsecSinceEpoch (previousCheck r)) (cs @ [(now, n)])"
  shows "\<exists>oks r1. runRater (cs @ [(now, n)]) r = Ret (oks, r1) \<and> length oks = length cs + 1 \<and>
     nsec (drop_ns r) * int (granted (cs @ [(now, n)]) oks) \<le>
       nsec (bucket r) + (nsecSinceEpoch now - nsecSinceEpoch (previousCheck r))"
proof -
  obtain oks r1 where r: "runRater (cs @ [(now, n)]) r = Ret (oks, r1)" "rater_ok T r1" "length oks = length cs + 1"
    "nsec (drop_ns r) * int (granted (cs @ [(now, n)]) oks) + nsec (currentLevel r1) \<le>
       nsec (currentLevel r) + (nsecSinceEpoch now - nsecSinceEpoch (previousCheck r))"
    using run_levels [OF assms] by auto
  then show ?thesis using assms(1) by (auto simp: rater_ok_def)
qed

definition exRater :: Rater where
  "exRater = \<lparr>drop_ns = (Duration 100), bucket = (Duration 200), currentLevel = (Duration 200),
     previousCheck = (SysTime 1000), enabled = True, lastN = 0\<rparr>"

definition exAsked :: "(SysTime \<times> nat) list" where
  "exAsked = [((SysTime 1000), 2), ((SysTime 1050), 1)]"

lemma rater_witness:
  "\<exists>oks r1. runRater (exAsked @ [((SysTime 1130), 1)]) exRater = Ret (oks, r1) \<and> length oks = 3 \<and>
     nsec (drop_ns exRater) * int (granted (exAsked @ [((SysTime 1130), 1)]) oks) \<le> 330"
proof -
  have ok: "rater_ok 2000 exRater" by (simp add: rater_ok_def exRater_def)
  have "asked 2000 (nsec (drop_ns exRater)) (nsecSinceEpoch (previousCheck exRater))
      (exAsked @ [((SysTime 1130), 1)])"
    by (simp add: exRater_def exAsked_def inI64_def)
  from rater_bound [OF ok this] have "\<exists>oks r1. runRater (exAsked @ [((SysTime 1130), 1)]) exRater = Ret (oks, r1) \<and>
     length oks = length exAsked + 1 \<and>
     nsec (drop_ns exRater) * int (granted (exAsked @ [((SysTime 1130), 1)]) oks) \<le> 200 + (1130 - 1000)"
    by (simp add: exRater_def)
  moreover have "length exAsked = 2" by (simp add: exAsked_def)
  ultimately show ?thesis by auto
qed

end
