(* ===== verification/TcpSend.thy ===== *)
theory TcpSend
  imports BackupSendSession MemRingBuffer0
begin

text \<open>
  \<^verbatim>\<open>hmbdc/tips/tcpcast/SendSession.hpp\<close> and \<^verbatim>\<open>SendServer.hpp\<close>: the sessions of a TCP sender and the
  server that keeps them. All sessions share one queue of batches; each has an index into it. A
  batch is a list of pointers into the sender's ring (and at attachments), so what a session sends
  is what the memory holds when \<^verbatim>\<open>sendmsg\<close> is called. The sockets are the environment.
\<close>

section \<open>Memory\<close>

text \<open>An offset in the value of a slot of the ring, or in the block a pointer points to.\<close>

datatype Address = InSlot u64 nat | InHeap u64 nat

fun addrPlus :: "Address \<Rightarrow> nat \<Rightarrow> Address" where
  "addrPlus (InSlot i k) n = InSlot i (k + n)"
| "addrPlus (InHeap p k) n = InHeap p (k + n)"

record iovec =
  iov_base :: Address
  iov_len :: nat

text \<open>\<open>heap p\<close> are the bytes from the pointer \<open>p\<close> on.\<close>

fun readAt :: "chunk_base_ptr \<Rightarrow> (u64 \<Rightarrow> bytes) \<Rightarrow> Address \<Rightarrow> bytes" where
  "readAt c heap (InSlot i k) = drop k (slotData (space c ! unat i))"
| "readAt c heap (InHeap p k) = drop k (heap p)"

definition readVec :: "chunk_base_ptr \<Rightarrow> (u64 \<Rightarrow> bytes) \<Rightarrow> iovec \<Rightarrow> bytes" where
  "readVec c heap v = take (iov_len v) (readAt c heap (iov_base v))"

definition vecBytes :: "iovec list \<Rightarrow> nat" where
  "vecBytes vs = sum_list (map iov_len vs)"

text \<open>\<^verbatim>\<open>extractRelicTo\<close> on the pointers: the vector that is left after \<open>sent\<close> bytes.\<close>

fun skipVecs :: "iovec list \<Rightarrow> nat \<Rightarrow> iovec list \<times> nat" where
  "skipVecs [] l = ([], l)"
| "skipVecs (v # vs) l = (if 0 < l \<and> iov_len v \<le> l then skipVecs vs (l - iov_len v) else (v # vs, l))"

definition extractRelicVecs :: "iovec list \<Rightarrow> nat \<Rightarrow> iovec list outcome" where
  "extractRelicVecs from sent = (case skipVecs from sent of
     ([], l) \<Rightarrow> Undefined
   | (v # vs, l) \<Rightarrow> Ret (\<lparr>iov_base = addrPlus (iov_base v) l, iov_len = iov_len v - l\<rparr> # vs))"

section \<open>A session\<close>

text \<open>An element of \<^verbatim>\<open>ToSendQueue\<close>: the tag, the pointers, their bytes, the end iterator.\<close>

record QueuedBatch =
  qbTag :: u16
  qbToSend :: "iovec list"
  qbBytes :: u64
  qbEnd :: lf_iterator

text \<open>
  \<open>tssData\<close> is \<open>data_[0 ..< readLen_]\<close>; \<^verbatim>\<open>msghdr_\<close> is set before each use and has no state. \<open>tssId\<close>
  stands for the object's identity (the file descriptor).
\<close>

record SendSession =
  tssId :: nat
  tssSubs :: TypeTagSet
  tssData :: string
  tssReady :: bool
  tssIndex :: nat
  tssRelic :: "iovec list"
  tssRelicSize :: u64

definition newSendSession :: "nat \<Rightarrow> SendSession" where
  "newSendSession fd = \<lparr>tssId = fd, tssSubs = newTypeTagSet, tssData = [], tssReady = False, tssIndex = 0,
     tssRelic = [], tssRelicSize = 0\<rparr>"

text \<open>
  One command, the bytes before the tab, which is overwritten with a null byte; \<open>rest\<close> is what
  follows it. The string starts at the second byte; after a lone tab that byte is in \<open>rest\<close>.
\<close>

definition tcpCommand ::
    "string \<Rightarrow> string \<Rightarrow> SendSession \<Rightarrow> TypeTagSet \<Rightarrow> (bool \<times> SendSession \<times> TypeTagSet) outcome" where
  "tcpCommand line rest s out =
     (case line of
        [] \<Rightarrow> (case rest of [] \<Rightarrow> Undefined
              | c # _ \<Rightarrow> if c = NUL then Ret (True, s\<lparr>tssReady := True\<rparr>, out) else Ret (False, s, out))
      | c # cs \<Rightarrow>
          (let t = takeWhile (\<lambda>x. x \<noteq> NUL) cs
           in if t = [] then Ret (True, s\<lparr>tssReady := True\<rparr>, out)
              else if c = CHR ''+''
              then obind (stoi t) (\<lambda>v. let tag = word_of_int v in
                     case tagSet (tssSubs s) tag of (new, subs) \<Rightarrow>
                       Ret (True, s\<lparr>tssSubs := subs\<rparr>, if new then snd (tagAdd out tag) else out))
              else if c = CHR ''-''
              then obind (stoi t) (\<lambda>v. let tag = word_of_int v in
                     case tagUnset (tssSubs s) tag of (old, subs) \<Rightarrow>
                       Ret (True, s\<lparr>tssSubs := subs\<rparr>, if old then snd (tagSub out tag) else out))
              else Ret (False, s, out)))"

function tcpCommands ::
    "string \<Rightarrow> SendSession \<Rightarrow> TypeTagSet \<Rightarrow> (bool \<times> SendSession \<times> TypeTagSet) outcome" where
  "tcpCommands buf s out =
     (if TAB \<in> set buf
      then let line = takeWhile (\<lambda>c. c \<noteq> TAB) buf; rest = tl (dropWhile (\<lambda>c. c \<noteq> TAB) buf)
           in obind (tcpCommand line rest s out) (\<lambda>(ok, s1, out1).
                if ok then tcpCommands rest s1 out1 else Ret (False, s1\<lparr>tssData := buf\<rparr>, out1))
      else Ret (True, s\<lparr>tssData := buf\<rparr>, out))"
  by auto
termination
proof (relation "measure (\<lambda>(buf, s, out). length buf)")
  fix buf rest :: string and s s1 :: SendSession and out out1 :: TypeTagSet
  assume "TAB \<in> set buf" "rest = tl (dropWhile (\<lambda>c. c \<noteq> TAB) buf)"
  then show "((rest, s1, out1), buf, s, out) \<in> measure (\<lambda>(buf, s, out). length buf)"
    using rest_shorter by simp
qed simp

declare tcpCommands.simps [simp del]

text \<open>
  \<^verbatim>\<open>doRead\<close>. The end of the stream (\<open>PeerDropped\<close>, \<^verbatim>\<open>recv\<close> returns 0) is not told from an empty
  read.
\<close>

definition tcpDoRead ::
    "string RecvResult \<Rightarrow> SendSession \<Rightarrow> TypeTagSet \<Rightarrow> (bool \<times> SendSession \<times> TypeTagSet) outcome" where
  "tcpDoRead r s out =
     (case r of
        RecvError \<Rightarrow> Ret (False, s, out)
      | Received chunk \<Rightarrow> tcpCommands (tssData s @ chunk) s out
      | _ \<Rightarrow> tcpCommands (tssData s) s out)"

text \<open>
  The loop over the queue. \<open>writable\<close> is whether the socket is ready for writing; a write that finds
  it full ends the loop. \<open>rs\<close> are the results of the coming \<^verbatim>\<open>sendmsg\<close> calls. The bytes the
  connection takes are returned.
\<close>

function tcpSendQueue ::
    "(iovec \<Rightarrow> bytes) \<Rightarrow> bool \<Rightarrow> SendResult list \<Rightarrow> QueuedBatch list \<Rightarrow> SendSession
       \<Rightarrow> (bool \<times> bytes \<times> SendSession) outcome" where
  "tcpSendQueue mem writable rs q s =
     (if tssRelicSize s \<noteq> 0 \<or> \<not> writable \<or> tssIndex s = length q then Ret (True, [], s)
      else if length q < tssIndex s then Undefined
      else let e = q ! tssIndex s
           in if tagCheck (tssSubs s) (qbTag e) = 0
              then tcpSendQueue mem writable rs q (s\<lparr>tssIndex := tssIndex s + 1\<rparr>)
              else (case rs of
                      [] \<Rightarrow> Ret (True, [], s)
                    | TryAgain # _ \<Rightarrow> Ret (True, [], s)
                    | SendError # _ \<Rightarrow> Ret (False, [], s)
                    | Room room # rs' \<Rightarrow>
                        (let l = min room (vecBytes (qbToSend e));
                             bs = take l (concat (map mem (qbToSend e)));
                             s1 = s\<lparr>tssRelicSize := qbBytes e - of_nat l\<rparr>
                         in if tssRelicSize s1 \<noteq> 0
                            then obind (extractRelicVecs (qbToSend e) l)
                                   (\<lambda>r. Ret (True, bs, s1\<lparr>tssRelic := r\<rparr>))
                            else obind (tcpSendQueue mem writable rs' q (s1\<lparr>tssIndex := tssIndex s1 + 1\<rparr>))
                                   (\<lambda>(ok, bs', s2). Ret (ok, bs @ bs', s2)))))"
  by auto
termination
  by (relation "measure (\<lambda>(mem, w, rs, q, s). length q - tssIndex s)") auto

declare tcpSendQueue.simps [simp del]

text \<open>
  What is left of a batch first; the last flag says whether the loop over the queue follows. A relic
  that went out in full stays in the code's array and is not read again; here it becomes empty.
\<close>

definition tcpSendRelic ::
    "(iovec \<Rightarrow> bytes) \<Rightarrow> SendResult list \<Rightarrow> SendSession \<Rightarrow> (bool \<times> bytes \<times> SendResult list \<times> SendSession \<times> bool) outcome" where
  "tcpSendRelic mem rs s = (case rs of
     [] \<Rightarrow> Ret (True, [], [], s, False)
   | TryAgain # rs' \<Rightarrow> Ret (True, [], rs', s, False)
   | SendError # rs' \<Rightarrow> Ret (False, [], rs', s, False)
   | Room room # rs' \<Rightarrow>
       (let l = min room (vecBytes (tssRelic s));
            bs = take l (concat (map mem (tssRelic s)));
            s1 = s\<lparr>tssRelicSize := tssRelicSize s - of_nat l\<rparr>
        in if tssRelicSize s1 \<noteq> 0
           then obind (extractRelicVecs (tssRelic s) l) (\<lambda>r. Ret (True, bs, rs', s1\<lparr>tssRelic := r\<rparr>, False))
           else Ret (True, bs, rs', s1\<lparr>tssIndex := tssIndex s1 + 1, tssRelic := []\<rparr>, True)))"

text \<open>
  What the environment does in one call: what \<^verbatim>\<open>recv\<close> brings, whether the socket is ready for
  writing at the two tests (once it is, it stays so), and what the writes do.
\<close>

record SessionInput =
  inRecv :: "string RecvResult"
  inReady1 :: bool
  inReady2 :: bool
  inSends :: "SendResult list"

definition tcpSessionRunOnce ::
    "(iovec \<Rightarrow> bytes) \<Rightarrow> SessionInput \<Rightarrow> QueuedBatch list \<Rightarrow> SendSession \<Rightarrow> TypeTagSet
       \<Rightarrow> (bool \<times> bytes \<times> SendSession \<times> TypeTagSet) outcome" where
  "tcpSessionRunOnce mem i q s out =
     obind (tcpDoRead (inRecv i) s out) (\<lambda>(ok, s1, out1).
       if \<not> ok then Ret (False, [], s1, out1)
       else let w = inReady1 i \<or> inReady2 i
            in if inReady1 i \<and> tssRelicSize s1 \<noteq> 0
               then obind (tcpSendRelic mem (inSends i) s1) (\<lambda>(ok, bs, rs', s2, more).
                      if \<not> ok \<or> \<not> more then Ret (ok, bs, s2, out1)
                      else obind (tcpSendQueue mem w rs' q s2) (\<lambda>(ok, bs', s3). Ret (ok, bs @ bs', s3, out1)))
               else obind (tcpSendQueue mem w (inSends i) q s1) (\<lambda>(ok, bs, s2). Ret (ok, bs, s2, out1)))"

text \<open>The destructor.\<close>

definition tcpRetire :: "SendSession \<Rightarrow> TypeTagSet \<Rightarrow> TypeTagSet" where
  "tcpRetire s out = fold (\<lambda>(tag, c) o'. snd (tagSub o' tag)) (exportTags (tssSubs s)) out"

section \<open>The server\<close>

text \<open>The sessions in the order the hash set is walked; a new one is put last.\<close>

record SendServer =
  svSessions :: "SendSession list"
  svQueue :: "QueuedBatch list"
  svCapacity :: nat

definition newSendServer :: "nat \<Rightarrow> SendServer" where
  "newSendServer cap = \<lparr>svSessions = [], svQueue = [], svCapacity = cap\<rparr>"

definition serverQueue :: "u16 \<Rightarrow> iovec list \<Rightarrow> u64 \<Rightarrow> lf_iterator \<Rightarrow> SendServer \<Rightarrow> SendServer" where
  "serverQueue tag vs n it sv =
     sv\<lparr>svQueue := pushCircular (svCapacity sv) (svQueue sv)
         \<lparr>qbTag = tag, qbToSend = vs, qbBytes = n, qbEnd = it\<rparr>\<rparr>"

text \<open>\<^verbatim>\<open>doAccept\<close>: \<open>conn\<close> is the connection taken and made a session of, if any.\<close>

definition doAccept :: "nat option \<Rightarrow> SendServer \<Rightarrow> SendServer" where
  "doAccept conn sv = (case conn of None \<Rightarrow> sv
     | Some fd \<Rightarrow> sv\<lparr>svSessions := svSessions sv @ [newSendSession fd]\<rparr>)"

text \<open>The walk over the sessions: the least index before each one ran, what each sent.\<close>

fun runSessions ::
    "(iovec \<Rightarrow> bytes) \<Rightarrow> (nat \<Rightarrow> SessionInput) \<Rightarrow> QueuedBatch list \<Rightarrow> SendSession list \<Rightarrow> nat \<Rightarrow> TypeTagSet
       \<Rightarrow> (nat \<times> (nat \<times> bytes) list \<times> SendSession list \<times> TypeTagSet) outcome" where
  "runSessions mem inp q [] m out = Ret (m, [], [], out)"
| "runSessions mem inp q (s # ss) m out =
     obind (tcpSessionRunOnce mem (inp (tssId s)) q s out) (\<lambda>(ok, bs, s1, out1).
       obind (runSessions mem inp q ss (min m (tssIndex s)) (if ok then out1 else tcpRetire s1 out1))
         (\<lambda>(m', sent, ss', out2). Ret (m', (tssId s, bs) # sent, (if ok then s1 # ss' else ss'), out2)))"

definition serverRunOnce ::
    "(iovec \<Rightarrow> bytes) \<Rightarrow> nat option \<Rightarrow> (nat \<Rightarrow> SessionInput) \<Rightarrow> lf_iterator \<Rightarrow> lf_iterator \<Rightarrow> SendServer \<Rightarrow> TypeTagSet
       \<Rightarrow> (lf_iterator \<times> (nat \<times> bytes) list \<times> SendServer \<times> TypeTagSet) outcome" where
  "serverRunOnce mem conn inp begin end sv out =
     (let sv1 = doAccept conn sv
      in if svSessions sv1 = [] then Ret (end, [], sv1\<lparr>svQueue := []\<rparr>, out)
         else obind (runSessions mem inp (svQueue sv1) (svSessions sv1) (length (svQueue sv1)) out)
           (\<lambda>(m, sent, ss, out1).
              if m = 0 then Ret (begin, sent, sv1\<lparr>svSessions := ss\<rparr>, out1)
              else Ret (qbEnd (svQueue sv1 ! (m - 1)), sent,
                sv1\<lparr>svSessions := map (\<lambda>s. s\<lparr>tssIndex := tssIndex s - m\<rparr>) ss,
                    svQueue := drop m (svQueue sv1)\<rparr>, out1)))"

definition readySessionCount :: "SendServer \<Rightarrow> nat" where
  "readySessionCount sv = length (filter tssReady (svSessions sv))"

fun killFirstStuck :: "SendSession list \<Rightarrow> SendSession option \<times> SendSession list" where
  "killFirstStuck [] = (None, [])"
| "killFirstStuck (s # ss) =
     (if tssIndex s = 0 then (Some s, ss)
      else case killFirstStuck ss of (k, ss') \<Rightarrow> (k, s # ss'))"

definition killSlowestSession :: "SendServer \<Rightarrow> TypeTagSet \<Rightarrow> SendServer \<times> TypeTagSet" where
  "killSlowestSession sv out =
     (case killFirstStuck (svSessions sv) of (k, ss) \<Rightarrow>
        (sv\<lparr>svSessions := ss\<rparr>, case k of None \<Rightarrow> out | Some s \<Rightarrow> tcpRetire s out))"

end
