(* ===== verification/TcpEngine.thy ===== *)
theory TcpEngine
  imports TcpSend Rater
begin

text \<open>
  \<^verbatim>\<open>hmbdc/tips/tcpcast/SendTransportEngine.hpp\<close>: the sending end of the TCP transport. Publishers
  put messages into a \<^verbatim>\<open>MonoLockFreeBuffer\<close> (a facade of \<^verbatim>\<open>MemRingBuffer<0>\<close>); the engine
  peeks at them, groups neighbours of one tag into batches for its server and gives the slots back
  when all sessions have passed. Memory behind pointers is an argument, as are the clock and the
  sockets. The multicast of advertisements is a transport of its own.
\<close>

section \<open>The buffer's facade\<close>

text \<open>\<^verbatim>\<open>new (*s) T(args...)\<close>: the object's bytes go to the slot's value.\<close>

definition constructAt :: "MemRingBuffer0 \<Rightarrow> lf_iterator \<Rightarrow> bytes \<Rightarrow> MemRingBuffer0 outcome" where
  "constructAt b it item =
     (if length item \<le> VALUE_TYPE_SIZE0 b
      then Ret (b\<lparr>buffer0 := copyIn (buffer0 b) (chunkMinus (iterDeref (buffer0 b) it) (buffer0 b)) item (length item)\<rparr>)
      else Undefined)"

definition putInPlace :: "MemRingBuffer0 \<Rightarrow> bytes \<Rightarrow> MemRingBuffer0 outcome" where
  "putInPlace b item =
     obind (claim0 b) (\<lambda>(it, b1). obind (constructAt b1 it item) (\<lambda>b2. Ret (commit0 b2 it)))"

definition tryPutInPlace :: "MemRingBuffer0 \<Rightarrow> bytes \<Rightarrow> (bool \<times> MemRingBuffer0) outcome" where
  "tryPutInPlace b item =
     (case tryClaim0 b of (it, b1) \<Rightarrow>
        if \<not> start it then Ret (False, b1)
        else obind (constructAt b1 it item) (\<lambda>b2. Ret (True, commit0 b2 it)))"

section \<open>Items of the buffer\<close>

text \<open>
  \<^verbatim>\<open>NetWrap\<close>, packed: the transport header (flag, payload length), the message head, whose
  scratchpad repeats the flag in its fifth byte, and the message. \<open>body\<close> is the message as it is
  queued, its time stamp included.
\<close>

definition netWrap :: "u8 \<Rightarrow> u16 \<Rightarrow> bytes \<Rightarrow> bytes" where
  "netWrap flag tag body = wireBytes \<lparr>wFlag = flag, wSeq = push_bit 32 (ucast flag), wTag = tag, wBody = body, wInband = 0\<rparr>"

text \<open>
  The accessors of \<^verbatim>\<open>TransportMessageHeader\<close>, and of the attachment that is the first base of a
  wrapped message: the cleanup function, the pointer, the length.
\<close>

definition itemFlag :: "bytes \<Rightarrow> u8" where "itemFlag d = hd d"
definition itemWireSize :: "bytes \<Rightarrow> nat" where "itemWireSize d = 3 + leVal (take 2 (drop 1 d))"
definition itemTypeTag :: "bytes \<Rightarrow> u16" where "itemTypeTag d = of_nat (leVal (take 2 (drop 9 d)))"
definition attCleanupOf :: "bytes \<Rightarrow> u64" where "attCleanupOf d = of_nat (leVal (take 8 (drop 11 d)))"
definition attPtrOf :: "bytes \<Rightarrow> u64" where "attPtrOf d = of_nat (leVal (take 8 (drop 19 d)))"
definition attLenOf :: "bytes \<Rightarrow> nat" where "attLenOf d = leVal (take 8 (drop 27 d))"

section \<open>The engine\<close>

record TcpEngine =
  teMaxMessageSize :: u64
  teMinRecv :: u64
  teBuffer :: MemRingBuffer0
  teRater :: Rater
  teOutbound :: TypeTagSet
  teMtu :: u64
  teMaxSendBatch :: u64
  teWaitForSlow :: bool
  teBegin :: lf_iterator
  teServer :: SendServer
  teLastSeq :: u64

text \<open>The constructor; \<open>mtu\<close> is the configured one, less 20 bytes for each of the two headers.\<close>

definition newTcpEngine ::
    "u64 \<Rightarrow> u64 \<Rightarrow> MemRingBuffer0 \<Rightarrow> Rater \<Rightarrow> u64 \<Rightarrow> u64 \<Rightarrow> bool \<Rightarrow> TcpEngine" where
  "newTcpEngine maxSize minRecv b rt mtu batch wait =
     (case peek0 b 0 of ((it, e, n), b1) \<Rightarrow>
        \<lparr>teMaxMessageSize = maxSize, teMinRecv = minRecv, teBuffer = b1, teRater = rt, teOutbound = newTypeTagSet,
         teMtu = mtu - 20 - 20, teMaxSendBatch = batch, teWaitForSlow = wait, teBegin = it,
         teServer = newSendServer (unat (CAPACITY0 b)), teLastSeq = 0\<rparr>)"

section \<open>Publishers\<close>

text \<open>
  A message that nobody wants is dropped at once, and its attachment released (\<open>att\<close> is the pointer
  of an attachment that has a cleanup function). The list returned are the attachments released.
\<close>

definition unwanted :: "TcpEngine \<Rightarrow> u16 \<Rightarrow> bool" where
  "unwanted e tag \<longleftrightarrow> teMinRecv e = 0 \<and> tagCheck (teOutbound e) tag = 0"

definition tcpQueue ::
    "u8 \<Rightarrow> u16 \<Rightarrow> bytes \<Rightarrow> u64 option \<Rightarrow> TcpEngine \<Rightarrow> (u64 list \<times> TcpEngine) outcome" where
  "tcpQueue flag tag body att e =
     (if unwanted e tag then Ret (case att of None \<Rightarrow> [] | Some p \<Rightarrow> [p], e)
      else if of_nat (length body) \<le> teMaxMessageSize e
      then obind (putInPlace (teBuffer e) (netWrap flag tag body)) (\<lambda>b. Ret ([], e\<lparr>teBuffer := b\<rparr>))
      else Throw OutOfRange)"

definition tcpTryQueue ::
    "u8 \<Rightarrow> u16 \<Rightarrow> bytes \<Rightarrow> u64 option \<Rightarrow> TcpEngine \<Rightarrow> (bool \<times> u64 list \<times> TcpEngine) outcome" where
  "tcpTryQueue flag tag body att e =
     (if unwanted e tag then Ret (True, case att of None \<Rightarrow> [] | Some p \<Rightarrow> [p], e)
      else if of_nat (length body) \<le> teMaxMessageSize e
      then obind (tryPutInPlace (teBuffer e) (netWrap flag tag body)) (\<lambda>(ok, b). Ret (ok, [], e\<lparr>teBuffer := b\<rparr>))
      else Throw OutOfRange)"

text \<open>\<^verbatim>\<open>queueJustBytes\<close> tries once and does not look at the answer.\<close>

definition queueJustBytes ::
    "u16 \<Rightarrow> bytes \<Rightarrow> u64 option \<Rightarrow> TcpEngine \<Rightarrow> (u64 list \<times> TcpEngine) outcome" where
  "queueJustBytes tag body att e =
     (if unwanted e tag then Ret (case att of None \<Rightarrow> [] | Some p \<Rightarrow> [p], e)
      else if of_nat (length body) \<le> teMaxMessageSize e
      then obind (tryPutInPlace (teBuffer e) (netWrap (case att of None \<Rightarrow> 0 | Some p \<Rightarrow> 1) tag body))
             (\<lambda>(ok, b). Ret ([], e\<lparr>teBuffer := b\<rparr>))
      else Throw OutOfRange)"

definition stopTransport :: "TcpEngine \<Rightarrow> TcpEngine" where
  "stopTransport e = e\<lparr>teBuffer := reset0 (teBuffer e)\<rparr>"

section \<open>One round\<close>

text \<open>The variables of the loop that makes batches.\<close>

record Batching =
  baIt :: lf_iterator
  baTag :: u16
  baSize :: u64
  baVecs :: "iovec list"
  baRater :: Rater
  baServer :: SendServer

text \<open>What the loop does with an item that is allowed: \<open>i\<close> is its slot, \<open>d\<close> what is in it.\<close>

definition addItem :: "u64 \<Rightarrow> bytes \<Rightarrow> Batching \<Rightarrow> Batching" where
  "addItem i d st =
     (let v = \<lparr>iov_base = InSlot i 0, iov_len = itemWireSize d\<rparr>;
          st1 = st\<lparr>baIt := iterInc (baIt st)\<rparr>;
          st2 = (if baTag st1 = 0
                 then st1\<lparr>baTag := itemTypeTag d, baSize := of_nat (itemWireSize d), baVecs := baVecs st1 @ [v]\<rparr>
                 else if itemTypeTag d = baTag st1
                 then st1\<lparr>baSize := baSize st1 + of_nat (itemWireSize d), baVecs := baVecs st1 @ [v]\<rparr>
                 else st1\<lparr>baServer := serverQueue (baTag st1) (baVecs st1) (baSize st1) (baIt st1) (baServer st1),
                          baTag := itemTypeTag d, baSize := of_nat (itemWireSize d), baVecs := [v]\<rparr>)
      in if itemFlag d = 1
         then st2\<lparr>baVecs := baVecs st2 @ [\<lparr>iov_base = InHeap (attPtrOf d) 0, iov_len = attLenOf d\<rparr>],
                  baSize := baSize st2 + of_nat (attLenOf d)\<rparr>
         else st2)"

text \<open>The loop; \<open>clock\<close> gives the time at which the item with so many left is looked at.\<close>

function batchLoop :: "u64 \<Rightarrow> (nat \<Rightarrow> SysTime) \<Rightarrow> chunk_base_ptr \<Rightarrow> lf_iterator \<Rightarrow> Batching \<Rightarrow> Batching outcome" where
  "batchLoop mtu clock c end st =
     (if iterEq (baIt st) end then Ret st
      else let i = seq (baIt st) AND chunkMASK c; d = slotData (space c ! unat i)
           in obind (checkRater (clock (unat (iterMinus end (baIt st)))) (itemWireSize d) (baRater st)) (\<lambda>(ok, rt).
                let st1 = st\<lparr>baRater := rt\<rparr>
                in if \<not> ok then Ret st1
                   else if itemFlag d = 0 \<and> mtu < baSize st1 + of_nat (itemWireSize d) then Ret st1
                   else let st2 = addItem i d st1
                        in obind (commitRater (baRater st2)) (\<lambda>rt'. batchLoop mtu clock c end (st2\<lparr>baRater := rt'\<rparr>))))"
  by auto
termination
proof (relation "measure (\<lambda>(mtu, clock, c, end, st). unat (iterMinus end (baIt st)))")
  fix mtu clock c fin st i d x ok rt st1 st2 rt'
  assume "\<not> iterEq (baIt st) fin" "st1 = st\<lparr>baRater := rt\<rparr>" "st2 = addItem i d st1"
  then have "seq fin - seq (baIt st) \<noteq> 0" "seq (baIt st2) = seq (baIt st) + 1"
    by (simp_all add: iterEq_def addItem_def Let_def iterInc_def)
  then have "unat (seq fin - seq (baIt st2)) < unat (seq fin - seq (baIt st))"
    using unat_minus_one [of "seq fin - seq (baIt st)"] by (simp add: diff_diff_eq unat_gt_0)
  then show "((mtu, clock, c, fin, st2\<lparr>baRater := rt'\<rparr>), mtu, clock, c, fin, st)
      \<in> measure (\<lambda>(mtu, clock, c, end, st). unat (iterMinus end (baIt st)))"
    by (simp add: iterMinus_def)
qed simp

declare batchLoop.simps [simp del]

text \<open>
  Releasing the attachments of \<open>n\<close> items from sequence number \<open>s\<close> on: the cleanup function is called
  and both pointers in the slot are cleared.
\<close>

definition releaseItem :: "MemRingBuffer0 \<Rightarrow> u64 \<Rightarrow> u64 list \<times> MemRingBuffer0" where
  "releaseItem b s =
     (let i = s AND MASK0 b; d = slotData (space (buffer0 b) ! unat i)
      in if itemFlag d = 1 \<and> attCleanupOf d \<noteq> 0
         then ([attPtrOf d], b\<lparr>buffer0 := copyIn (buffer0 b) i (take 11 d @ replicate 16 0) 27\<rparr>)
         else ([], b))"

fun releaseItems :: "MemRingBuffer0 \<Rightarrow> u64 \<Rightarrow> nat \<Rightarrow> u64 list \<times> MemRingBuffer0" where
  "releaseItems b s 0 = ([], b)"
| "releaseItems b s (Suc n) =
     (case releaseItem b s of (l, b1) \<Rightarrow> case releaseItems b1 (s + 1) n of (l', b2) \<Rightarrow> (l @ l', b2))"

text \<open>What the world does in a round, and what it sees of it.\<close>

record RoundInput =
  riHeap :: "u64 \<Rightarrow> bytes"
  riClock :: "nat \<Rightarrow> SysTime"
  riConn :: "nat option"
  riInput :: "nat \<Rightarrow> SessionInput"

record RoundOutput =
  roSent :: "(nat \<times> bytes) list"
  roReleased :: "u64 list"

definition started :: "TcpEngine \<Rightarrow> bool" where
  "started e \<longleftrightarrow> teMinRecv e = 0 \<or> teMinRecv e \<le> of_nat (readySessionCount (teServer e))"

definition finishBatch :: "Batching \<Rightarrow> SendServer" where
  "finishBatch st =
     (if baVecs st = [] then baServer st
      else serverQueue (baTag st) (baVecs st) (baSize st) (baIt st) (baServer st))"

definition engineRunOnce :: "RoundInput \<Rightarrow> TcpEngine \<Rightarrow> (RoundOutput \<times> TcpEngine) outcome" where
  "engineRunOnce ri e =
     (let e1 = (if started e then e\<lparr>teMinRecv := 0\<rparr> else e)
      in case peek0 (teBuffer e1) (if started e then teMaxSendBatch e1 else 0) of ((begin, end, n), b1) \<Rightarrow>
         obind (batchLoop (teMtu e1) (riClock ri) (buffer0 b1) end
                  \<lparr>baIt = teBegin e1, baTag = 0, baSize = 0, baVecs = [], baRater = teRater e1, baServer = teServer e1\<rparr>)
           (\<lambda>st. obind (serverRunOnce (readVec (buffer0 b1) (riHeap ri)) (riConn ri) (riInput ri) begin (baIt st)
                          (finishBatch st) (teOutbound e1))
             (\<lambda>(newStart, sent, sv, out).
                let e2 = e1\<lparr>teRater := baRater st, teBegin := baIt st, teServer := sv, teOutbound := out\<rparr>
                in if iterEq begin end then Ret (\<lparr>roSent = sent, roReleased = []\<rparr>, e2\<lparr>teBuffer := b1\<rparr>)
                   else case releaseItems b1 (seq begin) (unat (iterMinus newStart begin)) of (l, b2) \<Rightarrow>
                     Ret (\<lparr>roSent = sent, roReleased = l\<rparr>,
                          e2\<lparr>teBuffer := wasteAfterPeek0 b2 begin (iterMinus newStart begin) True\<rparr>))))"

text \<open>The timer: when slow receivers are not waited for and nothing was given back since the last
  time although the buffer is full, the first session that has not passed the first batch goes.\<close>

definition cullSlow :: "TcpEngine \<Rightarrow> TcpEngine" where
  "cullSlow e =
     (let sq = readSeq0 (teBuffer e);
          e1 = (if sq = teLastSeq e \<and> isFull0 (teBuffer e)
                then (case killSlowestSession (teServer e) (teOutbound e) of
                        (sv, out) \<Rightarrow> e\<lparr>teServer := sv, teOutbound := out\<rparr>)
                else e)
      in e1\<lparr>teLastSeq := sq\<rparr>)"

definition engineTimer :: "TcpEngine \<Rightarrow> TcpEngine" where
  "engineTimer e = (if teWaitForSlow e then e else cullSlow e)"

text \<open>\<^verbatim>\<open>sessionsRemainingActive\<close>, \<^verbatim>\<open>subscribingPartyDetectedCount\<close> and \<^verbatim>\<open>bufferedMessageCount\<close>.\<close>

definition sessionsRemainingActive :: "TcpEngine \<Rightarrow> nat" where
  "sessionsRemainingActive e = readySessionCount (teServer e)"

definition subscribingPartyDetectedCount :: "u16 \<Rightarrow> TcpEngine \<Rightarrow> nat" where
  "subscribingPartyDetectedCount tag e = unat (tagCheck (teOutbound e) tag)"

definition bufferedMessageCount :: "TcpEngine \<Rightarrow> u64" where
  "bufferedMessageCount e = remainingSize0 (teBuffer e)"

section \<open>Runs\<close>

text \<open>A message published, or a round of the engine.\<close>

datatype TcpEvent = Publish u8 u16 bytes | Round RoundInput

text \<open>
  A run from left to right: a publisher that finds no room does not get its message in. The messages
  that got in, and what the rounds put out.
\<close>

fun runTcp :: "TcpEvent list \<Rightarrow> TcpEngine \<Rightarrow> (bytes list \<times> RoundOutput list \<times> TcpEngine) outcome" where
  "runTcp [] e = Ret ([], [], e)"
| "runTcp (Publish flag tag body # evs) e =
     obind (tcpTryQueue flag tag body None e) (\<lambda>(ok, l, e1).
       obind (runTcp evs e1) (\<lambda>(ms, outs, e2).
         Ret ((if ok \<and> \<not> unwanted e tag then netWrap flag tag body # ms else ms), outs, e2)))"
| "runTcp (Round ri # evs) e =
     obind (engineRunOnce ri e) (\<lambda>(ro, e1). obind (runTcp evs e1) (\<lambda>(ms, outs, e2). Ret (ms, ro # outs, e2)))"

text \<open>What went out on the connection \<open>i\<close>.\<close>

definition sentTo :: "nat \<Rightarrow> (nat \<times> bytes) list \<Rightarrow> bytes" where
  "sentTo i sent = concat (map snd (filter (\<lambda>p. fst p = i) sent))"

definition streamOf :: "nat \<Rightarrow> RoundOutput list \<Rightarrow> bytes" where
  "streamOf i outs = concat (map (\<lambda>ro. sentTo i (roSent ro)) outs)"

end
