(* ===== verification/TcpRecv.thy ===== *)
theory TcpRecv
  imports BackupRecvSession TcpEngine
begin

text \<open>
  \<^verbatim>\<open>hmbdc/tips/tcpcast/RecvSession.hpp\<close>: the receiving end of a TCP connection. The stream is
  parsed in a buffer; a message with an attachment opens a block of memory for it, and the bytes
  that follow go there until it is full. The socket is the environment, and so is the allocator
  of attachments, a parameter of the template.
\<close>

section \<open>State\<close>

text \<open>What is put into the output buffer; \<open>None\<close> is an attachment whose allocation failed.\<close>

datatype RecvItem = GotMessage bytes | GotWithAttachment bytes "bytes option" | GotSessionStarted | GotSessionDropped

text \<open>
  \<open>rvFilled\<close> is \<open>bufCur_[0 ..< filledLen_]\<close>, \<open>rvFlag\<close> is \<^verbatim>\<open>currTransportHeadFlag_\<close> and \<open>rvItem\<close>
  \<^verbatim>\<open>hasMemoryAttachmentItemSpace_\<close>, in which the allocator's pointer is not written but kept as
  \<open>rvMem\<close>, the memory behind it. \<open>rvFullLen\<close> and \<open>rvLen\<close> are those of \<^verbatim>\<open>DownloadMemory\<close>.
\<close>

record TcpRecvSession =
  rvSubs :: TypeTagSet
  rvBufSize :: nat
  rvMaxItem :: nat
  rvFilled :: bytes
  rvFlag :: u8
  rvItem :: bytes
  rvMem :: "bytes option"
  rvFullLen :: nat
  rvLen :: nat
  rvInit :: bool
  rvStopped :: bool
  rvOut :: "RecvItem list"
  rvSentText :: string

definition newTcpRecvSession :: "TypeTagSet \<Rightarrow> nat \<Rightarrow> nat \<Rightarrow> TcpRecvSession" where
  "newTcpRecvSession subs bufSize maxItem =
     \<lparr>rvSubs = subs, rvBufSize = bufSize, rvMaxItem = maxItem, rvFilled = [], rvFlag = 0,
      rvItem = replicate (max maxItem 48) 0, rvMem = None, rvFullLen = 0, rvLen = 0, rvInit = False,
      rvStopped = False, rvOut = [], rvSentText = []\<rparr>"

definition putOut :: "RecvItem \<Rightarrow> TcpRecvSession \<Rightarrow> TcpRecvSession" where
  "putOut x s = s\<lparr>rvOut := rvOut s @ [x]\<rparr>"

section \<open>The memory of an attachment\<close>

text \<open>\<open>alloc tag len\<close> is fresh memory, or nothing; without it the lengths stay as they are.\<close>

definition openAtt :: "(u16 \<Rightarrow> nat \<Rightarrow> bytes option) \<Rightarrow> u16 \<Rightarrow> TcpRecvSession \<Rightarrow> TcpRecvSession" where
  "openAtt alloc tag s =
     (let n = leVal (take 8 (drop 24 (rvItem s)))
      in case alloc tag n of
           None \<Rightarrow> s\<lparr>rvMem := None\<rparr>
         | Some m \<Rightarrow> s\<lparr>rvMem := Some m, rvFullLen := n, rvLen := 0\<rparr>)"

definition writeDone :: "TcpRecvSession \<Rightarrow> bool" where
  "writeDone s \<longleftrightarrow> rvFullLen s = rvLen s"

text \<open>A write past the end of the memory is not defined.\<close>

definition writeAtt :: "bytes \<Rightarrow> TcpRecvSession \<Rightarrow> (nat \<times> TcpRecvSession) outcome" where
  "writeAtt b s =
     (let wl = min (length b) (rvFullLen s - rvLen s)
      in case rvMem s of
           None \<Rightarrow> Ret (wl, s\<lparr>rvLen := rvLen s + wl\<rparr>)
         | Some m \<Rightarrow>
             if length m < rvLen s + wl then Undefined
             else Ret (wl, s\<lparr>rvMem := Some (take (rvLen s) m @ memcpy (drop (rvLen s) m) b wl),
                            rvLen := rvLen s + wl\<rparr>))"

definition closeAtt :: "TcpRecvSession \<Rightarrow> TcpRecvSession" where
  "closeAtt s = s\<lparr>rvMem := None, rvFullLen := 0, rvLen := 0\<rparr>"

text \<open>The allocator of \<^verbatim>\<open>tips/Domain.hpp\<close> that is used unless the user has one: \<^verbatim>\<open>malloc\<close>.\<close>

definition DefaultAttachmentAllocator :: "(nat \<Rightarrow> bytes option) \<Rightarrow> u16 \<Rightarrow> nat \<Rightarrow> bytes option" where
  "DefaultAttachmentAllocator malloc tag len = malloc len"

section \<open>Parsing\<close>

text \<open>The first part of the loop: what is there of the attachment under way.\<close>

definition attPart :: "TcpRecvSession \<Rightarrow> TcpRecvSession outcome" where
  "attPart s =
     (if rvFlag s = 1 \<and> (rvFilled s \<noteq> [] \<or> writeDone s)
      then obind (writeAtt (rvFilled s) s) (\<lambda>(n, s1).
             let s2 = (if writeDone s1
                       then (putOut (GotWithAttachment (take (rvMaxItem s1) (rvItem s1)) (rvMem s1)) (closeAtt s1))\<lparr>rvFlag := 0\<rparr>
                       else s1)
             in Ret (s2\<lparr>rvFilled := drop n (rvFilled s)\<rparr>))
      else Ret s)"

text \<open>One message, of which the buffer holds all bytes; \<open>b\<close> is the buffer from it on.\<close>

definition takeMessage :: "(u16 \<Rightarrow> nat \<Rightarrow> bytes option) \<Rightarrow> bytes \<Rightarrow> TcpRecvSession \<Rightarrow> TcpRecvSession" where
  "takeMessage alloc b s =
     (let w = itemWireSize b; payload = drop 3 (take w b); l = min (rvMaxItem s) (w - 3);
          s1 = (if tagCheck (rvSubs s) (itemTypeTag b) = 0 then s
                else if itemFlag b = 1
                then openAtt alloc (itemTypeTag b) (s\<lparr>rvFlag := 1, rvItem := memcpy (rvItem s) payload l\<rparr>)
                else putOut (GotMessage (take l payload)) s)
      in s1\<lparr>rvFilled := drop w b\<rparr>)"

text \<open>A payload too short for a message head is not defined: the tag is read past its end.\<close>

function headLoop :: "(u16 \<Rightarrow> nat \<Rightarrow> bytes option) \<Rightarrow> TcpRecvSession \<Rightarrow> TcpRecvSession outcome" where
  "headLoop alloc s =
     (let b = rvFilled s
      in if rvFlag s = 0 \<and> 3 \<le> length b \<and> itemWireSize b \<le> length b
         then if itemWireSize b < 11 then Undefined else headLoop alloc (takeMessage alloc b s)
         else Ret s)"
  by auto
termination
proof (relation "measure (\<lambda>(alloc, s). length (rvFilled s))")
  fix alloc :: "u16 \<Rightarrow> nat \<Rightarrow> bytes option" and s :: TcpRecvSession and b
  assume "b = rvFilled s" "rvFlag s = 0 \<and> 3 \<le> length b \<and> itemWireSize b \<le> length b" "\<not> itemWireSize b < 11"
  then show "((alloc, takeMessage alloc b s), alloc, s) \<in> measure (\<lambda>(alloc, s). length (rvFilled s))"
    by (auto simp: takeMessage_def Let_def)
qed simp

declare headLoop.simps [simp del]

text \<open>
  What the socket says: not ready, ready but empty after all, an error, the end of the stream, or
  that some bytes more have arrived.
\<close>

datatype RecvTurn = Idle | Again | Fails | Ended | Arrives nat

text \<open>
  The loop, over what the socket will say; \<open>net\<close> are the bytes on their way. \<^verbatim>\<open>recv\<close> asked for no
  byte at all returns 0, as it does at the end of the stream.
\<close>

fun recvLoop ::
    "(u16 \<Rightarrow> nat \<Rightarrow> bytes option) \<Rightarrow> RecvTurn list \<Rightarrow> bytes \<Rightarrow> TcpRecvSession \<Rightarrow> (bool \<times> bytes \<times> TcpRecvSession) outcome" where
  "recvLoop alloc ts net s =
     obind (attPart s) (\<lambda>s1. obind (headLoop alloc s1) (\<lambda>s2.
       case ts of
         [] \<Rightarrow> Ret (True, net, s2)
       | Idle # ts' \<Rightarrow> Ret (True, net, s2)
       | Fails # ts' \<Rightarrow> Ret (False, net, s2)
       | Ended # ts' \<Rightarrow> Ret (False, net, s2)
       | Again # ts' \<Rightarrow> if rvFilled s2 = [] then Ret (True, net, s2) else recvLoop alloc ts' net s2
       | Arrives n # ts' \<Rightarrow>
           (let room = rvBufSize s2 - length (rvFilled s2); got = take (min n room) net
            in if room = 0 then Ret (False, net, s2)
               else if got = [] then (if rvFilled s2 = [] then Ret (True, net, s2) else recvLoop alloc ts' net s2)
               else recvLoop alloc ts' (drop (min n room) net) (s2\<lparr>rvFilled := rvFilled s2 @ got\<rparr>))))"

declare recvLoop.simps [simp del]

section \<open>The session\<close>

text \<open>\<open>taken\<close> is how many bytes \<^verbatim>\<open>send\<close> takes of the text.\<close>

definition tcpSendText :: "nat \<Rightarrow> string \<Rightarrow> TcpRecvSession \<Rightarrow> TcpRecvSession" where
  "tcpSendText taken t s =
     (let s1 = s\<lparr>rvSentText := rvSentText s @ take taken t\<rparr>
      in if taken < length t then s1\<lparr>rvStopped := True\<rparr> else s1)"

definition tcpSendSubscriptions :: "nat \<Rightarrow> TcpRecvSession \<Rightarrow> TcpRecvSession" where
  "tcpSendSubscriptions taken s = tcpSendText taken (subscriptionsText (rvSubs s)) s"

definition tcpHeartbeat :: "nat \<Rightarrow> TcpRecvSession \<Rightarrow> TcpRecvSession" where
  "tcpHeartbeat taken s = (if \<not> rvInit s then s else tcpSendText taken [CHR ''+'', TAB] s)"

definition tcpInitializeConn :: "nat \<Rightarrow> TcpRecvSession \<Rightarrow> TcpRecvSession" where
  "tcpInitializeConn taken s = (tcpSendSubscriptions taken (putOut GotSessionStarted s))\<lparr>rvInit := True\<rparr>"

text \<open>\<^verbatim>\<open>stop\<close>, when the session is taken away.\<close>

definition tcpRecvStop :: "TcpRecvSession \<Rightarrow> TcpRecvSession" where
  "tcpRecvStop s = putOut GotSessionDropped (if rvFlag s = 1 then s\<lparr>rvFlag := 0\<rparr> else s)"

text \<open>
  The world in one call: whether the connection is ready for writing, whether its peer can be
  found out (an exception otherwise), what \<^verbatim>\<open>send\<close> takes, what the socket says.
\<close>

record RecvWorld =
  rwWritable :: bool
  rwPeerKnown :: bool
  rwTaken :: nat
  rwTurns :: "RecvTurn list"

definition tcpRecvRunOnce ::
    "(u16 \<Rightarrow> nat \<Rightarrow> bytes option) \<Rightarrow> RecvWorld \<Rightarrow> bytes \<Rightarrow> TcpRecvSession \<Rightarrow> (bool \<times> bytes \<times> TcpRecvSession) outcome" where
  "tcpRecvRunOnce alloc w net s =
     (if rvStopped s then Ret (False, net, s)
      else if \<not> rvInit s \<and> rwWritable w \<and> \<not> rwPeerKnown w then Ret (False, net, s)
      else recvLoop alloc (rwTurns w) net
             (if \<not> rvInit s \<and> rwWritable w then tcpInitializeConn (rwTaken w) s else s))"

text \<open>Calls one after another, as long as the session is kept.\<close>

fun runTcpRecv ::
    "(u16 \<Rightarrow> nat \<Rightarrow> bytes option) \<Rightarrow> RecvWorld list \<Rightarrow> bytes \<Rightarrow> TcpRecvSession \<Rightarrow> (bool \<times> bytes \<times> TcpRecvSession) outcome" where
  "runTcpRecv alloc [] net s = Ret (True, net, s)"
| "runTcpRecv alloc (w # ws) net s =
     obind (tcpRecvRunOnce alloc w net s) (\<lambda>(ok, net1, s1).
       if ok then runTcpRecv alloc ws net1 s1 else Ret (False, net1, s1))"

end
