(* ===== verification/TcpSendSpec.thy ===== *)
theory TcpSendSpec
  imports TcpSend "HOL-Library.Sublist"
begin

text \<open>
  What a TCP session promises: whatever its connection takes of each write, the bytes that went out
  followed by those still owed are the bytes of the batches it subscribes to. \<open>sessionWf\<close> ties the
  index and the relic of a session to the shared queue; the server keeps it for all sessions when it
  drops the batches every one has passed.
\<close>

named_theorems session_simps \<open>what the operations of a session leave alone\<close>

section \<open>Pointers\<close>

lemma readAt_plus [simp]: "readAt c heap (addrPlus a n) = drop n (readAt c heap a)"
  by (cases a) (simp_all add: add.commute)

lemma addrPlus_plus [simp]: "addrPlus (addrPlus a m) n = addrPlus a (m + n)"
  by (cases a) simp_all

lemma addrPlus_0 [simp]: "addrPlus a 0 = a"
  by (cases a) simp_all

lemma vecBytes_simps [simp]:
  "vecBytes [] = 0" "vecBytes (v # vs) = iov_len v + vecBytes vs" "vecBytes (vs @ ws) = vecBytes vs + vecBytes ws"
  by (simp_all add: vecBytes_def)

text \<open>The memory behind the pointers is long enough.\<close>

definition solid :: "(iovec \<Rightarrow> bytes) \<Rightarrow> iovec list \<Rightarrow> bool" where
  "solid mem vs \<longleftrightarrow> (\<forall>v \<in> set vs. length (mem v) = iov_len v)"

lemma solid_simps [simp]:
  "solid mem []" "solid mem (v # vs) \<longleftrightarrow> length (mem v) = iov_len v \<and> solid mem vs"
  "solid mem (vs @ ws) \<longleftrightarrow> solid mem vs \<and> solid mem ws"
  by (auto simp: solid_def)

lemma solid_length: "solid mem vs \<Longrightarrow> length (concat (map mem vs)) = vecBytes vs"
  by (induction vs) simp_all

lemma skipVecs_stop: "\<not> (0 < l \<and> iov_len v \<le> l) \<Longrightarrow> skipVecs (v # vs) l = (v # vs, l)"
  by (simp only: skipVecs.simps if_False)

lemma skipVecs_skip: "0 < l \<Longrightarrow> iov_len v \<le> l \<Longrightarrow> skipVecs (v # vs) l = skipVecs vs (l - iov_len v)"
  by simp

lemma skipVecs_spec:
  "skipVecs vs l = (ws, k) \<Longrightarrow> l < vecBytes vs \<Longrightarrow>
     ws \<noteq> [] \<and> k \<le> iov_len (hd ws) \<and> l + vecBytes ws = vecBytes vs + k \<and>
     (solid mem vs \<longrightarrow> solid mem ws \<and> drop k (concat (map mem ws)) = drop l (concat (map mem vs)))"
proof (induction vs l rule: skipVecs.induct)
  case (2 v vs l)
  show ?case
  proof (cases "0 < l \<and> iov_len v \<le> l")
    case True
    then have s: "skipVecs vs (l - iov_len v) = (ws, k)" using "2.prems"(1) skipVecs_skip by simp
    have lt: "l - iov_len v < vecBytes vs" using True "2.prems"(2) by auto
    note IH = "2.IH" [OF True s lt]
    have "l + vecBytes ws = vecBytes (v # vs) + k"
      using conjunct1 [OF conjunct2 [OF conjunct2 [OF IH]]] True unfolding vecBytes_simps by linarith
    then show ?thesis using IH True by auto
  next
    case False
    then show ?thesis using "2.prems" skipVecs_stop [OF False] by auto
  qed
qed simp

lemma extract_spec:
  assumes "l < vecBytes vs"
  obtains r where "extractRelicVecs vs l = Ret r" "vecBytes r = vecBytes vs - l"
    "solid (readVec c heap) vs \<Longrightarrow> solid (readVec c heap) r \<and>
       concat (map (readVec c heap) r) = drop l (concat (map (readVec c heap) vs))"
proof -
  obtain ws k where s: "skipVecs vs l = (ws, k)" by force
  obtain v ws' where ws: "ws = v # ws'" using skipVecs_spec [OF s assms] by (cases ws) auto
  note S = skipVecs_spec [OF s assms, of "readVec c heap"]
  let ?r = "\<lparr>iov_base = addrPlus (iov_base v) k, iov_len = iov_len v - k\<rparr>"
  have v: "readVec c heap ?r = drop k (readVec c heap v)"
    by (simp add: readVec_def drop_take)
  show ?thesis
  proof (rule that)
    show "extractRelicVecs vs l = Ret (?r # ws')" by (simp add: extractRelicVecs_def s ws)
    show "vecBytes (?r # ws') = vecBytes vs - l" using S by (auto simp: ws)
    show "solid (readVec c heap) (?r # ws') \<and>
        concat (map (readVec c heap) (?r # ws')) = drop l (concat (map (readVec c heap) vs))"
      if "solid (readVec c heap) vs"
    proof -
      have "solid (readVec c heap) (v # ws')"
        "drop k (readVec c heap v @ concat (map (readVec c heap) ws')) = drop l (concat (map (readVec c heap) vs))"
        "k \<le> iov_len v"
        using S that by (auto simp: ws)
      then show ?thesis by (simp add: v)
    qed
  qed
qed

lemma skipVecs_0 [simp]: "skipVecs vs 0 = (vs, 0)"
  by (cases vs) simp_all

text \<open>Taking the rest of a rest.\<close>

lemma extract_extract:
  "extractRelicVecs vs k = Ret r \<Longrightarrow> extractRelicVecs r l = extractRelicVecs vs (k + l)"
proof (induction vs k rule: skipVecs.induct)
  case (2 v vs k)
  show ?case
  proof (cases "0 < k \<and> iov_len v \<le> k")
    case True
    then have "extractRelicVecs (v # vs) k = extractRelicVecs vs (k - iov_len v)"
      "extractRelicVecs (v # vs) (k + l) = extractRelicVecs vs (k - iov_len v + l)"
      by (simp_all add: extractRelicVecs_def)
    then show ?thesis using "2.IH" True "2.prems" by simp
  next
    case False
    then have r: "r = \<lparr>iov_base = addrPlus (iov_base v) k, iov_len = iov_len v - k\<rparr> # vs"
      using "2.prems" by (simp only: extractRelicVecs_def skipVecs_stop [OF False]) simp
    show ?thesis
    proof (cases "0 < l \<and> iov_len v - k \<le> l")
      case True
      then have d: "0 < k + l" "iov_len v \<le> k + l" "l - (iov_len v - k) = k + l - iov_len v"
        using False by auto
      show ?thesis
        unfolding extractRelicVecs_def r using skipVecs_skip [OF d(1,2)] True by (simp add: d(3))
    next
      case l: False
      have d: "\<not> (0 < k + l \<and> iov_len v \<le> k + l)" using False l by auto
      show ?thesis
        unfolding extractRelicVecs_def r skipVecs_stop [OF d] using l by (subst skipVecs_stop) auto
    qed
  qed
qed (simp add: extractRelicVecs_def)

section \<open>What a session owes\<close>

definition batchBytes :: "(iovec \<Rightarrow> bytes) \<Rightarrow> QueuedBatch \<Rightarrow> bytes" where
  "batchBytes mem e = concat (map mem (qbToSend e))"

text \<open>The byte count of a batch is that of its pointers, and the memory is there.\<close>

definition soundBatch :: "(iovec \<Rightarrow> bytes) \<Rightarrow> QueuedBatch \<Rightarrow> bool" where
  "soundBatch mem e \<longleftrightarrow>
     solid mem (qbToSend e) \<and> qbBytes e = of_nat (vecBytes (qbToSend e)) \<and> vecBytes (qbToSend e) < 2 ^ 63"

definition owedOf :: "(iovec \<Rightarrow> bytes) \<Rightarrow> TypeTagSet \<Rightarrow> QueuedBatch list \<Rightarrow> bytes" where
  "owedOf mem subs q = concat (map (batchBytes mem) (filter (\<lambda>e. tagCheck subs (qbTag e) \<noteq> 0) q))"

definition sessionOwed :: "(iovec \<Rightarrow> bytes) \<Rightarrow> QueuedBatch list \<Rightarrow> SendSession \<Rightarrow> bytes" where
  "sessionOwed mem q s = concat (map mem (tssRelic s)) @
     owedOf mem (tssSubs s) (drop (if tssRelicSize s = 0 then tssIndex s else Suc (tssIndex s)) q)"

text \<open>The relic is what is left of the batch at the index.\<close>

definition sessionWf :: "QueuedBatch list \<Rightarrow> SendSession \<Rightarrow> bool" where
  "sessionWf q s \<longleftrightarrow> tssIndex s \<le> length q \<and>
     (if tssRelicSize s = 0 then tssRelic s = []
      else tssIndex s < length q \<and>
        (\<exists>k. k < vecBytes (qbToSend (q ! tssIndex s)) \<and>
           extractRelicVecs (qbToSend (q ! tssIndex s)) k = Ret (tssRelic s) \<and>
           tssRelicSize s = of_nat (vecBytes (qbToSend (q ! tssIndex s)) - k)))"

lemma owedOf_simps [simp]:
  "owedOf mem subs [] = []"
  "owedOf mem subs (e # q) = (if tagCheck subs (qbTag e) = 0 then owedOf mem subs q else batchBytes mem e @ owedOf mem subs q)"
  "owedOf mem subs (q @ q') = owedOf mem subs q @ owedOf mem subs q'"
  by (simp_all add: owedOf_def)

lemma of_nat_size_0:
  assumes "n < 2 ^ 63" "k \<le> n"
  shows "(of_nat n - of_nat k = (0 :: u64)) \<longleftrightarrow> k = n" "of_nat n - of_nat k = (of_nat (n - k) :: u64)"
proof -
  show e: "of_nat n - of_nat k = (of_nat (n - k) :: u64)" using assms(2) by simp
  have "unat (of_nat m :: u64) = m" if "m < 2 ^ 63" for m :: nat
    using that by (simp add: unsigned_of_nat take_bit_nat_eq_self)
  then have u: "unat (of_nat (n - k) :: u64) = n - k" using assms(1) by (simp only: less_imp_diff_less)
  then show "(of_nat n - of_nat k = (0 :: u64)) \<longleftrightarrow> k = n"
    unfolding e word_unat_eq_iff u using assms(2) by auto
qed

section \<open>Reading commands\<close>

lemma tcpCommand_keeps:
  assumes "tcpCommand line rest s out = Ret (ok, s', out')"
  shows "tssIndex s' = tssIndex s \<and> tssRelic s' = tssRelic s \<and> tssRelicSize s' = tssRelicSize s \<and> tssId s' = tssId s"
proof (cases line)
  case Nil
  then show ?thesis using assms by (auto simp: tcpCommand_def split: list.splits if_splits)
next
  case (Cons c cs)
  let ?t = "takeWhile (\<lambda>x. x \<noteq> NUL) cs"
  consider "?t \<noteq> []" "c = CHR ''+''" | "?t \<noteq> []" "c = CHR ''-''" | "?t = [] \<or> c \<noteq> CHR ''+'' \<and> c \<noteq> CHR ''-''"
    by blast
  then show ?thesis
  proof cases
    case 1
    then obtain v where v: "stoi ?t = Ret v" using assms by (auto simp: tcpCommand_def Cons obind_Ret_iff)
    obtain new subs where t: "tagSet (tssSubs s) (word_of_int v) = (new, subs)" by force
    show ?thesis using assms 1 v t by (auto simp: tcpCommand_def Cons)
  next
    case 2
    then obtain v where v: "stoi ?t = Ret v" using assms by (auto simp: tcpCommand_def Cons obind_Ret_iff)
    obtain old subs where t: "tagUnset (tssSubs s) (word_of_int v) = (old, subs)" by force
    show ?thesis using assms 2 v t by (auto simp: tcpCommand_def Cons)
  next
    case 3
    then show ?thesis using assms by (auto simp: tcpCommand_def Cons Let_def split: if_splits)
  qed
qed

lemma tcpCommands_keeps:
  "tcpCommands buf s out = Ret (ok, s', out') \<Longrightarrow>
     tssIndex s' = tssIndex s \<and> tssRelic s' = tssRelic s \<and> tssRelicSize s' = tssRelicSize s \<and> tssId s' = tssId s"
proof (induction buf s out rule: tcpCommands.induct)
  case (1 buf s out)
  show ?case
  proof (cases "TAB \<in> set buf")
    case False
    then show ?thesis using "1.prems" by (subst (asm) tcpCommands.simps) auto
  next
    case True
    let ?line = "takeWhile (\<lambda>c. c \<noteq> TAB) buf" and ?rest = "tl (dropWhile (\<lambda>c. c \<noteq> TAB) buf)"
    obtain ok1 s1 out1 where h: "tcpCommand ?line ?rest s out = Ret (ok1, s1, out1)"
      using "1.prems" True by (subst (asm) tcpCommands.simps) (auto simp: obind_Ret_iff Let_def)
    show ?thesis
    proof (cases ok1)
      case ok: True
      then have "tcpCommands ?rest s1 out1 = Ret (ok, s', out')"
        using "1.prems" h True by (subst (asm) tcpCommands.simps) (simp add: Let_def)
      then show ?thesis using "1.IH" [OF True refl refl ok] tcpCommand_keeps [OF h] by simp
    next
      case False
      then show ?thesis
        using "1.prems" h True tcpCommand_keeps [OF h] by (subst (asm) tcpCommands.simps) (auto simp: Let_def)
    qed
  qed
qed

lemma tcpDoRead_keeps:
  "tcpDoRead r s out = Ret (ok, s', out') \<Longrightarrow>
     tssIndex s' = tssIndex s \<and> tssRelic s' = tssRelic s \<and> tssRelicSize s' = tssRelicSize s \<and> tssId s' = tssId s"
  by (auto simp: tcpDoRead_def split: RecvResult.splits dest: tcpCommands_keeps)

lemma sessionWf_read: "tcpDoRead r s out = Ret (ok, s', out') \<Longrightarrow> sessionWf q s' = sessionWf q s"
  using tcpDoRead_keeps by (simp add: sessionWf_def)

section \<open>Writing\<close>

text \<open>What a call leaves alone, and that it only moves on.\<close>

definition movedOn :: "SendSession \<Rightarrow> SendSession \<Rightarrow> bool" where
  "movedOn s s' \<longleftrightarrow> tssIndex s \<le> tssIndex s' \<and> tssId s' = tssId s \<and> tssSubs s' = tssSubs s \<and>
     tssData s' = tssData s \<and> tssReady s' = tssReady s"

lemma movedOnI:
  "tssIndex s \<le> tssIndex s' \<Longrightarrow> tssId s' = tssId s \<Longrightarrow> tssSubs s' = tssSubs s \<Longrightarrow>
     tssData s' = tssData s \<Longrightarrow> tssReady s' = tssReady s \<Longrightarrow> movedOn s s'"
  by (simp add: movedOn_def)

lemma movedOn_refl [simp]: "movedOn s s"
  by (simp add: movedOn_def)

lemma movedOn_trans: "movedOn a b \<Longrightarrow> movedOn b c \<Longrightarrow> movedOn a c"
  by (auto simp: movedOn_def)

lemma sendQueue_conserves_tcp:
  assumes "\<forall>e \<in> set q. soundBatch (readVec c heap) e"
  shows "sessionWf q s \<Longrightarrow>
    \<exists>ok bs s'. tcpSendQueue (readVec c heap) w rs q s = Ret (ok, bs, s') \<and> sessionWf q s' \<and> movedOn s s' \<and>
      bs @ sessionOwed (readVec c heap) q s' = sessionOwed (readVec c heap) q s"
proof (induction "length q - tssIndex s" arbitrary: s rs rule: less_induct)
  case less
  let ?mem = "readVec c heap" and ?i = "tssIndex s"
  show ?case
  proof (cases "tssRelicSize s \<noteq> 0 \<or> \<not> w \<or> ?i = length q")
    case True
    then show ?thesis using less.prems by (subst tcpSendQueue.simps) auto
  next
    case False
    then have i: "?i < length q" "tssRelicSize s = 0" "tssRelic s = []" "w"
      using less.prems by (auto simp: sessionWf_def)
    let ?e = "q ! ?i" and ?s1 = "s\<lparr>tssIndex := ?i + 1\<rparr>"
    have d: "drop ?i q = ?e # drop (Suc ?i) q" using i(1) by (simp add: Cons_nth_drop_Suc)
    have wf1: "sessionWf q ?s1" using i by (simp add: sessionWf_def)
    have lt: "length q - tssIndex ?s1 < length q - ?i" using i(1) by simp
    note IH = less.hyps [OF lt wf1]
    have m1: "movedOn s ?s1" by (rule movedOnI) simp_all
    show ?thesis
    proof (cases "tagCheck (tssSubs s) (qbTag ?e) = 0")
      case True
      have step: "tcpSendQueue ?mem w rs q s = tcpSendQueue ?mem w rs q ?s1"
        using False i True by (subst tcpSendQueue.simps) simp
      have "sessionOwed ?mem q ?s1 = sessionOwed ?mem q s" using i d True by (simp add: sessionOwed_def)
      then show ?thesis unfolding step using IH [of rs] movedOn_trans [OF m1] by metis
    next
      case subscribed: False
      have snd: "soundBatch ?mem ?e" using assms i(1) by simp
      let ?n = "vecBytes (qbToSend ?e)"
      have n: "solid ?mem (qbToSend ?e)" "qbBytes ?e = of_nat ?n" "?n < 2 ^ 63"
        using snd by (simp_all add: soundBatch_def)
      have ow: "sessionOwed ?mem q s = batchBytes ?mem ?e @ owedOf ?mem (tssSubs s) (drop (Suc ?i) q)"
        using i d subscribed by (simp add: sessionOwed_def)
      show ?thesis
      proof (cases rs)
        case Nil
        then show ?thesis using False i subscribed less.prems by (subst tcpSendQueue.simps) auto
      next
        case (Cons r rs')
        show ?thesis
        proof (cases r)
          case (Room room)
          let ?l = "min room ?n"
          let ?s2 = "s\<lparr>tssRelicSize := qbBytes ?e - of_nat ?l\<rparr>"
          let ?bs = "take ?l (batchBytes ?mem ?e)"
          have sz: "tssRelicSize ?s2 = of_nat ?n - of_nat ?l" by (simp only: n(2)) simp
          have z: "tssRelicSize ?s2 = 0 \<longleftrightarrow> ?l = ?n" "tssRelicSize ?s2 = of_nat (?n - ?l)"
            unfolding sz by (rule of_nat_size_0 [OF n(3)], simp)+
          have step: "tcpSendQueue ?mem w rs q s =
              (if tssRelicSize ?s2 \<noteq> 0
               then obind (extractRelicVecs (qbToSend ?e) ?l) (\<lambda>r. Ret (True, ?bs, ?s2\<lparr>tssRelic := r\<rparr>))
               else obind (tcpSendQueue ?mem w rs' q (?s2\<lparr>tssIndex := tssIndex ?s2 + 1\<rparr>))
                      (\<lambda>(ok, bs', s2). Ret (ok, ?bs @ bs', s2)))"
            using False i subscribed by (subst tcpSendQueue.simps) (simp add: Cons Room Let_def batchBytes_def)
          show ?thesis
          proof (cases "tssRelicSize ?s2 = 0")
            case True
            then have e: "?s2\<lparr>tssIndex := tssIndex ?s2 + 1\<rparr> = ?s1" using i(2) by simp
            have all: "?bs = batchBytes ?mem ?e"
              using True z(1) solid_length [OF n(1)] by (simp add: batchBytes_def)
            have "sessionOwed ?mem q s = ?bs @ sessionOwed ?mem q ?s1"
              unfolding ow all using i by (simp add: sessionOwed_def)
            then show ?thesis
              unfolding step e using True IH [of rs'] movedOn_trans [OF m1] by fastforce
          next
            case False
            then have lt: "?l < ?n" using z(1) by linarith
            obtain r where r: "extractRelicVecs (qbToSend ?e) ?l = Ret r" "vecBytes r = ?n - ?l"
              "concat (map ?mem r) = drop ?l (batchBytes ?mem ?e)"
              using extract_spec [OF lt, of c heap] n(1) by (auto simp: batchBytes_def)
            let ?s3 = "?s2\<lparr>tssRelic := r\<rparr>"
            have nz: "tssRelicSize ?s3 \<noteq> 0" using False by simp
            have "sessionWf q ?s3"
              unfolding sessionWf_def using i(1) nz lt r(1) z(2) by auto
            moreover have "?bs @ sessionOwed ?mem q ?s3 = sessionOwed ?mem q s"
              unfolding ow using nz by (simp add: sessionOwed_def r(3) flip: append.assoc)
            moreover have "movedOn s ?s3" by (rule movedOnI) simp_all
            ultimately show ?thesis unfolding step using False r(1) by (intro exI) (auto simp del: obind.simps simp: obind.simps(1))
          qed
        qed (use False i subscribed less.prems Cons in \<open>subst tcpSendQueue.simps, auto\<close>)+
      qed
    qed
  qed
qed

lemma sendRelic_conserves_tcp:
  assumes "\<forall>e \<in> set q. soundBatch (readVec c heap) e" "sessionWf q s" "tssRelicSize s \<noteq> 0"
  shows "\<exists>ok bs rs' s' more. tcpSendRelic (readVec c heap) rs s = Ret (ok, bs, rs', s', more) \<and> sessionWf q s' \<and>
     movedOn s s' \<and> bs @ sessionOwed (readVec c heap) q s' = sessionOwed (readVec c heap) q s"
proof -
  let ?mem = "readVec c heap" and ?i = "tssIndex s"
  let ?e = "q ! ?i"
  let ?n = "vecBytes (qbToSend ?e)"
  obtain k where k: "?i < length q" "k < ?n" "extractRelicVecs (qbToSend ?e) k = Ret (tssRelic s)"
    "tssRelicSize s = of_nat (?n - k)"
    using assms(2,3) by (auto simp: sessionWf_def)
  have n: "solid ?mem (qbToSend ?e)" "?n < 2 ^ 63" using assms(1) k(1) by (simp_all add: soundBatch_def)
  have rel: "vecBytes (tssRelic s) = ?n - k" "solid ?mem (tssRelic s)"
    using extract_spec [OF k(2), of c heap] k(3) n(1) by (metis outcome.inject(1))+
  show ?thesis
  proof (cases rs)
    case Nil
    then show ?thesis using assms by (auto simp: tcpSendRelic_def)
  next
    case (Cons r rs')
    show ?thesis
    proof (cases r)
      case (Room room)
      let ?m = "vecBytes (tssRelic s)"
      let ?l = "min room ?m"
      let ?s2 = "s\<lparr>tssRelicSize := tssRelicSize s - of_nat ?l\<rparr>"
      let ?bs = "take ?l (concat (map ?mem (tssRelic s)))"
      have m: "?m < 2 ^ 63" using n(2) rel(1) by linarith
      have sz: "tssRelicSize ?s2 = of_nat ?m - of_nat ?l" by (simp only: k(4) rel(1)) simp
      have z: "tssRelicSize ?s2 = 0 \<longleftrightarrow> ?l = ?m" "tssRelicSize ?s2 = of_nat (?m - ?l)"
        unfolding sz by (rule of_nat_size_0 [OF m], simp)+
      have step: "tcpSendRelic ?mem rs s =
          (if tssRelicSize ?s2 \<noteq> 0
           then obind (extractRelicVecs (tssRelic s) ?l) (\<lambda>r. Ret (True, ?bs, rs', ?s2\<lparr>tssRelic := r\<rparr>, False))
           else Ret (True, ?bs, rs', ?s2\<lparr>tssIndex := tssIndex ?s2 + 1, tssRelic := []\<rparr>, True))"
        by (simp add: tcpSendRelic_def Cons Room Let_def)
      have ow: "sessionOwed ?mem q s = concat (map ?mem (tssRelic s)) @ owedOf ?mem (tssSubs s) (drop (Suc ?i) q)"
        using assms(3) by (simp add: sessionOwed_def)
      show ?thesis
      proof (cases "tssRelicSize ?s2 = 0")
        case True
        let ?s3 = "?s2\<lparr>tssIndex := tssIndex ?s2 + 1, tssRelic := []\<rparr>"
        have z3: "tssRelicSize ?s3 = 0" using True by simp
        have "sessionWf q ?s3" unfolding sessionWf_def z3 using k(1) by simp
        moreover have "?bs @ sessionOwed ?mem q ?s3 = sessionOwed ?mem q s"
        proof -
          have "?l = ?m" using z(1) True by blast
          then have "?bs = concat (map ?mem (tssRelic s))" using solid_length [OF rel(2)] by simp
          moreover have "sessionOwed ?mem q ?s3 = owedOf ?mem (tssSubs s) (drop (Suc ?i) q)"
            unfolding sessionOwed_def z3 by simp
          ultimately show ?thesis using ow by simp
        qed
        moreover have "movedOn s ?s3" by (rule movedOnI) simp_all
        ultimately show ?thesis unfolding step using True by auto
      next
        case False
        then have lt: "?l < ?m" using z(1) by linarith
        obtain r where r: "extractRelicVecs (tssRelic s) ?l = Ret r"
          "concat (map ?mem r) = drop ?l (concat (map ?mem (tssRelic s)))"
          using extract_spec [OF lt, of c heap] rel(2) by auto
        let ?s3 = "?s2\<lparr>tssRelic := r\<rparr>"
        have nz: "tssRelicSize ?s3 \<noteq> 0" using False by simp
        have w: "extractRelicVecs (qbToSend ?e) (k + ?l) = Ret r" "k + ?l < ?n" "?n - (k + ?l) = ?m - ?l"
          using extract_extract [OF k(3), of ?l] r(1) lt rel(1) k(2) by auto
        have f: "tssIndex ?s3 = ?i" "tssRelic ?s3 = r" "tssRelicSize ?s3 = tssRelicSize ?s2" by simp_all
        have sz3: "tssRelicSize ?s3 = of_nat (?n - (k + ?l))" unfolding w(3) z(2) [symmetric] by (rule f(3))
        have "\<exists>k'. k' < ?n \<and> extractRelicVecs (qbToSend ?e) k' = Ret r \<and> tssRelicSize ?s3 = of_nat (?n - k')"
          using w(1,2) sz3 by blast
        then have "sessionWf q ?s3"
          unfolding sessionWf_def f(1,2) if_not_P [OF nz] using k(1) by (simp only: less_imp_le simp_thms)
        moreover have "?bs @ sessionOwed ?mem q ?s3 = sessionOwed ?mem q s"
          unfolding ow using nz by (simp add: sessionOwed_def r(2) flip: append.assoc)
        moreover have "movedOn s ?s3" by (rule movedOnI) simp_all
        ultimately show ?thesis unfolding step using False r(1) by (intro exI) (auto simp del: obind.simps simp: obind.simps(1))
      qed
    qed (use assms Cons in \<open>auto simp: tcpSendRelic_def\<close>)+
  qed
qed

lemma session_conserves:
  assumes "\<forall>e \<in> set q. soundBatch (readVec c heap) e" "sessionWf q s" "tcpDoRead (inRecv i) s out = Ret (True, s1, out1)"
  shows "\<exists>ok bs s'. tcpSessionRunOnce (readVec c heap) i q s out = Ret (ok, bs, s', out1) \<and> sessionWf q s' \<and>
     movedOn s1 s' \<and> bs @ sessionOwed (readVec c heap) q s' = sessionOwed (readVec c heap) q s1"
proof -
  let ?mem = "readVec c heap" and ?w = "inReady1 i \<or> inReady2 i"
  have wf: "sessionWf q s1" using assms(2) sessionWf_read [OF assms(3)] by simp
  show ?thesis
  proof (cases "inReady1 i \<and> tssRelicSize s1 \<noteq> 0")
    case True
    obtain ok bs rs' s2 more where r: "tcpSendRelic ?mem (inSends i) s1 = Ret (ok, bs, rs', s2, more)" "sessionWf q s2"
        "movedOn s1 s2" "bs @ sessionOwed ?mem q s2 = sessionOwed ?mem q s1"
      using sendRelic_conserves_tcp [OF assms(1) wf] True by metis
    obtain ok' bs' s3 where q: "tcpSendQueue ?mem ?w rs' q s2 = Ret (ok', bs', s3)" "sessionWf q s3"
        "movedOn s2 s3" "bs' @ sessionOwed ?mem q s3 = sessionOwed ?mem q s2"
      using sendQueue_conserves_tcp [OF assms(1) r(2)] by metis
    show ?thesis
    proof (cases "ok \<and> more")
      case True
      then show ?thesis
        using \<open>inReady1 i \<and> tssRelicSize s1 \<noteq> 0\<close> r q assms(3) movedOn_trans [OF r(3) q(3)]
        by (auto simp: tcpSessionRunOnce_def)
    next
      case False
      then show ?thesis
        using \<open>inReady1 i \<and> tssRelicSize s1 \<noteq> 0\<close> r assms(3) by (auto simp: tcpSessionRunOnce_def)
    qed
  next
    case False
    obtain ok bs s2 where "tcpSendQueue ?mem ?w (inSends i) q s1 = Ret (ok, bs, s2)" "sessionWf q s2"
        "movedOn s1 s2" "bs @ sessionOwed ?mem q s2 = sessionOwed ?mem q s1"
      using sendQueue_conserves_tcp [OF assms(1) wf] by metis
    then show ?thesis using False assms(3) by (auto simp: tcpSessionRunOnce_def)
  qed
qed

section \<open>All sessions\<close>

text \<open>The commands the sessions read in this call have numbers where numbers belong.\<close>

definition readsReturn :: "(nat \<Rightarrow> SessionInput) \<Rightarrow> SendSession list \<Rightarrow> bool" where
  "readsReturn inp ss \<longleftrightarrow> (\<forall>s \<in> set ss. \<forall>out. \<exists>x. tcpDoRead (inRecv (inp (tssId s))) s out = Ret x)"

text \<open>
  What became of a session that is still there: it read its commands, and sent from what it then
  owed.
\<close>

definition sessionStep ::
    "(iovec \<Rightarrow> bytes) \<Rightarrow> (nat \<Rightarrow> SessionInput) \<Rightarrow> QueuedBatch list \<Rightarrow> (nat \<times> bytes) list \<Rightarrow> SendSession \<Rightarrow> SendSession \<Rightarrow> bool" where
  "sessionStep mem inp q sent s s' \<longleftrightarrow>
     (\<exists>bs s1 out1 out2. (tssId s, bs) \<in> set sent \<and> tcpDoRead (inRecv (inp (tssId s))) s out1 = Ret (True, s1, out2) \<and>
        movedOn s1 s' \<and> bs @ sessionOwed mem q s' = sessionOwed mem q s1)"

lemma sessionStep_mono: "sessionStep mem inp q sent s s' \<Longrightarrow> set sent \<subseteq> set sent' \<Longrightarrow> sessionStep mem inp q sent' s s'"
  unfolding sessionStep_def by blast

lemma sessionStep_keeps:
  assumes "sessionStep mem inp q sent s s'"
  shows "tssId s' = tssId s" "tssIndex s \<le> tssIndex s'"
  using assms tcpDoRead_keeps by (auto simp: sessionStep_def movedOn_def)

lemma session_false:
  assumes "tcpDoRead (inRecv i) s out = Ret (False, s1, out1)"
  shows "tcpSessionRunOnce mem i q s out = Ret (False, [], s1, out1)"
  using assms by (simp add: tcpSessionRunOnce_def)

lemma runSessions_spec:
  assumes "\<forall>e \<in> set q. soundBatch (readVec c heap) e"
  shows "\<forall>s \<in> set ss. sessionWf q s \<Longrightarrow> readsReturn inp ss \<Longrightarrow>
    \<exists>m' sent ss' out'. runSessions (readVec c heap) inp q ss m out = Ret (m', sent, ss', out') \<and>
      m' = foldl min m (map tssIndex ss) \<and> map fst sent = map tssId ss \<and> subseq (map tssId ss') (map tssId ss) \<and>
      (\<forall>s' \<in> set ss'. sessionWf q s' \<and> (\<exists>s \<in> set ss. sessionStep (readVec c heap) inp q sent s s'))"
proof (induction ss arbitrary: m out)
  case Nil
  then show ?case by simp
next
  case (Cons s ss)
  let ?mem = "readVec c heap" and ?i = "inp (tssId s)"
  have wf: "sessionWf q s" and rr: "readsReturn inp ss" using Cons.prems by (simp_all add: readsReturn_def)
  obtain ok0 s1 out1 where rd: "tcpDoRead (inRecv ?i) s out = Ret (ok0, s1, out1)"
    using Cons.prems(2) by (force simp: readsReturn_def)
  obtain ok bs s2 where r: "tcpSessionRunOnce ?mem ?i q s out = Ret (ok, bs, s2, out1)"
      "ok \<Longrightarrow> sessionWf q s2 \<and> (\<forall>sent. (tssId s, bs) \<in> set sent \<longrightarrow> sessionStep ?mem inp q sent s s2)"
      "tssId s2 = tssId s"
  proof (cases ok0)
    case True
    with rd have rd': "tcpDoRead (inRecv ?i) s out = Ret (True, s1, out1)" by simp
    obtain ok bs s2 where c: "tcpSessionRunOnce ?mem ?i q s out = Ret (ok, bs, s2, out1)" "sessionWf q s2"
        "movedOn s1 s2" "bs @ sessionOwed ?mem q s2 = sessionOwed ?mem q s1"
      using session_conserves [OF assms wf rd'] by blast
    show ?thesis
    proof (rule that [OF c(1)])
      show "sessionWf q s2 \<and> (\<forall>sent. (tssId s, bs) \<in> set sent \<longrightarrow> sessionStep ?mem inp q sent s s2)"
        using c rd' unfolding sessionStep_def by blast
      show "tssId s2 = tssId s" using c(3) tcpDoRead_keeps [OF rd'] by (simp add: movedOn_def)
    qed
  next
    case False
    then show ?thesis using that [of False "[]" s1] session_false rd tcpDoRead_keeps [OF rd] by simp
  qed
  obtain m' sent ss' out' where IH: "runSessions ?mem inp q ss (min m (tssIndex s)) (if ok then out1 else tcpRetire s2 out1) = Ret (m', sent, ss', out')"
      "m' = foldl min (min m (tssIndex s)) (map tssIndex ss)" "map fst sent = map tssId ss"
      "subseq (map tssId ss') (map tssId ss)"
      "\<forall>s' \<in> set ss'. sessionWf q s' \<and> (\<exists>s \<in> set ss. sessionStep ?mem inp q sent s s')"
    using Cons.IH [of "min m (tssIndex s)" "if ok then out1 else tcpRetire s2 out1"] Cons.prems(1) rr by auto
  let ?sent = "(tssId s, bs) # sent" and ?ss = "if ok then s2 # ss' else ss'"
  have run: "runSessions ?mem inp q (s # ss) m out = Ret (m', ?sent, ?ss, out')"
    using r(1) IH(1) by (simp del: if_split)
  have sub: "subseq (map tssId ?ss) (map tssId (s # ss))" using IH(4) r(3) by (auto intro: list_emb_Cons)
  have up: "sessionStep ?mem inp q ?sent s0 s'" if "sessionStep ?mem inp q sent s0 s'" for s0 s'
    by (rule sessionStep_mono [OF that]) auto
  have "\<forall>s' \<in> set ?ss. sessionWf q s' \<and> (\<exists>s0 \<in> set (s # ss). sessionStep ?mem inp q ?sent s0 s')"
  proof
    fix s' assume "s' \<in> set ?ss"
    then consider "ok" "s' = s2" | "s' \<in> set ss'" by (auto split: if_splits)
    then show "sessionWf q s' \<and> (\<exists>s0 \<in> set (s # ss). sessionStep ?mem inp q ?sent s0 s')"
    proof cases
      case 1
      have "(tssId s, bs) \<in> set ?sent" by simp
      then show ?thesis using r(2) [OF 1(1)] unfolding 1(2) by (metis list.set_intros(1))
    next
      case 2
      then show ?thesis using IH(5) up by (metis list.set_intros(2))
    qed
  qed
  then show ?case using run sub IH(2,3) by (intro exI [of _ m'] exI [of _ ?sent] exI [of _ ?ss] exI [of _ out']) simp
qed

text \<open>Dropping batches every session has passed.\<close>

lemma session_shift:
  assumes "sessionWf q s" "m \<le> tssIndex s"
  shows "sessionWf (drop m q) (s\<lparr>tssIndex := tssIndex s - m\<rparr>)"
    "sessionOwed mem (drop m q) (s\<lparr>tssIndex := tssIndex s - m\<rparr>) = sessionOwed mem q s"
proof -
  have "drop m q ! (tssIndex s - m) = q ! tssIndex s" if "tssIndex s < length q"
    using assms(2) that by simp
  then show "sessionWf (drop m q) (s\<lparr>tssIndex := tssIndex s - m\<rparr>)"
    using assms by (auto simp: sessionWf_def split: if_splits)
  show "sessionOwed mem (drop m q) (s\<lparr>tssIndex := tssIndex s - m\<rparr>) = sessionOwed mem q s"
    using assms(2) by (simp add: sessionOwed_def Suc_diff_le)
qed

definition serverOk :: "(iovec \<Rightarrow> bytes) \<Rightarrow> SendServer \<Rightarrow> bool" where
  "serverOk mem sv \<longleftrightarrow> (\<forall>e \<in> set (svQueue sv). soundBatch mem e) \<and>
     (\<forall>s \<in> set (svSessions sv). sessionWf (svQueue sv) s)"

lemma foldl_min:
  "foldl min m xs \<le> (m :: nat)" "x \<in> set xs \<Longrightarrow> foldl min m xs \<le> x"
proof -
  have a: "foldl min m xs \<le> m" for m :: nat and xs
  proof (induction xs arbitrary: m)
    case (Cons y ys)
    from Cons [of "min m y"] show ?case by simp
  qed simp
  then show "foldl min m xs \<le> m" .
  show "x \<in> set xs \<Longrightarrow> foldl min m xs \<le> x"
  proof (induction xs arbitrary: m)
    case (Cons y ys)
    then show ?case using a [of "min m y" ys] by (cases "x = y") (auto intro: Cons.IH)
  qed simp
qed

text \<open>One call of the server when there are sessions: \<open>m\<close> batches go.\<close>

lemma server_round_lemma:
  assumes "serverOk (readVec c heap) sv" "svSessions (doAccept conn sv) \<noteq> []"
    "readsReturn inp (svSessions (doAccept conn sv))"
  obtains m it sent sv' out' where
    "serverRunOnce (readVec c heap) conn inp begin end sv out = Ret (it, sent, sv', out')"
    "m = foldl min (length (svQueue sv)) (map tssIndex (svSessions (doAccept conn sv)))"
    "it = (if m = 0 then begin else qbEnd (svQueue sv ! (m - 1)))" "svQueue sv' = drop m (svQueue sv)"
    "map fst sent = map tssId (svSessions (doAccept conn sv))"
    "subseq (map tssId (svSessions sv')) (map tssId (svSessions (doAccept conn sv)))"
    "svCapacity sv' = svCapacity sv" "serverOk (readVec c heap) sv'"
    "\<And>s'. s' \<in> set (svSessions sv') \<Longrightarrow> \<exists>s \<in> set (svSessions (doAccept conn sv)). \<exists>s1.
       sessionStep (readVec c heap) inp (svQueue sv) sent s s1 \<and> s' = s1\<lparr>tssIndex := tssIndex s1 - m\<rparr> \<and>
       sessionOwed (readVec c heap) (svQueue sv') s' = sessionOwed (readVec c heap) (svQueue sv) s1"
proof -
  let ?mem = "readVec c heap" and ?sv = "doAccept conn sv" and ?q = "svQueue sv"
  have q: "svQueue ?sv = ?q" "svCapacity ?sv = svCapacity sv" by (simp_all add: doAccept_def split: option.splits)
  have "sessionWf ?q (newSendSession fd)" for fd by (simp add: sessionWf_def newSendSession_def)
  then have wf: "\<forall>s \<in> set (svSessions ?sv). sessionWf ?q s"
    using assms(1) by (auto simp: serverOk_def doAccept_def split: option.splits)
  have snd: "\<forall>e \<in> set ?q. soundBatch ?mem e" using assms(1) by (simp add: serverOk_def)
  obtain m sent ss out' where "runSessions ?mem inp ?q (svSessions ?sv) (length ?q) out = Ret (m, sent, ss, out') \<and>
      m = foldl min (length ?q) (map tssIndex (svSessions ?sv)) \<and> map fst sent = map tssId (svSessions ?sv) \<and>
      subseq (map tssId ss) (map tssId (svSessions ?sv)) \<and>
      (\<forall>s' \<in> set ss. sessionWf ?q s' \<and> (\<exists>s \<in> set (svSessions ?sv). sessionStep ?mem inp ?q sent s s'))"
    by (rule exE [OF runSessions_spec [OF snd wf assms(3), of "length ?q" out]], elim exE) (rule that)
  then have r: "runSessions ?mem inp ?q (svSessions ?sv) (length ?q) out = Ret (m, sent, ss, out')"
      "m = foldl min (length ?q) (map tssIndex (svSessions ?sv))" "map fst sent = map tssId (svSessions ?sv)"
      "subseq (map tssId ss) (map tssId (svSessions ?sv))"
      "\<forall>s' \<in> set ss. sessionWf ?q s' \<and> (\<exists>s \<in> set (svSessions ?sv). sessionStep ?mem inp ?q sent s s')"
    by - (elim conjE, assumption)+
  have le: "m \<le> tssIndex s'" if s': "s' \<in> set ss" for s'
  proof -
    obtain s where s: "s \<in> set (svSessions ?sv)" "sessionStep ?mem inp ?q sent s s'"
      using conjunct2 [OF bspec [OF r(5) s']] by (elim bexE) (rule that)
    have "m \<le> tssIndex s" unfolding r(2) using s(1) by (intro foldl_min(2)) simp
    then show ?thesis using sessionStep_keeps(2) [OF s(2)] by simp
  qed
  let ?sv' = "?sv\<lparr>svSessions := map (\<lambda>s. s\<lparr>tssIndex := tssIndex s - m\<rparr>) ss, svQueue := drop m ?q\<rparr>"
  have "map (\<lambda>s. s\<lparr>tssIndex := tssIndex s - 0\<rparr>) ss = ss" by (induction ss) simp_all
  then have run: "serverRunOnce ?mem conn inp begin end sv out =
      Ret (if m = 0 then begin else qbEnd (?q ! (m - 1)), sent, ?sv', out')"
    using assms(2) r(1) by (auto simp: serverRunOnce_def Let_def q)
  have ok: "serverOk ?mem ?sv'"
    using snd le session_shift(1) [OF conjunct1 [OF bspec [OF r(5)]]] by (auto simp: serverOk_def dest: in_set_dropD)
  have step: "\<exists>s \<in> set (svSessions ?sv). \<exists>s1. sessionStep ?mem inp ?q sent s s1 \<and>
      s' = s1\<lparr>tssIndex := tssIndex s1 - m\<rparr> \<and> sessionOwed ?mem (svQueue ?sv') s' = sessionOwed ?mem ?q s1"
    if s': "s' \<in> set (svSessions ?sv')" for s'
  proof -
    obtain s1 where s1: "s1 \<in> set ss" "s' = s1\<lparr>tssIndex := tssIndex s1 - m\<rparr>" using s' by auto
    from bspec [OF r(5) s1(1)] le [OF s1(1)]
    have wf1: "sessionWf ?q s1" "m \<le> tssIndex s1" by simp_all
    then have "sessionOwed ?mem (svQueue ?sv') s' = sessionOwed ?mem ?q s1"
      using session_shift(2) by (simp add: s1(2))
    then show ?thesis using conjunct2 [OF bspec [OF r(5) s1(1)]] s1(2) by (elim bexE) (intro bexI exI conjI)
  qed
  have sub: "subseq (map tssId (svSessions ?sv')) (map tssId (svSessions ?sv))"
    using r(4) by (simp add: comp_def)
  show ?thesis
    by (rule that [OF run r(2) refl _ r(3) sub _ ok step]) (simp_all add: q)
qed

lemma server_round_empty:
  assumes "svSessions (doAccept conn sv) = []"
  shows "serverRunOnce mem conn inp begin end sv out = Ret (end, [], sv\<lparr>svQueue := []\<rparr>, out)"
proof -
  have "conn = None" using assms by (cases conn) (simp_all add: doAccept_def)
  then show ?thesis using assms by (simp add: serverRunOnce_def doAccept_def Let_def)
qed

end
