(* ===== verification/TcpEngineSpec.thy ===== *)
theory TcpEngineSpec
  imports TcpEngine TcpSendSpec BackupStream QueueProperties
begin

text \<open>
  The parts of a round of the TCP engine, for messages of one tag: putting a message in place is a
  put; the loop makes one batch of what it looks at; the batches of the server's queue cover the
  ring from the first slot held to the engine's position, so the bytes they owe are those of the
  messages there; releasing attachments leaves the messages behind alone.
\<close>

section \<open>Putting in place\<close>

lemma construct_index:
  assumes "queue_shape r b"
  shows "chunkMinus (iterDeref (buffer0 b) it) (buffer0 b) = seq it AND MASK0 b"
proof -
  note sh = queue_shapeD [OF assms]
  have "unat (seq it AND chunkMASK (buffer0 b)) < 2 ^ r"
    using chunk_index(2) [OF sh(1)] sh(1) by (simp add: chunk_wf_def)
  then show ?thesis using chunk_address_roundtrip [OF sh(1)] by (simp add: iterDeref_def sh(4))
qed

lemma tryPutInPlace_eq:
  assumes "queue_shape r b" "item \<noteq> []" "length item \<le> VALUE_TYPE_SIZE0 b"
  shows "tryPutInPlace b item = tryPut0 b item (length item)"
proof -
  let ?s = "toBeClaimedSeq0 b"
  let ?b1 = "b\<lparr>toBeClaimedSeq0 := ?s + 1\<rparr>"
  let ?b2 = "?b1\<lparr>buffer0 := copyIn (buffer0 ?b1) (?s AND MASK0 ?b1) item (length item)\<rparr>"
  have sh1: "queue_shape r ?b1" using assms(1) by simp
  have sh2: "queue_shape r ?b2" by (rule queue_shape_copyIn(1) [OF sh1]) (use assms(3) in simp_all)
  have c: "constructAt ?b1 (iteratorAt ?s) item = Ret ?b2"
    using assms(3) construct_index [OF sh1, of "iteratorAt ?s"] by (simp add: constructAt_def iteratorAt_def)
  have w: "writeItem0 ?b1 ?s item (length item) = Ret ?b2"
    using assms(2,3) by (simp add: writeItem0_def hintSize0_def Let_def)
  have p: "commit0 ?b2 (iteratorAt ?s) = publish0 ?b2 ?s"
    unfolding commit0_def construct_index [OF sh2] by (simp add: publish0_def iteratorAt_def)
  show ?thesis
  proof (cases "?s < CAPACITY0 b + readSeq0 b \<and> readyToWriteOver b ?s")
    case True
    then have "tryPutInPlace b item = Ret (True, publish0 ?b2 ?s)"
      using c p by (simp add: tryPutInPlace_def tryClaim0_def Let_def iteratorAt_def)
    moreover have "tryPut0 b item (length item) = Ret (True, publish0 ?b2 ?s)"
      using True w by (simp add: tryPut0_def Let_def)
    ultimately show ?thesis by simp
  next
    case False
    have "tryPutInPlace b item = Ret (False, b)"
      unfolding tryPutInPlace_def tryClaim0_def Let_def if_not_P [OF False] by (simp add: nullIterator_def)
    moreover have "tryPut0 b item (length item) = Ret (False, b)"
      unfolding tryPut0_def Let_def if_not_P [OF False] by (rule refl)
    ultimately show ?thesis by simp
  qed
qed

section \<open>Messages in the ring\<close>

lemma netWrap_parts:
  assumes "8 + length body < 2 ^ 16"
  shows "length (netWrap flag tag body) = 11 + length body"
    "itemFlag (netWrap flag tag body @ rest) = flag"
    "itemWireSize (netWrap flag tag body @ rest) = length (netWrap flag tag body)"
    "itemTypeTag (netWrap flag tag body @ rest) = tag"
    "drop 11 (netWrap flag tag body) = body"
proof -
  let ?m = "\<lparr>wFlag = flag, wSeq = push_bit 32 (ucast flag), wTag = tag, wBody = body, wInband = 0\<rparr>"
  have "unat flag < 2 ^ 8" using unsigned_less [of flag] by simp
  then have "unat (ucast flag :: u64) < 2 ^ 8" by (simp add: unsigned_ucast_eq take_bit_nat_eq_self)
  then have "unat (push_bit 32 (ucast flag) :: u64) < 2 ^ 48"
    by (simp add: push_bit_eq_mult unat_word_ariths)
  then have fit: "fitsWire ?m" using assms by (simp add: fitsWire_def)
  note w = wireBytes_parts [OF fit, folded netWrap_def]
  show len: "length (netWrap flag tag body) = 11 + length body" using w(2) by simp
  have "wFlag (decodeWire (netWrap flag tag body @ rest)) = flag" by (simp only: w(3) received_def) simp
  then show "itemFlag (netWrap flag tag body @ rest) = flag" by (simp add: itemFlag_def decodeWire_def Let_def)
  show "itemWireSize (netWrap flag tag body @ rest) = length (netWrap flag tag body)"
    using w(1) [of rest] len by (simp add: itemWireSize_def payloadLen_def)
  have "wTag (decodeWire (netWrap flag tag body @ rest)) = tag" by (simp only: w(3) received_def) simp
  then show "itemTypeTag (netWrap flag tag body @ rest) = tag" by (simp add: itemTypeTag_def decodeWire_def Let_def)
  show "drop 11 (netWrap flag tag body) = body"
    by (simp add: netWrap_def wireBytes_def wireHeader_def del: leBytes.simps)
qed

text \<open>
  A message of tag \<open>t\<close> that its header describes; one with an attachment has room for the
  attachment's fields, and its bytes are in memory.
\<close>

definition goodItem :: "u16 \<Rightarrow> (u64 \<Rightarrow> bytes) \<Rightarrow> bytes \<Rightarrow> bool" where
  "goodItem t heap m \<longleftrightarrow>
     (\<exists>flag body. m = netWrap flag t body \<and> 8 + length body < 2 ^ 16 \<and> (flag = 0 \<or> flag = 1) \<and>
        (flag = 1 \<longrightarrow> 40 \<le> length body \<and> attLenOf m \<le> length (heap (attPtrOf m)) \<and> attLenOf m < 2 ^ 30))"

lemma goodItem_parts:
  assumes "goodItem t heap m"
  shows "m \<noteq> []" "length m < 2 ^ 17" "itemFlag (m @ rest) = itemFlag m" "itemFlag m = 0 \<or> itemFlag m = 1"
    "itemWireSize (m @ rest) = length m" "itemTypeTag (m @ rest) = t"
    "itemFlag m = 1 \<Longrightarrow> attPtrOf (m @ rest) = attPtrOf m \<and> attLenOf (m @ rest) = attLenOf m \<and>
       attCleanupOf (m @ rest) = attCleanupOf m \<and> attLenOf m \<le> length (heap (attPtrOf m)) \<and> attLenOf m < 2 ^ 30"
proof -
  obtain flag body where m: "m = netWrap flag t body" "8 + length body < 2 ^ 16" "flag = 0 \<or> flag = 1"
    "flag = 1 \<longrightarrow> 40 \<le> length body \<and> attLenOf m \<le> length (heap (attPtrOf m)) \<and> attLenOf m < 2 ^ 30"
    using assms by (auto simp: goodItem_def)
  note p = netWrap_parts [OF m(2), of flag t, folded m(1)]
  have f: "itemFlag m = flag" using p(2) [of "[]"] by simp
  show "m \<noteq> []" "length m < 2 ^ 17" using p(1) m(2) by auto
  show "itemFlag (m @ rest) = itemFlag m" "itemFlag m = 0 \<or> itemFlag m = 1"
    "itemWireSize (m @ rest) = length m" "itemTypeTag (m @ rest) = t"
    using p(2-4) f m(3) by simp_all
  assume "itemFlag m = 1"
  then have "51 \<le> length m" using f m(4) p(1) by simp
  then show "attPtrOf (m @ rest) = attPtrOf m \<and> attLenOf (m @ rest) = attLenOf m \<and>
       attCleanupOf (m @ rest) = attCleanupOf m \<and> attLenOf m \<le> length (heap (attPtrOf m)) \<and> attLenOf m < 2 ^ 30"
    using m(4) f \<open>itemFlag m = 1\<close> by (simp add: attPtrOf_def attLenOf_def attCleanupOf_def)
qed

text \<open>The bytes of a message on the wire, and the pointers a batch has for it.\<close>

definition wireOf :: "(u64 \<Rightarrow> bytes) \<Rightarrow> bytes \<Rightarrow> bytes" where
  "wireOf heap m = m @ (if itemFlag m = 1 then take (attLenOf m) (heap (attPtrOf m)) else [])"

definition vecsAt :: "nat \<Rightarrow> bytes list \<Rightarrow> nat \<Rightarrow> iovec list" where
  "vecsAt r hist n =
     \<lparr>iov_base = InSlot (of_nat (n mod 2 ^ r)) 0, iov_len = length (hist ! n)\<rparr> #
     (if itemFlag (hist ! n) = 1
      then [\<lparr>iov_base = InHeap (attPtrOf (hist ! n)) 0, iov_len = attLenOf (hist ! n)\<rparr>] else [])"

text \<open>The slots from \<open>lo\<close> to \<open>hi\<close> hold the messages with these numbers.\<close>

definition holdsFrom :: "MemRingBuffer0 \<Rightarrow> bytes list \<Rightarrow> nat \<Rightarrow> nat \<Rightarrow> bool" where
  "holdsFrom b hist lo hi \<longleftrightarrow> (\<forall>n. lo \<le> n \<and> n < hi \<longrightarrow> (\<exists>rest. slotData (slot0 b n) = hist ! n @ rest))"

lemma holdsFromD: "holdsFrom b hist lo hi \<Longrightarrow> lo \<le> n \<Longrightarrow> n < hi \<Longrightarrow> \<exists>rest. slotData (slot0 b n) = hist ! n @ rest"
  by (simp add: holdsFrom_def)

lemma slot_by_mod:
  assumes "queue_shape r b"
  shows "slotData (space (buffer0 b) ! unat (of_nat (n mod 2 ^ r) :: u64)) = slotData (slot0 b n)"
proof -
  have r: "(2 :: nat) ^ r \<le> 2 ^ 32" using queue_shapeD(3) [OF assms] .
  have "n mod 2 ^ r < 2 ^ 32" by (rule less_le_trans [OF _ r]) simp
  then have "n mod 2 ^ r < 2 ^ 64" by (rule less_trans) simp
  then have "unat (of_nat (n mod 2 ^ r) :: u64) = n mod 2 ^ r" by (simp add: unsigned_of_nat take_bit_nat_eq_self)
  then show ?thesis using queue_shapeD(1) [OF assms] by (simp add: slot0_def slotOf_def chunk_wf_def)
qed

lemma readVec_vecsAt:
  assumes "queue_shape r b" "holdsFrom b hist lo hi" "lo \<le> n" "n < hi" "goodItem t heap (hist ! n)"
  shows "solid (readVec (buffer0 b) heap) (vecsAt r hist n)"
    "concat (map (readVec (buffer0 b) heap) (vecsAt r hist n)) = wireOf heap (hist ! n)"
    "vecBytes (vecsAt r hist n) < 2 ^ 30 + 2 ^ 17"
proof -
  obtain rest where d: "slotData (slot0 b n) = hist ! n @ rest" using holdsFromD [OF assms(2-4)] by blast
  note g = goodItem_parts [OF assms(5)]
  show "solid (readVec (buffer0 b) heap) (vecsAt r hist n)"
    "concat (map (readVec (buffer0 b) heap) (vecsAt r hist n)) = wireOf heap (hist ! n)"
    using g(4,7) by (auto simp: vecsAt_def readVec_def slot_by_mod [OF assms(1)] d wireOf_def)
  show "vecBytes (vecsAt r hist n) < 2 ^ 30 + 2 ^ 17"
    using g(2) g(7) [of "[]"] by (auto simp: vecsAt_def)
qed

section \<open>Making a batch\<close>

lemma slot_index:
  assumes "queue_shape r b" "n < 2 ^ 63"
  shows "of_nat n AND chunkMASK (buffer0 b) = (of_nat (n mod 2 ^ r) :: u64)"
proof -
  note sh = queue_shapeD [OF assms(1)]
  have "n mod 2 ^ r < 2 ^ 63" using assms(2) by (rule le_less_trans [OF mod_less_eq_dividend])
  moreover have "unat (of_nat n AND chunkMASK (buffer0 b)) = n mod 2 ^ r"
    using chunk_index(1) [OF sh(1), of "of_nat n"] sh(1) unat_of_nat_small [OF assms(2)]
    by (simp add: chunk_wf_def)
  ultimately show ?thesis by (simp add: word_unat_eq_iff unat_of_nat_small)
qed

lemma vecBytes_range:
  assumes "queue_shape r b" "holdsFrom b hist lo hi" "\<forall>n. lo \<le> n \<and> n < hi \<longrightarrow> goodItem t heap (hist ! n)"
    "lo \<le> k" "k \<le> hi" "hi \<le> lo + 2 ^ 32"
  shows "vecBytes (concat (map (vecsAt r hist) [lo..<k])) < 2 ^ 63 - 2 ^ 31"
proof -
  have "vecBytes (concat (map (vecsAt r hist) [lo..<k])) \<le> (k - lo) * (2 ^ 30 + 2 ^ 17)"
    using assms(4,5)
  proof (induction k rule: dec_induct)
    case base
    then show ?case by simp
  next
    case (step n)
    have n: "lo \<le> n" "n < hi" using step by simp_all
    then have "goodItem t heap (hist ! n)" using assms(3) by blast
    from readVec_vecsAt(3) [OF assms(1,2) n this] have "vecBytes (vecsAt r hist n) < 2 ^ 30 + 2 ^ 17" .
    then show ?case using step by (simp add: Suc_diff_le)
  qed
  also have "\<dots> \<le> 2 ^ 32 * (2 ^ 30 + 2 ^ 17)" using assms(4-6) by (intro mult_le_mono1) linarith
  also have "\<dots> < 2 ^ 63 - 2 ^ 31" by simp
  finally show ?thesis .
qed

text \<open>What the loop has gathered between \<open>lo\<close> and \<open>k\<close>.\<close>

definition gathered :: "nat \<Rightarrow> u16 \<Rightarrow> bytes list \<Rightarrow> nat \<Rightarrow> nat \<Rightarrow> Batching \<Rightarrow> bool" where
  "gathered r t hist lo k st \<longleftrightarrow>
     baIt st = iteratorAt (of_nat k) \<and> baVecs st = concat (map (vecsAt r hist) [lo..<k]) \<and>
     baSize st = of_nat (vecBytes (concat (map (vecsAt r hist) [lo..<k]))) \<and> baTag st = (if lo = k then 0 else t)"

definition fitsMtu :: "u64 \<Rightarrow> bytes \<Rightarrow> bool" where
  "fitsMtu mtu m \<longleftrightarrow> itemFlag m = 1 \<or> length m \<le> unat mtu"

lemma addItem_gathers:
  assumes "gathered r t hist lo k st" "goodItem t heap (hist ! k)" "lo \<le> k" "t \<noteq> 0"
  shows "gathered r t hist lo (Suc k) (addItem (of_nat (k mod 2 ^ r)) (hist ! k @ rest) st)"
    "baServer (addItem (of_nat (k mod 2 ^ r)) (hist ! k @ rest) st) = baServer st"
    "baRater (addItem (of_nat (k mod 2 ^ r)) (hist ! k @ rest) st) = baRater st"
proof -
  note g = goodItem_parts [OF assms(2)]
  have nz: "itemFlag (hist ! k) = 1 \<or> itemFlag (hist ! k) = 0 \<and> itemFlag (hist ! k) \<noteq> 1" using g(4) by auto
  have v: "concat (map (vecsAt r hist) [lo..<Suc k]) = concat (map (vecsAt r hist) [lo..<k]) @ vecsAt r hist k"
    using assms(3) by simp
  have lt: "lo \<noteq> Suc k" using assms(3) by simp
  have e: "lo = k \<Longrightarrow> concat (map (vecsAt r hist) [lo..<k]) = []" by simp
  show "gathered r t hist lo (Suc k) (addItem (of_nat (k mod 2 ^ r)) (hist ! k @ rest) st)"
    using assms(1,4) nz g(3,5,6,7) lt e unfolding gathered_def v
    by (cases "lo = k"; elim disjE)
      (simp_all add: addItem_def Let_def vecsAt_def iterInc_def iteratorAt_def)
  show "baServer (addItem (of_nat (k mod 2 ^ r)) (hist ! k @ rest) st) = baServer st"
    "baRater (addItem (of_nat (k mod 2 ^ r)) (hist ! k @ rest) st) = baRater st"
    using assms(1,4) g(6) by (auto simp: addItem_def Let_def gathered_def)
qed

lemma batchLoop_spec:
  assumes "queue_shape r b" "holdsFrom b hist lo hi" "\<forall>n. lo \<le> n \<and> n < hi \<longrightarrow> goodItem t heap (hist ! n)"
    "hi \<le> lo + 2 ^ 32" "hi < 2 ^ 63" "t \<noteq> 0"
  shows "gathered r t hist lo k st \<Longrightarrow> raterOff (baRater st) \<Longrightarrow> lo \<le> k \<Longrightarrow> k \<le> hi \<Longrightarrow>
    \<exists>st' k'. batchLoop mtu clock (buffer0 b) (iteratorAt (of_nat hi)) st = Ret st' \<and> k \<le> k' \<and> k' \<le> hi \<and>
      gathered r t hist lo k' st' \<and> baServer st' = baServer st \<and> baRater st' = baRater st \<and>
      (\<forall>n. k \<le> n \<and> n < k' \<longrightarrow> fitsMtu mtu (hist ! n))"
proof (induction "hi - k" arbitrary: k st)
  case 0
  then have "k = hi" by simp
  then have "batchLoop mtu clock (buffer0 b) (iteratorAt (of_nat hi)) st = Ret st"
    using 0 by (subst batchLoop.simps) (simp add: gathered_def iterEq_def)
  then show ?case using 0 \<open>k = hi\<close> by auto
next
  case (Suc x)
  have lt: "k < hi" using Suc.hyps(2) by simp
  have k63: "k < 2 ^ 63" using lt assms(5) by simp
  have "(of_nat k :: u64) \<noteq> of_nat hi"
    using lt unat_of_nat_small [OF k63] unat_of_nat_small [OF assms(5)] by (metis less_irrefl)
  then have ne: "\<not> iterEq (baIt st) (iteratorAt (of_nat hi))"
    using Suc.prems(1) by (simp add: gathered_def iterEq_def iteratorAt_def)
  obtain rest where d: "slotData (slot0 b k) = hist ! k @ rest"
    using holdsFromD [OF assms(2) Suc.prems(3) lt] by blast
  have good: "goodItem t heap (hist ! k)" using assms(3) Suc.prems(3) lt by simp
  note g = goodItem_parts [OF good]
  let ?i = "of_nat (k mod 2 ^ r) :: u64" and ?m = "hist ! k"
  have i: "seq (baIt st) AND chunkMASK (buffer0 b) = ?i"
    using slot_index [OF assms(1) k63] Suc.prems(1) by (simp add: gathered_def iteratorAt_def)
  have rater: "st\<lparr>baRater := baRater st\<rparr> = st" by simp
  let ?st = "addItem ?i (?m @ rest) st"
  note add = addItem_gathers [OF Suc.prems(1) good Suc.prems(3) assms(6), of rest]
  have off: "raterOff (baRater ?st)" using add(3) Suc.prems(2) by simp
  have rater': "?st\<lparr>baRater := baRater ?st\<rparr> = ?st" by simp
  let ?stop = "itemFlag ?m = 0 \<and> mtu < baSize st + of_nat (length ?m)"
  have step: "batchLoop mtu clock (buffer0 b) (iteratorAt (of_nat hi)) st =
      (if ?stop then Ret st else batchLoop mtu clock (buffer0 b) (iteratorAt (of_nat hi)) ?st)"
    using ne g(3,5) raterOff_steps [OF Suc.prems(2)] raterOff_steps(2) [OF off]
    by (subst batchLoop.simps) (simp add: i slot_by_mod [OF assms(1)] d Let_def)
  show ?case
  proof (cases ?stop)
    case True
    then show ?thesis unfolding step if_P [OF True] using Suc.prems by auto
  next
    case False
    obtain st' k' where r: "batchLoop mtu clock (buffer0 b) (iteratorAt (of_nat hi)) ?st = Ret st'" "Suc k \<le> k'" "k' \<le> hi"
      "gathered r t hist lo k' st'" "baServer st' = baServer ?st" "baRater st' = baRater ?st"
      "\<forall>n. Suc k \<le> n \<and> n < k' \<longrightarrow> fitsMtu mtu (hist ! n)"
    proof -
      have "x = hi - Suc k" using Suc.hyps(2) by simp
      from Suc.hyps(1) [OF this add(1) off le_SucI [OF Suc.prems(3)] Suc_leI [OF lt]] show ?thesis
        by (elim exE conjE) (rule that)
    qed
    have "fitsMtu mtu ?m"
    proof (cases "itemFlag ?m = 1")
      case True
      then show ?thesis by (simp add: fitsMtu_def)
    next
      case nf: False
      let ?v = "vecBytes (concat (map (vecsAt r hist) [lo..<k]))"
      have v: "?v < 2 ^ 63 - 2 ^ 31"
        using vecBytes_range [OF assms(1-3) Suc.prems(3,4) assms(4)] .
      have "baSize st + of_nat (length ?m) = (of_nat (?v + length ?m) :: u64)"
        using Suc.prems(1) by (simp add: gathered_def)
      moreover have "?v + length ?m < 2 ^ 63" using v g(2) by simp
      ultimately have "unat (baSize st + of_nat (length ?m)) = ?v + length ?m"
        by (simp only: unat_of_nat_small)
      moreover have "baSize st + of_nat (length ?m) \<le> mtu" using False nf g(4) by auto
      ultimately show ?thesis by (simp add: fitsMtu_def word_le_nat_alt)
    qed
    then have "\<forall>n. k \<le> n \<and> n < k' \<longrightarrow> fitsMtu mtu (hist ! n)" using r(7) by (metis Suc_leI le_neq_implies_less)
    then show ?thesis
      unfolding step if_not_P [OF False] using r(1-6) add(2,3) by (intro exI [of _ st'] exI [of _ k']) auto
  qed
qed

section \<open>The queue covers the ring\<close>

fun coversRing :: "(nat \<Rightarrow> iovec list) \<Rightarrow> u16 \<Rightarrow> nat \<Rightarrow> QueuedBatch list \<Rightarrow> nat \<Rightarrow> bool" where
  "coversRing vec t lo [] hi \<longleftrightarrow> lo = hi"
| "coversRing vec t lo (e # q) hi \<longleftrightarrow>
     (\<exists>mid. lo < mid \<and> qbEnd e = iteratorAt (of_nat mid) \<and> qbTag e = t \<and> qbToSend e = concat (map vec [lo..<mid]) \<and>
        qbBytes e = of_nat (vecBytes (qbToSend e)) \<and> coversRing vec t mid q hi)"

lemma coversRing_le: "coversRing vec t lo q hi \<Longrightarrow> lo + length q \<le> hi"
  by (induction q arbitrary: lo) fastforce+

lemma coversRing_tags: "coversRing vec t lo q hi \<Longrightarrow> e \<in> set q \<Longrightarrow> qbTag e = t"
  by (induction q arbitrary: lo) auto

lemma coversRing_append:
  "coversRing vec t lo q mid \<Longrightarrow> coversRing vec t mid q' hi \<Longrightarrow> coversRing vec t lo (q @ q') hi"
  by (induction q arbitrary: lo) auto

lemma coversRing_drop:
  "coversRing vec t lo q hi \<Longrightarrow> m \<le> length q \<Longrightarrow>
     \<exists>mid. coversRing vec t mid (drop m q) hi \<and> lo \<le> mid \<and> mid \<le> hi \<and>
       (if m = 0 then mid = lo else lo < mid \<and> qbEnd (q ! (m - 1)) = iteratorAt (of_nat mid))"
proof (induction m arbitrary: lo q)
  case 0
  then show ?case using coversRing_le [OF 0(1)] by auto
next
  case (Suc m)
  then obtain e q' where q: "q = e # q'" by (cases q) auto
  obtain mid where mid: "lo < mid" "qbEnd e = iteratorAt (of_nat mid)" "coversRing vec t mid q' hi"
    using Suc.prems(1) by (auto simp: q)
  obtain mid' where m': "coversRing vec t mid' (drop m q') hi" "mid \<le> mid'" "mid' \<le> hi"
    "if m = 0 then mid' = mid else mid < mid' \<and> qbEnd (q' ! (m - 1)) = iteratorAt (of_nat mid')"
    using Suc.IH [OF mid(3)] Suc.prems(2) q by auto
  have "qbEnd (q ! m) = iteratorAt (of_nat mid')"
  proof (cases m)
    case 0
    then show ?thesis using m'(4) mid(2) by (simp add: q)
  next
    case (Suc k)
    then show ?thesis using m'(4) by (simp add: q)
  qed
  then show ?case using m'(1-3) mid(1) by (intro exI [of _ mid']) (simp add: q)
qed

lemma coversRing_batch:
  "coversRing vec t lo q hi \<Longrightarrow> e \<in> set q \<Longrightarrow>
     \<exists>a z. lo \<le> a \<and> a \<le> z \<and> z \<le> hi \<and> qbToSend e = concat (map vec [a..<z]) \<and> qbBytes e = of_nat (vecBytes (qbToSend e))"
proof (induction q arbitrary: lo)
  case (Cons e' q)
  obtain mid where mid: "lo < mid" "qbToSend e' = concat (map vec [lo..<mid])" "qbBytes e' = of_nat (vecBytes (qbToSend e'))"
    "coversRing vec t mid q hi"
    using Cons.prems(1) by auto
  show ?case
  proof (cases "e = e'")
    case True
    then show ?thesis using mid coversRing_le [OF mid(4)] by (intro exI [of _ lo] exI [of _ mid]) simp
  next
    case False
    then obtain a z where "mid \<le> a" "a \<le> z" "z \<le> hi" "qbToSend e = concat (map vec [a..<z])"
      "qbBytes e = of_nat (vecBytes (qbToSend e))"
      using Cons.IH [OF mid(4)] Cons.prems(2) by auto
    then show ?thesis using mid(1) by (intro exI [of _ a] exI [of _ z]) simp
  qed
qed simp

text \<open>The messages from \<open>lo\<close> to \<open>hi\<close> are in the ring and good.\<close>

definition ringHolds :: "nat \<Rightarrow> MemRingBuffer0 \<Rightarrow> u16 \<Rightarrow> (u64 \<Rightarrow> bytes) \<Rightarrow> bytes list \<Rightarrow> nat \<Rightarrow> nat \<Rightarrow> bool" where
  "ringHolds r b t heap hist lo hi \<longleftrightarrow>
     queue_shape r b \<and> holdsFrom b hist lo hi \<and> (\<forall>n. lo \<le> n \<and> n < hi \<longrightarrow> goodItem t heap (hist ! n)) \<and>
     hi \<le> lo + 2 ^ 32 \<and> hi < 2 ^ 63"

lemma ringHoldsD:
  assumes "ringHolds r b t heap hist lo hi"
  shows "queue_shape r b" "holdsFrom b hist lo hi" "\<forall>n. lo \<le> n \<and> n < hi \<longrightarrow> goodItem t heap (hist ! n)"
    "hi \<le> lo + 2 ^ 32" "hi < 2 ^ 63"
  using assms by (simp_all add: ringHolds_def)

definition wireRange :: "(u64 \<Rightarrow> bytes) \<Rightarrow> bytes list \<Rightarrow> nat \<Rightarrow> nat \<Rightarrow> bytes" where
  "wireRange heap hist lo hi = concat (map (\<lambda>n. wireOf heap (hist ! n)) [lo..<hi])"

lemma wireRange_add: "lo \<le> mid \<Longrightarrow> mid \<le> hi \<Longrightarrow> wireRange heap hist lo hi = wireRange heap hist lo mid @ wireRange heap hist mid hi"
proof -
  assume "lo \<le> mid" "mid \<le> hi"
  then have "[lo..<hi] = [lo..<mid] @ [mid..<hi]" by (metis le_add_diff_inverse upt_add_eq_append)
  then show ?thesis by (simp add: wireRange_def)
qed

lemma wireRange_nil [simp]: "wireRange heap hist lo lo = []"
  by (simp add: wireRange_def)

lemma range_bytes:
  assumes "ringHolds r b t heap hist lo hi" "lo \<le> a" "a \<le> z" "z \<le> hi"
  shows "solid (readVec (buffer0 b) heap) (concat (map (vecsAt r hist) [a..<z]))"
    "concat (map (readVec (buffer0 b) heap) (concat (map (vecsAt r hist) [a..<z]))) = wireRange heap hist a z"
    "vecBytes (concat (map (vecsAt r hist) [a..<z])) < 2 ^ 63"
proof -
  note R = ringHoldsD [OF assms(1)]
  have one: "solid (readVec (buffer0 b) heap) (vecsAt r hist n)"
    "concat (map (readVec (buffer0 b) heap) (vecsAt r hist n)) = wireOf heap (hist ! n)" if "a \<le> n" "n < z" for n
  proof -
    have n: "lo \<le> n" "n < hi" using that assms by simp_all
    then have "goodItem t heap (hist ! n)" using R(3) by blast
    from readVec_vecsAt(1,2) [OF R(1,2) n this]
    show "solid (readVec (buffer0 b) heap) (vecsAt r hist n)"
      "concat (map (readVec (buffer0 b) heap) (vecsAt r hist n)) = wireOf heap (hist ! n)" .
  qed
  have "solid (readVec (buffer0 b) heap) (concat (map (vecsAt r hist) [a..<y])) \<and>
      concat (map (readVec (buffer0 b) heap) (concat (map (vecsAt r hist) [a..<y]))) = wireRange heap hist a y"
    if "a \<le> y" "y \<le> z" for y
    using that
  proof (induction y rule: dec_induct)
    case (step n)
    then show ?case using one [of n] by (simp add: wireRange_def)
  qed simp
  then show "solid (readVec (buffer0 b) heap) (concat (map (vecsAt r hist) [a..<z]))"
    "concat (map (readVec (buffer0 b) heap) (concat (map (vecsAt r hist) [a..<z]))) = wireRange heap hist a z"
    using assms(3) by simp_all
  have h: "holdsFrom b hist a hi" "\<forall>n. a \<le> n \<and> n < hi \<longrightarrow> goodItem t heap (hist ! n)" "hi \<le> a + 2 ^ 32"
    using R(2,3,4) assms(2) by (auto simp: holdsFrom_def)
  from vecBytes_range [OF R(1) h(1,2) assms(3,4) h(3)]
  show "vecBytes (concat (map (vecsAt r hist) [a..<z])) < 2 ^ 63" by simp
qed

lemma coversRing_sound:
  assumes "ringHolds r b t heap hist lo hi" "coversRing (vecsAt r hist) t lo q hi"
  shows "\<forall>e \<in> set q. soundBatch (readVec (buffer0 b) heap) e"
proof
  fix e assume "e \<in> set q"
  then obtain a z where az: "lo \<le> a" "a \<le> z" "z \<le> hi" "qbToSend e = concat (map (vecsAt r hist) [a..<z])"
    "qbBytes e = of_nat (vecBytes (qbToSend e))"
    using coversRing_batch [OF assms(2)] by blast
  from range_bytes [OF assms(1) az(1-3)] az(4,5)
  show "soundBatch (readVec (buffer0 b) heap) e" by (simp add: soundBatch_def)
qed

lemma coversRing_owed:
  "ringHolds r b t heap hist lo hi \<Longrightarrow> coversRing (vecsAt r hist) t lo q hi \<Longrightarrow>
     owedOf (readVec (buffer0 b) heap) subs q = (if tagCheck subs t = 0 then [] else wireRange heap hist lo hi)"
proof (induction q arbitrary: lo)
  case (Cons e q)
  obtain mid where mid: "lo < mid" "qbToSend e = concat (map (vecsAt r hist) [lo..<mid])" "qbTag e = t"
    "coversRing (vecsAt r hist) t mid q hi"
    using Cons.prems(2) by auto
  have le: "mid \<le> hi" using coversRing_le [OF mid(4)] by simp
  have sub: "ringHolds r b t heap hist mid hi"
    using Cons.prems(1) mid(1) le by (auto simp: ringHolds_def holdsFrom_def)
  have "batchBytes (readVec (buffer0 b) heap) e = wireRange heap hist lo mid"
    using range_bytes(2) [OF Cons.prems(1), of lo mid] mid(1,2) le by (simp add: batchBytes_def)
  then show ?case using Cons.IH [OF sub mid(4)] mid(1,3) le wireRange_add [of lo mid hi] by simp
qed simp

text \<open>What a session owes does not depend on where else the ring was written.\<close>

lemma sessionOwed_cong:
  assumes "ringHolds r b t heap hist lo hi" "ringHolds r b' t heap hist lo hi" "coversRing (vecsAt r hist) t lo q hi"
    "sessionWf q s"
  shows "sessionOwed (readVec (buffer0 b) heap) q s = sessionOwed (readVec (buffer0 b') heap) q s"
proof -
  have bytes: "batchBytes (readVec (buffer0 b) heap) e = batchBytes (readVec (buffer0 b') heap) e" if e: "e \<in> set q" for e
  proof -
    obtain a z where az: "lo \<le> a" "a \<le> z" "z \<le> hi" "qbToSend e = concat (map (vecsAt r hist) [a..<z])"
      using coversRing_batch [OF assms(3) e] by blast
    from range_bytes(2) [OF assms(1) az(1-3)] range_bytes(2) [OF assms(2) az(1-3)]
    show ?thesis by (simp add: batchBytes_def az(4))
  qed
  have relic: "concat (map (readVec (buffer0 b) heap) (tssRelic s)) = concat (map (readVec (buffer0 b') heap) (tssRelic s))"
  proof (cases "tssRelicSize s = 0")
    case True
    then show ?thesis using assms(4) by (simp add: sessionWf_def)
  next
    case False
    let ?e = "q ! tssIndex s"
    obtain k where k: "?e \<in> set q" "k < vecBytes (qbToSend ?e)" "extractRelicVecs (qbToSend ?e) k = Ret (tssRelic s)"
      using assms(4) False by (auto simp: sessionWf_def)
    have x: "concat (map (readVec (buffer0 c) heap) (tssRelic s)) = drop k (batchBytes (readVec (buffer0 c) heap) ?e)"
      if "ringHolds r c t heap hist lo hi" for c
    proof -
      have "solid (readVec (buffer0 c) heap) (qbToSend ?e)"
        using coversRing_sound [OF that assms(3)] k(1) by (simp add: soundBatch_def)
      then show ?thesis using extract_spec [OF k(2), of "buffer0 c" heap] k(3) by (auto simp: batchBytes_def)
    qed
    show ?thesis using x [OF assms(1)] x [OF assms(2)] bytes [OF k(1)] by simp
  qed
  have "owedOf (readVec (buffer0 b) heap) subs (drop n q) = owedOf (readVec (buffer0 b') heap) subs (drop n q)" for subs n
  proof -
    have "map (batchBytes (readVec (buffer0 b) heap)) (filter P (drop n q)) =
        map (batchBytes (readVec (buffer0 b') heap)) (filter P (drop n q))" for P
      by (rule map_cong [OF refl]) (auto intro: bytes dest: in_set_dropD)
    then show ?thesis unfolding owedOf_def by (rule arg_cong)
  qed
  then show ?thesis using relic by (simp add: sessionOwed_def)
qed

section \<open>Releasing attachments\<close>

lemma releaseItem_spec:
  assumes "queue_inv r P Q b" "unat s \<in> Q" "32 \<le> VALUE_TYPE_SIZE0 b"
  shows "queue_inv r P Q (snd (releaseItem b s))"
    "claimed0 (snd (releaseItem b s)) = claimed0 b" "read0 (snd (releaseItem b s)) = read0 b"
    "VALUE_TYPE_SIZE0 (snd (releaseItem b s)) = VALUE_TYPE_SIZE0 b"
    "m \<in> wanted P Q b \<Longrightarrow> m \<noteq> unat s \<Longrightarrow> slotData (slot0 (snd (releaseItem b s)) m) = slotData (slot0 b m)"
    "fst (releaseItem b s) = (let d = slotData (slot0 b (unat s)) in if itemFlag d = 1 \<and> attCleanupOf d \<noteq> 0 then [attPtrOf d] else [])"
proof -
  note D = queue_invD [OF assms(1)]
  note sh = queue_shapeD [OF D(1)]
  let ?d = "slotData (space (buffer0 b) ! unat (s AND MASK0 b))"
  let ?item = "take 11 ?d @ replicate 16 0 :: bytes"
  define b' where "b' = b\<lparr>buffer0 := copyIn (buffer0 b) (s AND MASK0 b) ?item 27\<rparr>"
  have d: "?d = slotData (slot0 b (unat s))"
    by (simp add: slot0_def slotOf_def sh(4) chunk_index(1) [OF sh(1)])
  have len: "27 \<le> length ?item" using slot0_length [OF D(1), of "unat s"] assms(3) by (simp add: d)
  have sz: "27 \<le> VALUE_TYPE_SIZE0 b" using assms(3) by simp
  note C = queue_shape_copyIn [OF D(1) len sz, of s, folded b'_def]
  have sq: "slotSeq (slot0 b' n) = slotSeq (slot0 b n)" for n by (simp add: C(2))
  have cr: "claimed0 b' = claimed0 b" "read0 b' = read0 b" "VALUE_TYPE_SIZE0 b' = VALUE_TYPE_SIZE0 b"
    by (simp_all add: b'_def)
  have w: "wanted P Q b' = wanted P Q b" by (simp add: wanted_def cr)
  have "queue_inv r P Q b'"
    by (rule queue_invI) (use C(1) D in \<open>simp_all add: sq w cr\<close>)
  moreover have "slotData (slot0 b' m) = slotData (slot0 b m)" if "m \<in> wanted P Q b" "m \<noteq> unat s" for m
  proof -
    have "unat s \<in> wanted P Q b" using assms(2) by (simp add: wanted_def)
    then have "m mod 2 ^ r \<noteq> unat s mod 2 ^ r" using wanted_mod_inj [OF assms(1) that(1)] that(2) by blast
    then show ?thesis by (simp add: C(2))
  qed
  moreover have "releaseItem b s = (if itemFlag ?d = 1 \<and> attCleanupOf ?d \<noteq> 0 then ([attPtrOf ?d], b') else ([], b))"
    unfolding releaseItem_def b'_def Let_def by (rule refl)
  ultimately show "queue_inv r P Q (snd (releaseItem b s))"
    "claimed0 (snd (releaseItem b s)) = claimed0 b" "read0 (snd (releaseItem b s)) = read0 b"
    "VALUE_TYPE_SIZE0 (snd (releaseItem b s)) = VALUE_TYPE_SIZE0 b"
    "m \<in> wanted P Q b \<Longrightarrow> m \<noteq> unat s \<Longrightarrow> slotData (slot0 (snd (releaseItem b s)) m) = slotData (slot0 b m)"
    "fst (releaseItem b s) = (let d = slotData (slot0 b (unat s)) in if itemFlag d = 1 \<and> attCleanupOf d \<noteq> 0 then [attPtrOf d] else [])"
    using assms(1) cr by (simp_all add: d Let_def)
qed

end
