(* ===== verification/TcpRecvSpec.thy ===== *)
theory TcpRecvSpec
  imports TcpRecv TcpEngineSpec
begin

text \<open>
  What a receiver makes of the bytes of a sender: however they come in pieces, the messages they
  are made of.
\<close>

section \<open>What is expected\<close>

text \<open>
  A message without attachment is put out as the first \<open>k\<close> bytes of its payload. With one it is copied
  into the item's space, over what was there, and put out with the attachment. \<open>item\<close> is that space.
\<close>

definition itemAfter :: "nat \<Rightarrow> bytes \<Rightarrow> bytes \<Rightarrow> bytes" where
  "itemAfter k item m = memcpy item (drop 3 m) (min k (length m - 3))"

definition attOf :: "(u64 \<Rightarrow> bytes) \<Rightarrow> bytes \<Rightarrow> bytes" where
  "attOf heap m = take (attLenOf m) (heap (attPtrOf m))"

fun recvAll :: "(u64 \<Rightarrow> bytes) \<Rightarrow> TypeTagSet \<Rightarrow> nat \<Rightarrow> bytes \<Rightarrow> bytes list \<Rightarrow> RecvItem list" where
  "recvAll heap subs k item [] = []"
| "recvAll heap subs k item (m # ms) =
     (if tagCheck subs (itemTypeTag m) = 0 then recvAll heap subs k item ms
      else if itemFlag m = 1
      then GotWithAttachment (take k (itemAfter k item m)) (Some (attOf heap m)) # recvAll heap subs k (itemAfter k item m) ms
      else GotMessage (take (min k (length m - 3)) (drop 3 m)) # recvAll heap subs k item ms)"

text \<open>The allocator gives memory of the length asked for.\<close>

definition allocates :: "(u16 \<Rightarrow> nat \<Rightarrow> bytes option) \<Rightarrow> bool" where
  "allocates alloc \<longleftrightarrow> (\<forall>t n. \<exists>m. alloc t n = Some m \<and> length m = n)"

text \<open>A message the receiver can take in; the ones with attachments it must have subscribed to.\<close>

definition recvOk :: "(u64 \<Rightarrow> bytes) \<Rightarrow> TypeTagSet \<Rightarrow> nat \<Rightarrow> bytes \<Rightarrow> bool" where
  "recvOk heap subs bufSize m \<longleftrightarrow>
     goodItem (itemTypeTag m) heap m \<and> length m \<le> bufSize \<and> (itemFlag m = 1 \<longrightarrow> tagCheck subs (itemTypeTag m) \<noteq> 0)"

section \<open>The invariant\<close>

text \<open>
  The bytes in the buffer and those to come, \<open>rest\<close>, are the messages \<open>ms\<close>; the first one's attachment
  may be under way.
\<close>

definition attUnderWay :: "(u64 \<Rightarrow> bytes) \<Rightarrow> TcpRecvSession \<Rightarrow> bytes \<Rightarrow> bytes list \<Rightarrow> bool" where
  "attUnderWay heap s rest ms \<longleftrightarrow> ms \<noteq> [] \<and>
     (\<exists>mem. rvMem s = Some mem \<and> length mem = length (attOf heap (hd ms)) \<and>
        take (rvLen s) mem = take (rvLen s) (attOf heap (hd ms))) \<and>
     rvFullLen s = length (attOf heap (hd ms)) \<and> rvLen s \<le> rvFullLen s \<and>
     rvFilled s @ rest = drop (rvLen s) (attOf heap (hd ms)) @ concat (map (wireOf heap) (tl ms))"

definition recvInv :: "(u64 \<Rightarrow> bytes) \<Rightarrow> TcpRecvSession \<Rightarrow> bytes \<Rightarrow> bytes list \<Rightarrow> bool" where
  "recvInv heap s rest ms \<longleftrightarrow>
     (\<forall>m \<in> set ms. recvOk heap (rvSubs s) (rvBufSize s) m) \<and> length (rvItem s) = max (rvMaxItem s) 48 \<and>
     48 \<le> rvMaxItem s \<and> length (rvFilled s) \<le> rvBufSize s \<and> 3 < rvBufSize s \<and>
     (if rvFlag s = 0 then rvFilled s @ rest = concat (map (wireOf heap) ms)
      else rvFlag s = 1 \<and> attUnderWay heap s rest ms)"

definition remaining :: "(u64 \<Rightarrow> bytes) \<Rightarrow> TcpRecvSession \<Rightarrow> bytes list \<Rightarrow> RecvItem list" where
  "remaining heap s ms =
     (if rvFlag s = 0 then recvAll heap (rvSubs s) (rvMaxItem s) (rvItem s) ms
      else GotWithAttachment (take (rvMaxItem s) (rvItem s)) (Some (attOf heap (hd ms))) #
             recvAll heap (rvSubs s) (rvMaxItem s) (rvItem s) (tl ms))"

text \<open>What a step keeps: the settings, and what has been and will be put out.\<close>

definition recvStep :: "(u64 \<Rightarrow> bytes) \<Rightarrow> bytes list \<Rightarrow> bytes list \<Rightarrow> TcpRecvSession \<Rightarrow> TcpRecvSession \<Rightarrow> bool" where
  "recvStep heap ms ms' s s' \<longleftrightarrow>
     rvOut s' @ remaining heap s' ms' = rvOut s @ remaining heap s ms \<and> rvSubs s' = rvSubs s \<and> rvBufSize s' = rvBufSize s \<and>
     rvMaxItem s' = rvMaxItem s \<and> rvInit s' = rvInit s \<and> rvStopped s' = rvStopped s \<and> rvSentText s' = rvSentText s \<and>
     length ms' \<le> length ms"

lemma recvStep_refl [simp]: "recvStep heap ms ms s s"
  by (simp add: recvStep_def)

lemma recvStep_trans: "recvStep heap ms ms' s s' \<Longrightarrow> recvStep heap ms' ms'' s' s'' \<Longrightarrow> recvStep heap ms ms'' s s''"
  by (simp add: recvStep_def)

lemma wireOf_att: "wireOf heap m = m @ (if itemFlag m = 1 then attOf heap m else [])"
  by (simp add: wireOf_def attOf_def)

lemma good_length: "goodItem t heap m \<Longrightarrow> 11 \<le> length m"
  by (auto simp: goodItem_def netWrap_parts)

lemma good_att_length:
  assumes "goodItem t heap m" "itemFlag m = 1"
  shows "51 \<le> length m"
proof -
  obtain flag body where m: "m = netWrap flag t body" "8 + length body < 2 ^ 16" "flag = 1 \<longrightarrow> 40 \<le> length body"
    using assms(1) by (auto simp: goodItem_def)
  have "flag = 1" using netWrap_parts(2) [OF m(2), of flag t "[]"] assms(2) by (simp add: m(1))
  then show ?thesis using m(3) netWrap_parts(1) [OF m(2), of flag t] by (simp add: m(1))
qed

text \<open>The size and the tag stand at the front.\<close>

lemma front_size: "3 \<le> length b \<Longrightarrow> itemWireSize (b @ rest) = itemWireSize b"
  by (simp add: itemWireSize_def)

lemma front_tag: "11 \<le> length b \<Longrightarrow> itemTypeTag (b @ rest) = itemTypeTag b \<and> itemFlag (b @ rest) = itemFlag b"
  by (cases b) (auto simp: itemTypeTag_def itemFlag_def)

section \<open>The steps\<close>

lemma attPart_step:
  assumes "recvInv heap s rest ms"
  shows "\<exists>s' ms'. attPart s = Ret s' \<and> recvInv heap s' rest ms' \<and> recvStep heap ms ms' s s' \<and>
     length (rvFilled s') \<le> length (rvFilled s) \<and> (rvFlag s' = 1 \<longrightarrow> rvFilled s' = [] \<and> ms' = ms \<and> rest \<noteq> []) \<and>
     (rvFlag s = 1 \<and> rvFlag s' = 0 \<longrightarrow> length ms' < length ms)"
proof (cases "rvFlag s = 1 \<and> (rvFilled s \<noteq> [] \<or> writeDone s)")
  case False
  have "rest \<noteq> []" if "rvFlag s = 1"
    using that False assms by (auto simp: recvInv_def attUnderWay_def writeDone_def)
  then show ?thesis using False assms by (auto simp: attPart_def)
next
  case True
  let ?m = "hd ms" and ?a = "attOf heap (hd ms)" and ?b = "rvFilled s" and ?n = "rvLen s"
  have U: "attUnderWay heap s rest ms" using assms True by (auto simp: recvInv_def)
  then obtain mem where mem: "rvMem s = Some mem" "length mem = length ?a" "take ?n mem = take ?n ?a"
    by (auto simp: attUnderWay_def)
  have u: "ms \<noteq> []" "rvFullLen s = length ?a" "?n \<le> length ?a"
    "?b @ rest = drop ?n ?a @ concat (map (wireOf heap) (tl ms))"
    using U by (auto simp: attUnderWay_def)
  let ?wl = "min (length ?b) (length ?a - ?n)"
  let ?mem = "take ?n mem @ memcpy (drop ?n mem) ?b ?wl"
  let ?s1 = "s\<lparr>rvMem := Some ?mem, rvLen := ?n + ?wl\<rparr>"
  have w: "writeAtt ?b s = Ret (?wl, ?s1)"
    using mem(1,2) u(2) u(3) by (simp add: writeAtt_def Let_def)
  have front: "take ?wl ?b = take ?wl (drop ?n ?a)"
    using arg_cong [OF u(4), of "take ?wl"] by simp
  have taken: "take (?n + ?wl) ?mem = take (?n + ?wl) ?a" "length ?mem = length ?a"
    using mem(2,3) u(3) front by (simp_all add: memcpy_def take_add min_def)
  have left: "drop ?wl ?b @ rest = drop (?n + ?wl) ?a @ concat (map (wireOf heap) (tl ms))"
    using arg_cong [OF u(4), of "drop ?wl"] by (simp add: add.commute)
  show ?thesis
  proof (cases "?n + ?wl = length ?a")
    case fin: True
    let ?s' = "(putOut (GotWithAttachment (take (rvMaxItem s) (rvItem s)) (Some ?mem)) (closeAtt ?s1))\<lparr>rvFlag := 0, rvFilled := drop ?wl ?b\<rparr>"
    have full: "?mem = ?a" using taken fin by simp
    have "attPart s = Ret ?s'"
      using True fin u(2) by (simp add: attPart_def w writeDone_def putOut_def closeAtt_def)
    moreover have "recvStep heap ms (tl ms) s ?s'"
      using True full by (simp add: recvStep_def remaining_def putOut_def closeAtt_def)
    moreover have "recvInv heap ?s' rest (tl ms)"
      using assms True u(1) left fin by (auto simp: recvInv_def putOut_def closeAtt_def dest: list.set_sel(2))
    moreover have "length (tl ms) < length ms" using u(1) by simp
    ultimately show ?thesis by (intro exI [of _ ?s'] exI [of _ "tl ms"]) (simp add: putOut_def closeAtt_def)
  next
    case more: False
    then have wl: "?wl = length ?b" "?n + ?wl < length ?a" using u(3) by (auto simp: min_def split: if_splits)
    let ?s' = "?s1\<lparr>rvFilled := drop ?wl ?b\<rparr>"
    have "attPart s = Ret ?s'"
      using True more u(2) by (simp add: attPart_def w writeDone_def)
    moreover have "recvStep heap ms ms s ?s'" by (simp add: recvStep_def remaining_def)
    moreover have "recvInv heap ?s' rest ms"
      using assms True u left taken wl(2) by (auto simp: recvInv_def attUnderWay_def)
    moreover have "rest \<noteq> []" using left wl by auto
    ultimately show ?thesis using wl(1) True by (intro exI [of _ ?s'] exI [of _ ms]) simp
  qed
qed

text \<open>A whole message at the front of the buffer is the first of \<open>ms\<close>.\<close>

lemma whole_message:
  assumes "recvInv heap s rest ms" "rvFlag s = 0" "3 \<le> length (rvFilled s)"
  obtains m ms' x where "ms = m # ms'" "itemWireSize (rvFilled s) = length m" "recvOk heap (rvSubs s) (rvBufSize s) m"
    "length m \<le> length (rvFilled s) \<Longrightarrow> rvFilled s = m @ x \<and> x @ rest = (if itemFlag m = 1 then attOf heap m else []) @ concat (map (wireOf heap) ms')"
proof -
  have eq: "rvFilled s @ rest = concat (map (wireOf heap) ms)" using assms(1,2) by (simp add: recvInv_def)
  then obtain m ms' where ms: "ms = m # ms'" using assms(3) by (cases ms) auto
  have ok: "recvOk heap (rvSubs s) (rvBufSize s) m" using assms(1) by (simp add: recvInv_def ms)
  then have good: "goodItem (itemTypeTag m) heap m" by (simp add: recvOk_def)
  have eq': "rvFilled s @ rest = m @ (if itemFlag m = 1 then attOf heap m else []) @ concat (map (wireOf heap) ms')"
    using eq by (simp add: ms wireOf_att)
  have size: "itemWireSize (rvFilled s) = length m"
    using goodItem_parts(5) [OF good] front_size [OF assms(3), of rest] by (simp add: eq')
  show ?thesis
  proof (rule that [OF ms size ok])
    assume le: "length m \<le> length (rvFilled s)"
    show "rvFilled s = m @ drop (length m) (rvFilled s) \<and>
        drop (length m) (rvFilled s) @ rest = (if itemFlag m = 1 then attOf heap m else []) @ concat (map (wireOf heap) ms')"
      using arg_cong [OF eq', of "take (length m)"] arg_cong [OF eq', of "drop (length m)"] le
        append_take_drop_id [of "length m" "rvFilled s"] by simp
  qed
qed

lemma takeMessage_step:
  assumes "recvInv heap s rest ms" "rvFlag s = 0" "3 \<le> length (rvFilled s)" "itemWireSize (rvFilled s) \<le> length (rvFilled s)"
    "allocates alloc"
  shows "\<exists>ms'. recvInv heap (takeMessage alloc (rvFilled s) s) rest ms' \<and> recvStep heap ms ms' s (takeMessage alloc (rvFilled s) s) \<and>
     11 \<le> itemWireSize (rvFilled s) \<and> length (rvFilled (takeMessage alloc (rvFilled s) s)) < length (rvFilled s) \<and>
     rvFlag (takeMessage alloc (rvFilled s) s) \<in> {0, 1}"
proof -
  let ?s' = "takeMessage alloc (rvFilled s) s" and ?k = "rvMaxItem s"
  obtain m ms' x where W: "ms = m # ms'" "itemWireSize (rvFilled s) = length m" "recvOk heap (rvSubs s) (rvBufSize s) m"
    "rvFilled s = m @ x" "x @ rest = (if itemFlag m = 1 then attOf heap m else []) @ concat (map (wireOf heap) ms')"
    using whole_message [OF assms(1-3)] assms(4) by metis
  have good: "goodItem (itemTypeTag m) heap m" using W(3) by (simp add: recvOk_def)
  have len: "11 \<le> length m" by (rule good_length [OF good])
  have front: "itemTypeTag (rvFilled s) = itemTypeTag m" "itemFlag (rvFilled s) = itemFlag m"
    using front_tag [OF len, of x] by (simp_all add: W(4))
  have I: "length (rvItem s) = max ?k 48" "48 \<le> ?k" "length (rvFilled s) \<le> rvBufSize s" "3 < rvBufSize s"
    "\<forall>m \<in> set ms'. recvOk heap (rvSubs s) (rvBufSize s) m"
    using assms(1) by (simp_all add: recvInv_def W(1))
  have payload: "drop 3 (take (length m) (rvFilled s)) = drop 3 m" "drop (length m) (rvFilled s) = x"
    by (simp_all add: W(4))
  have flag: "itemFlag m = 0 \<or> itemFlag m = 1" by (rule goodItem_parts(4) [OF good])
  have less: "length (rvFilled ?s') < length (rvFilled s)"
  proof -
    have "m \<noteq> []" using len by auto
    then show ?thesis using len by (simp add: takeMessage_def Let_def W(2)) (simp add: W(4))
  qed
  consider (skip) "tagCheck (rvSubs s) (itemTypeTag m) = 0" | (att) "tagCheck (rvSubs s) (itemTypeTag m) \<noteq> 0" "itemFlag m = 1"
    | (plain) "tagCheck (rvSubs s) (itemTypeTag m) \<noteq> 0" "itemFlag m = 0" using flag by blast
  then show ?thesis
  proof cases
    case skip
    then have f: "itemFlag m = 0" using W(3) flag by (auto simp: recvOk_def)
    have e: "?s' = s\<lparr>rvFilled := x\<rparr>" using skip by (simp add: takeMessage_def Let_def W(2) front payload)
    have "recvInv heap ?s' rest ms'" unfolding e using I W(5) f assms(2) by (simp add: recvInv_def W(4))
    moreover have "recvStep heap ms ms' s ?s'" unfolding e using skip assms(2) by (simp add: recvStep_def remaining_def W(1))
    moreover have "rvFlag ?s' \<in> {0, 1}" unfolding e using assms(2) by (simp add: putOut_def)
    ultimately show ?thesis using len W(2) less by (intro exI [of _ ms']) simp
  next
    case plain
    have e: "?s' = putOut (GotMessage (take (min ?k (length m - 3)) (drop 3 m))) s\<lparr>rvFilled := x\<rparr>"
      using plain by (simp add: takeMessage_def Let_def W(2) front payload putOut_def)
    have "recvInv heap ?s' rest ms'" unfolding e using I W(5) plain(2) assms(2) by (simp add: recvInv_def W(4) putOut_def)
    moreover have "recvStep heap ms ms' s ?s'" unfolding e using plain assms(2) by (simp add: recvStep_def remaining_def W(1) putOut_def)
    moreover have "rvFlag ?s' \<in> {0, 1}" unfolding e using assms(2) by (simp add: putOut_def)
    ultimately show ?thesis using len W(2) less by (intro exI [of _ ms']) simp
  next
    case att
    let ?item = "itemAfter ?k (rvItem s) m"
    have att_len: "leVal (take 8 (drop 24 ?item)) = attLenOf m"
    proof -
      have "51 \<le> length m" by (rule good_att_length [OF good att(2)])
      then show ?thesis using I(1,2) by (simp add: itemAfter_def attLenOf_def memcpy_def drop_take min_def)
    qed
    obtain mem where mem: "alloc (itemTypeTag m) (attLenOf m) = Some mem" "length mem = attLenOf m"
      using assms(5) unfolding allocates_def by blast
    have al: "length (attOf heap m) = attLenOf m" using goodItem_parts(7) [OF good att(2)] by (simp add: attOf_def)
    have e: "?s' = s\<lparr>rvFlag := 1, rvItem := ?item, rvMem := Some mem, rvFullLen := attLenOf m, rvLen := 0, rvFilled := x\<rparr>"
      using att att_len mem(1)
      by (simp add: takeMessage_def Let_def W(2) front payload openAtt_def itemAfter_def)
    have li: "length ?item = max ?k 48" using I(1) by (simp add: itemAfter_def)
    have "recvInv heap ?s' rest ms" unfolding e using I W(1,3,5) att(2) li al mem(2) by (simp add: recvInv_def attUnderWay_def W(4))
    moreover have "recvStep heap ms ms s ?s'" unfolding e using att assms(2) by (simp add: recvStep_def remaining_def W(1))
    moreover have "rvFlag ?s' \<in> {0, 1}" unfolding e by simp
    ultimately show ?thesis using len W(2) less by (intro exI [of _ ms]) simp
  qed
qed

text \<open>After the loop the buffer has room, and without an attachment under way no whole message.\<close>

lemma headLoop_step:
  assumes "allocates alloc"
  shows "recvInv heap s rest ms \<Longrightarrow> (rvFlag s = 1 \<longrightarrow> length (rvFilled s) < rvBufSize s) \<Longrightarrow>
    \<exists>s' ms'. headLoop alloc s = Ret s' \<and> recvInv heap s' rest ms' \<and> recvStep heap ms ms' s s' \<and>
      length (rvFilled s') < rvBufSize s' \<and> (rvFlag s' = 0 \<and> rest = [] \<longrightarrow> ms' = [])"
proof (induction "length (rvFilled s)" arbitrary: s ms rule: less_induct)
  case less
  let ?b = "rvFilled s"
  show ?case
  proof (cases "rvFlag s = 0 \<and> 3 \<le> length ?b \<and> itemWireSize ?b \<le> length ?b")
    case True
    let ?s1 = "takeMessage alloc ?b s"
    obtain ms1 where S: "recvInv heap ?s1 rest ms1" "recvStep heap ms ms1 s ?s1" "11 \<le> itemWireSize ?b"
      "length (rvFilled ?s1) < length ?b"
      using takeMessage_step [OF less.prems(1) _ _ _ assms] True by blast
    have "length ?b \<le> rvBufSize s" "rvBufSize ?s1 = rvBufSize s"
      using less.prems(1) S(2) by (simp_all add: recvInv_def recvStep_def)
    then obtain s' ms' where R: "headLoop alloc ?s1 = Ret s'" "recvInv heap s' rest ms'" "recvStep heap ms1 ms' ?s1 s'"
      "length (rvFilled s') < rvBufSize s'" "rvFlag s' = 0 \<and> rest = [] \<longrightarrow> ms' = []"
      using less.hyps [OF S(4,1)] S(4) by fastforce
    have "headLoop alloc s = Ret s'" using True S(3) R(1) by (subst headLoop.simps) (simp add: Let_def)
    then show ?thesis using R(2,4,5) recvStep_trans [OF S(2) R(3)] by blast
  next
    case False
    have eq: "headLoop alloc s = Ret s" using False by (subst headLoop.simps) (auto simp: Let_def)
    have room: "length ?b < rvBufSize s"
    proof (cases "rvFlag s = 0 \<and> 3 \<le> length ?b")
      case True
      obtain m where "itemWireSize ?b = length m" "recvOk heap (rvSubs s) (rvBufSize s) m"
        using whole_message [OF less.prems(1)] True by metis
      then show ?thesis using False True by (simp add: recvOk_def)
    next
      case False
      then show ?thesis using less.prems by (auto simp: recvInv_def split: if_splits)
    qed
    have "ms = []" if z: "rvFlag s = 0" "rest = []"
    proof (rule ccontr)
      assume "ms \<noteq> []"
      have b: "?b = concat (map (wireOf heap) ms)" using z less.prems(1) by (simp add: recvInv_def)
      have "recvOk heap (rvSubs s) (rvBufSize s) (hd ms)" using \<open>ms \<noteq> []\<close> less.prems(1) by (simp add: recvInv_def)
      then have l: "length (hd ms) \<le> length ?b" "11 \<le> length (hd ms)"
        using \<open>ms \<noteq> []\<close> good_length by (cases ms; auto simp: b wireOf_def recvOk_def)+
      then have "3 \<le> length ?b" by simp
      then obtain m ms' where "ms = m # ms'" "itemWireSize ?b = length m"
        using whole_message [OF less.prems(1) z(1)] by metis
      then show False using False z l by simp
    qed
    then show ?thesis using eq less.prems(1) room by (intro exI [of _ s] exI [of _ ms]) simp
  qed
qed

section \<open>A call\<close>

definition turnsOk :: "RecvTurn list \<Rightarrow> bool" where
  "turnsOk ts \<longleftrightarrow> Fails \<notin> set ts \<and> Ended \<notin> set ts"

text \<open>
  What a call comes to: nothing is lost, and when nothing is left to come it ends with no message in
  the buffer or with fewer of them.
\<close>

definition callSpec :: "(u64 \<Rightarrow> bytes) \<Rightarrow> bytes \<Rightarrow> bytes \<Rightarrow> bytes list \<Rightarrow> bytes list \<Rightarrow> TcpRecvSession \<Rightarrow> bytes \<Rightarrow> TcpRecvSession \<Rightarrow> bool" where
  "callSpec heap fut net ms ms' s net' s' \<longleftrightarrow>
     recvInv heap s' (net' @ fut) ms' \<and> recvStep heap ms ms' s s' \<and> (\<exists>got. net = got @ net') \<and>
     (net @ fut = [] \<longrightarrow> ms' = [] \<or> rvFlag s' = 1 \<and> (rvFlag s = 1 \<longrightarrow> length ms' < length ms))"

lemma callSpec_more:
  assumes "callSpec heap fut net1 ms1 ms' s1 net' s'" "net = got @ net1" "recvStep heap ms ms1 s s1"
    "net @ fut = [] \<Longrightarrow> rvFlag s = 1 \<Longrightarrow> ms1 = [] \<or> length ms1 < length ms"
  shows "callSpec heap fut net ms ms' s net' s'"
proof -
  have "length ms' \<le> length ms1" "length ms1 \<le> length ms" using assms(1,3) by (simp_all add: callSpec_def recvStep_def)
  then show ?thesis using assms recvStep_trans [OF assms(3)]
    by (auto simp: callSpec_def)
qed

lemma pass_step:
  assumes "allocates alloc" "recvInv heap s rest ms"
  shows "\<exists>s1 s2 ms2. attPart s = Ret s1 \<and> headLoop alloc s1 = Ret s2 \<and> recvInv heap s2 rest ms2 \<and> recvStep heap ms ms2 s s2 \<and>
     length (rvFilled s2) < rvBufSize s2 \<and> (rest = [] \<longrightarrow> ms2 = [] \<or> rvFlag s2 = 1 \<and> (rvFlag s = 1 \<longrightarrow> length ms2 < length ms))"
proof -
  obtain s1 ms1 where A: "attPart s = Ret s1" "recvInv heap s1 rest ms1" "recvStep heap ms ms1 s s1"
    "rvFlag s1 = 1 \<longrightarrow> rvFilled s1 = [] \<and> ms1 = ms \<and> rest \<noteq> []" "rvFlag s = 1 \<and> rvFlag s1 = 0 \<longrightarrow> length ms1 < length ms"
    using attPart_step [OF assms(2)] by blast
  have "3 < rvBufSize s1" using A(2) by (simp add: recvInv_def)
  then obtain s2 ms2 where B: "headLoop alloc s1 = Ret s2" "recvInv heap s2 rest ms2" "recvStep heap ms1 ms2 s1 s2"
    "length (rvFilled s2) < rvBufSize s2" "rvFlag s2 = 0 \<and> rest = [] \<longrightarrow> ms2 = []"
    using headLoop_step [OF assms(1) A(2)] A(4) by fastforce
  have f: "rvFlag s1 = 0 \<or> rvFlag s1 = 1" "rvFlag s2 = 0 \<or> rvFlag s2 = 1"
    using A(2) B(2) by (auto simp: recvInv_def split: if_splits)
  have "length ms2 \<le> length ms1" using B(3) by (simp add: recvStep_def)
  then have "rest = [] \<longrightarrow> ms2 = [] \<or> rvFlag s2 = 1 \<and> (rvFlag s = 1 \<longrightarrow> length ms2 < length ms)"
    using A(4,5) B(5) f by fastforce
  then show ?thesis using A(1) B(1,2,4) recvStep_trans [OF A(3) B(3)] by blast
qed

text \<open>More bytes in the buffer.\<close>

lemma recvInv_more:
  assumes "recvInv heap s (got @ rest) ms" "length (rvFilled s @ got) \<le> rvBufSize s"
  shows "recvInv heap (s\<lparr>rvFilled := rvFilled s @ got\<rparr>) rest ms"
    "recvStep heap ms ms s (s\<lparr>rvFilled := rvFilled s @ got\<rparr>)"
  using assms by (auto simp: recvInv_def attUnderWay_def recvStep_def remaining_def)

lemma recvLoop_step:
  assumes "allocates alloc"
  shows "turnsOk ts \<Longrightarrow> recvInv heap s (net @ fut) ms \<Longrightarrow>
    \<exists>net' s' ms'. recvLoop alloc ts net s = Ret (True, net', s') \<and> callSpec heap fut net ms ms' s net' s'"
proof (induction ts arbitrary: net s ms)
  case Nil
  obtain s1 s2 ms2 where P: "attPart s = Ret s1" "headLoop alloc s1 = Ret s2" "recvInv heap s2 (net @ fut) ms2"
    "recvStep heap ms ms2 s s2" "net @ fut = [] \<longrightarrow> ms2 = [] \<or> rvFlag s2 = 1 \<and> (rvFlag s = 1 \<longrightarrow> length ms2 < length ms)"
    using pass_step [OF assms Nil.prems(2)] by blast
  then show ?case by (intro exI [of _ net] exI [of _ s2] exI [of _ ms2]) (simp add: recvLoop.simps callSpec_def)
next
  case (Cons x ts)
  obtain s1 s2 ms2 where P: "attPart s = Ret s1" "headLoop alloc s1 = Ret s2" "recvInv heap s2 (net @ fut) ms2"
    "recvStep heap ms ms2 s s2" "length (rvFilled s2) < rvBufSize s2"
    "net @ fut = [] \<longrightarrow> ms2 = [] \<or> rvFlag s2 = 1 \<and> (rvFlag s = 1 \<longrightarrow> length ms2 < length ms)"
    using pass_step [OF assms Cons.prems(2)] by blast
  have stop: "callSpec heap fut net ms ms2 s net s2" using P(3,4,6) by (simp add: callSpec_def)
  have ts: "turnsOk ts" "x \<noteq> Fails" "x \<noteq> Ended" using Cons.prems(1) by (auto simp: turnsOk_def)
  have again: "\<exists>net' s' ms'. recvLoop alloc ts net s2 = Ret (True, net', s') \<and> callSpec heap fut net ms ms' s net' s'"
    using Cons.IH [OF ts(1) P(3)] callSpec_more [OF _ append_Nil [symmetric] P(4)] P(6) by blast
  show ?case
  proof (cases x)
    case Idle
    then show ?thesis using P(1,2) stop by (simp add: recvLoop.simps) blast
  next
    case Again
    then show ?thesis using P(1,2) stop again by (simp add: recvLoop.simps) blast
  next
    case (Arrives n)
    let ?j = "min n (rvBufSize s2 - length (rvFilled s2))"
    let ?got = "take ?j net"
    let ?s3 = "s2\<lparr>rvFilled := rvFilled s2 @ ?got\<rparr>"
    show ?thesis
    proof (cases "?got = []")
      case True
      then show ?thesis using P(1,2,5) stop again Arrives by (simp add: recvLoop.simps Let_def) blast
    next
      case False
      have "recvInv heap s2 (?got @ drop ?j net @ fut) ms2"
        using P(3) by (simp flip: append.assoc)
      then have M: "recvInv heap ?s3 (drop ?j net @ fut) ms2" "recvStep heap ms2 ms2 s2 ?s3"
        using recvInv_more [of heap s2 ?got "drop ?j net @ fut" ms2] P(5) by auto
      obtain net' s' ms' where R: "recvLoop alloc ts (drop ?j net) ?s3 = Ret (True, net', s')"
        "callSpec heap fut (drop ?j net) ms2 ms' ?s3 net' s'"
        using Cons.IH [OF ts(1) M(1)] by blast
      have "callSpec heap fut net ms ms' s net' s'"
        by (rule callSpec_more [OF R(2) append_take_drop_id [symmetric] recvStep_trans [OF P(4) M(2)]])
           (use False in simp)
      moreover have "recvLoop alloc (x # ts) net s = Ret (True, net', s')"
      proof -
        have "0 < ?j" "rvBufSize s2 - length (rvFilled s2) \<noteq> 0" using False P(5) by auto
        then show ?thesis using P(1,2) R(1) False Arrives
          by (subst recvLoop.simps) (simp add: Let_def del: min_less_iff_conj take_eq_Nil)
      qed
      ultimately show ?thesis by blast
    qed
  qed (use ts in simp_all)
qed

end
