(* ===== verification/TcpDelivery.thy ===== *)
theory TcpDelivery
  imports TcpEngineSpec
begin

text \<open>
  Rounds of the TCP engine and runs of it, for messages of one tag: whatever the connections take of
  each write, the bytes that went out on one, with those still owed, are the bytes of the messages
  the engine has looked at, in order.
\<close>

section \<open>Releasing a range\<close>

definition releasedAtts :: "bytes list \<Rightarrow> nat \<Rightarrow> nat \<Rightarrow> u64 list" where
  "releasedAtts hist lo hi = concat (map (\<lambda>n. if itemFlag (hist ! n) = 1 \<and> attCleanupOf (hist ! n) \<noteq> 0
     then [attPtrOf (hist ! n)] else []) [lo..<hi])"

lemma releaseItems_spec:
  "queue_inv r P Q b \<Longrightarrow> {unat s..<unat s + n} \<subseteq> Q \<Longrightarrow> 32 \<le> VALUE_TYPE_SIZE0 b \<Longrightarrow>
    holdsFrom b hist (unat s) (unat s + n) \<Longrightarrow> \<forall>k. unat s \<le> k \<and> k < unat s + n \<longrightarrow> goodItem t heap (hist ! k) \<Longrightarrow>
    \<exists>b'. releaseItems b s n = (releasedAtts hist (unat s) (unat s + n), b') \<and> queue_inv r P Q b' \<and>
      claimed0 b' = claimed0 b \<and> read0 b' = read0 b \<and> VALUE_TYPE_SIZE0 b' = VALUE_TYPE_SIZE0 b \<and>
      (\<forall>m \<in> wanted P Q b. m \<notin> {unat s..<unat s + n} \<longrightarrow> slotData (slot0 b' m) = slotData (slot0 b m))"
proof (induction n arbitrary: b s)
  case 0
  then show ?case by (simp add: releasedAtts_def)
next
  case (Suc n)
  have sQ: "unat s \<in> Q" using Suc.prems(2) by auto
  note R = releaseItem_spec [OF Suc.prems(1) sQ Suc.prems(3)]
  let ?b = "snd (releaseItem b s)"
  obtain rest where d: "slotData (slot0 b (unat s)) = hist ! unat s @ rest"
    using holdsFromD [OF Suc.prems(4), of "unat s"] by auto
  have "goodItem t heap (hist ! unat s)" using Suc.prems(5) by simp
  note g = goodItem_parts [OF this]
  have one: "releaseItem b s = (releasedAtts hist (unat s) (Suc (unat s)), ?b)"
    using R(6) d g(3) g(7) [of rest] by (auto simp: Let_def releasedAtts_def prod_eq_iff)
  have w: "wanted P Q ?b = wanted P Q b" using R(2,3) by (simp add: wanted_def)
  have "unat s \<in> wanted P Q b" using sQ by (simp add: wanted_def)
  then have "unat s < 2 ^ 63" using wanted_bounds(3) [OF Suc.prems(1)] by blast
  then have s1: "unat (s + 1) = Suc (unat s)" by (intro unat_inc) simp
  have sub: "{unat (s + 1)..<unat (s + 1) + n} \<subseteq> Q" using Suc.prems(2) by (auto simp: s1)
  have h: "holdsFrom ?b hist (unat (s + 1)) (unat (s + 1) + n)"
    unfolding holdsFrom_def
  proof (intro allI impI)
    fix k assume k: "unat (s + 1) \<le> k \<and> k < unat (s + 1) + n"
    then have "k \<in> Q" "k \<noteq> unat s" using sub by (auto simp: s1)
    then have "slotData (slot0 ?b k) = slotData (slot0 b k)" using R(5) by (simp add: wanted_def)
    then show "\<exists>rest. slotData (slot0 ?b k) = hist ! k @ rest"
      using holdsFromD [OF Suc.prems(4), of k] k by (simp add: s1)
  qed
  have good: "\<forall>k. unat (s + 1) \<le> k \<and> k < unat (s + 1) + n \<longrightarrow> goodItem t heap (hist ! k)"
    using Suc.prems(5) by (simp add: s1)
  have v: "32 \<le> VALUE_TYPE_SIZE0 ?b" using R(4) Suc.prems(3) by simp
  obtain b' where b': "releaseItems ?b (s + 1) n = (releasedAtts hist (unat (s + 1)) (unat (s + 1) + n), b')"
    "queue_inv r P Q b'" "claimed0 b' = claimed0 ?b" "read0 b' = read0 ?b" "VALUE_TYPE_SIZE0 b' = VALUE_TYPE_SIZE0 ?b"
    "\<forall>m \<in> wanted P Q ?b. m \<notin> {unat (s + 1)..<unat (s + 1) + n} \<longrightarrow> slotData (slot0 b' m) = slotData (slot0 ?b m)"
    using Suc.IH [OF R(1) sub v h good] by (elim exE conjE) (rule that)
  have "[unat s..<unat s + Suc n] = unat s # [Suc (unat s)..<Suc (unat s) + n]" by (simp add: upt_rec)
  then have "releasedAtts hist (unat s) (unat s + Suc n) =
      releasedAtts hist (unat s) (Suc (unat s)) @ releasedAtts hist (unat (s + 1)) (unat (s + 1) + n)"
    by (simp add: releasedAtts_def s1)
  then have "releaseItems b s (Suc n) = (releasedAtts hist (unat s) (unat s + Suc n), b')"
    using arg_cong [OF one, of fst] b'(1) by (simp add: split_beta)
  moreover have "slotData (slot0 b' m) = slotData (slot0 b m)"
    if m: "m \<in> wanted P Q b" "m \<notin> {unat s..<unat s + Suc n}" for m
  proof -
    have "m \<noteq> unat s" "m \<notin> {unat (s + 1)..<unat (s + 1) + n}" using m(2) by (auto simp: s1)
    then show ?thesis using b'(6) R(5) m(1) w by simp
  qed
  ultimately show ?case using b'(2-5) R(2-4) by (intro exI [of _ b']) simp
qed

text \<open>
  The end of a round: of the messages peeked at, from \<open>lo\<close> to \<open>hi\<close>, those before \<open>mid\<close> are released
  and given back.
\<close>

lemma give_back:
  assumes "queue_inv r {} {lo..<hi} b" "read0 b = hi" "lo \<le> mid" "mid \<le> hi" "32 \<le> VALUE_TYPE_SIZE0 b"
    "ringHolds r b t heap hist lo (claimed0 b)"
  shows "\<exists>b1. releaseItems b (of_nat lo) (mid - lo) = (releasedAtts hist lo mid, b1) \<and>
     (let b2 = wasteAfterPeek0 b1 (iteratorAt (of_nat lo)) (of_nat mid - of_nat lo) True
      in queue_inv r {} {} b2 \<and> read0 b2 = mid \<and> claimed0 b2 = claimed0 b \<and> VALUE_TYPE_SIZE0 b2 = VALUE_TYPE_SIZE0 b \<and>
         ringHolds r b2 t heap hist mid (claimed0 b2))"
proof -
  note D = queue_invD [OF assms(1)] and R = ringHoldsD [OF assms(6)]
  have hi: "hi \<le> claimed0 b" using D(3) assms(2) by simp
  have b63: "lo < 2 ^ 63" "mid < 2 ^ 63" using R(5) hi assms(3,4) by simp_all
  have u: "unat (of_nat lo :: u64) = lo" "unat (of_nat mid :: u64) = mid" using b63 by (simp_all add: unat_of_nat_small)
  have eq: "lo + (mid - lo) = mid" using assms(3) by simp
  have sub: "{unat (of_nat lo :: u64)..<unat (of_nat lo :: u64) + (mid - lo)} \<subseteq> {lo..<hi}"
    unfolding u eq using assms(4) by auto
  have h: "holdsFrom b hist (unat (of_nat lo :: u64)) (unat (of_nat lo :: u64) + (mid - lo))"
    unfolding u eq using R(2) hi assms(4) by (auto simp: holdsFrom_def)
  have g: "\<forall>k. unat (of_nat lo :: u64) \<le> k \<and> k < unat (of_nat lo :: u64) + (mid - lo) \<longrightarrow> goodItem t heap (hist ! k)"
    unfolding u eq using R(3) hi assms(4) by auto
  have w: "wanted {} {lo..<hi} b = {lo..<claimed0 b}" using assms(2-4) hi by (auto simp: wanted_def)
  obtain b1 where b1: "releaseItems b (of_nat lo) (mid - lo) = (releasedAtts hist lo mid, b1)" "queue_inv r {} {lo..<hi} b1"
    "claimed0 b1 = claimed0 b" "read0 b1 = read0 b" "VALUE_TYPE_SIZE0 b1 = VALUE_TYPE_SIZE0 b"
    "\<forall>m \<in> {lo..<claimed0 b}. m \<notin> {lo..<mid} \<longrightarrow> slotData (slot0 b1 m) = slotData (slot0 b m)"
    using releaseItems_spec [OF assms(1) sub assms(5) h g] unfolding u eq w by (elim exE conjE) (rule that)
  let ?sz = "of_nat mid - of_nat lo :: u64"
  have sz: "unat ?sz = mid - lo" using u assms(3) by (simp add: unat_sub word_le_nat_alt)
  let ?it = "iteratorAt (of_nat lo)"
  let ?b2 = "wasteAfterPeek0 b1 ?it ?sz True"
  have it: "unat (seq ?it) = lo" by (simp add: iteratorAt_def u)
  have a: "{unat (seq ?it)..<read0 b1} \<subseteq> {lo..<hi}" "unat (seq ?it) + unat ?sz \<le> read0 b1"
    unfolding it sz b1(4) assms(2) using assms(3,4) by auto
  have "{lo..<hi} - {unat (seq ?it)..<read0 b1} = {}" unfolding it b1(4) assms(2) by simp
  from wasteAfterPeek0_incomplete(1) [OF b1(2) a, unfolded this] have inv: "queue_inv r {} {} ?b2" .
  note D1 = queue_invD [OF b1(2)]
  let ?mr = "markRange b1 (of_nat lo) (mid - lo)"
  have b2: "?b2 = ?mr\<lparr>readSeq0 := of_nat mid\<rparr>"
    by (simp add: wasteAfterPeek0_def sz iteratorAt_def)
  have sub1: "{unat (of_nat lo :: u64)..<unat (of_nat lo :: u64) + (mid - lo)} \<subseteq> {lo..<hi}" using sub .
  have c2: "claimed0 ?b2 = claimed0 b" "read0 ?b2 = mid" "VALUE_TYPE_SIZE0 ?b2 = VALUE_TYPE_SIZE0 b"
    using markRange_spec(2) [OF b1(2) sub1] markRange_data [OF D1(1)] b1(3,5) by (simp_all add: b2 u)
  have data: "slotData (slot0 ?b2 m) = slotData (slot0 b m)" if "mid \<le> m" "m < claimed0 b" for m
  proof -
    have "slotData (slot0 ?b2 m) = slotData (slot0 b1 m)" using markRange_data [OF D1(1)] by (simp add: b2)
    also have "\<dots> = slotData (slot0 b m)" using b1(6) that assms(3) by auto
    finally show ?thesis .
  qed
  have "ringHolds r ?b2 t heap hist mid (claimed0 ?b2)"
    unfolding ringHolds_def c2(1)
  proof (intro conjI)
    show "queue_shape r ?b2" using queue_invD(1) [OF inv] .
    show "holdsFrom ?b2 hist mid (claimed0 b)"
      using R(2) data assms(3) by (auto simp: holdsFrom_def)
  qed (use R assms(3) in auto)
  then show ?thesis using b1(1) inv c2 by (intro exI [of _ b1]) (simp add: Let_def)
qed

section \<open>Quiet sessions\<close>

text \<open>Nothing comes from the other side but heartbeats.\<close>

definition quietInput :: "SessionInput \<Rightarrow> bool" where
  "quietInput i \<longleftrightarrow> (case inRecv i of Received chunk \<Rightarrow> chunk = [CHR ''+'', TAB] | _ \<Rightarrow> True)"

lemma quiet_read:
  assumes "tssData s = []" "quietInput i"
  shows "\<exists>ok b. tcpDoRead (inRecv i) s out = Ret (ok, s\<lparr>tssReady := b\<rparr>, out)"
proof -
  have same: "s\<lparr>tssReady := tssReady s\<rparr> = s" "s\<lparr>tssData := []\<rparr> = s" using assms(1) by simp_all
  have nil: "tcpCommands [] s out = Ret (True, s, out)" by (subst tcpCommands.simps) (simp add: same)
  have hb: "tcpCommands [CHR ''+'', TAB] s out = Ret (True, s\<lparr>tssReady := True\<rparr>, out)"
    using assms(1) by (subst tcpCommands.simps) (simp add: TAB_def tcpCommand_def tcpCommands.simps)
  show ?thesis
  proof (cases "inRecv i")
    case (Received chunk)
    then show ?thesis using assms hb by (auto simp: tcpDoRead_def quietInput_def)
  next
    case RecvError
    then show ?thesis using same by (intro exI [of _ False] exI [of _ "tssReady s"]) (simp add: tcpDoRead_def)
  qed (use assms(1) nil same in \<open>intro exI [of _ True] exI [of _ "tssReady s"], simp add: tcpDoRead_def\<close>)+
qed

lemma sessionOwed_ready [simp]: "sessionOwed mem q (s\<lparr>tssReady := b\<rparr>) = sessionOwed mem q s"
  by (simp add: sessionOwed_def)

lemma sessionWf_append:
  assumes "sessionWf q s"
  shows "sessionWf (q @ q') s" "sessionOwed mem (q @ q') s = sessionOwed mem q s @ owedOf mem (tssSubs s) q'"
  using assms by (auto simp: sessionWf_def sessionOwed_def nth_append split: if_splits)

section \<open>A round\<close>

text \<open>
  \<open>hist\<close> are the messages published so far, all of tag \<open>t\<close>. The engine has looked at those before
  \<open>enginePos\<close>; the ones before the ring's read position are given back.
\<close>

definition enginePos :: "TcpEngine \<Rightarrow> nat" where
  "enginePos e = unat (seq (teBegin e))"

definition tcpInv :: "nat \<Rightarrow> u16 \<Rightarrow> (u64 \<Rightarrow> bytes) \<Rightarrow> bytes list \<Rightarrow> TcpEngine \<Rightarrow> bool" where
  "tcpInv r t heap hist e \<longleftrightarrow>
     queue_inv r {} {} (teBuffer e) \<and> 32 \<le> VALUE_TYPE_SIZE0 (teBuffer e) \<and> claimed0 (teBuffer e) = length hist \<and>
     length hist < limit0 \<and> ringHolds r (teBuffer e) t heap hist (read0 (teBuffer e)) (length hist) \<and>
     teBegin e = iteratorAt (of_nat (enginePos e)) \<and> read0 (teBuffer e) \<le> enginePos e \<and> enginePos e \<le> length hist \<and>
     enginePos e \<le> read0 (teBuffer e) + unat (teMaxSendBatch e) \<and>
     coversRing (vecsAt r hist) t (read0 (teBuffer e)) (svQueue (teServer e)) (enginePos e) \<and>
     (teMinRecv e \<noteq> 0 \<longrightarrow> enginePos e = read0 (teBuffer e)) \<and>
     (\<forall>n < enginePos e. fitsMtu (teMtu e) (hist ! n)) \<and> svCapacity (teServer e) = 2 ^ r \<and>
     (\<forall>s \<in> set (svSessions (teServer e)). sessionWf (svQueue (teServer e)) s \<and> tssData s = []) \<and> raterOff (teRater e)"

lemma tcpInvD:
  assumes "tcpInv r t heap hist e"
  shows "queue_inv r {} {} (teBuffer e)" "32 \<le> VALUE_TYPE_SIZE0 (teBuffer e)" "claimed0 (teBuffer e) = length hist"
    "length hist < limit0" "ringHolds r (teBuffer e) t heap hist (read0 (teBuffer e)) (length hist)"
    "teBegin e = iteratorAt (of_nat (enginePos e))" "read0 (teBuffer e) \<le> enginePos e" "enginePos e \<le> length hist"
    "enginePos e \<le> read0 (teBuffer e) + unat (teMaxSendBatch e)"
    "coversRing (vecsAt r hist) t (read0 (teBuffer e)) (svQueue (teServer e)) (enginePos e)"
    "teMinRecv e \<noteq> 0 \<Longrightarrow> enginePos e = read0 (teBuffer e)"
    "\<forall>n < enginePos e. fitsMtu (teMtu e) (hist ! n)" "svCapacity (teServer e) = 2 ^ r"
    "\<forall>s \<in> set (svSessions (teServer e)). sessionWf (svQueue (teServer e)) s \<and> tssData s = []" "raterOff (teRater e)"
  using assms by (simp_all add: tcpInv_def)

lemma tcpInvI:
  assumes "queue_inv r {} {} (teBuffer e)" "32 \<le> VALUE_TYPE_SIZE0 (teBuffer e)" "claimed0 (teBuffer e) = length hist"
    "length hist < limit0" "ringHolds r (teBuffer e) t heap hist (read0 (teBuffer e)) (length hist)"
    "teBegin e = iteratorAt (of_nat (enginePos e))" "read0 (teBuffer e) \<le> enginePos e" "enginePos e \<le> length hist"
    "enginePos e \<le> read0 (teBuffer e) + unat (teMaxSendBatch e)"
    "coversRing (vecsAt r hist) t (read0 (teBuffer e)) (svQueue (teServer e)) (enginePos e)"
    "teMinRecv e \<noteq> 0 \<Longrightarrow> enginePos e = read0 (teBuffer e)"
    "\<forall>n < enginePos e. fitsMtu (teMtu e) (hist ! n)" "svCapacity (teServer e) = 2 ^ r"
    "\<forall>s \<in> set (svSessions (teServer e)). sessionWf (svQueue (teServer e)) s \<and> tssData s = []" "raterOff (teRater e)"
  shows "tcpInv r t heap hist e"
  using assms by (simp add: tcpInv_def)

lemma ringHolds_sub:
  assumes "ringHolds r b t heap hist lo hi" "lo \<le> lo'" "hi' \<le> hi"
  shows "ringHolds r b t heap hist lo' hi'"
  using assms by (auto simp: ringHolds_def holdsFrom_def)

text \<open>What is owed to a session in a state of the engine.\<close>

definition owedIn :: "(u64 \<Rightarrow> bytes) \<Rightarrow> TcpEngine \<Rightarrow> SendSession \<Rightarrow> bytes" where
  "owedIn heap e s = sessionOwed (readVec (buffer0 (teBuffer e)) heap) (svQueue (teServer e)) s"

text \<open>Looking at the ring.\<close>

lemma peek_round:
  assumes "tcpInv r t heap hist e" "m = (if started e then teMaxSendBatch e else 0)"
  obtains hi b1 n where "peek0 (teBuffer e) m = ((iteratorAt (of_nat (read0 (teBuffer e))), iteratorAt (of_nat hi), n), b1)"
    "read0 (teBuffer e) \<le> hi" "enginePos e \<le> hi" "hi \<le> length hist" "buffer0 b1 = buffer0 (teBuffer e)"
    "queue_inv r {} {read0 (teBuffer e)..<hi} b1" "read0 b1 = hi" "claimed0 b1 = length hist"
    "VALUE_TYPE_SIZE0 b1 = VALUE_TYPE_SIZE0 (teBuffer e)" "hi \<le> read0 (teBuffer e) + unat (teMaxSendBatch e)"
    "\<not> started e \<Longrightarrow> hi = read0 (teBuffer e)"
proof -
  note I = tcpInvD [OF assms(1)]
  let ?b = "teBuffer e"
  let ?rd = "read0 ?b"
  have lim: "claimed0 ?b < limit0" using I(3,4) by simp
  obtain p f n b1 where P: "peek0 ?b m = ((p, f, n), b1)" "unat (seq p) = ?rd"
    "unat n = min (unat m) (length (items0 ?b))" "unat (seq f) = ?rd + unat n"
    "queue_inv r {} ({} \<union> {?rd ..< ?rd + unat n}) b1" "read0 b1 = ?rd + unat n" "claimed0 b1 = claimed0 ?b"
    by (rule peek0_spec [OF I(1) lim]) (rule that)
  have shape: "p = iteratorAt (seq p)" "f = iteratorAt (seq f)" "buffer0 b1 = buffer0 ?b"
    "VALUE_TYPE_SIZE0 b1 = VALUE_TYPE_SIZE0 ?b"
    using P(1) by (auto simp: peek0_def Let_def iteratorAt_def)
  have sp: "seq p = of_nat ?rd" unfolding P(2) [symmetric] by simp
  have sf: "seq f = of_nat (?rd + unat n)" unfolding P(4) [symmetric] by simp
  have len: "length (items0 ?b) = length hist - ?rd" by (simp add: items0_def I(3))
  have le: "?rd \<le> length hist" using I(7,8) by simp
  have pos: "enginePos e \<le> ?rd + unat n"
  proof (cases "started e")
    case True
    then show ?thesis using P(3) assms(2) len I(8,9) le by simp
  next
    case False
    then have "teMinRecv e \<noteq> 0" by (auto simp: started_def)
    then show ?thesis using I(11) by simp
  qed
  show ?thesis
  proof (rule that [of "?rd + unat n" n b1])
    show "peek0 ?b m = ((iteratorAt (of_nat ?rd), iteratorAt (of_nat (?rd + unat n)), n), b1)"
      using P(1) shape(1,2) sp sf by metis
    show "?rd + unat n \<le> length hist" "?rd + unat n \<le> ?rd + unat (teMaxSendBatch e)"
      "\<not> started e \<Longrightarrow> ?rd + unat n = ?rd"
      using P(3) len le assms(2) by (auto split: if_splits)
  qed (use P pos shape I(3) in simp_all)
qed

text \<open>Making the batch.\<close>

lemma batch_round:
  assumes "tcpInv r t heap hist e" "t \<noteq> 0" "enginePos e \<le> hi" "hi \<le> length hist"
  obtains st pos where
    "batchLoop (teMtu e) clock (buffer0 (teBuffer e)) (iteratorAt (of_nat hi))
       \<lparr>baIt = teBegin e, baTag = 0, baSize = 0, baVecs = [], baRater = teRater e, baServer = teServer e\<rparr> = Ret st"
    "enginePos e \<le> pos" "pos \<le> hi" "baIt st = iteratorAt (of_nat pos)" "baRater st = teRater e"
    "\<forall>n. enginePos e \<le> n \<and> n < pos \<longrightarrow> fitsMtu (teMtu e) (hist ! n)"
    "\<exists>q'. finishBatch st = (teServer e)\<lparr>svQueue := svQueue (teServer e) @ q'\<rparr> \<and>
       coversRing (vecsAt r hist) t (enginePos e) q' pos"
proof -
  note I = tcpInvD [OF assms(1)]
  let ?sv = "teServer e" and ?pos = "enginePos e"
  let ?st = "\<lparr>baIt = teBegin e, baTag = 0, baSize = 0, baVecs = [], baRater = teRater e, baServer = teServer e\<rparr>"
  have R: "ringHolds r (teBuffer e) t heap hist ?pos hi" using ringHolds_sub [OF I(5) I(7) assms(4)] .
  note R' = ringHoldsD [OF R]
  have "gathered r t hist ?pos ?pos ?st" by (simp add: gathered_def flip: I(6))
  moreover have "raterOff (baRater ?st)" using I(15) by simp
  ultimately obtain st pos where B: "batchLoop (teMtu e) clock (buffer0 (teBuffer e)) (iteratorAt (of_nat hi)) ?st = Ret st"
    "?pos \<le> pos" "pos \<le> hi" "gathered r t hist ?pos pos st" "baServer st = ?sv" "baRater st = teRater e"
    "\<forall>n. ?pos \<le> n \<and> n < pos \<longrightarrow> fitsMtu (teMtu e) (hist ! n)"
    using batchLoop_spec [OF R'(1-5) assms(2), of ?pos ?st "teMtu e" clock] assms(3) by auto
  have "\<exists>q'. finishBatch st = ?sv\<lparr>svQueue := svQueue ?sv @ q'\<rparr> \<and> coversRing (vecsAt r hist) t ?pos q' pos"
  proof (cases "pos = ?pos")
    case True
    then show ?thesis using B(4,5) by (intro exI [of _ "[]"]) (simp add: gathered_def finishBatch_def)
  next
    case False
    then have lt: "?pos < pos" using B(2) by simp
    then have ne: "baVecs st \<noteq> []"
      using B(4) by (auto simp: gathered_def vecsAt_def upt_conv_Cons)
    have "read0 (teBuffer e) + length (svQueue ?sv) \<le> ?pos" using coversRing_le [OF I(10)] .
    moreover have "length hist \<le> read0 (teBuffer e) + 2 ^ r" using queue_invD(4) [OF I(1)] I(3) by simp
    ultimately have room: "length (svQueue ?sv) < 2 ^ r" using lt B(3) assms(4) by linarith
    let ?q = "\<lparr>qbTag = baTag st, qbToSend = baVecs st, qbBytes = baSize st, qbEnd = baIt st\<rparr>"
    have "coversRing (vecsAt r hist) t ?pos [?q] pos"
      using B(4) lt by (auto simp: gathered_def)
    moreover have "finishBatch st = ?sv\<lparr>svQueue := svQueue ?sv @ [?q]\<rparr>"
      using ne room B(5) I(13) by (simp add: finishBatch_def serverQueue_def pushCircular_def)
    ultimately show ?thesis by blast
  qed
  then show ?thesis using B by (intro that [of st pos]) (simp_all add: gathered_def)
qed

definition quietRound :: "(u64 \<Rightarrow> bytes) \<Rightarrow> RoundInput \<Rightarrow> bool" where
  "quietRound heap ri \<longleftrightarrow> riHeap ri = heap \<and> (\<forall>i. quietInput (riInput ri i))"

text \<open>The sessions a round works with.\<close>

definition joined :: "RoundInput \<Rightarrow> TcpEngine \<Rightarrow> SendSession list" where
  "joined ri e = svSessions (doAccept (riConn ri) (teServer e))"

text \<open>A session went on: it sent some of what it owed and of what the round put into the queue.\<close>

definition wentOn ::
    "(u64 \<Rightarrow> bytes) \<Rightarrow> u16 \<Rightarrow> bytes list \<Rightarrow> (nat \<times> bytes) list \<Rightarrow> TcpEngine \<Rightarrow> TcpEngine \<Rightarrow> SendSession \<Rightarrow> SendSession \<Rightarrow> bool" where
  "wentOn heap t hist sent e e' s s' \<longleftrightarrow> tssId s' = tssId s \<and> tssSubs s' = tssSubs s \<and>
     (\<exists>bs. (tssId s, bs) \<in> set sent \<and>
        bs @ owedIn heap e' s' = owedIn heap e s @
          (if tagCheck (tssSubs s) t = 0 then [] else wireRange heap hist (enginePos e) (enginePos e')))"

lemma joined_ok:
  assumes "tcpInv r t heap hist e" "s \<in> set (joined ri e)"
  shows "sessionWf (svQueue (teServer e)) s" "tssData s = []"
proof -
  have "sessionWf q (newSendSession fd)" "tssData (newSendSession fd) = []" for q fd
    by (simp_all add: sessionWf_def newSendSession_def)
  then show "sessionWf (svQueue (teServer e)) s" "tssData s = []"
    using assms(2) tcpInvD(14) [OF assms(1)] by (auto simp: joined_def doAccept_def split: option.splits)
qed

text \<open>The server's part of a round; \<open>mid\<close> is the first slot kept.\<close>

lemma server_part:
  assumes inv: "tcpInv r t heap hist e" and quiet: "quietRound heap ri"
    and pos: "enginePos e \<le> pos" "pos \<le> length hist"
    and fin: "coversRing (vecsAt r hist) t (enginePos e) q' pos"
    and sv1: "sv1 = (teServer e)\<lparr>svQueue := svQueue (teServer e) @ q'\<rparr>"
  obtains mid sent sv2 out where
    "serverRunOnce (readVec (buffer0 (teBuffer e)) heap) (riConn ri) (riInput ri) (iteratorAt (of_nat (read0 (teBuffer e))))
       (iteratorAt (of_nat pos)) sv1 (teOutbound e) = Ret (iteratorAt (of_nat mid), sent, sv2, out)"
    "read0 (teBuffer e) \<le> mid" "mid \<le> pos" "coversRing (vecsAt r hist) t mid (svQueue sv2) pos"
    "svCapacity sv2 = 2 ^ r" "joined ri e \<noteq> [] \<Longrightarrow> map fst sent = map tssId (joined ri e)"
    "subseq (map tssId (svSessions sv2)) (map tssId (joined ri e))"
    "\<And>s'. s' \<in> set (svSessions sv2) \<Longrightarrow> sessionWf (svQueue sv2) s' \<and> tssData s' = [] \<and>
       (\<exists>s \<in> set (joined ri e). tssId s' = tssId s \<and> tssSubs s' = tssSubs s \<and>
          (\<exists>bs. (tssId s, bs) \<in> set sent \<and>
             bs @ sessionOwed (readVec (buffer0 (teBuffer e)) heap) (svQueue sv2) s' =
             owedIn heap e s @ (if tagCheck (tssSubs s) t = 0 then [] else wireRange heap hist (enginePos e) pos)))"
proof -
  note I = tcpInvD [OF inv]
  let ?mem = "readVec (buffer0 (teBuffer e)) heap" and ?rd = "read0 (teBuffer e)"
  let ?q = "svQueue (teServer e) @ q'"
  have sess: "svSessions (doAccept (riConn ri) sv1) = joined ri e" "svQueue sv1 = ?q" "svCapacity sv1 = 2 ^ r"
    using I(13) by (simp_all add: sv1 joined_def doAccept_def split: option.splits)
  have cov: "coversRing (vecsAt r hist) t ?rd ?q pos" using coversRing_append [OF I(10) fin] .
  have R: "ringHolds r (teBuffer e) t heap hist ?rd pos" using ringHolds_sub [OF I(5) order.refl pos(2)] .
  have Rq: "ringHolds r (teBuffer e) t heap hist (enginePos e) pos" using ringHolds_sub [OF I(5) I(7) pos(2)] .
  have new: "owedOf ?mem subs q' = (if tagCheck subs t = 0 then [] else wireRange heap hist (enginePos e) pos)" for subs
    by (rule coversRing_owed [OF Rq fin])
  show ?thesis
  proof (cases "joined ri e = []")
    case True
    then have "serverRunOnce ?mem (riConn ri) (riInput ri) (iteratorAt (of_nat ?rd)) (iteratorAt (of_nat pos)) sv1 (teOutbound e) =
        Ret (iteratorAt (of_nat pos), [], sv1\<lparr>svQueue := []\<rparr>, teOutbound e)"
      using server_round_empty sess(1) by metis
    moreover have "svSessions sv1 = []"
      using True by (cases "riConn ri") (simp_all add: sv1 joined_def doAccept_def)
    ultimately show ?thesis
      using True I(7) pos(1) sess(3) by (intro that [of pos "[]" "sv1\<lparr>svQueue := []\<rparr>" "teOutbound e"]) simp_all
  next
    case False
    have wf: "sessionWf ?q s" if "s \<in> set (svSessions sv1)" for s
      using that I(14) sessionWf_append(1) by (auto simp: sv1)
    have ok: "serverOk ?mem sv1"
      using coversRing_sound [OF R cov] wf by (auto simp: serverOk_def sess)
    have reads: "readsReturn (riInput ri) (svSessions (doAccept (riConn ri) sv1))"
      unfolding readsReturn_def sess(1)
      using quiet_read [OF joined_ok(2) [OF inv]] quiet unfolding quietRound_def by blast
    have ne: "svSessions (doAccept (riConn ri) sv1) \<noteq> []" using False sess(1) by simp
    obtain m it sent sv2 out where S:
      "serverRunOnce ?mem (riConn ri) (riInput ri) (iteratorAt (of_nat ?rd)) (iteratorAt (of_nat pos)) sv1 (teOutbound e) = Ret (it, sent, sv2, out)"
      "m = foldl min (length (svQueue sv1)) (map tssIndex (svSessions (doAccept (riConn ri) sv1)))"
      "it = (if m = 0 then iteratorAt (of_nat ?rd) else qbEnd (svQueue sv1 ! (m - 1)))" "svQueue sv2 = drop m (svQueue sv1)"
      "map fst sent = map tssId (svSessions (doAccept (riConn ri) sv1))"
      "subseq (map tssId (svSessions sv2)) (map tssId (svSessions (doAccept (riConn ri) sv1)))"
      "svCapacity sv2 = svCapacity sv1" "serverOk ?mem sv2"
      "\<And>s'. s' \<in> set (svSessions sv2) \<Longrightarrow> \<exists>s \<in> set (svSessions (doAccept (riConn ri) sv1)). \<exists>s1.
         sessionStep ?mem (riInput ri) (svQueue sv1) sent s s1 \<and> s' = s1\<lparr>tssIndex := tssIndex s1 - m\<rparr> \<and>
         sessionOwed ?mem (svQueue sv2) s' = sessionOwed ?mem (svQueue sv1) s1"
      by (rule server_round_lemma [OF ok ne reads]) (rule that)
    note S = S [unfolded sess]
    have m: "m \<le> length ?q" unfolding S(2) by (rule foldl_min(1))
    obtain mid where mid: "coversRing (vecsAt r hist) t mid (drop m ?q) pos" "?rd \<le> mid" "mid \<le> pos"
      "if m = 0 then mid = ?rd else ?rd < mid \<and> qbEnd (?q ! (m - 1)) = iteratorAt (of_nat mid)"
      using coversRing_drop [OF cov m] by blast
    have it: "it = iteratorAt (of_nat mid)" using mid(4) S(3) by (auto split: if_splits)
    have step: "sessionWf (svQueue sv2) s' \<and> tssData s' = [] \<and>
       (\<exists>s \<in> set (joined ri e). tssId s' = tssId s \<and> tssSubs s' = tssSubs s \<and>
          (\<exists>bs. (tssId s, bs) \<in> set sent \<and> bs @ sessionOwed ?mem (svQueue sv2) s' =
             owedIn heap e s @ (if tagCheck (tssSubs s) t = 0 then [] else wireRange heap hist (enginePos e) pos)))"
      if s': "s' \<in> set (svSessions sv2)" for s'
    proof -
      obtain s s1 where s: "s \<in> set (joined ri e)" "sessionStep ?mem (riInput ri) ?q sent s s1"
        "s' = s1\<lparr>tssIndex := tssIndex s1 - m\<rparr>" "sessionOwed ?mem (svQueue sv2) s' = sessionOwed ?mem ?q s1"
        using S(9) [OF s'] by blast
      obtain bs s0 out1 out2 where b: "(tssId s, bs) \<in> set sent"
        "tcpDoRead (inRecv (riInput ri (tssId s))) s out1 = Ret (True, s0, out2)" "movedOn s0 s1"
        "bs @ sessionOwed ?mem ?q s1 = sessionOwed ?mem ?q s0"
        using s(2) unfolding sessionStep_def by blast
      have "quietInput (riInput ri (tssId s))" using quiet by (simp add: quietRound_def)
      then obtain rdy where s0: "s0 = s\<lparr>tssReady := rdy\<rparr>"
        using quiet_read [OF joined_ok(2) [OF inv s(1)], of "riInput ri (tssId s)" out1] b(2) by auto
      have "sessionOwed ?mem ?q s = owedIn heap e s @ owedOf ?mem (tssSubs s) q'"
        using sessionWf_append(2) [OF joined_ok(1) [OF inv s(1)]] by (simp add: owedIn_def)
      then have "bs @ sessionOwed ?mem (svQueue sv2) s' = owedIn heap e s @ owedOf ?mem (tssSubs s) q'"
        using b(4) s(4) s0 by simp
      moreover have "tssId s' = tssId s" "tssSubs s' = tssSubs s" "tssData s' = []"
        using b(3) s(3) s0 joined_ok(2) [OF inv s(1)] by (simp_all add: movedOn_def)
      moreover have "sessionWf (svQueue sv2) s'" using S(8) s' by (simp add: serverOk_def)
      ultimately show ?thesis using s(1) b(1) unfolding new by blast
    qed
    show ?thesis
      by (rule that [of mid sent sv2 out]) (use S(1,4-7) it mid(1-3) step in simp_all)
  qed
qed

text \<open>What stays as it is.\<close>

definition sameSetup :: "TcpEngine \<Rightarrow> TcpEngine \<Rightarrow> bool" where
  "sameSetup e e' \<longleftrightarrow> teMaxMessageSize e' = teMaxMessageSize e \<and> teMtu e' = teMtu e \<and>
     teMaxSendBatch e' = teMaxSendBatch e \<and> VALUE_TYPE_SIZE0 (teBuffer e') = VALUE_TYPE_SIZE0 (teBuffer e)"

lemma engine_round:
  assumes inv: "tcpInv r t heap hist e" and quiet: "quietRound heap ri" and t: "t \<noteq> 0"
  shows "\<exists>ro e'. engineRunOnce ri e = Ret (ro, e') \<and> tcpInv r t heap hist e' \<and> sameSetup e e' \<and>
     enginePos e \<le> enginePos e' \<and> read0 (teBuffer e) \<le> read0 (teBuffer e') \<and>
     roReleased ro = releasedAtts hist (read0 (teBuffer e)) (read0 (teBuffer e')) \<and>
     (joined ri e \<noteq> [] \<longrightarrow> map fst (roSent ro) = map tssId (joined ri e)) \<and>
     subseq (map tssId (svSessions (teServer e'))) (map tssId (joined ri e)) \<and>
     (\<forall>s' \<in> set (svSessions (teServer e')). \<exists>s \<in> set (joined ri e). wentOn heap t hist (roSent ro) e e' s s')"
proof -
  note I = tcpInvD [OF inv]
  let ?b = "teBuffer e" and ?e1 = "if started e then e\<lparr>teMinRecv := 0\<rparr> else e"
  let ?rd = "read0 ?b"
  let ?m = "if started e then teMaxSendBatch e else 0"
  obtain hi b1 n where P: "peek0 ?b ?m = ((iteratorAt (of_nat ?rd), iteratorAt (of_nat hi), n), b1)"
    "?rd \<le> hi" "enginePos e \<le> hi" "hi \<le> length hist" "buffer0 b1 = buffer0 ?b" "queue_inv r {} {?rd..<hi} b1"
    "read0 b1 = hi" "claimed0 b1 = length hist" "VALUE_TYPE_SIZE0 b1 = VALUE_TYPE_SIZE0 ?b"
    "hi \<le> ?rd + unat (teMaxSendBatch e)" "\<not> started e \<Longrightarrow> hi = ?rd"
    by (rule peek_round [OF inv refl]) (rule that)
  obtain st pos where B: "batchLoop (teMtu e) (riClock ri) (buffer0 ?b) (iteratorAt (of_nat hi))
      \<lparr>baIt = teBegin e, baTag = 0, baSize = 0, baVecs = [], baRater = teRater e, baServer = teServer e\<rparr> = Ret st"
    "enginePos e \<le> pos" "pos \<le> hi" "baIt st = iteratorAt (of_nat pos)" "baRater st = teRater e"
    "\<forall>n. enginePos e \<le> n \<and> n < pos \<longrightarrow> fitsMtu (teMtu e) (hist ! n)"
    "\<exists>q'. finishBatch st = (teServer e)\<lparr>svQueue := svQueue (teServer e) @ q'\<rparr> \<and>
       coversRing (vecsAt r hist) t (enginePos e) q' pos"
    by (rule batch_round [OF inv t P(3,4)]) (rule that)
  obtain q' where fin: "finishBatch st = (teServer e)\<lparr>svQueue := svQueue (teServer e) @ q'\<rparr>"
    "coversRing (vecsAt r hist) t (enginePos e) q' pos"
    using B(7) by blast
  have posl: "pos \<le> length hist" using B(3) P(4) by simp
  let ?mem = "readVec (buffer0 ?b) heap"
  obtain mid sent sv2 out where S:
    "serverRunOnce ?mem (riConn ri) (riInput ri) (iteratorAt (of_nat ?rd)) (iteratorAt (of_nat pos)) (finishBatch st) (teOutbound e) =
       Ret (iteratorAt (of_nat mid), sent, sv2, out)"
    "?rd \<le> mid" "mid \<le> pos" "coversRing (vecsAt r hist) t mid (svQueue sv2) pos"
    "svCapacity sv2 = 2 ^ r" "joined ri e \<noteq> [] \<Longrightarrow> map fst sent = map tssId (joined ri e)"
    "subseq (map tssId (svSessions sv2)) (map tssId (joined ri e))"
    "\<And>s'. s' \<in> set (svSessions sv2) \<Longrightarrow> sessionWf (svQueue sv2) s' \<and> tssData s' = [] \<and>
       (\<exists>s \<in> set (joined ri e). tssId s' = tssId s \<and> tssSubs s' = tssSubs s \<and>
          (\<exists>bs. (tssId s, bs) \<in> set sent \<and> bs @ sessionOwed ?mem (svQueue sv2) s' =
             owedIn heap e s @ (if tagCheck (tssSubs s) t = 0 then [] else wireRange heap hist (enginePos e) pos)))"
    by (rule server_part [OF inv quiet B(2) posl fin(2,1)]) (rule that)
  have u63: "hi < 2 ^ 63" using P(4) I(4) by (simp add: limit0_def)
  let ?e2 = "?e1\<lparr>teRater := baRater st, teBegin := baIt st, teServer := sv2, teOutbound := out\<rparr>"
  let ?mb = "mid - ?rd"
  have minus: "iterMinus (iteratorAt (of_nat mid)) (iteratorAt (of_nat ?rd)) = of_nat mid - of_nat ?rd"
    by (simp add: iterMinus_def iteratorAt_def)
  have um: "unat (of_nat mid - of_nat ?rd :: u64) = ?mb"
    using S(2,3) B(3) u63 by (simp add: unat_sub word_le_nat_alt unat_of_nat_small)
  have run: "engineRunOnce ri e =
      (if iterEq (iteratorAt (of_nat ?rd)) (iteratorAt (of_nat hi))
       then Ret (\<lparr>roSent = sent, roReleased = []\<rparr>, ?e2\<lparr>teBuffer := b1\<rparr>)
       else case releaseItems b1 (of_nat ?rd) ?mb of (l, b2) \<Rightarrow>
         Ret (\<lparr>roSent = sent, roReleased = l\<rparr>,
           ?e2\<lparr>teBuffer := wasteAfterPeek0 b2 (iteratorAt (of_nat ?rd)) (of_nat mid - of_nat ?rd) True\<rparr>))"
  proof -
    have f: "teBuffer ?e1 = ?b" "teMaxSendBatch ?e1 = teMaxSendBatch e" "teMtu ?e1 = teMtu e" "teBegin ?e1 = teBegin e"
      "teRater ?e1 = teRater e" "teServer ?e1 = teServer e" "teOutbound ?e1 = teOutbound e" by simp_all
    have h: "riHeap ri = heap" using quiet by (simp add: quietRound_def)
    show ?thesis
      unfolding engineRunOnce_def Let_def f P(1) case_prod_conv P(5) B(1) obind.simps(1) h B(4) S(1) minus um
      by (simp add: iteratorAt_def)
  qed
  have base: "ringHolds r b1 t heap hist ?rd (claimed0 b1)"
    using I(5) P(5,8) queue_invD(1) [OF P(6)] by (simp add: ringHolds_def holdsFrom_def slot0_def)
  define nb where "nb = (if ?rd = hi then b1
    else wasteAfterPeek0 (snd (releaseItems b1 (of_nat ?rd) ?mb)) (iteratorAt (of_nat ?rd)) (of_nat mid - of_nat ?rd) True)"
  define ro where "ro = \<lparr>roSent = sent, roReleased = (if ?rd = hi then [] else releasedAtts hist ?rd mid)\<rparr>"
  have G: "queue_inv r {} {} nb \<and> read0 nb = mid \<and> claimed0 nb = length hist \<and> VALUE_TYPE_SIZE0 nb = VALUE_TYPE_SIZE0 ?b \<and>
      ringHolds r nb t heap hist mid (length hist) \<and> engineRunOnce ri e = Ret (ro, ?e2\<lparr>teBuffer := nb\<rparr>)"
  proof (cases "?rd = hi")
    case True
    then have "mid = hi" using S(2,3) B(3) by simp
    then show ?thesis
      unfolding run nb_def ro_def using True P(6-9) base by (simp add: iterEq_def)
  next
    case False
    have sz: "32 \<le> VALUE_TYPE_SIZE0 b1" using P(9) I(2) by simp
    have mh: "mid \<le> hi" using S(3) B(3) by simp
    have "(of_nat ?rd :: u64) \<noteq> of_nat hi"
      using False P(2) u63 unat_of_nat_small [of ?rd] unat_of_nat_small [of hi] by (metis le_less_trans)
    then have "\<not> iterEq (iteratorAt (of_nat ?rd)) (iteratorAt (of_nat hi))" by (simp add: iterEq_def iteratorAt_def)
    moreover obtain b2 where "releaseItems b1 (of_nat ?rd) ?mb = (releasedAtts hist ?rd mid, b2)"
      "let b3 = wasteAfterPeek0 b2 (iteratorAt (of_nat ?rd)) (of_nat mid - of_nat ?rd) True
       in queue_inv r {} {} b3 \<and> read0 b3 = mid \<and> claimed0 b3 = claimed0 b1 \<and> VALUE_TYPE_SIZE0 b3 = VALUE_TYPE_SIZE0 b1 \<and>
          ringHolds r b3 t heap hist mid (claimed0 b3)"
      using give_back [OF P(6,7) S(2) mh sz base] by (elim exE conjE) (rule that)
    ultimately show ?thesis unfolding run nb_def ro_def using False P(8,9) by (auto simp: Let_def)
  qed
  let ?e' = "?e2\<lparr>teBuffer := nb\<rparr>"
  have rel: "roReleased ro = releasedAtts hist ?rd mid"
    using S(2,3) B(3) by (auto simp: ro_def releasedAtts_def)
  have f: "teBuffer ?e' = nb" "teServer ?e' = sv2" "teBegin ?e' = iteratorAt (of_nat pos)" "teMtu ?e' = teMtu e"
    "teMaxSendBatch ?e' = teMaxSendBatch e" "teRater ?e' = teRater e" "teMaxMessageSize ?e' = teMaxMessageSize e"
    "teMinRecv ?e' = (if started e then 0 else teMinRecv e)"
    using B(4,5) by simp_all
  have pos': "enginePos ?e' = pos"
    using posl I(4) by (simp only: enginePos_def f(3)) (simp add: iteratorAt_def limit0_def unat_of_nat_small)
  have inv': "tcpInv r t heap hist ?e'"
  proof (rule tcpInvI, unfold f pos')
    show "pos \<le> read0 nb + unat (teMaxSendBatch e)" using G S(2) B(3) P(10) by simp
    show "(if started e then 0 else teMinRecv e) \<noteq> 0 \<Longrightarrow> pos = read0 nb"
      using G S(2,3) B(3) P(11) by (auto split: if_splits)
    show "\<forall>n<pos. fitsMtu (teMtu e) (hist ! n)"
      using I(12) B(6) by (metis linorder_not_le)
  qed (use G I S posl B in simp_all)
  have ow: "owedIn heap ?e' s' = sessionOwed ?mem (svQueue sv2) s'" if "s' \<in> set (svSessions sv2)" for s'
  proof -
    have a: "ringHolds r nb t heap hist mid pos" using ringHolds_sub [of r nb t heap hist mid "length hist"] G posl by blast
    have b: "ringHolds r ?b t heap hist mid pos" using ringHolds_sub [OF I(5) S(2) posl] .
    show ?thesis unfolding owedIn_def f(1,2) by (rule sessionOwed_cong [OF a b S(4)]) (use S(8) [OF that] in blast)
  qed
  have went: "\<forall>s' \<in> set (svSessions (teServer ?e')). \<exists>s \<in> set (joined ri e). wentOn heap t hist (roSent ro) e ?e' s s'"
  proof
    fix s' assume "s' \<in> set (svSessions (teServer ?e'))"
    then have s': "s' \<in> set (svSessions sv2)" by (simp only: f(2))
    show "\<exists>s \<in> set (joined ri e). wentOn heap t hist (roSent ro) e ?e' s s'"
      using S(8) [OF s'] unfolding wentOn_def ow [OF s'] pos' ro_def by auto
  qed
  have same: "sameSetup e ?e'" unfolding sameSetup_def f using G by simp
  have "engineRunOnce ri e = Ret (ro, ?e')" using G by blast
  moreover have "roReleased ro = releasedAtts hist ?rd (read0 (teBuffer ?e'))" unfolding f(1) using G rel by simp
  moreover have "joined ri e \<noteq> [] \<longrightarrow> map fst (roSent ro) = map tssId (joined ri e)" using S(6) by (simp add: ro_def)
  moreover have "subseq (map tssId (svSessions (teServer ?e'))) (map tssId (joined ri e))" unfolding f(2) by (rule S(7))
  moreover have "enginePos e \<le> enginePos ?e'" unfolding pos' by (rule B(2))
  moreover have "?rd \<le> read0 (teBuffer ?e')" unfolding f(1) using G S(2) by simp
  ultimately show ?thesis using inv' same went by blast
qed

end
