(* ===== verification/TcpRuns.thy ===== *)
theory TcpRuns
  imports TcpDelivery
begin

text \<open>
  Runs of the TCP engine: publications and rounds in any order. The theorems on what a session's
  connection carries, and on the failures of the engine.
\<close>

section \<open>Publishing\<close>

lemma coversRing_cong:
  assumes "\<And>n. n < hi \<Longrightarrow> vec n = vec' n"
  shows "coversRing vec t lo q hi \<Longrightarrow> coversRing vec' t lo q hi"
proof (induction q arbitrary: lo)
  case (Cons e q)
  obtain mid where mid: "lo < mid" "qbEnd e = iteratorAt (of_nat mid)" "qbTag e = t"
    "qbToSend e = concat (map vec [lo..<mid])" "qbBytes e = of_nat (vecBytes (qbToSend e))" "coversRing vec t mid q hi"
    using Cons.prems by auto
  have "mid \<le> hi" using coversRing_le [OF mid(6)] by simp
  then have "map vec [lo..<mid] = map vec' [lo..<mid]" using assms by simp
  then show ?case using mid Cons.IH [OF mid(6)] by (simp only: coversRing.simps) metis
qed simp

lemma wireRange_append:
  "hi \<le> length hist \<Longrightarrow> wireRange heap (hist @ ms) lo hi = wireRange heap hist lo hi"
  unfolding wireRange_def by (intro arg_cong [of _ _ concat] map_cong refl) (auto simp: nth_append)

lemma releasedAtts_append:
  "hi \<le> length hist \<Longrightarrow> releasedAtts (hist @ ms) lo hi = releasedAtts hist lo hi"
  unfolding releasedAtts_def by (intro arg_cong [of _ _ concat] map_cong refl) (auto simp: nth_append)

lemma releasedAtts_add:
  assumes "lo \<le> mid" "mid \<le> hi"
  shows "releasedAtts hist lo hi = releasedAtts hist lo mid @ releasedAtts hist mid hi"
proof -
  have "[lo..<hi] = [lo..<mid] @ [mid..<hi]" using assms by (metis le_add_diff_inverse upt_add_eq_append)
  then show ?thesis by (simp add: releasedAtts_def)
qed

lemma publish_inv:
  assumes inv: "tcpInv r t heap hist e" and m: "m = netWrap flag t body" "goodItem t heap m" "length m \<le> VALUE_TYPE_SIZE0 (teBuffer e)"
    and len: "Suc (length hist) < limit0"
  shows "\<exists>ok b. tryPutInPlace (teBuffer e) m = Ret (ok, b) \<and> VALUE_TYPE_SIZE0 b = VALUE_TYPE_SIZE0 (teBuffer e) \<and>
     read0 b = read0 (teBuffer e) \<and>
     (let e' = e\<lparr>teBuffer := b\<rparr>; hist' = (if ok then hist @ [m] else hist)
      in tcpInv r t heap hist' e' \<and> (\<forall>s \<in> set (svSessions (teServer e)). owedIn heap e' s = owedIn heap e s))"
proof -
  note I = tcpInvD [OF inv]
  let ?b = "teBuffer e"
  note D = queue_invD [OF I(1)]
  have ne: "m \<noteq> []" using goodItem_parts(1) [OF m(2)] .
  have lim: "claimed0 ?b < limit0" using I(3,4) by simp
  have h: "hintSize0 ?b (length m) = length m" using ne by (simp add: hintSize0_def)
  have fits: "fits0 ?b m (length m)" using m(3) h by (simp add: fits0_def)
  note put = tryPutInPlace_eq [OF D(1) ne m(3), unfolded put0_eq(1) [OF I(1) lim fits]]
  show ?thesis
  proof (cases "room0 r {} ?b")
    case False
    then show ?thesis using put inv by (intro exI [of _ False] exI [of _ ?b]) simp
  next
    case True
    let ?b' = "putState0 ?b m (length m)" and ?e' = "e\<lparr>teBuffer := putState0 (teBuffer e) m (length m)\<rparr>"
    note S = putState0_spec [OF I(1) lim True fits]
    obtain d where d: "items0 ?b' = items0 ?b @ [d]" "take (length m) d = m" using S(4) h by auto
    have cl: "claimed0 ?b' = Suc (length hist)" using S(3) I(3) by simp
    have rd: "read0 ?b \<le> length hist" using I(7,8) by simp
    have upto: "[read0 ?b..<Suc (length hist)] = [read0 ?b..<length hist] @ [length hist]" using rd by simp
    have eq: "map (\<lambda>n. slotData (slot0 ?b' n)) [read0 ?b..<length hist] = map (\<lambda>n. slotData (slot0 ?b n)) [read0 ?b..<length hist]"
      "slotData (slot0 ?b' (length hist)) = d"
      using d(1) by (simp_all add: items0_def cl S(2) I(3) upto del: upt_Suc)
    have old: "slotData (slot0 ?b' n) = slotData (slot0 ?b n)" if "read0 ?b \<le> n" "n < length hist" for n
      using eq(1) that by simp
    have vts: "VALUE_TYPE_SIZE0 ?b' = VALUE_TYPE_SIZE0 ?b" by (simp add: putState0_def publish0_def)
    note R = ringHoldsD [OF I(5)]
    have ring: "ringHolds r ?b' t heap (hist @ [m]) (read0 ?b) (Suc (length hist))"
      unfolding ringHolds_def holdsFrom_def
    proof (intro conjI allI impI)
      show "queue_shape r ?b'" using queue_invD(1) [OF S(1)] .
      fix n assume n: "read0 ?b \<le> n \<and> n < Suc (length hist)"
      show "\<exists>rest. slotData (slot0 ?b' n) = (hist @ [m]) ! n @ rest"
      proof (cases "n = length hist")
        case True
        then show ?thesis using eq(2) d(2) append_take_drop_id [of "length m" d]
          by (intro exI [of _ "drop (length m) d"]) simp
      next
        case False
        then show ?thesis using n old holdsFromD [OF R(2), of n] by (simp add: nth_append)
      qed
      show "goodItem t heap ((hist @ [m]) ! n)" using n R(3) m(2) by (auto simp: nth_append less_Suc_eq)
    next
      have "Suc (length hist) \<le> read0 ?b + 2 ^ r" using queue_invD(4) [OF S(1)] cl S(2) by simp
      also have "\<dots> \<le> read0 ?b + 2 ^ 32" using queue_shapeD(3) [OF D(1)] by simp
      finally show "Suc (length hist) \<le> read0 ?b + 2 ^ 32" .
      show "Suc (length hist) < 2 ^ 63" using len by (simp add: limit0_def)
    qed
    have pos: "enginePos ?e' = enginePos e" by (simp add: enginePos_def)
    have vec: "vecsAt r hist n = vecsAt r (hist @ [m]) n" if "n < enginePos e" for n
      using that I(8) by (simp add: vecsAt_def nth_append)
    have inv': "tcpInv r t heap (hist @ [m]) ?e'"
    proof (rule tcpInvI, unfold pos)
      show "coversRing (vecsAt r (hist @ [m])) t (read0 (teBuffer ?e')) (svQueue (teServer ?e')) (enginePos e)"
        using coversRing_cong [OF vec I(10)] S(2) by simp
      show "\<forall>n<enginePos e. fitsMtu (teMtu ?e') ((hist @ [m]) ! n)"
        using I(8,12) by (auto simp: nth_append)
    qed (use I S cl vts len ring in \<open>simp_all add: S(2)\<close>)
    have "owedIn heap ?e' s = owedIn heap e s" if s: "s \<in> set (svSessions (teServer e))" for s
    proof -
      have a: "ringHolds r ?b' t heap (hist @ [m]) (read0 ?b) (enginePos e)"
        using ringHolds_sub [OF ring order.refl] I(8) by simp
      have b: "ringHolds r ?b t heap (hist @ [m]) (read0 ?b) (enginePos e)"
        using ringHolds_sub [OF I(5) order.refl I(8)] I(8) by (auto simp: ringHolds_def holdsFrom_def nth_append)
      show ?thesis
        unfolding owedIn_def
        using sessionOwed_cong [OF a b coversRing_cong [OF vec I(10)]] I(14) s by simp
    qed
    then show ?thesis
      using put True vts inv' S(2) by (intro exI [of _ True] exI [of _ ?b']) (simp add: Let_def)
  qed
qed

section \<open>Runs\<close>

lemma count_subseq: "subseq xs ys \<Longrightarrow> count_list xs i \<le> count_list ys i"
  by (induction rule: list_emb.induct) auto

lemma sentTo_sole:
  assumes "count_list (map fst sent) i \<le> 1" "(i, bs) \<in> set sent"
  shows "sentTo i sent = bs"
  using assms
proof (induction sent)
  case (Cons p sent)
  show ?case
  proof (cases "fst p = i")
    case True
    then have "count_list (map fst sent) i = 0" using Cons.prems(1) by simp
    then have none: "i \<notin> fst ` set sent" by (simp add: count_list_0_iff)
    then have "p = (i, bs)" using Cons.prems(2) by (metis image_eqI fst_conv set_ConsD)
    moreover have "filter (\<lambda>p. fst p = i) sent = []" using none by (auto simp: filter_empty_conv)
    ultimately show ?thesis by (simp add: sentTo_def)
  next
    case False
    then have "(i, bs) \<in> set sent" using Cons.prems(2) by auto
    then show ?thesis using Cons.IH Cons.prems(1) False by (simp add: sentTo_def)
  qed
qed simp

text \<open>
  What may happen: messages of tag \<open>t\<close> that fit, and rounds in which the other sides send nothing but
  heartbeats. The session watched, \<open>i\<close>, is not joined by another of the same name.
\<close>

definition eventOk :: "TcpEngine \<Rightarrow> u16 \<Rightarrow> (u64 \<Rightarrow> bytes) \<Rightarrow> nat \<Rightarrow> TcpEvent \<Rightarrow> bool" where
  "eventOk e t heap i ev = (case ev of
     Publish flag tag body \<Rightarrow> tag = t \<and> goodItem t heap (netWrap flag t body) \<and>
       of_nat (length body) \<le> teMaxMessageSize e \<and> length (netWrap flag t body) \<le> VALUE_TYPE_SIZE0 (teBuffer e)
   | Round ri \<Rightarrow> quietRound heap ri \<and> riConn ri \<noteq> Some i)"

lemma eventOk_same: "sameSetup e e' \<Longrightarrow> eventOk e' t heap i ev = eventOk e t heap i ev"
  by (cases ev) (simp_all add: eventOk_def sameSetup_def)

definition sole :: "nat \<Rightarrow> TcpEngine \<Rightarrow> bool" where
  "sole i e \<longleftrightarrow> count_list (map tssId (svSessions (teServer e))) i \<le> 1"

lemma sole_joined:
  assumes "sole i e" "riConn ri \<noteq> Some i"
  shows "count_list (map tssId (joined ri e)) i \<le> 1" "s \<in> set (joined ri e) \<Longrightarrow> tssId s = i \<Longrightarrow> s \<in> set (svSessions (teServer e))"
  using assms by (auto simp: sole_def joined_def doAccept_def newSendSession_def split: option.splits)

text \<open>What a session that is still there has got.\<close>

definition gotSoFar ::
    "(u64 \<Rightarrow> bytes) \<Rightarrow> u16 \<Rightarrow> nat \<Rightarrow> bytes list \<Rightarrow> RoundOutput list \<Rightarrow> TcpEngine \<Rightarrow> TcpEngine \<Rightarrow> SendSession \<Rightarrow> SendSession \<Rightarrow> bool" where
  "gotSoFar heap t i hist outs e e' s s' \<longleftrightarrow> tssId s = i \<and> tssSubs s' = tssSubs s \<and>
     streamOf i outs @ owedIn heap e' s' =
     owedIn heap e s @ (if tagCheck (tssSubs s) t = 0 then [] else wireRange heap hist (enginePos e) (enginePos e'))"

lemma run_lemma:
  assumes "t \<noteq> 0"
  shows "tcpInv r t heap hist e \<Longrightarrow> sole i e \<Longrightarrow> \<forall>ev \<in> set evs. eventOk e t heap i ev \<Longrightarrow>
    length hist + length evs < limit0 \<Longrightarrow>
    \<exists>ms outs e'. runTcp evs e = Ret (ms, outs, e') \<and> tcpInv r t heap (hist @ ms) e' \<and> sameSetup e e' \<and>
      enginePos e \<le> enginePos e' \<and> read0 (teBuffer e) \<le> read0 (teBuffer e') \<and>
      concat (map roReleased outs) = releasedAtts (hist @ ms) (read0 (teBuffer e)) (read0 (teBuffer e')) \<and>
      (\<forall>s' \<in> set (svSessions (teServer e')). tssId s' = i \<longrightarrow>
         (\<exists>s \<in> set (svSessions (teServer e)). gotSoFar heap t i (hist @ ms) outs e e' s s'))"
proof (induction evs arbitrary: e hist)
  case Nil
  then show ?case by (auto simp: gotSoFar_def streamOf_def sameSetup_def releasedAtts_def)
next
  case (Cons ev evs)
  have evs: "\<forall>ev \<in> set evs. eventOk e' t heap i ev" if "sameSetup e e'" for e'
    using Cons.prems(3) eventOk_same [OF that] by simp
  show ?case
  proof (cases ev)
    case (Publish flag tag body)
    let ?m = "netWrap flag t body"
    have ev: "tag = t" "goodItem t heap ?m" "of_nat (length body) \<le> teMaxMessageSize e"
      "length ?m \<le> VALUE_TYPE_SIZE0 (teBuffer e)"
      using Cons.prems(3) by (simp_all add: Publish eventOk_def)
    show ?thesis
    proof (cases "unwanted e t")
      case True
      obtain ms outs e' where "runTcp evs e = Ret (ms, outs, e')" "tcpInv r t heap (hist @ ms) e'" "sameSetup e e'"
          "enginePos e \<le> enginePos e'" "read0 (teBuffer e) \<le> read0 (teBuffer e')"
          "concat (map roReleased outs) = releasedAtts (hist @ ms) (read0 (teBuffer e)) (read0 (teBuffer e'))"
          "\<forall>s' \<in> set (svSessions (teServer e')). tssId s' = i \<longrightarrow>
         (\<exists>s \<in> set (svSessions (teServer e)). gotSoFar heap t i (hist @ ms) outs e e' s s')"
        using Cons.IH [OF Cons.prems(1,2)] Cons.prems(3,4) by auto
      then show ?thesis using True ev(1) by (simp add: Publish tcpTryQueue_def)
    next
      case wanted: False
      have len: "Suc (length hist) < limit0" using Cons.prems(4) by simp
      obtain ok b where P: "tryPutInPlace (teBuffer e) ?m = Ret (ok, b)" "VALUE_TYPE_SIZE0 b = VALUE_TYPE_SIZE0 (teBuffer e)"
        "read0 b = read0 (teBuffer e)"
        "let e' = e\<lparr>teBuffer := b\<rparr>; hist' = (if ok then hist @ [?m] else hist)
         in tcpInv r t heap hist' e' \<and> (\<forall>s \<in> set (svSessions (teServer e)). owedIn heap e' s = owedIn heap e s)"
        using publish_inv [OF Cons.prems(1) refl ev(2,4) len] by blast
      let ?e = "e\<lparr>teBuffer := b\<rparr>" and ?hist = "if ok then hist @ [?m] else hist"
      have inv: "tcpInv r t heap ?hist ?e" "\<forall>s \<in> set (svSessions (teServer e)). owedIn heap ?e s = owedIn heap e s"
        using P(4) by (simp_all add: Let_def)
      have same: "sameSetup e ?e" using P(2) by (simp add: sameSetup_def)
      have sole: "sole i ?e" using Cons.prems(2) by (simp add: sole_def)
      have pos: "enginePos ?e = enginePos e" by (simp add: enginePos_def)
      have l: "length ?hist + length evs < limit0" using Cons.prems(4) by simp
      obtain ms outs e' where R: "runTcp evs ?e = Ret (ms, outs, e')" "tcpInv r t heap (?hist @ ms) e'" "sameSetup ?e e'"
        "enginePos ?e \<le> enginePos e'" "read0 (teBuffer ?e) \<le> read0 (teBuffer e')"
        "concat (map roReleased outs) = releasedAtts (?hist @ ms) (read0 (teBuffer ?e)) (read0 (teBuffer e'))"
        "\<forall>s' \<in> set (svSessions (teServer e')). tssId s' = i \<longrightarrow>
         (\<exists>s \<in> set (svSessions (teServer ?e)). gotSoFar heap t i (?hist @ ms) outs ?e e' s s')"
        using Cons.IH [OF inv(1) sole evs [OF same] l] by (elim exE conjE) (rule that)
      let ?ms = "if ok then ?m # ms else ms"
      have h: "?hist @ ms = hist @ ?ms" by simp
      have "runTcp (ev # evs) e = Ret (?ms, outs, e')"
        using R(1) P(1) wanted ev(1,3) by (simp add: Publish tcpTryQueue_def)
      moreover have "\<exists>s \<in> set (svSessions (teServer e)). gotSoFar heap t i (hist @ ?ms) outs e e' s s'"
        if s': "s' \<in> set (svSessions (teServer e'))" "tssId s' = i" for s'
      proof -
        obtain s where "s \<in> set (svSessions (teServer e))" "gotSoFar heap t i (?hist @ ms) outs ?e e' s s'"
          using R(7) s' by auto
        then show ?thesis using inv(2) unfolding h gotSoFar_def pos by auto
      qed
      ultimately show ?thesis
        using R(2-6) same P(3) unfolding h pos by (auto simp: sameSetup_def)
    qed
  next
    case (Round ri)
    have ev: "quietRound heap ri" "riConn ri \<noteq> Some i" using Cons.prems(3) by (simp_all add: Round eventOk_def)
    obtain ro e1 where E: "engineRunOnce ri e = Ret (ro, e1)" "tcpInv r t heap hist e1" "sameSetup e e1"
      "enginePos e \<le> enginePos e1" "roReleased ro = releasedAtts hist (read0 (teBuffer e)) (read0 (teBuffer e1))" "joined ri e \<noteq> [] \<longrightarrow> map fst (roSent ro) = map tssId (joined ri e)"
      "subseq (map tssId (svSessions (teServer e1))) (map tssId (joined ri e))"
      "\<forall>s' \<in> set (svSessions (teServer e1)). \<exists>s \<in> set (joined ri e). wentOn heap t hist (roSent ro) e e1 s s'"
      "read0 (teBuffer e) \<le> read0 (teBuffer e1)"
      using engine_round [OF Cons.prems(1) ev(1) assms] by blast
    note J = sole_joined [OF Cons.prems(2) ev(2)]
    have sole: "sole i e1" unfolding sole_def using count_subseq [OF E(7), of i] J(1) by simp
    obtain ms outs e' where R: "runTcp evs e1 = Ret (ms, outs, e')" "tcpInv r t heap (hist @ ms) e'" "sameSetup e1 e'"
      "enginePos e1 \<le> enginePos e'" "read0 (teBuffer e1) \<le> read0 (teBuffer e')"
      "concat (map roReleased outs) = releasedAtts (hist @ ms) (read0 (teBuffer e1)) (read0 (teBuffer e'))"
      "\<forall>s' \<in> set (svSessions (teServer e')). tssId s' = i \<longrightarrow>
         (\<exists>s \<in> set (svSessions (teServer e1)). gotSoFar heap t i (hist @ ms) outs e1 e' s s')"
      using Cons.IH [OF E(2) sole evs [OF E(3)]] Cons.prems(4) by auto
    have "runTcp (ev # evs) e = Ret (ms, ro # outs, e')" using E(1) R(1) by (simp add: Round)
    moreover have "\<exists>s \<in> set (svSessions (teServer e)). gotSoFar heap t i (hist @ ms) (ro # outs) e e' s s'"
      if s': "s' \<in> set (svSessions (teServer e'))" "tssId s' = i" for s'
    proof -
      obtain s1 where s1: "s1 \<in> set (svSessions (teServer e1))" "gotSoFar heap t i (hist @ ms) outs e1 e' s1 s'"
        using R(7) s' by blast
      obtain s where s: "s \<in> set (joined ri e)" "wentOn heap t hist (roSent ro) e e1 s s1"
        using E(8) s1(1) by blast
      obtain bs where b: "(tssId s, bs) \<in> set (roSent ro)" "tssId s1 = tssId s" "tssSubs s1 = tssSubs s"
        "bs @ owedIn heap e1 s1 = owedIn heap e s @
          (if tagCheck (tssSubs s) t = 0 then [] else wireRange heap hist (enginePos e) (enginePos e1))"
        using s(2) unfolding wentOn_def by blast
      have id: "tssId s = i" using s1(2) b(2) by (simp add: gotSoFar_def)
      have "map fst (roSent ro) = map tssId (joined ri e)" using E(6) s(1) by auto
      then have "count_list (map fst (roSent ro)) i \<le> 1" using J(1) by simp
      then have bs: "sentTo i (roSent ro) = bs" using sentTo_sole b(1) id by blast
      have "enginePos e1 \<le> length hist" using tcpInvD(8) [OF E(2)] .
      then have w: "wireRange heap (hist @ ms) (enginePos e) (enginePos e') =
          wireRange heap hist (enginePos e) (enginePos e1) @ wireRange heap (hist @ ms) (enginePos e1) (enginePos e')"
        using wireRange_add [OF E(4) R(4)] wireRange_append by metis
      have "gotSoFar heap t i (hist @ ms) (ro # outs) e e' s s'"
        using s1(2) b id unfolding gotSoFar_def w streamOf_def by (simp add: bs)
      then show ?thesis using J(2) [OF s(1) id] by blast
    qed
    moreover have rd: "read0 (teBuffer e) \<le> read0 (teBuffer e1)" "read0 (teBuffer e1) \<le> length hist"
      using E(9) tcpInvD(7,8) [OF E(2)] by simp_all
    moreover have "concat (map roReleased (ro # outs)) = releasedAtts (hist @ ms) (read0 (teBuffer e)) (read0 (teBuffer e'))"
      using R(6) E(5) releasedAtts_append [OF rd(2), of ms "read0 (teBuffer e)"]
        releasedAtts_add [OF rd(1) R(5), of "hist @ ms"] by simp
    ultimately show ?thesis using R(2-5) E(3,4) by (auto simp: sameSetup_def)
  qed
qed

end
