(* ===== verification/TcpProperties.thy ===== *)
theory TcpProperties
  imports TcpRuns
begin

text \<open>The properties of the sending end of the TCP transport.\<close>

section \<open>The start\<close>

text \<open>An engine on a fresh ring, with sessions that have told what they subscribe to.\<close>

definition freshSession :: "nat \<times> TypeTagSet \<Rightarrow> SendSession" where
  "freshSession p = (newSendSession (fst p))\<lparr>tssSubs := snd p, tssReady := True\<rparr>"

definition tcpStart ::
    "u64 \<Rightarrow> u64 \<Rightarrow> MemRingBuffer0 \<Rightarrow> Rater \<Rightarrow> u64 \<Rightarrow> u64 \<Rightarrow> (nat \<times> TypeTagSet) list \<Rightarrow> TypeTagSet \<Rightarrow> TcpEngine" where
  "tcpStart maxSize minRecv b rt mtu batch l out =
     (let e = newTcpEngine maxSize minRecv b rt mtu batch True
      in e\<lparr>teServer := (teServer e)\<lparr>svSessions := map freshSession l\<rparr>, teOutbound := out\<rparr>)"

definition demoJunk :: "nat \<Rightarrow> slot" where
  "demoJunk _ = \<lparr>slotSeq = 0, slotData = replicate 56 0\<rparr>"

definition demoRing :: MemRingBuffer0 where
  "demoRing = (case newMemRingBuffer0 demoJunk 6 1 of Ret b \<Rightarrow> b)"

definition demoRater :: Rater where
  "demoRater = \<lparr>drop_ns = Duration 0, bucket = Duration 0, currentLevel = Duration 0, previousCheck = SysTime 0,
     enabled = False, lastN = 0\<rparr>"

definition demoTags :: TypeTagSet where
  "demoTags = \<lparr>subCounts = (\<lambda>_. 0)(1001 := 1, 1002 := 1)\<rparr>"

definition demoStart :: TcpEngine where
  "demoStart = tcpStart 40 0 demoRing demoRater 70 60 [(5, demoTags)] demoTags"

text \<open>A message with an attachment of two bytes, at the address 9.\<close>

definition demoBody :: bytes where
  "demoBody = leBytes 8 1 @ leBytes 8 9 @ leBytes 8 2 @ replicate 16 0"

definition demoHeap :: "u64 \<Rightarrow> bytes" where
  "demoHeap p = (if p = 9 then [65, 66] else [])"

definition demoRound :: "SendResult list \<Rightarrow> RoundInput" where
  "demoRound rs = \<lparr>riHeap = demoHeap, riClock = (\<lambda>_. SysTime 0), riConn = None,
     riInput = (\<lambda>_. \<lparr>inRecv = NotReady, inReady1 = True, inReady2 = True, inSends = rs\<rparr>)\<rparr>"

lemma start_inv:
  assumes "newMemRingBuffer0 junk v r = Ret b" "6 \<le> v" "\<And>i. length (slotData (junk i)) + seqBytes = 2 ^ v" "raterOff rt"
  shows "tcpInv r t heap [] (tcpStart maxSize minRecv b rt mtu batch l out)"
    "enginePos (tcpStart maxSize minRecv b rt mtu batch l out) = 0"
    "read0 (teBuffer (tcpStart maxSize minRecv b rt mtu batch l out)) = 0"
    "teMtu (tcpStart maxSize minRecv b rt mtu batch l out) = mtu - 40"
proof -
  let ?e = "tcpStart maxSize minRecv b rt mtu batch l out"
  have v3: "3 \<le> v" using assms(2) by simp
  note N = newMemRingBuffer0_spec [OF assms(1) v3 assms(3)]
  have z: "toBeClaimedSeq0 b = 0" "readSeq0 b = 0"
    using assms(1) by (auto simp: newMemRingBuffer0_def obind_Ret_iff Let_def)
  have "(2 :: nat) ^ 6 \<le> 2 ^ v" using assms(2) by (intro power_increasing) simp_all
  then have vts: "32 \<le> VALUE_TYPE_SIZE0 b" using N(3) by simp
  have pk: "peek0 b 0 = ((iteratorAt 0, iteratorAt 0, 0), b)"
    using z by (simp add: peek0_def peekLoop0.simps Let_def iterMinus_def)
  have f: "teBuffer ?e = b" "teBegin ?e = iteratorAt 0" "teServer ?e = \<lparr>svSessions = map freshSession l, svQueue = [],
      svCapacity = unat (CAPACITY0 b)\<rparr>" "teRater ?e = rt"
    by (simp_all add: tcpStart_def newTcpEngine_def pk Let_def newSendServer_def)
  show "teMtu ?e = mtu - 40" by (simp add: tcpStart_def newTcpEngine_def pk Let_def)
  show pos: "enginePos ?e = 0" by (simp add: enginePos_def f iteratorAt_def)
  show rd: "read0 (teBuffer ?e) = 0" by (simp add: f read0_def z)
  have sh: "queue_shape r b" using queue_invD(1) [OF N(1)] .
  have "ringHolds r b t heap [] 0 0" using sh by (simp add: ringHolds_def holdsFrom_def)
  moreover have "sessionWf [] (freshSession p) \<and> tssData (freshSession p) = []" for p
    by (simp add: freshSession_def newSendSession_def sessionWf_def)
  ultimately show "tcpInv r t heap [] ?e"
    using N vts rd assms(4) queue_shapeD(2) [OF sh]
    by (intro tcpInvI) (auto simp: f pos limit0_def)
qed

lemma start_session:
  "s \<in> set (svSessions (teServer (tcpStart maxSize minRecv b rt mtu batch l out))) \<longleftrightarrow> (\<exists>p \<in> set l. s = freshSession p)"
  "map tssId (svSessions (teServer (tcpStart maxSize minRecv b rt mtu batch l out))) = map fst l"
  "owedIn heap (tcpStart maxSize minRecv b rt mtu batch l out) (freshSession p) = []"
  by (auto simp: tcpStart_def newTcpEngine_def Let_def newSendServer_def freshSession_def newSendSession_def owedIn_def
      sessionOwed_def split: prod.splits)

text \<open>What a run from the start comes to, for a session \<open>i\<close> that is there at its end.\<close>

definition startedRun ::
    "nat \<Rightarrow> u16 \<Rightarrow> (u64 \<Rightarrow> bytes) \<Rightarrow> (nat \<times> TypeTagSet) list \<Rightarrow> nat \<Rightarrow> TcpEngine \<Rightarrow> TcpEvent list \<Rightarrow> bool" where
  "startedRun r t heap l i e evs \<longleftrightarrow>
     (\<exists>junk v b rt maxSize minRecv mtu batch out. newMemRingBuffer0 junk v r = Ret b \<and> 6 \<le> v \<and>
        (\<forall>k. length (slotData (junk k)) + seqBytes = 2 ^ v) \<and> raterOff rt \<and> e = tcpStart maxSize minRecv b rt mtu batch l out) \<and>
     t \<noteq> 0 \<and> distinct (map fst l) \<and> (\<forall>ev \<in> set evs. eventOk e t heap i ev) \<and> length evs < limit0"

lemma distinct_count: "distinct xs \<Longrightarrow> count_list xs i \<le> 1"
  by (induction xs) (auto simp: count_list_0_iff)

lemma started_run:
  assumes "startedRun r t heap l i e evs"
  shows "\<exists>ms outs e'. runTcp evs e = Ret (ms, outs, e') \<and> tcpInv r t heap ms e' \<and> teMtu e' = teMtu e \<and>
     concat (map roReleased outs) = releasedAtts ms 0 (read0 (teBuffer e')) \<and>
     (\<forall>s' \<in> set (svSessions (teServer e')). tssId s' = i \<longrightarrow> (i, tssSubs s') \<in> set l \<and>
        streamOf i outs @ owedIn heap e' s' = (if tagCheck (tssSubs s') t = 0 then [] else wireRange heap ms 0 (enginePos e')))"
proof -
  obtain junk v b rt maxSize minRecv mtu batch out where
    A: "newMemRingBuffer0 junk v r = Ret b" "6 \<le> v" "\<And>k. length (slotData (junk k)) + seqBytes = 2 ^ v" "raterOff rt"
      "e = tcpStart maxSize minRecv b rt mtu batch l out"
    and B: "t \<noteq> 0" "distinct (map fst l)" "\<forall>ev \<in> set evs. eventOk e t heap i ev" "length evs < limit0"
    using assms unfolding startedRun_def by blast
  have S: "tcpInv r t heap [] e" "enginePos e = 0" "read0 (teBuffer e) = 0"
    unfolding A(5) by (rule start_inv [OF A(1-4)])+
  note T1 = start_session(1) [of _ maxSize minRecv b rt mtu batch l out, folded A(5)]
  note T2 = start_session(2) [of maxSize minRecv b rt mtu batch l out, folded A(5)]
  have sole: "sole i e" unfolding sole_def T2 using B(2) by (rule distinct_count)
  have len: "length [] + length evs < limit0" using B(4) by simp
  obtain ms outs e' where R: "runTcp evs e = Ret (ms, outs, e')" "tcpInv r t heap ([] @ ms) e'" "sameSetup e e'"
    "concat (map roReleased outs) = releasedAtts ([] @ ms) (read0 (teBuffer e)) (read0 (teBuffer e'))"
    "\<forall>s' \<in> set (svSessions (teServer e')). tssId s' = i \<longrightarrow>
       (\<exists>s \<in> set (svSessions (teServer e)). gotSoFar heap t i ([] @ ms) outs e e' s s')"
    using run_lemma [OF B(1) S(1) sole B(3) len] by blast
  have "(i, tssSubs s') \<in> set l \<and> streamOf i outs @ owedIn heap e' s' =
      (if tagCheck (tssSubs s') t = 0 then [] else wireRange heap ms 0 (enginePos e'))"
    if s': "s' \<in> set (svSessions (teServer e'))" "tssId s' = i" for s'
  proof -
    obtain s where s: "s \<in> set (svSessions (teServer e))" "gotSoFar heap t i ([] @ ms) outs e e' s s'"
      using R(5) s' by blast
    then obtain p where p: "p \<in> set l" "s = freshSession p" using T1 by blast
    have "owedIn heap e s = []" unfolding A(5) p(2) by (rule start_session(3))
    moreover have "fst p = i" "snd p = tssSubs s"
      using s(2) by (simp_all add: gotSoFar_def p(2) freshSession_def newSendSession_def)
    moreover from this have "p = (i, tssSubs s)" by (intro prod_eqI) simp_all
    ultimately show ?thesis using s(2) p(1) S(2) unfolding gotSoFar_def by auto
  qed
  then show ?thesis using R(1-4) S(3) by (auto simp: sameSetup_def)
qed

lemma demo_started:
  assumes "\<forall>ev \<in> set evs. eventOk demoStart 1001 demoHeap 5 ev" "length evs < limit0"
  shows "startedRun 1 1001 demoHeap [(5, demoTags)] 5 demoStart evs"
proof -
  have "newMemRingBuffer0 demoJunk 6 1 = Ret demoRing"
  proof -
    have "case newMemRingBuffer0 demoJunk 6 1 of Ret b \<Rightarrow> True | _ \<Rightarrow> False" by code_simp
    then show ?thesis by (simp add: demoRing_def split: outcome.splits)
  qed
  moreover have "raterOff demoRater" by (simp add: raterOff_def demoRater_def)
  ultimately show ?thesis
    using assms unfolding startedRun_def demoStart_def
    by (intro conjI exI [of _ demoJunk] exI [of _ "6 :: nat"] exI [of _ demoRing] exI [of _ demoRater] exI
        [of _ "40 :: u64"] exI [of _ "0 :: u64"] exI [of _ "70 :: u64"] exI [of _ "60 :: u64"] exI [of _ demoTags])
      (simp_all add: demoJunk_def)
qed


lemma demo_round_ok: "eventOk e t demoHeap 5 (Round (demoRound rs))"
  by (simp add: eventOk_def quietRound_def demoRound_def quietInput_def)

text \<open>The bytes of a message, which is how the examples compute them.\<close>

lemma netWrap_bytes [code]:
  "netWrap flag tag body = flag # leBytes 2 (8 + length body) @ [0, 0, 0, 0, flag, 0] @ leBytes 2 (unat tag) @ body"
proof -
  have f: "unat flag < 256" using unsigned_less [of flag] by simp
  then have "unat (push_bit 32 (ucast flag) :: u64) = 2 ^ 32 * unat flag"
    by (simp add: push_bit_eq_mult unat_word_ariths unsigned_ucast_eq take_bit_nat_eq_self)
  moreover have "leBytes 6 (2 ^ 32 * unat flag) = [0, 0, 0, 0, flag, 0]"
  proof -
    have shift: "leBytes (Suc k) (256 * v) = 0 # leBytes k v" for k v
    proof -
      have "(256 :: 8 word) = 0" by simp
      then have "256 * x = (0 :: 8 word)" for x by (simp only: mult_zero_left)
      then show ?thesis by simp
    qed
    have "leBytes 6 (2 ^ 32 * unat flag) = leBytes (Suc (Suc (Suc (Suc 2)))) (256 * (256 * (256 * (256 * unat flag))))"
      by simp
    also have "\<dots> = [0, 0, 0, 0] @ leBytes (Suc (Suc 0)) (unat flag)"
      unfolding shift by (simp add: numeral_2_eq_2)
    also have "\<dots> = [0, 0, 0, 0, flag, 0]" using f by simp
    finally show ?thesis .
  qed
  ultimately show ?thesis by (simp add: netWrap_def wireBytes_def wireHeader_def)
qed

lemma demo_item:
  "goodItem 1001 demoHeap (netWrap 0 1001 [7])" "goodItem 1001 demoHeap (netWrap 0 1001 (replicate 20 7))"
  "goodItem 1001 demoHeap (netWrap 1 1001 demoBody)"
proof -
  show "goodItem 1001 demoHeap (netWrap 0 1001 [7])"
    unfolding goodItem_def by (rule exI [of _ 0], rule exI [of _ "[7]"]) simp
  show "goodItem 1001 demoHeap (netWrap 0 1001 (replicate 20 7))"
    unfolding goodItem_def by (rule exI [of _ 0], rule exI [of _ "replicate 20 7"]) simp
  have "attLenOf (netWrap 1 1001 demoBody) = 2" "attPtrOf (netWrap 1 1001 demoBody) = 9" "length demoBody = 40" by code_simp+
  then show "goodItem 1001 demoHeap (netWrap 1 1001 demoBody)"
    unfolding goodItem_def by (intro exI [of _ 1] exI [of _ demoBody] conjI) (simp_all add: demoHeap_def)
qed

lemma demo_ok:
  "eventOk demoStart 1001 demoHeap 5 (Publish 0 1001 [7])"
  "eventOk demoStart 1001 demoHeap 5 (Publish 0 1001 (replicate 20 7))"
  "eventOk demoStart 1001 demoHeap 5 (Publish 1 1001 demoBody)"
proof -
  have "teMaxMessageSize demoStart = 40" "VALUE_TYPE_SIZE0 (teBuffer demoStart) = 56" "length demoBody = 40"
    "length (netWrap 0 1001 [7]) = 12" "length (netWrap 0 1001 (replicate 20 7)) = 31" "length (netWrap 1 1001 demoBody) = 51"
    by code_simp+
  then show "eventOk demoStart 1001 demoHeap 5 (Publish 0 1001 [7])"
    "eventOk demoStart 1001 demoHeap 5 (Publish 0 1001 (replicate 20 7))"
    "eventOk demoStart 1001 demoHeap 5 (Publish 1 1001 demoBody)"
    by (simp_all add: eventOk_def demo_item)
qed

section \<open>Properties\<close>

text \<open>C10: whatever the connections take of each write, and however publications and rounds follow one
  another, the run goes through, and for every subscribed session still there the bytes that went out
  on its connection followed by those it is owed are the bytes of the published messages and their
  attachments, up to the engine's position, in order and each once. The messages are of one tag.\<close>

lemma tcp_stream_delivery:
  assumes "startedRun r t heap l i e evs"
  shows "\<exists>ms outs e'. runTcp evs e = Ret (ms, outs, e') \<and>
     (\<forall>s' \<in> set (svSessions (teServer e')). tssId s' = i \<longrightarrow>
        streamOf i outs @ owedIn heap e' s' = (if tagCheck (tssSubs s') t = 0 then [] else wireRange heap ms 0 (enginePos e')))"
  using started_run [OF assms] by blast

lemma tcp_stream_delivery_witness:
  "\<exists>ms outs e' s'. runTcp [Publish 0 1001 [7], Round (demoRound [Room 5])] demoStart = Ret (ms, outs, e') \<and>
     svSessions (teServer e') = [s'] \<and> streamOf 5 outs = take 5 (netWrap 0 1001 [7]) \<and>
     streamOf 5 outs @ owedIn demoHeap e' s' = wireRange demoHeap ms 0 (enginePos e')"
proof -
  let ?evs = "[Publish 0 1001 [7], Round (demoRound [Room 5])]"
  have "startedRun 1 1001 demoHeap [(5, demoTags)] 5 demoStart ?evs"
    by (rule demo_started) (simp_all add: demo_round_ok demo_ok limit0_def)
  note T = tcp_stream_delivery [OF this]
  have "case runTcp ?evs demoStart of Ret (ms, outs, e') \<Rightarrow> map tssId (svSessions (teServer e')) = [5] \<and>
      tagCheck (tssSubs (hd (svSessions (teServer e')))) 1001 \<noteq> 0 \<and> streamOf 5 outs = take 5 (netWrap 0 1001 [7]) | _ \<Rightarrow> False"
    by code_simp
  then show ?thesis using T by (auto split: outcome.splits)
qed



text \<open>A message without attachment that is longer than the MTU allows, although the publisher was
  let put it in, is never sent, and nothing behind it is: whatever the run, a connection carries at
  most the messages before it.\<close>

lemma tcp_oversized_stalls:
  assumes "startedRun r t heap l i e evs"
  shows "\<exists>ms outs e'. runTcp evs e = Ret (ms, outs, e') \<and>
     (\<forall>n < length ms. itemFlag (ms ! n) = 0 \<and> unat (teMtu e) < length (ms ! n) \<longrightarrow> enginePos e' \<le> n \<and>
        (\<forall>s' \<in> set (svSessions (teServer e')). tssId s' = i \<longrightarrow> (\<exists>x. streamOf i outs @ x = wireRange heap ms 0 n)))"
proof -
  obtain ms outs e' where R: "runTcp evs e = Ret (ms, outs, e')" "tcpInv r t heap ms e'" "teMtu e' = teMtu e"
    "\<forall>s' \<in> set (svSessions (teServer e')). tssId s' = i \<longrightarrow> (i, tssSubs s') \<in> set l \<and>
       streamOf i outs @ owedIn heap e' s' = (if tagCheck (tssSubs s') t = 0 then [] else wireRange heap ms 0 (enginePos e'))"
    using started_run [OF assms] by blast
  have "enginePos e' \<le> n \<and> (\<forall>s' \<in> set (svSessions (teServer e')). tssId s' = i \<longrightarrow> (\<exists>x. streamOf i outs @ x = wireRange heap ms 0 n))"
    if n: "itemFlag (ms ! n) = 0" "unat (teMtu e) < length (ms ! n)" for n
  proof -
    have pos: "enginePos e' \<le> n"
    proof (rule ccontr)
      assume "\<not> enginePos e' \<le> n"
      then have "fitsMtu (teMtu e') (ms ! n)" using tcpInvD(12) [OF R(2)] by simp
      then show False using n R(3) by (simp add: fitsMtu_def)
    qed
    have "\<exists>x. streamOf i outs @ x = wireRange heap ms 0 n" if s': "s' \<in> set (svSessions (teServer e'))" "tssId s' = i" for s'
    proof (cases "tagCheck (tssSubs s') t = 0")
      case True
      then show ?thesis using R(4) s' by auto
    next
      case False
      then have "streamOf i outs @ owedIn heap e' s' = wireRange heap ms 0 (enginePos e')" using R(4) s' by simp
      moreover have "wireRange heap ms 0 n = wireRange heap ms 0 (enginePos e') @ wireRange heap ms (enginePos e') n"
        by (rule wireRange_add) (use pos in simp_all)
      ultimately show ?thesis by (metis append.assoc)
    qed
    then show ?thesis using pos by blast
  qed
  then show ?thesis using R(1) by blast
qed

lemma tcp_oversized_stalls_witness:
  "\<exists>ms outs e'. runTcp [Publish 0 1001 (replicate 20 7), Publish 0 1001 [7], Round (demoRound [Room 100, Room 100])] demoStart =
       Ret (ms, outs, e') \<and> ms = [netWrap 0 1001 (replicate 20 7), netWrap 0 1001 [7]] \<and> enginePos e' = 0"
proof -
  let ?evs = "[Publish 0 1001 (replicate 20 7), Publish 0 1001 [7], Round (demoRound [Room 100, Room 100])]"
  have "startedRun 1 1001 demoHeap [(5, demoTags)] 5 demoStart ?evs"
    by (rule demo_started) (simp_all add: demo_round_ok demo_ok limit0_def)
  note T = tcp_oversized_stalls [OF this]
  have big: "itemFlag (netWrap 0 1001 (replicate 20 7)) = 0" "unat (teMtu demoStart) = 30"
    "length (netWrap 0 1001 (replicate 20 7)) = 31" by code_simp+
  have "case runTcp ?evs demoStart of Ret (ms, outs, e') \<Rightarrow> ms = [netWrap 0 1001 (replicate 20 7), netWrap 0 1001 [7]] | _ \<Rightarrow> False"
    by code_simp
  then show ?thesis using T big by (auto split: outcome.splits)
qed




text \<open>C29: with messages of two tags this fails. A batch that ends where the tag changes carries an end
  iterator past the first message of the next batch, so when the first is sent and the second is not,
  that message's slot is given back; a publisher writes over it, and the connection carries the new
  message twice and the old one never.\<close>

lemma tcp_tag_change_loses:
  "\<exists>outs e'. runTcp [Publish 0 1001 [1], Publish 0 1002 [2], Round (demoRound [Room 100, TryAgain]),
       Round (demoRound [TryAgain]), Publish 0 1002 [3], Publish 0 1002 [4], Round (demoRound [Room 100, Room 100])] demoStart =
     Ret ([netWrap 0 1001 [1], netWrap 0 1002 [2], netWrap 0 1002 [3], netWrap 0 1002 [4]], outs, e') \<and>
     streamOf 5 outs = netWrap 0 1001 [1] @ netWrap 0 1002 [4] @ netWrap 0 1002 [3] @ netWrap 0 1002 [4]"
proof -
  have "case runTcp [Publish 0 1001 [1], Publish 0 1002 [2], Round (demoRound [Room 100, TryAgain]),
       Round (demoRound [TryAgain]), Publish 0 1002 [3], Publish 0 1002 [4], Round (demoRound [Room 100, Room 100])] demoStart of
     Ret (ms, outs, e') \<Rightarrow> ms = [netWrap 0 1001 [1], netWrap 0 1002 [2], netWrap 0 1002 [3], netWrap 0 1002 [4]] \<and>
       streamOf 5 outs = netWrap 0 1001 [1] @ netWrap 0 1002 [4] @ netWrap 0 1002 [3] @ netWrap 0 1002 [4]
   | _ \<Rightarrow> False"
    by code_simp
  then show ?thesis by (auto split: outcome.splits)
qed

text \<open>\<^verbatim>\<open>queueJustBytes\<close> returns as if it had queued the message when the ring is full: nothing is
  stored, and an attachment is not released either.\<close>

lemma tcp_justBytes_lost:
  assumes "queue_inv r {} {} (teBuffer e)" "claimed0 (teBuffer e) = read0 (teBuffer e) + 2 ^ r" "\<not> unwanted e tag"
    "of_nat (length body) \<le> teMaxMessageSize e"
  shows "queueJustBytes tag body att e = Ret ([], e)"
proof -
  have "\<not> toBeClaimedSeq0 (teBuffer e) < CAPACITY0 (teBuffer e) + readSeq0 (teBuffer e)"
    using room0_iff(1) [OF assms(1)] assms(2) by simp
  then have "tryPutInPlace (teBuffer e) m = Ret (False, teBuffer e)" for m
    by (simp add: tryPutInPlace_def tryClaim0_def Let_def nullIterator_def)
  then show ?thesis using assms(3,4) by (simp add: queueJustBytes_def)
qed

lemma tcp_justBytes_lost_witness:
  "\<exists>ms outs e'. runTcp [Publish 0 1001 [7], Publish 0 1001 [7]] demoStart = Ret (ms, outs, e') \<and>
     queueJustBytes 1001 [8] (Some 9) e' = Ret ([], e')"
proof -
  let ?evs = "[Publish 0 1001 [7], Publish 0 1001 [7]]"
  have "startedRun 1 1001 demoHeap [(5, demoTags)] 5 demoStart ?evs"
    by (rule demo_started) (simp_all add: demo_ok limit0_def)
  then obtain ms outs e' where R: "runTcp ?evs demoStart = Ret (ms, outs, e')" "tcpInv 1 1001 demoHeap ms e'"
    using started_run by blast
  have "case runTcp ?evs demoStart of Ret (ms, outs, e') \<Rightarrow> claimed0 (teBuffer e') = read0 (teBuffer e') + 2 ^ 1 \<and>
      \<not> unwanted e' 1001 \<and> of_nat (length [8 :: 8 word]) \<le> teMaxMessageSize e' | _ \<Rightarrow> False"
    by code_simp
  note C = this [unfolded R(1) outcome.case prod.case]
  have full: "claimed0 (teBuffer e') = read0 (teBuffer e') + 2 ^ 1" "\<not> unwanted e' 1001"
    "of_nat (length [8 :: 8 word]) \<le> teMaxMessageSize e'" using C by blast+
  show ?thesis using R(1) tcp_justBytes_lost [OF tcpInvD(1) [OF R(2)] full] by blast
qed

end
