(* ===== verification/TcpRecvProperties.thy ===== *)
theory TcpRecvProperties
  imports TcpRecvSpec TcpProperties BackupText
begin

text \<open>
  The properties of the receiving end of the TCP transport, and of the two ends together: the
  stream of a sender's session parsed by a receiver, the receiver's subscriptions read by a session.
\<close>

section \<open>Calls one after another\<close>

text \<open>A session right after its connection was made and its subscriptions were sent.\<close>

definition recvStart :: "TypeTagSet \<Rightarrow> nat \<Rightarrow> nat \<Rightarrow> string \<Rightarrow> TcpRecvSession" where
  "recvStart subs bufSize maxItem told =
     (newTcpRecvSession subs bufSize maxItem)\<lparr>rvInit := True, rvOut := [GotSessionStarted], rvSentText := told\<rparr>"

lemma recvStart_initialized:
  "tcpInitializeConn (length (subscriptionsText subs)) (newTcpRecvSession subs bufSize maxItem) =
     recvStart subs bufSize maxItem (subscriptionsText subs)"
  by (simp add: recvStart_def tcpInitializeConn_def tcpSendSubscriptions_def tcpSendText_def Let_def putOut_def newTcpRecvSession_def)

definition receivable :: "(u64 \<Rightarrow> bytes) \<Rightarrow> TypeTagSet \<Rightarrow> nat \<Rightarrow> nat \<Rightarrow> bytes list \<Rightarrow> bool" where
  "receivable heap subs bufSize maxItem ms \<longleftrightarrow>
     (\<forall>m \<in> set ms. recvOk heap subs bufSize m) \<and> 48 \<le> maxItem \<and> 3 < bufSize"

lemma start_recvInv:
  assumes "receivable heap subs bufSize maxItem ms" "rest = concat (map (wireOf heap) ms)"
  shows "recvInv heap (recvStart subs bufSize maxItem told) rest ms"
    "rvOut (recvStart subs bufSize maxItem told) @ remaining heap (recvStart subs bufSize maxItem told) ms =
       GotSessionStarted # recvAll heap subs maxItem (replicate maxItem 0) ms"
    "rvInit (recvStart subs bufSize maxItem told)" "\<not> rvStopped (recvStart subs bufSize maxItem told)"
  using assms
  by (simp_all add: recvStart_def newTcpRecvSession_def recvInv_def receivable_def remaining_def)

lemma runTcpRecv_step:
  assumes "allocates alloc"
  shows "\<forall>w \<in> set ws. turnsOk (rwTurns w) \<Longrightarrow> rvInit s \<Longrightarrow> \<not> rvStopped s \<Longrightarrow> recvInv heap s (net @ fut) ms \<Longrightarrow>
    \<exists>net' s' ms'. runTcpRecv alloc ws net s = Ret (True, net', s') \<and> recvInv heap s' (net' @ fut) ms' \<and>
      recvStep heap ms ms' s s' \<and> (\<exists>got. net = got @ net')"
proof (induction ws arbitrary: net s ms)
  case Nil
  then show ?case by (auto intro: recvStep_refl)
next
  case (Cons w ws)
  obtain net1 s1 ms1 where L: "recvLoop alloc (rwTurns w) net s = Ret (True, net1, s1)" "callSpec heap fut net ms ms1 s net1 s1"
    using recvLoop_step [OF assms _ Cons.prems(4), of "rwTurns w"] Cons.prems(1) by auto
  then have c: "recvInv heap s1 (net1 @ fut) ms1" "recvStep heap ms ms1 s s1" "\<exists>got. net = got @ net1"
    by (simp_all add: callSpec_def)
  have "rvInit s1" "\<not> rvStopped s1" using c(2) Cons.prems(2,3) by (simp_all add: recvStep_def)
  then obtain net' s' ms' where R: "runTcpRecv alloc ws net1 s1 = Ret (True, net', s')" "recvInv heap s' (net' @ fut) ms'"
    "recvStep heap ms1 ms' s1 s'" "\<exists>got. net1 = got @ net'"
    using Cons.IH [OF _ _ _ c(1)] Cons.prems(1) by auto
  have "runTcpRecv alloc (w # ws) net s = Ret (True, net', s')"
    using L(1) R(1) Cons.prems(2,3) by (simp add: tcpRecvRunOnce_def)
  moreover have "\<exists>got. net = got @ net'" using c(3) R(4) by (metis append.assoc)
  ultimately show ?case using R(2) recvStep_trans [OF c(2) R(3)] by blast
qed

text \<open>Once everything has arrived, so many calls empty the buffer.\<close>

definition callsLeft :: "TcpRecvSession \<Rightarrow> bytes list \<Rightarrow> nat" where
  "callsLeft s ms = (if ms = [] then 0 else if rvFlag s = 1 then length ms else Suc (length ms))"

lemma callsLeft_less:
  assumes "ms1 = [] \<or> rvFlag s1 = 1 \<and> (rvFlag s = 1 \<longrightarrow> length ms1 < length ms)" "length ms1 \<le> length ms"
  shows "callsLeft s1 ms1 \<le> callsLeft s ms - 1"
  using assms by (auto simp: callsLeft_def)

lemma runTcpRecv_drains:
  assumes "allocates alloc"
  shows "\<forall>w \<in> set ws. turnsOk (rwTurns w) \<Longrightarrow> rvInit s \<Longrightarrow> \<not> rvStopped s \<Longrightarrow> recvInv heap s [] ms \<Longrightarrow>
    callsLeft s ms \<le> length ws \<Longrightarrow>
    \<exists>s'. runTcpRecv alloc ws [] s = Ret (True, [], s') \<and> recvInv heap s' [] [] \<and> recvStep heap ms [] s s'"
proof (induction ws arbitrary: s ms)
  case Nil
  then have "ms = []" by (simp add: callsLeft_def split: if_splits)
  then show ?case using Nil by simp
next
  case (Cons w ws)
  obtain net1 s1 ms1 where L: "recvLoop alloc (rwTurns w) [] s = Ret (True, net1, s1)" "callSpec heap [] [] ms ms1 s net1 s1"
    using recvLoop_step [OF assms, of "rwTurns w" heap s "[]" "[]" ms] Cons.prems(1,4) by auto
  then have c: "net1 = []" "recvInv heap s1 [] ms1" "recvStep heap ms ms1 s s1"
    "ms1 = [] \<or> rvFlag s1 = 1 \<and> (rvFlag s = 1 \<longrightarrow> length ms1 < length ms)"
    by (auto simp: callSpec_def)
  have s1: "rvInit s1" "\<not> rvStopped s1" "length ms1 \<le> length ms" using c(3) Cons.prems(2,3) by (simp_all add: recvStep_def)
  have "callsLeft s1 ms1 \<le> length ws"
    using callsLeft_less [OF c(4) s1(3)] Cons.prems(5) by simp
  then obtain s' where R: "runTcpRecv alloc ws [] s1 = Ret (True, [], s')" "recvInv heap s' [] []" "recvStep heap ms1 [] s1 s'"
    using Cons.IH [OF _ s1(1,2) c(2)] Cons.prems(1) by auto
  have "runTcpRecv alloc (w # ws) [] s = Ret (True, [], s')"
    using L(1) R(1) Cons.prems(2,3) by (simp add: tcpRecvRunOnce_def c(1))
  then show ?case using R(2) recvStep_trans [OF c(3) R(3)] by blast
qed

section \<open>Commands\<close>

lemma tcpCommands_line:
  assumes "TAB \<notin> set line"
  shows "tcpCommands (line @ TAB # rest) s out =
     obind (tcpCommand line rest s out) (\<lambda>(ok, s1, out1).
       if ok then tcpCommands rest s1 out1 else Ret (False, s1\<lparr>tssData := line @ TAB # rest\<rparr>, out1))"
  by (subst tcpCommands.simps) (simp add: first_line [OF assms])

lemma tcpCommands_open: "TAB \<notin> set buf \<Longrightarrow> tcpCommands buf s out = Ret (True, s\<lparr>tssData := buf\<rparr>, out)"
  by (subst tcpCommands.simps) simp

lemma tcp_subscribe:
  "tcpCommand (CHR ''+'' # showNat (unat tag)) rest s out =
     Ret (True, s\<lparr>tssSubs := snd (tagSet (tssSubs s) tag)\<rparr>, if fst (tagSet (tssSubs s) tag) then snd (tagAdd out tag) else out)"
  using showNat_nonempty [of "unat tag"]
  by (simp add: tcpCommand_def takeWhile_all digits_no_controls stoi_tag Let_def case_prod_beta)

lemma tcp_ready: "tcpCommand [CHR ''+''] rest s out = Ret (True, s\<lparr>tssReady := True\<rparr>, out)"
  by (simp add: tcpCommand_def)

text \<open>The first byte after a tab is looked at only when there is nothing before the tab.\<close>

lemma tcpCommand_rest: "line \<noteq> [] \<Longrightarrow> tcpCommand line rest s out = tcpCommand line rest' s out"
  by (cases line) (simp_all add: tcpCommand_def)

lemma obind_ext: "(\<And>x. f x = g x) \<Longrightarrow> obind m f = obind m g"
  by (rule arg_cong [of f g "obind m"]) (rule ext)

lemma tcpCommand_data:
  "tcpCommand line rest (s\<lparr>tssData := d\<rparr>) out =
     obind (tcpCommand line rest s out) (\<lambda>(ok, s1, out1). Ret (ok, s1\<lparr>tssData := d\<rparr>, out1))"
  by (auto simp: tcpCommand_def Let_def case_prod_beta obind_assoc split: list.splits intro!: obind_ext)

lemma tcpCommands_data: "tcpCommands buf (s\<lparr>tssData := d\<rparr>) out = tcpCommands buf s out"
proof (induction buf s out rule: tcpCommands.induct)
  case (1 buf s out)
  show ?case
  proof (cases "TAB \<in> set buf")
    case False
    then show ?thesis by (simp add: tcpCommands_open)
  next
    case True
    let ?line = "takeWhile (\<lambda>c. c \<noteq> TAB) buf" and ?rest = "tl (dropWhile (\<lambda>c. c \<noteq> TAB) buf)"
    have "tcpCommands ?rest (s1\<lparr>tssData := d\<rparr>) out1 = tcpCommands ?rest s1 out1" for s1 out1
      using "1.IH" [OF True refl refl TrueI] by blast
    then show ?thesis using True
      by (subst (1 2) tcpCommands.simps)
         (auto simp: Let_def tcpCommand_data obind_assoc case_prod_beta intro!: obind_ext)
  qed
qed

text \<open>No empty command: what is read does not depend on how the bytes come in pieces.\<close>

fun fullLines :: "bool \<Rightarrow> string \<Rightarrow> bool" where
  "fullLines some [] = True"
| "fullLines some (c # cs) = (if c = TAB then some \<and> fullLines False cs else fullLines True cs)"

lemma fullLines_line:
  assumes "TAB \<notin> set line"
  shows "fullLines some (line @ TAB # rest) \<longleftrightarrow> (some \<or> line \<noteq> []) \<and> fullLines False rest"
  using assms by (induction line arbitrary: some) auto

lemma tcpCommands_split:
  "fullLines False (a @ b) \<Longrightarrow> tcpCommands (a @ b) s out =
     obind (tcpCommands a s out) (\<lambda>(ok, s1, out1).
       if ok then tcpCommands (tssData s1 @ b) s1 out1 else Ret (False, s1\<lparr>tssData := tssData s1 @ b\<rparr>, out1))"
proof (induction a s out rule: tcpCommands.induct)
  case (1 a s out)
  show ?case
  proof (cases "TAB \<in> set a")
    case False
    then show ?thesis using tcpCommands_data [where buf = "a @ b" and s = s and d = a and out = out] by (simp add: tcpCommands_open)
  next
    case True
    then obtain line rest where a: "a = line @ TAB # rest" "TAB \<notin> set line"
      using split_list_first by metis
    have IH: "fullLines False (rest @ b) \<Longrightarrow> tcpCommands (rest @ b) s1 out1 =
        obind (tcpCommands rest s1 out1) (\<lambda>(ok, s1, out1).
          if ok then tcpCommands (tssData s1 @ b) s1 out1 else Ret (False, s1\<lparr>tssData := tssData s1 @ b\<rparr>, out1))" for s1 out1
      using "1.IH" [OF True refl refl TrueI] first_line [OF a(2), of rest] by (simp add: a(1))
    have ne: "line \<noteq> []" and "fullLines False (rest @ b)"
      using "1.prems" fullLines_line [OF a(2), of False "rest @ b"] by (simp_all add: a(1))
    note IH = IH [OF this(2)]
    show ?thesis
      using tcpCommands_line [OF a(2), of "rest @ b" s out] tcpCommands_line [OF a(2), of rest s out]
        tcpCommand_rest [OF ne, where rest = "rest @ b" and rest' = rest and s = s and out = out]
      by (auto simp: a(1) IH obind_assoc case_prod_beta intro!: obind_ext)
  qed
qed

text \<open>What is kept is an unfinished line.\<close>

lemma tcpCommands_open_line:
  "tcpCommands a s out = Ret (True, s', out') \<Longrightarrow> fullLines False (a @ b) \<Longrightarrow>
     TAB \<notin> set (tssData s') \<and> fullLines False (tssData s' @ b)"
proof (induction a s out rule: tcpCommands.induct)
  case (1 a s out)
  show ?case
  proof (cases "TAB \<in> set a")
    case False
    then show ?thesis using "1.prems" by (auto simp: tcpCommands_open)
  next
    case True
    then obtain line rest where a: "a = line @ TAB # rest" "TAB \<notin> set line"
      using split_list_first by metis
    have IH: "tcpCommands rest s1 out1 = Ret (True, s', out') \<Longrightarrow> fullLines False (rest @ b) \<Longrightarrow>
        TAB \<notin> set (tssData s') \<and> fullLines False (tssData s' @ b)" for s1 out1
      using "1.IH" [OF True refl refl TrueI] first_line [OF a(2), of rest] by (simp add: a(1))
    have "fullLines False (rest @ b)"
      using "1.prems"(2) fullLines_line [OF a(2), of False "rest @ b"] by (simp add: a(1))
    moreover obtain s1 out1 where "tcpCommands rest s1 out1 = Ret (True, s', out')"
      using "1.prems"(1) tcpCommands_line [OF a(2), of rest s out] by (auto simp: a(1) obind_Ret_iff split: if_splits)
    ultimately show ?thesis using IH by blast
  qed
qed

text \<open>Pieces of text read in one call each.\<close>

fun readPieces :: "string list \<Rightarrow> SendSession \<Rightarrow> TypeTagSet \<Rightarrow> (bool \<times> SendSession \<times> TypeTagSet) outcome" where
  "readPieces [] s out = Ret (True, s, out)"
| "readPieces (p # ps) s out =
     obind (tcpDoRead (Received p) s out) (\<lambda>(ok, s1, out1). if ok then readPieces ps s1 out1 else Ret (False, s1, out1))"

lemma tcp_subscriptions:
  "tcpCommands (concat (map (\<lambda>(tag, c). CHR ''+'' # showNat (unat tag) @ [TAB]) l) @ rest) s out =
     tcpCommands rest
       (s\<lparr>tssSubs := fold (\<lambda>(tag, c) t. snd (tagSet t tag)) l (tssSubs s)\<rparr>)
       (fst (fold (\<lambda>(tag, c) (o', t). (if fst (tagSet t tag) then snd (tagAdd o' tag) else o', snd (tagSet t tag)))
          l (out, tssSubs s)))"
proof (induction l arbitrary: s out)
  case (Cons p l)
  obtain tag c where p: "p = (tag, c)" by force
  have "TAB \<notin> set (CHR ''+'' # showNat (unat tag))" by (auto simp: digits_no_controls)
  from tcpCommands_line [OF this] show ?case
    by (simp add: p tcp_subscribe Cons.IH)
qed simp

lemma readPieces_whole:
  "tcpCommands (tssData s @ concat ps) s out = Ret (True, s', out') \<Longrightarrow> fullLines False (tssData s @ concat ps) \<Longrightarrow>
     TAB \<notin> set (tssData s) \<Longrightarrow> readPieces ps s out = Ret (True, s', out')"
proof (induction ps arbitrary: s out)
  case Nil
  then show ?case by (simp add: tcpCommands_open)
next
  case (Cons p ps)
  have "obind (tcpCommands (tssData s @ p) s out) (\<lambda>(ok, s1, out1).
      if ok then tcpCommands (tssData s1 @ concat ps) s1 out1
      else Ret (False, s1\<lparr>tssData := tssData s1 @ concat ps\<rparr>, out1)) = Ret (True, s', out')"
    using tcpCommands_split [of "tssData s @ p" "concat ps" s out] Cons.prems(1,2) by simp
  then obtain s1 out1 where R: "tcpCommands (tssData s @ p) s out = Ret (True, s1, out1)"
    "tcpCommands (tssData s1 @ concat ps) s1 out1 = Ret (True, s', out')"
    by (auto simp: obind_Ret_iff split: if_splits)
  have "TAB \<notin> set (tssData s1) \<and> fullLines False (tssData s1 @ concat ps)"
    using tcpCommands_open_line [OF R(1), of "concat ps"] Cons.prems(2) by simp
  then show ?case using Cons.IH [OF R(2)] by (simp add: tcpDoRead_def R(1))
qed

lemma subscriptions_lines: "fullLines False (subscriptionsText t)"
proof -
  have "fullLines False (concat (map (\<lambda>(tag, c). CHR ''+'' # showNat (unat tag) @ [TAB]) l) @ [CHR ''+'', TAB])"
    for l :: "(u16 \<times> u8) list"
  proof (induction l)
    case (Cons p l)
    obtain tag c where p: "p = (tag, c)" by force
    have "TAB \<notin> set (CHR ''+'' # showNat (unat tag))" by (auto simp: digits_no_controls)
    from fullLines_line [OF this, of False] Cons show ?case by (simp add: p)
  qed (simp add: TAB_def)
  then show ?thesis by (simp add: subscriptionsText_def)
qed

section \<open>Properties\<close>

text \<open>An example: two messages, the first with an attachment.\<close>

definition demoWorld :: "RecvTurn list \<Rightarrow> RecvWorld" where
  "demoWorld ts = \<lparr>rwWritable = True, rwPeerKnown = True, rwTaken = 2, rwTurns = ts\<rparr>"

definition demoAlloc :: "u16 \<Rightarrow> nat \<Rightarrow> bytes option" where
  "demoAlloc = DefaultAttachmentAllocator (\<lambda>n. Some (replicate n 0))"

definition demoSent :: "bytes list" where
  "demoSent = [netWrap 1 1001 demoBody, netWrap 0 1001 [7]]"

lemma demo_alloc: "allocates demoAlloc"
  by (simp add: allocates_def demoAlloc_def DefaultAttachmentAllocator_def)

lemma demo_receivable: "receivable demoHeap demoTags 60 48 demoSent"
proof -
  have "tagCheck demoTags 1001 \<noteq> 0" "length (netWrap 1 1001 demoBody) = 51" "length (netWrap 0 1001 [7]) = 12" by code_simp+
  moreover have "itemTypeTag (netWrap 1 1001 demoBody) = 1001" "itemTypeTag (netWrap 0 1001 [7]) = 1001"
    using goodItem_parts(6) [OF demo_item(3), of "[]"] goodItem_parts(6) [OF demo_item(1), of "[]"] by simp_all
  ultimately show ?thesis using demo_item by (simp add: receivable_def recvOk_def demoSent_def)
qed

text \<open>However the subscriptions a receiver sends come in pieces, when a session of the sender has
  read them it is ready and knows exactly the receiver's tags.\<close>

lemma tcp_subscriptions_roundtrip:
  assumes "concat ps = subscriptionsText t"
  shows "\<exists>s' out'. readPieces ps (newSendSession fd) out = Ret (True, s', out') \<and> tssReady s' \<and>
     (\<forall>tag. (subCounts (tssSubs s') tag \<noteq> 0) = (tagCheck t tag \<noteq> 0))"
proof -
  let ?s = "newSendSession fd"
  let ?subs = "fold (\<lambda>(tag, c) t. snd (tagSet t tag)) (exportTags t) newTypeTagSet"
  have nil: "tssData ?s = []" "tssSubs ?s = newTypeTagSet" by (simp_all add: newSendSession_def)
  obtain out' where o: "tcpCommands (subscriptionsText t) ?s out = tcpCommands [CHR ''+'', TAB] (?s\<lparr>tssSubs := ?subs\<rparr>) out'"
    using tcp_subscriptions [of "exportTags t" "[CHR ''+'', TAB]" ?s out] by (simp add: subscriptionsText_def nil)
  have "tcpCommands [CHR ''+'', TAB] (?s\<lparr>tssSubs := ?subs\<rparr>) out' =
      Ret (True, ?s\<lparr>tssSubs := ?subs, tssReady := True, tssData := []\<rparr>, out')"
    using tcpCommands_line [of "[CHR ''+'']" "[]" "?s\<lparr>tssSubs := ?subs\<rparr>" out']
    by (simp add: tcp_ready tcpCommands_open)
  with o have r: "tcpCommands (tssData ?s @ concat ps) ?s out = Ret (True, ?s\<lparr>tssSubs := ?subs, tssReady := True, tssData := []\<rparr>, out')"
    by (simp add: nil assms)
  have "readPieces ps ?s out = Ret (True, ?s\<lparr>tssSubs := ?subs, tssReady := True, tssData := []\<rparr>, out')"
    by (rule readPieces_whole [OF r]) (simp_all add: nil assms subscriptions_lines)
  moreover have "subCounts ?subs tag \<noteq> 0 \<longleftrightarrow> tagCheck t tag \<noteq> 0" for tag
    using fold_tagSet [of "exportTags t" newTypeTagSet tag] exported_tags(2) [of t] by (simp add: newTypeTagSet_def)
  ultimately show ?thesis by simp
qed

lemma tcp_subscriptions_roundtrip_witness:
  "\<exists>s' out'. readPieces [take 3 (subscriptionsText demoTags), drop 3 (subscriptionsText demoTags)] (newSendSession 5) newTypeTagSet =
       Ret (True, s', out') \<and> tssReady s' \<and> subCounts (tssSubs s') 1001 \<noteq> 0 \<and> subCounts (tssSubs s') 1003 = 0"
proof -
  have "concat [take 3 (subscriptionsText demoTags), drop 3 (subscriptionsText demoTags)] = subscriptionsText demoTags" by simp
  from tcp_subscriptions_roundtrip [OF this, of 5 newTypeTagSet] obtain s' out' where
    "readPieces [take 3 (subscriptionsText demoTags), drop 3 (subscriptionsText demoTags)] (newSendSession 5) newTypeTagSet =
       Ret (True, s', out')" "tssReady s'" "\<forall>tag. (subCounts (tssSubs s') tag \<noteq> 0) = (tagCheck demoTags tag \<noteq> 0)"
    by blast
  moreover have "tagCheck demoTags 1001 \<noteq> 0" "tagCheck demoTags 1003 = 0" by code_simp+
  ultimately show ?thesis by blast
qed



text \<open>C22: when all bytes of a stream of messages have been read from the connection, so many more calls
  as there are messages and one put out everything.\<close>

lemma tcp_recv_all:
  assumes "allocates alloc" "receivable heap subs bufSize maxItem ms" "net = concat (map (wireOf heap) ms)"
    "\<forall>w \<in> set (ws @ ws'). turnsOk (rwTurns w)" "length ms < length ws'"
    "runTcpRecv alloc ws net (recvStart subs bufSize maxItem told) = Ret (True, [], s1)"
  shows "\<exists>s'. runTcpRecv alloc ws' [] s1 = Ret (True, [], s') \<and>
     rvOut s' = GotSessionStarted # recvAll heap subs maxItem (replicate maxItem 0) ms"
proof -
  have net: "net @ [] = concat (map (wireOf heap) ms)" and ws: "\<forall>w \<in> set ws. turnsOk (rwTurns w)" "\<forall>w \<in> set ws'. turnsOk (rwTurns w)"
    using assms(3,4) by auto
  note S = start_recvInv [OF assms(2) net, where told = told]
  obtain ms' where R: "recvInv heap s1 [] ms'" "recvStep heap ms ms' (recvStart subs bufSize maxItem told) s1"
    using runTcpRecv_step [OF assms(1) ws(1) S(3,4,1)] assms(6) by auto
  have s1: "rvInit s1" "\<not> rvStopped s1" "length ms' \<le> length ms" using R(2) S(3,4) by (simp_all add: recvStep_def)
  have "callsLeft s1 ms' \<le> length ws'" using s1(3) assms(5) by (simp add: callsLeft_def)
  then obtain s' where D: "runTcpRecv alloc ws' [] s1 = Ret (True, [], s')" "recvInv heap s' [] []" "recvStep heap ms' [] s1 s'"
    using runTcpRecv_drains [OF assms(1) ws(2) s1(1,2) R(1)] by blast
  have "rvFlag s' = 0" using D(2) by (auto simp: recvInv_def attUnderWay_def split: if_splits)
  then have "remaining heap s' [] = []" by (simp add: remaining_def)
  then show ?thesis using D(1,3) R(2) S(2) by (simp add: recvStep_def)
qed

lemma tcp_recv_all_witness:
  "\<exists>s1 s'. runTcpRecv demoAlloc [demoWorld [Arrives 60, Arrives 60]] (concat (map (wireOf demoHeap) demoSent))
       (recvStart demoTags 60 48 []) = Ret (True, [], s1) \<and>
     runTcpRecv demoAlloc (replicate 3 (demoWorld [])) [] s1 = Ret (True, [], s') \<and>
     rvOut s' = GotSessionStarted # recvAll demoHeap demoTags 48 (replicate 48 0) demoSent"
proof -
  let ?ws = "[demoWorld [Arrives 60, Arrives 60]]" and ?net = "concat (map (wireOf demoHeap) demoSent)"
  have ok: "\<forall>w \<in> set (?ws @ replicate 3 (demoWorld [])). turnsOk (rwTurns w)" by (auto simp: demoWorld_def turnsOk_def)
  have "case runTcpRecv demoAlloc ?ws ?net (recvStart demoTags 60 48 []) of Ret (ok, net', s') \<Rightarrow> ok \<and> net' = [] | _ \<Rightarrow> False"
    by code_simp
  then obtain s1 where s1: "runTcpRecv demoAlloc ?ws ?net (recvStart demoTags 60 48 []) = Ret (True, [], s1)"
    by (cases "runTcpRecv demoAlloc ?ws ?net (recvStart demoTags 60 48 [])") (auto simp del: runTcpRecv.simps)
  have "length demoSent < length (replicate 3 (demoWorld []))" by (simp add: demoSent_def)
  from tcp_recv_all [OF demo_alloc demo_receivable refl ok this s1] s1 show ?thesis by blast
qed

text \<open>A message that does not fit in the receive buffer.\<close>

definition tooLong :: "TcpRecvSession \<Rightarrow> bytes \<Rightarrow> bytes \<Rightarrow> bytes \<Rightarrow> bool" where
  "tooLong s net m x \<longleftrightarrow> rvFlag s = 0 \<and> rvFilled s @ net = m @ x \<and> itemWireSize m = length m \<and> 3 \<le> length m \<and>
     rvBufSize s < length m \<and> length (rvFilled s) \<le> rvBufSize s"

lemma tooLong_pass:
  assumes "tooLong s net m x"
  shows "attPart s = Ret s" "headLoop alloc s = Ret s"
proof -
  show "attPart s = Ret s" using assms by (simp add: attPart_def tooLong_def)
  have "itemWireSize (rvFilled s) = length m" if "3 \<le> length (rvFilled s)"
    using front_size [OF that, of net] front_size [of m x] assms by (simp add: tooLong_def)
  then have "\<not> (3 \<le> length (rvFilled s) \<and> itemWireSize (rvFilled s) \<le> length (rvFilled s))"
    using assms by (auto simp: tooLong_def)
  then show "headLoop alloc s = Ret s" by (subst headLoop.simps) (auto simp: Let_def)
qed

lemma tooLong_loop:
  "tooLong s net m x \<Longrightarrow> \<exists>ok net' s'. recvLoop alloc ts net s = Ret (ok, net', s') \<and> rvOut s' = rvOut s"
proof (induction ts arbitrary: s net)
  case Nil
  then show ?case by (auto simp: recvLoop.simps tooLong_pass)
next
  case (Cons t ts)
  note pass = tooLong_pass [OF Cons.prems]
  show ?case
  proof (cases t)
    case (Arrives n)
    let ?j = "min n (rvBufSize s - length (rvFilled s))"
    have "tooLong (s\<lparr>rvFilled := rvFilled s @ take ?j net\<rparr>) (drop ?j net) m x"
      using Cons.prems by (auto simp: tooLong_def)
    from Cons.IH [OF this] Cons.IH [OF Cons.prems] show ?thesis
      by (subst recvLoop.simps) (auto simp: pass Arrives Let_def)
  qed (use Cons.IH [OF Cons.prems] in \<open>auto simp: recvLoop.simps pass\<close>)
qed

text \<open>A message longer than the receive buffer is never put out, and nothing behind it: the buffer
  fills up with its beginning, then \<^verbatim>\<open>recv\<close> is asked for no bytes and its answer is taken for the end
  of the stream.\<close>

lemma tcp_recv_oversized:
  assumes "tooLong s net m x"
  shows "(\<exists>ok net' s'. recvLoop alloc ts net s = Ret (ok, net', s') \<and> rvOut s' = rvOut s) \<and>
    (length (rvFilled s) = rvBufSize s \<longrightarrow> recvLoop alloc (Arrives n # ts) net s = Ret (False, net, s))"
  using tooLong_loop [OF assms] tooLong_pass [OF assms] by (simp add: recvLoop.simps Let_def)

lemma tcp_recv_oversized_witness:
  "recvLoop (\<lambda>tag n. None) [Arrives 1] (drop 20 (netWrap 0 1001 (replicate 20 7)))
     ((newTcpRecvSession demoTags 20 48)\<lparr>rvFilled := take 20 (netWrap 0 1001 (replicate 20 7))\<rparr>) =
   Ret (False, drop 20 (netWrap 0 1001 (replicate 20 7)),
     (newTcpRecvSession demoTags 20 48)\<lparr>rvFilled := take 20 (netWrap 0 1001 (replicate 20 7))\<rparr>)"
proof -
  let ?m = "netWrap 0 1001 (replicate 20 7)"
  have m: "length ?m = 31" "itemWireSize ?m = 31" by code_simp+
  have "tooLong ((newTcpRecvSession demoTags 20 48)\<lparr>rvFilled := take 20 ?m\<rparr>) (drop 20 ?m) ?m []"
    using m by (simp add: tooLong_def newTcpRecvSession_def)
  from tcp_recv_oversized [OF this] show ?thesis using m by (simp add: newTcpRecvSession_def)
qed





text \<open>The body of a message with an attachment of twelve bytes, as long as a message with one byte is.\<close>

definition demoForged :: bytes where
  "demoForged = leBytes 8 1 @ leBytes 8 9 @ leBytes 8 12 @ replicate 16 0"

text \<open>C34: when the allocator has no memory, the message is put out without its attachment, and the
  attachment's bytes are parsed as messages: one of them that looks like a message is put out as one.\<close>

lemma tcp_recv_alloc_desync:
  "\<exists>s'. runTcpRecv (DefaultAttachmentAllocator (\<lambda>n. None)) [demoWorld [Arrives 100], demoWorld []]
       (netWrap 1 1001 demoForged @ netWrap 0 1001 [66]) (recvStart demoTags 100 48 []) = Ret (True, [], s') \<and>
     rvOut s' = [GotSessionStarted, GotWithAttachment (drop 3 (netWrap 1 1001 demoForged)) None,
       GotMessage (drop 3 (netWrap 0 1001 [66]))]"
proof -
  let ?run = "runTcpRecv (DefaultAttachmentAllocator (\<lambda>n. None)) [demoWorld [Arrives 100], demoWorld []]
       (netWrap 1 1001 demoForged @ netWrap 0 1001 [66]) (recvStart demoTags 100 48 [])"
  have "case ?run of
     Ret (ok, net', s') \<Rightarrow> ok \<and> net' = [] \<and> rvOut s' = [GotSessionStarted,
       GotWithAttachment (drop 3 (netWrap 1 1001 demoForged)) None, GotMessage (drop 3 (netWrap 0 1001 [66]))]
   | _ \<Rightarrow> False"
    by code_simp
  then show ?thesis by (cases ?run) (auto simp del: runTcpRecv.simps)
qed

end
