(* ===== verification/UdpSend.thy ===== *)
theory UdpSend
  imports TcpEngine
begin

text \<open>
  \<^verbatim>\<open>hmbdc/tips/udpcast/SendTransportEngine.hpp\<close> and \<^verbatim>\<open>Messages.hpp\<close>: the sending end of the UDP
  transport. Publishers put messages into a ring; the engine packs pointers to them into datagrams
  and sends these to every destination, once. A slot is given back when the engine asks for more
  messages, not when it has sent it. The socket and the clock are the environment.
\<close>

section \<open>Messages\<close>

text \<open>
  \<^verbatim>\<open>TransportMessageHeader\<close> has no members: it is one byte that nobody writes. The length of what
  follows is kept in the first two bytes of the message head's scratchpad, the flag in its fifth.
\<close>

definition udpWrap :: "u8 \<Rightarrow> u8 \<Rightarrow> u16 \<Rightarrow> bytes \<Rightarrow> bytes" where
  "udpWrap junk flag tag body =
     junk # leBytes 2 (8 + length body) @ [0, 0, flag, 0] @ leBytes 2 (unat tag) @ body"

definition messagePayloadLen :: "bytes \<Rightarrow> nat" where "messagePayloadLen d = leVal (take 2 (drop 1 d))"
definition udpWireSize :: "bytes \<Rightarrow> nat" where "udpWireSize d = 1 + messagePayloadLen d"
definition udpTypeTag :: "bytes \<Rightarrow> u16" where "udpTypeTag d = of_nat (leVal (take 2 (drop 7 d)))"

section \<open>State\<close>

text \<open>
  \<open>usMsgs\<close> are the pointers in \<^verbatim>\<open>toSendMsgs_\<close> up to its tail, \<open>usHead\<close> its head; a packet is a range of
  them, its start and its length. \<open>usNames\<close> are the addresses in the packets' headers, as positions
  in the vector of destinations; \<open>None\<close> points into memory the vector no longer has.
  \<^verbatim>\<open>toSendPktsHead_\<close> is always 0.
\<close>

record UdpSend =
  usMaxMessageSize :: nat
  usBegin :: lf_iterator
  usIt :: lf_iterator
  usEnd :: lf_iterator
  usBuffer :: MemRingBuffer0
  usRater :: Rater
  usMaxSendBatch :: u64
  usMtu :: u64
  usMsgs :: "iovec list"
  usHead :: nat
  usPkts :: "(nat \<times> nat) list"
  usNames :: "nat option list"
  usDests :: "nat list"

text \<open>The constructor; \<open>mtu\<close> is the configured one, less 28 bytes for the headers.\<close>

definition newUdpSend :: "nat \<Rightarrow> MemRingBuffer0 \<Rightarrow> Rater \<Rightarrow> u64 \<Rightarrow> u64 \<Rightarrow> nat list \<Rightarrow> UdpSend outcome" where
  "newUdpSend maxSize b rt batch mtu dests =
     (if unat (mtu - (8 + 20)) < maxSize + (8 + 1) then Throw OutOfRange
      else if dests = [] then Throw OutOfRange
      else Ret \<lparr>usMaxMessageSize = maxSize, usBegin = nullIterator, usIt = nullIterator, usEnd = nullIterator,
                usBuffer = b, usRater = rt, usMaxSendBatch = batch, usMtu = mtu - (8 + 20), usMsgs = [], usHead = 0,
                usPkts = [], usNames = replicate (unat batch) (Some 0), usDests = dests\<rparr>)"

section \<open>Destinations\<close>

text \<open>\<open>moved\<close>: the vector had to move to larger memory.\<close>

definition addDest :: "bool \<Rightarrow> nat \<Rightarrow> UdpSend \<Rightarrow> UdpSend" where
  "addDest moved d s =
     (if d \<in> set (usDests s) then s
      else s\<lparr>usDests := usDests s @ [d], usNames := (if moved then map (\<lambda>x. None) (usNames s) else usNames s)\<rparr>)"

text \<open>\<^verbatim>\<open>std::remove\<close> moves what stays to the front and leaves the vector as long as it was.\<close>

definition stdRemove :: "'a \<Rightarrow> 'a list \<Rightarrow> 'a list" where
  "stdRemove x xs = (let ys = filter (\<lambda>y. y \<noteq> x) xs in ys @ drop (length ys) xs)"

definition eraseDest :: "nat \<Rightarrow> UdpSend \<Rightarrow> UdpSend" where
  "eraseDest d s = s\<lparr>usDests := stdRemove d (usDests s)\<rparr>"

section \<open>Publishers\<close>

datatype UdpAnswer = Queued | NoRoom | TooBig

text \<open>
  The slot is claimed before the size is looked at; \<open>TooBig\<close> is the exception, after which nothing
  commits the slot.
\<close>

definition slotJunk :: "lf_iterator \<Rightarrow> MemRingBuffer0 \<Rightarrow> u8" where
  "slotJunk it b = hd (slotData (space (buffer0 b) ! unat (seq it AND chunkMASK (buffer0 b))))"

definition udpPlace :: "u8 \<Rightarrow> u16 \<Rightarrow> bytes \<Rightarrow> lf_iterator \<Rightarrow> UdpSend \<Rightarrow> (UdpAnswer \<times> UdpSend) outcome" where
  "udpPlace flag tag body it s =
     (if length body \<le> usMaxMessageSize s
      then obind (constructAt (usBuffer s) it (udpWrap (slotJunk it (usBuffer s)) flag tag body))
             (\<lambda>b. Ret (Queued, s\<lparr>usBuffer := commitN0 b it 1\<rparr>))
      else Ret (TooBig, s))"

definition udpQueue :: "u8 \<Rightarrow> u16 \<Rightarrow> bytes \<Rightarrow> UdpSend \<Rightarrow> (UdpAnswer \<times> UdpSend) outcome" where
  "udpQueue flag tag body s =
     obind (claimN0 (usBuffer s) 1) (\<lambda>(it, b). udpPlace flag tag body it (s\<lparr>usBuffer := b\<rparr>))"

definition udpTryQueue :: "u8 \<Rightarrow> u16 \<Rightarrow> bytes \<Rightarrow> UdpSend \<Rightarrow> (UdpAnswer \<times> UdpSend) outcome" where
  "udpTryQueue flag tag body s =
     (case tryClaimN0 (usBuffer s) 1 of (it, b) \<Rightarrow>
        if start it then udpPlace flag tag body it (s\<lparr>usBuffer := b\<rparr>) else Ret (NoRoom, s\<lparr>usBuffer := b\<rparr>))"

section \<open>\<^verbatim>\<open>resumeSend\<close>\<close>

text \<open>When all messages handed out are packed, their slots are given back and more are asked for.\<close>

definition udpRefill :: "UdpSend \<Rightarrow> UdpSend" where
  "udpRefill s =
     (if iterEq (usIt s) (usEnd s)
      then case peek0 (wasteAfterPeek0 (usBuffer s) (usBegin s) (iterMinus (usEnd s) (usBegin s)) False) (usMaxSendBatch s) of
             ((it, e, n), b) \<Rightarrow> s\<lparr>usBuffer := b, usIt := it, usEnd := e, usBegin := it\<rparr>
      else s)"

definition closePacket :: "UdpSend \<Rightarrow> UdpSend outcome" where
  "closePacket s =
     (if length (usPkts s) < unat (usMaxSendBatch s)
      then Ret (s\<lparr>usPkts := usPkts s @ [(usHead s, length (usMsgs s) - usHead s)], usHead := length (usMsgs s)\<rparr>)
      else Undefined)"

text \<open>The loop that makes packets; \<open>pb\<close> is \<^verbatim>\<open>packetBytes\<close>.\<close>

function udpPack :: "(nat \<Rightarrow> SysTime) \<Rightarrow> u64 \<Rightarrow> UdpSend \<Rightarrow> (bool \<times> u64 \<times> UdpSend) outcome" where
  "udpPack clock pb s =
     (if iterEq (usIt s) (usEnd s) \<or> unat (usMaxSendBatch s) \<le> length (usMsgs s) then Ret (True, pb, s)
      else let c = buffer0 (usBuffer s); i = seq (usIt s) AND chunkMASK c;
               w = udpWireSize (slotData (space c ! unat i)); v = \<lparr>iov_base = InSlot i 0, iov_len = w\<rparr>
           in obind (checkRater (clock (unat (iterMinus (usEnd s) (usIt s)))) w (usRater s)) (\<lambda>(ok, rt).
                let s1 = s\<lparr>usRater := rt\<rparr>; over = usMtu s < pb + of_nat w
                in if \<not> ok then Ret (False, pb, s1)
                   else obind (if over then closePacket s1 else Ret s1) (\<lambda>s2.
                          obind (commitRater rt) (\<lambda>rt'.
                            udpPack clock (if over then of_nat w else pb + of_nat w)
                              (s\<lparr>usPkts := usPkts s2, usHead := usHead s2, usMsgs := usMsgs s @ [v], usRater := rt',
                                 usIt := iterInc (usIt s)\<rparr>)))))"
  by auto
termination
proof (relation "measure (\<lambda>(clock, pb, s). unat (iterMinus (usEnd s) (usIt s)))")
  fix s :: UdpSend
  assume "\<not> (iterEq (usIt s) (usEnd s) \<or> unat (usMaxSendBatch s) \<le> length (usMsgs s))"
  then have "seq (usEnd s) - seq (usIt s) \<noteq> 0" by (auto simp: iterEq_def)
  then have *: "unat (seq (usEnd s) - (seq (usIt s) + 1)) < unat (seq (usEnd s) - seq (usIt s))"
    using unat_minus_one [of "seq (usEnd s) - seq (usIt s)"] by (simp add: diff_diff_eq unat_gt_0)
  fix clock :: "nat \<Rightarrow> SysTime" and pb x y and s2 :: UdpSend and vs and rt'
  show "((clock, y, s\<lparr>usPkts := usPkts s2, usHead := usHead s2, usMsgs := vs, usRater := rt', usIt := iterInc (usIt s)\<rparr>), clock, pb, s)
      \<in> measure (\<lambda>(clock, pb, s). unat (iterMinus (usEnd s) (usIt s)))"
    using * by (simp add: iterMinus_def iterInc_def)
qed simp

declare udpPack.simps [simp del]

definition udpMake :: "(nat \<Rightarrow> SysTime) \<Rightarrow> UdpSend \<Rightarrow> (bool \<times> UdpSend) outcome" where
  "udpMake clock s =
     obind (udpPack clock 0 s) (\<lambda>(rateOk, pb, s1).
       obind (if pb \<noteq> 0 then closePacket s1 else Ret s1) (\<lambda>s2. Ret (rateOk, s2)))"

text \<open>
  What \<^verbatim>\<open>sendmmsg\<close> does for a destination: it takes so many packets, or none, or fails for another
  reason than a full socket. Then the destination is erased, which invalidates the iterator the
  loop goes on with.
\<close>

datatype MmsgResult = Takes nat | Blocks | Unreachable

definition datagram :: "UdpSend \<Rightarrow> nat \<times> nat \<Rightarrow> bytes" where
  "datagram s p = concat (map (readVec (buffer0 (usBuffer s)) (\<lambda>a. [])) (take (snd p) (drop (fst p) (usMsgs s))))"

definition udpSendTo :: "MmsgResult \<Rightarrow> nat \<Rightarrow> UdpSend \<Rightarrow> ((nat \<times> bytes) list \<times> UdpSend) outcome" where
  "udpSendTo res k s =
     (let n = length (usPkts s);
          names = (if usNames s ! 0 \<noteq> Some k then replicate n (Some k) @ drop n (usNames s) else usNames s);
          s1 = s\<lparr>usNames := names\<rparr>
      in case res of
           Takes m \<Rightarrow>
             if None \<in> set (take n names) then Undefined
             else Ret (map (\<lambda>j. (usDests s ! the (names ! j), datagram s (usPkts s ! j))) [0..<min m n], s1)
         | Blocks \<Rightarrow> Ret ([], s1)
         | Unreachable \<Rightarrow> Undefined)"

fun udpSendAll :: "(nat \<Rightarrow> MmsgResult) \<Rightarrow> nat list \<Rightarrow> UdpSend \<Rightarrow> ((nat \<times> bytes) list \<times> UdpSend) outcome" where
  "udpSendAll res [] s = Ret ([], s)"
| "udpSendAll res (k # ks) s =
     obind (udpSendTo (res k) k s) (\<lambda>(out, s1). obind (udpSendAll res ks s1) (\<lambda>(out', s2). Ret (out @ out', s2)))"

text \<open>The rest of an iteration after the refill. The answer is whether the loop goes on.\<close>

definition udpRest ::
    "bool \<Rightarrow> (nat \<Rightarrow> SysTime) \<Rightarrow> (nat \<Rightarrow> MmsgResult) \<Rightarrow> UdpSend \<Rightarrow> (bool \<times> (nat \<times> bytes) list \<times> UdpSend) outcome" where
  "udpRest rdy clock res s =
     obind (udpMake clock s) (\<lambda>(rateOk, s1).
       if usPkts s1 \<noteq> [] \<and> rdy
       then obind (udpSendAll res [0..<length (usDests s1)] s1) (\<lambda>(out, s2).
              Ret (rateOk, out, s2\<lparr>usPkts := [], usMsgs := [], usHead := 0\<rparr>))
       else Ret (False, [], s1))"

text \<open>
  The call; the clock and \<^verbatim>\<open>sendmmsg\<close> may answer differently in each iteration. A socket once ready
  stays so: only an error on reading takes that back.
\<close>

fun resumeSend ::
    "nat \<Rightarrow> bool \<Rightarrow> (nat \<Rightarrow> nat \<Rightarrow> SysTime) \<Rightarrow> (nat \<Rightarrow> nat \<Rightarrow> MmsgResult) \<Rightarrow> UdpSend \<Rightarrow> ((nat \<times> bytes) list \<times> UdpSend) outcome" where
  "resumeSend 0 rdy clock res s = Spins"
| "resumeSend (Suc fuel) rdy clock res s =
     obind (udpRest rdy (clock fuel) (res fuel) (udpRefill s)) (\<lambda>(again, out, s1).
       if again then obind (resumeSend fuel rdy clock res s1) (\<lambda>(out', s2). Ret (out @ out', s2)) else Ret (out, s1))"

definition udpStop :: "UdpSend \<Rightarrow> UdpSend" where
  "udpStop s = s\<lparr>usBuffer := reset0 (usBuffer s)\<rparr>"

definition udpBufferedMessageCount :: "UdpSend \<Rightarrow> u64" where
  "udpBufferedMessageCount s = remainingSize0 (usBuffer s)"

section \<open>Runs\<close>

text \<open>
  An iteration may follow another in the same call or in the next; either way it begins with the
  refill. Publishers may come in between the refill and the sending.
\<close>

type_synonym publication = "u8 \<times> u16 \<times> bytes"

datatype UdpEvent =
  UdpPublish "publication list"
| UdpTurn "publication list" bool "nat \<Rightarrow> SysTime" "nat \<Rightarrow> MmsgResult"

text \<open>The messages that got in, as they lie in the ring.\<close>

fun publishAll :: "publication list \<Rightarrow> UdpSend \<Rightarrow> (bytes list \<times> UdpSend) outcome" where
  "publishAll [] s = Ret ([], s)"
| "publishAll ((flag, tag, body) # ps) s =
     obind (udpTryQueue flag tag body s) (\<lambda>(answer, s1).
       obind (publishAll ps s1) (\<lambda>(ms, s2).
         Ret (if answer = Queued
              then udpWrap (slotJunk (iteratorAt (toBeClaimedSeq0 (usBuffer s))) (usBuffer s)) flag tag body # ms else ms, s2)))"

fun runUdp :: "UdpEvent list \<Rightarrow> UdpSend \<Rightarrow> (bytes list \<times> (nat \<times> bytes) list \<times> UdpSend) outcome" where
  "runUdp [] s = Ret ([], [], s)"
| "runUdp (UdpPublish ps # evs) s =
     obind (publishAll ps s) (\<lambda>(ms, s1). obind (runUdp evs s1) (\<lambda>(ms', out, s2). Ret (ms @ ms', out, s2)))"
| "runUdp (UdpTurn ps rdy clock res # evs) s =
     obind (publishAll ps (udpRefill s)) (\<lambda>(ms, s1).
       obind (udpRest rdy clock res s1) (\<lambda>(again, out, s2).
         obind (runUdp evs s2) (\<lambda>(ms', out', s3). Ret (ms @ ms', out @ out', s3))))"

text \<open>What went to a destination.\<close>

definition datagramsTo :: "nat \<Rightarrow> (nat \<times> bytes) list \<Rightarrow> bytes list" where
  "datagramsTo d out = map snd (filter (\<lambda>p. fst p = d) out)"

end
