(* ===== verification/UdpSendSpec.thy ===== *)
theory UdpSendSpec
  imports UdpSend TcpEngineSpec
begin

text \<open>
  What the sending end of the UDP transport promises while its socket is ready: the datagrams of a
  turn are the messages handed out, in order, in packets that fit the MTU.
\<close>

section \<open>Messages\<close>

lemma udpWrap_parts:
  assumes "8 + length body < 2 ^ 16"
  shows "length (udpWrap junk flag tag body) = 9 + length body"
    "udpWireSize (udpWrap junk flag tag body @ rest) = length (udpWrap junk flag tag body)"
    "udpTypeTag (udpWrap junk flag tag body @ rest) = tag"
    "udpWrap junk flag tag body \<noteq> []"
proof -
  have len: "(8 + length body) mod 256 ^ 2 = 8 + length body" using assms by simp
  have "unat tag < 2 ^ 16" using unsigned_less [of tag] by simp
  then have t: "unat tag mod 256 ^ 2 = unat tag" by simp
  show "length (udpWrap junk flag tag body) = 9 + length body" by (simp add: udpWrap_def del: leBytes.simps)
  then show "udpWireSize (udpWrap junk flag tag body @ rest) = length (udpWrap junk flag tag body)"
    using len by (simp add: udpWireSize_def messagePayloadLen_def udpWrap_def del: leBytes.simps)
  show "udpTypeTag (udpWrap junk flag tag body @ rest) = tag"
    using t by (simp add: udpTypeTag_def udpWrap_def del: leBytes.simps)
  show "udpWrap junk flag tag body \<noteq> []" by (simp add: udpWrap_def)
qed

text \<open>A message as it lies in the ring.\<close>

definition udpItem :: "bytes \<Rightarrow> bool" where
  "udpItem m \<longleftrightarrow> (\<exists>junk flag tag body. m = udpWrap junk flag tag body \<and> 8 + length body < 2 ^ 16)"

lemma udpItem_parts:
  assumes "udpItem m"
  shows "udpWireSize (m @ rest) = length m" "udpTypeTag (m @ rest) = udpTypeTag m" "9 \<le> length m" "length m < 2 ^ 17"
proof -
  obtain junk flag tag body where m: "m = udpWrap junk flag tag body" "8 + length body < 2 ^ 16"
    using assms by (auto simp: udpItem_def)
  note p = udpWrap_parts [OF m(2), of junk flag tag, folded m(1)]
  show "udpWireSize (m @ rest) = length m" "udpTypeTag (m @ rest) = udpTypeTag m" "9 \<le> length m" "length m < 2 ^ 17"
    using p(1-3) p(3) [of "[]"] m(2) by simp_all
qed

section \<open>The invariant\<close>

text \<open>
  The addresses in the packets' headers: as they were made, or, with two destinations or more, the
  first one is not that of the first destination, so a turn writes them anew.
\<close>

definition namesOk :: "UdpSend \<Rightarrow> bool" where
  "namesOk s \<longleftrightarrow> length (usNames s) = unat (usMaxSendBatch s) \<and>
     (usNames s = replicate (unat (usMaxSendBatch s)) (Some 0) \<or>
      usNames s ! 0 \<noteq> Some 0 \<and> 2 \<le> length (usDests s))"

text \<open>
  The slots from \<open>lo\<close> to \<open>hi\<close> are handed out to the engine, which is at \<open>mid\<close>; the messages from \<open>lo\<close>
  on are in the ring.
\<close>

definition udpInv :: "nat \<Rightarrow> bytes list \<Rightarrow> nat \<Rightarrow> nat \<Rightarrow> nat \<Rightarrow> UdpSend \<Rightarrow> bool" where
  "udpInv r hist lo mid hi s \<longleftrightarrow>
     queue_inv r {} {lo..<hi} (usBuffer s) \<and> read0 (usBuffer s) = hi \<and> claimed0 (usBuffer s) = length hist \<and>
     length hist < limit0 \<and> lo \<le> mid \<and> mid \<le> hi \<and> hi \<le> lo + unat (usMaxSendBatch s) \<and>
     seq (usBegin s) = of_nat lo \<and> seq (usIt s) = of_nat mid \<and> seq (usEnd s) = of_nat hi \<and>
     holdsFrom (usBuffer s) hist lo (length hist) \<and>
     (\<forall>m \<in> set hist. udpItem m \<and> length m \<le> unat (usMtu s)) \<and> raterOff (usRater s) \<and> namesOk s \<and>
     usMaxMessageSize s + 9 \<le> unat (usMtu s) \<and> usMaxMessageSize s + 9 \<le> VALUE_TYPE_SIZE0 (usBuffer s) \<and>
     unat (usMtu s) < 2 ^ 63 \<and> 0 < unat (usMaxSendBatch s)"

lemma udpInvD:
  assumes "udpInv r hist lo mid hi s"
  shows "queue_inv r {} {lo..<hi} (usBuffer s)" "read0 (usBuffer s) = hi" "claimed0 (usBuffer s) = length hist"
    "length hist < limit0" "lo \<le> mid" "mid \<le> hi" "hi \<le> lo + unat (usMaxSendBatch s)"
    "seq (usBegin s) = of_nat lo" "seq (usIt s) = of_nat mid" "seq (usEnd s) = of_nat hi"
    "holdsFrom (usBuffer s) hist lo (length hist)"
    "\<And>m. m \<in> set hist \<Longrightarrow> udpItem m" "\<And>m. m \<in> set hist \<Longrightarrow> length m \<le> unat (usMtu s)" "raterOff (usRater s)" "namesOk s"
    "usMaxMessageSize s + 9 \<le> unat (usMtu s)" "usMaxMessageSize s + 9 \<le> VALUE_TYPE_SIZE0 (usBuffer s)"
    "unat (usMtu s) < 2 ^ 63" "0 < unat (usMaxSendBatch s)" "hi \<le> length hist"
  using assms queue_invD(3) [of r "{}" "{lo..<hi}" "usBuffer s"] by (auto simp: udpInv_def)

text \<open>What turns and publishers leave alone.\<close>

definition sameEnd :: "UdpSend \<Rightarrow> UdpSend \<Rightarrow> bool" where
  "sameEnd s s' \<longleftrightarrow> usDests s' = usDests s \<and> usMtu s' = usMtu s \<and> usMaxSendBatch s' = usMaxSendBatch s \<and>
     usMaxMessageSize s' = usMaxMessageSize s \<and> VALUE_TYPE_SIZE0 (usBuffer s') = VALUE_TYPE_SIZE0 (usBuffer s)"

lemma sameEnd_refl [simp]: "sameEnd s s" by (simp add: sameEnd_def)

lemma sameEnd_trans: "sameEnd s s' \<Longrightarrow> sameEnd s' s'' \<Longrightarrow> sameEnd s s''" by (simp add: sameEnd_def)

text \<open>No packet is under way.\<close>

definition unladen :: "UdpSend \<Rightarrow> bool" where
  "unladen s \<longleftrightarrow> usMsgs s = [] \<and> usPkts s = [] \<and> usHead s = 0"

section \<open>The refill\<close>

lemma refill_step:
  assumes "udpInv r hist lo hi hi s"
  obtains hi' where "udpInv r hist hi hi hi' (udpRefill s)" "hi' = hi + min (unat (usMaxSendBatch s)) (length hist - hi)"
    "sameEnd s (udpRefill s)" "usMsgs (udpRefill s) = usMsgs s" "usPkts (udpRefill s) = usPkts s"
    "usHead (udpRefill s) = usHead s"
proof -
  note I = udpInvD [OF assms]
  let ?b = "usBuffer s" and ?n = "seq (usEnd s) - seq (usBegin s)"
  let ?b1 = "wasteAfterPeek0 ?b (usBegin s) ?n False"
  have h63: "lo < 2 ^ 63" "hi < 2 ^ 63" using I(4-6,20) by (simp_all add: limit0_def)
  have u: "unat (of_nat lo :: u64) = lo" "unat (of_nat hi :: u64) = hi" using h63 by (simp_all add: unat_of_nat_small)
  have n: "unat ?n = hi - lo" using I(5,6) by (simp add: I(8,10) unat_sub word_le_nat_alt u)
  have set: "{unat (seq (usBegin s))..<unat (seq (usBegin s)) + unat ?n} = {lo..<hi}"
    unfolding n unfolding I(8) u using I(5,6) by simp
  note W = wasteAfterPeek0_complete [OF I(1), of "usBegin s" ?n, unfolded set, OF subset_refl]
  have b1: "?b1 = markRange ?b (of_nat lo) (hi - lo)" unfolding wasteAfterPeek0_def I(8) [symmetric] n [symmetric] by simp
  note M = markRange_spec [OF I(1), of "of_nat lo" "hi - lo", unfolded u, folded b1]
  have M1: "claimed0 ?b1 = claimed0 ?b" "read0 ?b1 = read0 ?b" using M(2,3) I(5,6) by simp_all
  note V = markRange_data [OF queue_invD(1) [OF I(1)], of "of_nat lo" "hi - lo", folded b1]
  have inv1: "queue_inv r {} {} ?b1" using W(1) by simp
  have lim: "claimed0 ?b1 < limit0" using M1(1) I(3,4) by simp
  have len: "length (items0 ?b1) = length hist - hi" by (simp add: items0_def M1 I(2,3))
  obtain p f cnt b2 where P: "peek0 ?b1 (usMaxSendBatch s) = ((p, f, cnt), b2)" "unat (seq p) = read0 ?b1"
    "unat cnt = min (unat (usMaxSendBatch s)) (length (items0 ?b1))" "unat (seq f) = read0 ?b1 + unat cnt"
    "queue_inv r {} ({} \<union> {read0 ?b1..<read0 ?b1 + unat cnt}) b2" "read0 b2 = read0 ?b1 + unat cnt" "claimed0 b2 = claimed0 ?b1"
    "\<And>k. slot0 b2 k = slot0 ?b1 k"
    by (rule peek0_spec [OF inv1 lim]) (rule that)
  let ?hi = "hi + unat cnt"
  have u: "unat (seq p) = hi" "unat (seq f) = ?hi" using P(2,4) M1(2) I(2) by simp_all
  have sp1: "seq p = of_nat hi" unfolding u(1) [symmetric] by simp
  have sp2: "seq f = of_nat ?hi" unfolding u(2) [symmetric] by simp
  have size: "VALUE_TYPE_SIZE0 b2 = VALUE_TYPE_SIZE0 ?b"
    using P(1) V by (auto simp: peek0_def Let_def)
  have eq: "udpRefill s = s\<lparr>usBuffer := b2, usIt := p, usEnd := f, usBegin := p\<rparr>"
    using P(1) by (simp add: udpRefill_def iterEq_def iterMinus_def I(9,10))
  have holds: "holdsFrom b2 hist hi (length hist)"
    using I(5,11) by (auto simp: holdsFrom_def P(8) V)
  have inv: "udpInv r hist hi hi ?hi (udpRefill s)"
    unfolding udpInv_def eq using I P(3,5-7) M1 sp1 sp2 len holds
    by (simp add: size namesOk_def)
  show ?thesis
    by (rule that [of ?hi]) (rule inv, simp_all add: eq P(3) len sameEnd_def size)
qed

section \<open>Publishing\<close>

lemma place_step:
  assumes "queue_inv r {} {lo..<read0 b} b" "claimed0 b = length hist" "length hist < limit0" "lo \<le> read0 b"
    "item \<noteq> []" "length item \<le> VALUE_TYPE_SIZE0 b" "holdsFrom b hist lo (length hist)"
  obtains ok b' where "tryPutInPlace b item = Ret (ok, b')" "queue_inv r {} {lo..<read0 b} b'" "read0 b' = read0 b"
    "VALUE_TYPE_SIZE0 b' = VALUE_TYPE_SIZE0 b" "claimed0 b' = length (if ok then hist @ [item] else hist)"
    "holdsFrom b' (if ok then hist @ [item] else hist) lo (length (if ok then hist @ [item] else hist))"
proof -
  note D = queue_invD [OF assms(1)]
  have lim: "claimed0 b < limit0" using assms(2,3) by simp
  have h: "hintSize0 b (length item) = length item" using assms(5) by (simp add: hintSize0_def)
  have fits: "fits0 b item (length item)" using assms(6) h by (simp add: fits0_def)
  note put = tryPutInPlace_eq [OF D(1) assms(5,6), unfolded put0_eq(1) [OF assms(1) lim fits]]
  show ?thesis
  proof (cases "room0 r {lo..<read0 b} b")
    case False
    show ?thesis by (rule that [of False b]) (use False put assms in simp_all)
  next
    case True
    let ?b = "putState0 b item (length item)"
    note S = putState0_spec [OF assms(1) lim True fits]
    obtain d where d: "items0 ?b = items0 b @ [d]" "take (length item) d = item" using S(4) h by auto
    have rd: "read0 b \<le> length hist" using D(3) assms(2) by simp
    have eq: "map (\<lambda>n. slotData (slot0 ?b n)) [read0 b..<length hist] = map (\<lambda>n. slotData (slot0 b n)) [read0 b..<length hist]"
      "slotData (slot0 ?b (length hist)) = d"
      using d(1) rd by (simp_all add: items0_def S(2,3) assms(2))
    have old: "slotData (slot0 ?b n) = slotData (slot0 b n)" if "lo \<le> n" "n < length hist" for n
      using eq(1) S(5) [of n] that by (cases "n < read0 b") simp_all
    have new: "slotData (slot0 ?b (length hist)) = item @ drop (length item) d"
      using eq(2) d(2) by (metis append_take_drop_id)
    have "holdsFrom ?b (hist @ [item]) lo (length (hist @ [item]))"
      unfolding holdsFrom_def
    proof (intro allI impI)
      fix n assume n: "lo \<le> n \<and> n < length (hist @ [item])"
      show "\<exists>rest. slotData (slot0 ?b n) = (hist @ [item]) ! n @ rest"
      proof (cases "n < length hist")
        case True
        then show ?thesis using holdsFromD [OF assms(7), of n] old [of n] n by (simp add: nth_append)
      next
        case False
        then have "n = length hist" using n by simp
        then show ?thesis using new by simp
      qed
    qed
    then show ?thesis
      using True put S(1-3) assms(2)
      by (intro that [of True ?b]) (simp_all add: putState0_def publish0_def)
  qed
qed

lemma claim_one: "tryClaimN0 b 1 = tryClaim0 b"
  by (auto simp: tryClaimN0_def tryClaim0_def Let_def readyToWriteOver_def)

text \<open>The message a publisher would put into the next slot.\<close>

definition nextItem :: "u8 \<Rightarrow> u16 \<Rightarrow> bytes \<Rightarrow> UdpSend \<Rightarrow> bytes" where
  "nextItem flag tag body s =
     udpWrap (slotJunk (iteratorAt (toBeClaimedSeq0 (usBuffer s))) (usBuffer s)) flag tag body"

lemma udpTryQueue_eq:
  assumes "length body \<le> usMaxMessageSize s"
  shows "udpTryQueue flag tag body s =
     obind (tryPutInPlace (usBuffer s) (nextItem flag tag body s)) (\<lambda>(ok, b). Ret (if ok then Queued else NoRoom, s\<lparr>usBuffer := b\<rparr>))"
proof -
  let ?b = "usBuffer s"
  obtain it b where t: "tryClaim0 ?b = (it, b)" by fastforce
  have j: "slotJunk it b = slotJunk (iteratorAt (toBeClaimedSeq0 ?b)) ?b" if "start it"
    using t that by (auto simp: tryClaim0_def Let_def slotJunk_def nullIterator_def split: if_splits)
  show ?thesis
  proof (cases "start it")
    case True
    then show ?thesis
      using assms t j [OF True] unfolding udpTryQueue_def claim_one tryPutInPlace_def udpPlace_def nextItem_def
      by (cases "constructAt b it (udpWrap (slotJunk (iteratorAt (toBeClaimedSeq0 ?b)) ?b) flag tag body)") simp_all
  next
    case False
    then show ?thesis using t by (simp add: udpTryQueue_def claim_one tryPutInPlace_def)
  qed
qed

text \<open>What a publisher may put in.\<close>

definition sendable :: "UdpSend \<Rightarrow> bytes \<Rightarrow> bool" where
  "sendable s body \<longleftrightarrow> length body \<le> usMaxMessageSize s \<and> 8 + length body < 2 ^ 16"

lemma publish_step:
  assumes "udpInv r hist lo mid hi s" "sendable s body" "Suc (length hist) < limit0"
  obtains ok s' where "udpTryQueue flag tag body s = Ret (if ok then Queued else NoRoom, s')"
    "udpInv r (if ok then hist @ [nextItem flag tag body s] else hist) lo mid hi s'" "s' = s\<lparr>usBuffer := usBuffer s'\<rparr>" "sameEnd s s'"
proof -
  note I = udpInvD [OF assms(1)]
  let ?m = "nextItem flag tag body s"
  have b: "length body \<le> usMaxMessageSize s" "8 + length body < 2 ^ 16" using assms(2) by (simp_all add: sendable_def)
  note p = udpWrap_parts [OF b(2), of _ flag tag]
  have m: "udpItem ?m" "?m \<noteq> []" "length ?m = 9 + length body"
    using p(1,4) b(2) by (auto simp: nextItem_def udpItem_def)
  have le: "length ?m \<le> VALUE_TYPE_SIZE0 (usBuffer s)" "length ?m \<le> unat (usMtu s)" "lo \<le> hi" using m(3) b(1) I(16,17,5,6) by simp_all
  obtain ok b' where P: "tryPutInPlace (usBuffer s) ?m = Ret (ok, b')" "queue_inv r {} {lo..<hi} b'" "read0 b' = hi"
    "VALUE_TYPE_SIZE0 b' = VALUE_TYPE_SIZE0 (usBuffer s)" "claimed0 b' = length (if ok then hist @ [?m] else hist)"
    "holdsFrom b' (if ok then hist @ [?m] else hist) lo (length (if ok then hist @ [?m] else hist))"
    by (rule place_step [of r lo "usBuffer s" hist ?m]) (use I le m in simp_all)
  show ?thesis
  proof (rule that [of ok "s\<lparr>usBuffer := b'\<rparr>"])
    show "udpTryQueue flag tag body s = Ret (if ok then Queued else NoRoom, s\<lparr>usBuffer := b'\<rparr>)"
      by (simp add: udpTryQueue_eq [OF b(1)] P(1))
    show "udpInv r (if ok then hist @ [?m] else hist) lo mid hi (s\<lparr>usBuffer := b'\<rparr>)"
      unfolding udpInv_def using I P m(1) le assms(3) by (auto simp: namesOk_def)
    show "sameEnd s (s\<lparr>usBuffer := b'\<rparr>)" by (simp add: sameEnd_def P(4))
  qed simp
qed


lemma publishAll_step:
  assumes "udpInv r hist lo mid hi s" "\<forall>p \<in> set ps. sendable s (snd (snd p))" "length hist + length ps < limit0"
  obtains ms s' where "publishAll ps s = Ret (ms, s')" "udpInv r (hist @ ms) lo mid hi s'" "s' = s\<lparr>usBuffer := usBuffer s'\<rparr>"
    "sameEnd s s'" "length ms \<le> length ps"
proof -
  have "\<exists>ms s'. publishAll ps s = Ret (ms, s') \<and> udpInv r (hist @ ms) lo mid hi s' \<and> s' = s\<lparr>usBuffer := usBuffer s'\<rparr> \<and>
      sameEnd s s' \<and> length ms \<le> length ps"
    using assms
  proof (induction ps arbitrary: hist s)
    case Nil
    then show ?case by simp
  next
    case (Cons p ps)
    obtain flag tag body where p: "p = (flag, tag, body)" by (cases p) auto
    have b: "sendable s body" and len: "Suc (length hist) < limit0" using Cons.prems(2,3) by (simp_all add: p)
    let ?m = "nextItem flag tag body s"
    obtain ok s1 where S: "udpTryQueue flag tag body s = Ret (if ok then Queued else NoRoom, s1)"
      "udpInv r (if ok then hist @ [?m] else hist) lo mid hi s1" "s1 = s\<lparr>usBuffer := usBuffer s1\<rparr>" "sameEnd s s1"
      by (rule publish_step [OF Cons.prems(1) b len])
    have ps: "\<forall>p \<in> set ps. sendable s1 (snd (snd p))" using Cons.prems(2) S(4) by (simp add: sendable_def sameEnd_def)
    have len1: "length (if ok then hist @ [?m] else hist) + length ps < limit0" using Cons.prems(3) by simp
    obtain ms s2 where R: "publishAll ps s1 = Ret (ms, s2)" "udpInv r ((if ok then hist @ [?m] else hist) @ ms) lo mid hi s2"
      "s2 = s1\<lparr>usBuffer := usBuffer s2\<rparr>" "sameEnd s1 s2" "length ms \<le> length ps"
      using Cons.IH [OF S(2) ps len1] by blast
    have eq: "s2 = s\<lparr>usBuffer := usBuffer s2\<rparr>" by (subst R(3), subst S(3)) simp
    show ?case
      using S(1) R(1,2,5) eq sameEnd_trans [OF S(4) R(4)]
      by (cases ok) (auto simp: p nextItem_def)
  qed
  then show ?thesis using that by blast
qed

section \<open>Packing\<close>

text \<open>The pointers to the messages handed out.\<close>

definition slotVec :: "nat \<Rightarrow> bytes list \<Rightarrow> nat \<Rightarrow> iovec" where
  "slotVec r hist n = \<lparr>iov_base = InSlot (of_nat (n mod 2 ^ r)) 0, iov_len = length (hist ! n)\<rparr>"

definition spanBytes :: "bytes list \<Rightarrow> nat \<Rightarrow> nat \<Rightarrow> nat" where
  "spanBytes hist a z = sum_list (map (\<lambda>n. length (hist ! n)) [a..<z])"

lemma spanBytes_snoc: "a \<le> z \<Longrightarrow> spanBytes hist a (Suc z) = spanBytes hist a z + length (hist ! z)"
  by (simp add: spanBytes_def)

lemma spanBytes_nil [simp]: "spanBytes hist a a = 0"
  by (simp add: spanBytes_def)

text \<open>Packets that lie side by side from \<open>a\<close> to \<open>z\<close>, none empty, each within the limit.\<close>

fun tiles :: "nat \<Rightarrow> bytes list \<Rightarrow> nat \<Rightarrow> nat \<Rightarrow> nat \<Rightarrow> (nat \<times> nat) list \<Rightarrow> bool" where
  "tiles mtu hist lo a z [] \<longleftrightarrow> a = z"
| "tiles mtu hist lo a z ((st, n) # ps) \<longleftrightarrow>
     st = a \<and> 0 < n \<and> spanBytes hist (lo + a) (lo + a + n) \<le> mtu \<and> tiles mtu hist lo (a + n) z ps"

lemma tiles_snoc:
  "tiles mtu hist lo a z ps \<Longrightarrow> 0 < n \<Longrightarrow> spanBytes hist (lo + z) (lo + z + n) \<le> mtu \<Longrightarrow>
     tiles mtu hist lo a (z + n) (ps @ [(z, n)])"
  by (induction mtu hist lo a z ps rule: tiles.induct) auto

lemma tiles_length: "tiles mtu hist lo a z ps \<Longrightarrow> a + length ps \<le> z"
  by (induction mtu hist lo a z ps rule: tiles.induct) auto

text \<open>The engine has packed the messages from \<open>lo\<close> to \<open>k\<close>; those from \<open>h\<close> on are not in a packet yet.\<close>

definition packed :: "nat \<Rightarrow> bytes list \<Rightarrow> nat \<Rightarrow> nat \<Rightarrow> nat \<Rightarrow> UdpSend \<Rightarrow> bool" where
  "packed r hist lo h k s \<longleftrightarrow>
     lo \<le> h \<and> h \<le> k \<and> usMsgs s = map (slotVec r hist) [lo..<k] \<and> usHead s = h - lo \<and>
     tiles (unat (usMtu s)) hist lo 0 (h - lo) (usPkts s) \<and> spanBytes hist h k \<le> unat (usMtu s) \<and> (h = k \<longrightarrow> lo = k)"

lemma packedD:
  assumes "packed r hist lo h k s"
  shows "lo \<le> h" "h \<le> k" "usMsgs s = map (slotVec r hist) [lo..<k]" "usHead s = h - lo" "length (usMsgs s) = k - lo"
    "tiles (unat (usMtu s)) hist lo 0 (h - lo) (usPkts s)" "spanBytes hist h k \<le> unat (usMtu s)" "h = k \<Longrightarrow> lo = k"
    "length (usPkts s) \<le> h - lo"
  using assms tiles_length [of "unat (usMtu s)" hist lo 0 "h - lo" "usPkts s"] by (simp_all add: packed_def)

lemma closePacket_step:
  assumes "packed r hist lo h k s" "h < k" "k - lo \<le> unat (usMaxSendBatch s)"
  shows "closePacket s = Ret (s\<lparr>usPkts := usPkts s @ [(h - lo, k - h)], usHead := k - lo\<rparr>)"
    "tiles (unat (usMtu s)) hist lo 0 (k - lo) (usPkts s @ [(h - lo, k - h)])"
proof -
  note P = packedD [OF assms(1)]
  have "length (usPkts s) < unat (usMaxSendBatch s)" using P(1,9) assms(2,3) by linarith
  then show "closePacket s = Ret (s\<lparr>usPkts := usPkts s @ [(h - lo, k - h)], usHead := k - lo\<rparr>)"
    using P(1,4,5) assms(2) by (simp add: closePacket_def)
  have e: "lo + (h - lo) = h" "h + (k - h) = k" "h - lo + (k - h) = k - lo" using P(1) assms(2) by simp_all
  from tiles_snoc [OF P(6), of "k - h", unfolded e] show "tiles (unat (usMtu s)) hist lo 0 (k - lo) (usPkts s @ [(h - lo, k - h)])"
    using assms(2) P(7) by simp
qed

lemma udpPack_step:
  assumes "udpInv r hist lo lo hi s"
  shows "packed r hist lo h k s' \<Longrightarrow> k \<le> hi \<Longrightarrow> usRater s' = usRater s \<Longrightarrow> usBuffer s' = usBuffer s \<Longrightarrow> usEnd s' = usEnd s \<Longrightarrow>
     seq (usIt s') = of_nat k \<Longrightarrow> usMtu s' = usMtu s \<Longrightarrow> usMaxSendBatch s' = usMaxSendBatch s \<Longrightarrow>
     \<exists>h' it ms hd ps. udpPack clock (of_nat (spanBytes hist h k)) s' =
         Ret (True, of_nat (spanBytes hist h' hi), s'\<lparr>usIt := it, usMsgs := ms, usHead := hd, usPkts := ps\<rparr>) \<and>
       seq it = of_nat hi \<and> packed r hist lo h' hi (s'\<lparr>usIt := it, usMsgs := ms, usHead := hd, usPkts := ps\<rparr>)"
proof (induction "hi - k" arbitrary: h k s')
  case 0
  note I = udpInvD [OF assms]
  have "k = hi" using 0 by simp
  then have "udpPack clock (of_nat (spanBytes hist h k)) s' = Ret (True, of_nat (spanBytes hist h hi), s')"
    using 0 I(10) by (subst udpPack.simps) (simp add: iterEq_def)
  then show ?case
    using 0 \<open>k = hi\<close>
    by (intro exI [of _ h] exI [of _ "usIt s'"] exI [of _ "usMsgs s'"] exI [of _ "usHead s'"] exI [of _ "usPkts s'"]) simp
next
  case (Suc x)
  note I = udpInvD [OF assms] and P = packedD [OF Suc.prems(1)]
  have lt: "k < hi" "lo \<le> k" using Suc.hyps(2) P(1,2) by simp_all
  have k63: "k < 2 ^ 63" "hi < 2 ^ 63" "k < length hist" using lt I(4,20) by (simp_all add: limit0_def)
  have "(of_nat k :: u64) \<noteq> of_nat hi"
    using lt unat_of_nat_small [OF k63(1)] unat_of_nat_small [OF k63(2)] by (metis less_irrefl)
  then have ne: "\<not> iterEq (usIt s') (usEnd s')" using Suc.prems(5,6) I(10) by (simp add: iterEq_def)
  have room: "\<not> unat (usMaxSendBatch s') \<le> length (usMsgs s')" using P(5) lt I(7) Suc.prems(8) by simp
  let ?m = "hist ! k"
  obtain rest where d: "slotData (slot0 (usBuffer s) k) = ?m @ rest"
    using holdsFromD [OF I(11) lt(2) k63(3)] by blast
  have m: "udpItem ?m" "length ?m \<le> unat (usMtu s)" using I(12,13) k63(3) by simp_all
  note q = udpItem_parts [OF m(1)]
  let ?i = "of_nat (k mod 2 ^ r) :: u64"
  have sh: "queue_shape r (usBuffer s)" using queue_invD(1) [OF I(1)] .
  have i: "seq (usIt s') AND chunkMASK (buffer0 (usBuffer s')) = ?i"
    using slot_index [OF sh k63(1)] Suc.prems(4,6) by simp
  have w: "udpWireSize (slotData (space (buffer0 (usBuffer s')) ! unat ?i)) = length ?m"
    using slot_by_mod [OF sh, of k] d q(1) Suc.prems(4) by simp
  have vec: "map (slotVec r hist) [lo..<Suc k] = map (slotVec r hist) [lo..<k] @ [\<lparr>iov_base = InSlot ?i 0, iov_len = length ?m\<rparr>]"
    using lt(2) by (simp add: slotVec_def)
  have rater: "usRater s' = usRater s" "raterOff (usRater s)" using Suc.prems(3) I(14) by simp_all
  let ?over = "usMtu s' < of_nat (spanBytes hist h k) + of_nat (length ?m)"
  have sum: "unat (of_nat (spanBytes hist h k) + of_nat (length ?m) :: u64) = spanBytes hist h k + length ?m"
  proof -
    have "spanBytes hist h k + length ?m < 2 ^ 64" using P(7) m(2) I(18) Suc.prems(7) by simp
    then show ?thesis by (simp flip: of_nat_add add: unsigned_of_nat take_bit_nat_eq_self)
  qed
  have over: "?over \<longleftrightarrow> unat (usMtu s) < spanBytes hist h k + length ?m"
    unfolding word_less_nat_alt sum Suc.prems(7) ..
  define h1 where "h1 = (if ?over then k else h)"
  have hk: "?over \<Longrightarrow> h < k" using over m(2) P(2) by (cases "h = k") simp_all
  define s2 where "s2 = (if ?over then s'\<lparr>usPkts := usPkts s' @ [(h - lo, k - h)], usHead := k - lo\<rparr> else s')"
  let ?s = "s'\<lparr>usPkts := usPkts s2, usHead := usHead s2, usMsgs := map (slotVec r hist) [lo..<Suc k], usIt := iterInc (usIt s')\<rparr>"
  have close: "(if ?over then closePacket s' else Ret s') = Ret s2"
    using closePacket_step(1) [OF Suc.prems(1) hk] lt I(7) Suc.prems(8) by (simp add: s2_def)
  have bytes: "(if ?over then of_nat (length ?m) else of_nat (spanBytes hist h k) + of_nat (length ?m) :: u64) =
      of_nat (spanBytes hist h1 (Suc k))"
    using P(2) by (simp add: h1_def spanBytes_snoc)
  have upd: "s'\<lparr>usRater := usRater s'\<rparr> = s'" by simp
  note RS = raterOff_steps [OF rater(2), folded rater(1)]
  have step: "udpPack clock (of_nat (spanBytes hist h k)) s' = udpPack clock (of_nat (spanBytes hist h1 (Suc k))) ?s"
    using ne room RS close
    by (subst udpPack.simps, simp only: i w vec P(3) bytes Let_def obind.simps prod.case if_False if_True upd simp_thms not_True_eq_False) simp
  have packed: "packed r hist lo h1 (Suc k) ?s"
  proof (cases ?over)
    case True
    then show ?thesis
      using P(1,2) lt(2) closePacket_step(2) [OF Suc.prems(1) hk [OF True]] I(7) Suc.prems(8) lt m(2) Suc.prems(7)
      by (simp add: packed_def h1_def s2_def spanBytes_snoc)
  next
    case False
    then show ?thesis
      using P over Suc.prems(7) by (simp add: packed_def h1_def s2_def spanBytes_snoc)
  qed
  have "x = hi - Suc k" using Suc.hyps(2) by simp
  from Suc.hyps(1) [OF this packed] lt Suc.prems(3-8) obtain h' it ms hd ps where R:
    "udpPack clock (of_nat (spanBytes hist h1 (Suc k))) ?s =
       Ret (True, of_nat (spanBytes hist h' hi), ?s\<lparr>usIt := it, usMsgs := ms, usHead := hd, usPkts := ps\<rparr>)"
    "seq it = of_nat hi" "packed r hist lo h' hi (?s\<lparr>usIt := it, usMsgs := ms, usHead := hd, usPkts := ps\<rparr>)"
    by (auto simp: iterInc_def)
  have eq: "?s\<lparr>usIt := it, usMsgs := ms, usHead := hd, usPkts := ps\<rparr> = s'\<lparr>usIt := it, usMsgs := ms, usHead := hd, usPkts := ps\<rparr>"
    by simp
  show ?case unfolding step using R unfolding eq by blast
qed


lemma udpMake_step:
  assumes "udpInv r hist lo lo hi s" "unladen s"
  obtains s1 where "udpMake clock s = Ret (True, s1)" "udpInv r hist lo hi hi s1" "sameEnd s s1"
    "usMsgs s1 = map (slotVec r hist) [lo..<hi]" "tiles (unat (usMtu s)) hist lo 0 (hi - lo) (usPkts s1)"
    "usBuffer s1 = usBuffer s" "usNames s1 = usNames s" "usHead s1 = hi - lo"
proof -
  note I = udpInvD [OF assms(1)]
  have start: "packed r hist lo lo lo s" using assms(2) by (simp add: packed_def unladen_def)
  obtain h it ms hd ps where R:
    "udpPack clock 0 s = Ret (True, of_nat (spanBytes hist h hi), s\<lparr>usIt := it, usMsgs := ms, usHead := hd, usPkts := ps\<rparr>)"
    "seq it = of_nat hi" "packed r hist lo h hi (s\<lparr>usIt := it, usMsgs := ms, usHead := hd, usPkts := ps\<rparr>)"
    using udpPack_step [OF assms(1) start I(6), of clock] I(9) by auto
  let ?s = "s\<lparr>usIt := it, usMsgs := ms, usHead := hd, usPkts := ps\<rparr>"
  note P = packedD [OF R(3)]
  have small: "spanBytes hist h hi < 2 ^ 63" using P(7) I(18) by simp
  have zero: "(of_nat (spanBytes hist h hi) :: u64) = 0 \<longleftrightarrow> spanBytes hist h hi = 0"
    using unat_of_nat_small [OF small] unsigned_eq_0_iff [where w = "of_nat (spanBytes hist h hi) :: u64" and 'a = nat] by simp
  have pos: "0 < spanBytes hist h hi" if "h < hi"
  proof -
    have "h < length hist" using that I(20) by simp
    then have "0 < length (hist ! h)" using udpItem_parts(3) [OF I(12) [OF nth_mem]] by fastforce
    moreover have "[h..<hi] = h # [Suc h..<hi]" using that by (rule upt_conv_Cons)
    ultimately show ?thesis by (simp add: spanBytes_def)
  qed
  have inv: "udpInv r hist lo hi hi (s\<lparr>usIt := it, usMsgs := ms, usHead := hd', usPkts := ps'\<rparr>)"
    "udpInv r hist lo hi hi (s\<lparr>usIt := it, usMsgs := ms, usPkts := ps', usHead := hd'\<rparr>)" for hd' ps'
    using assms(1) R(2) I(6) by (simp_all add: udpInv_def namesOk_def)
  show ?thesis
  proof (cases "h < hi")
    case True
    have le: "hi - lo \<le> unat (usMaxSendBatch ?s)" using I(7) by simp
    note C = closePacket_step [OF R(3) True le]
    show ?thesis
      by (rule that [of "?s\<lparr>usPkts := usPkts ?s @ [(h - lo, hi - h)], usHead := hi - lo\<rparr>"])
        (use R(1) pos [OF True] zero C P(3,4) inv in \<open>simp_all add: udpMake_def sameEnd_def\<close>)
  next
    case False
    then have h: "h = hi" "lo = hi" using P(2,8) by simp_all
    show ?thesis
      by (rule that [of ?s]) (use R(1) P(3,4,6) inv h in \<open>simp_all add: udpMake_def sameEnd_def\<close>)
  qed
qed

section \<open>Sending\<close>

text \<open>The messages of a packet, and what is in a datagram.\<close>

definition packetItems :: "bytes list \<Rightarrow> nat \<Rightarrow> nat \<times> nat \<Rightarrow> bytes list" where
  "packetItems hist lo p = map ((!) hist) [lo + fst p..<lo + fst p + snd p]"

lemma tiles_items:
  "tiles mtu hist lo a z ps \<Longrightarrow>
     concat (map (packetItems hist lo) ps) = map ((!) hist) [lo + a..<lo + z] \<and>
     (\<forall>p \<in> set ps. packetItems hist lo p \<noteq> [] \<and> length (concat (packetItems hist lo p)) \<le> mtu \<and> fst p + snd p \<le> z)"
proof (induction mtu hist lo a z ps rule: tiles.induct)
  case (2 mtu hist lo a z st n ps)
  have T: "st = a" "0 < n" "spanBytes hist (lo + a) (lo + a + n) \<le> mtu" "tiles mtu hist lo (a + n) z ps"
    using "2.prems" by simp_all
  note IH = "2.IH" [OF T(4)]
  have le: "a + n \<le> z" using tiles_length [OF T(4)] by simp
  have up: "[lo + a..<lo + z] = [lo + a..<lo + (a + n)] @ [lo + (a + n)..<lo + z]"
    using upt_add_eq_append [of "lo + a" "lo + (a + n)" "z - (a + n)"] le by simp
  have len: "length (concat (packetItems hist lo (a, n))) = spanBytes hist (lo + a) (lo + a + n)"
    by (simp add: packetItems_def length_concat spanBytes_def comp_def)
  show ?case
    unfolding T(1) up using IH le len T(2,3) by (simp add: packetItems_def add.assoc)
qed simp

lemma datagram_items:
  assumes "queue_shape r (usBuffer s)" "holdsFrom (usBuffer s) hist lo hi" "usMsgs s = map (slotVec r hist) [lo..<hi]"
    "fst p + snd p \<le> hi - lo"
  shows "datagram s p = concat (packetItems hist lo p)"
proof -
  have vecs: "take (snd p) (drop (fst p) (usMsgs s)) = map (slotVec r hist) [lo + fst p..<lo + fst p + snd p]"
    using assms(4) by (cases "snd p = 0") (simp_all add: assms(3) take_map drop_map)
  have one: "readVec (buffer0 (usBuffer s)) (\<lambda>a. []) (slotVec r hist n) = hist ! n"
    if "n \<in> set [lo + fst p..<lo + fst p + snd p]" for n
  proof -
    have "lo \<le> n" "n < hi" using that assms(4) by auto
    then obtain rest where "slotData (slot0 (usBuffer s) n) = hist ! n @ rest" using holdsFromD [OF assms(2)] by blast
    then show ?thesis by (simp add: slotVec_def readVec_def slot_by_mod [OF assms(1)])
  qed
  then have "map (readVec (buffer0 (usBuffer s)) (\<lambda>a. []) \<circ> slotVec r hist) [lo + fst p..<lo + fst p + snd p] =
      packetItems hist lo p"
    unfolding packetItems_def by (intro map_cong refl) simp
  then show ?thesis by (simp add: datagram_def vecs)
qed


fun taken :: "MmsgResult \<Rightarrow> nat" where
  "taken (Takes m) = m"
| "taken Blocks = 0"
| "taken Unreachable = 0"

definition sentBy :: "UdpSend \<Rightarrow> (nat \<Rightarrow> MmsgResult) \<Rightarrow> nat \<Rightarrow> (nat \<times> bytes) list" where
  "sentBy s res k = map (Pair (usDests s ! k)) (take (taken (res k)) (map (datagram s) (usPkts s)))"

lemma udpSendTo_step:
  assumes "usNames s ! 0 \<noteq> Some k \<or> (\<forall>j < length (usPkts s). usNames s ! j = Some k)" "usPkts s \<noteq> []"
    "length (usPkts s) \<le> length (usNames s)" "res k \<noteq> Unreachable"
  obtains nm where "udpSendTo (res k) k s = Ret (sentBy s res k, s\<lparr>usNames := nm\<rparr>)" "length nm = length (usNames s)"
    "nm ! 0 = Some k" "usNames s ! 0 = Some k \<Longrightarrow> nm = usNames s"
proof -
  let ?n = "length (usPkts s)"
  define nm where "nm = (if usNames s ! 0 \<noteq> Some k then replicate ?n (Some k) @ drop ?n (usNames s) else usNames s)"
  have n: "0 < ?n" using assms(2) by simp
  have all: "nm ! j = Some k" if "j < ?n" for j using assms(1) that by (auto simp: nm_def nth_append)
  have len: "length nm = length (usNames s)" using assms(3) by (simp add: nm_def)
  have none: "None \<notin> set (take ?n nm)"
    using all by (auto simp: in_set_conv_nth)
  have sent: "map (\<lambda>j. (usDests s ! the (nm ! j), datagram s (usPkts s ! j))) [0..<min m ?n] =
      map (Pair (usDests s ! k)) (take m (map (datagram s) (usPkts s)))" for m
    by (rule nth_equalityI) (auto simp: all)
  have "datagram (s\<lparr>usNames := nm\<rparr>) p = datagram s p" for p by (simp add: datagram_def)
  then have "udpSendTo (res k) k s = Ret (sentBy s res k, s\<lparr>usNames := nm\<rparr>)"
    using assms(4) none sent by (cases "res k") (simp_all add: udpSendTo_def sentBy_def nm_def [symmetric] Let_def)
  then show ?thesis
    by (rule that) (use len all [OF n] in \<open>simp_all add: nm_def\<close>)
qed

lemma sentBy_names [simp]: "sentBy (s\<lparr>usNames := nm\<rparr>) res k = sentBy s res k"
proof -
  have "datagram (s\<lparr>usNames := nm\<rparr>) = datagram s" by (rule ext) (simp add: datagram_def)
  then show ?thesis by (simp add: sentBy_def)
qed

lemma udpSendAll_from:
  assumes "usPkts s \<noteq> []" "\<forall>k < n. res k \<noteq> Unreachable" "length (usPkts s) \<le> length (usNames s)"
  shows "k < n \<Longrightarrow> length nm = length (usNames s) \<Longrightarrow> nm ! 0 \<noteq> Some k \<Longrightarrow>
    \<exists>nm'. udpSendAll res [k..<n] (s\<lparr>usNames := nm\<rparr>) = Ret (concat (map (sentBy s res) [k..<n]), s\<lparr>usNames := nm'\<rparr>) \<and>
      length nm' = length (usNames s) \<and> nm' ! 0 = Some (n - 1)"
proof (induction "n - k" arbitrary: k nm)
  case (Suc x)
  let ?s = "s\<lparr>usNames := nm\<rparr>"
  have pre: "usNames ?s ! 0 \<noteq> Some k \<or> (\<forall>j < length (usPkts ?s). usNames ?s ! j = Some k)" "usPkts ?s \<noteq> []"
    "length (usPkts ?s) \<le> length (usNames ?s)" "res k \<noteq> Unreachable"
    using Suc.prems assms by simp_all
  obtain nm1 where S: "udpSendTo (res k) k ?s = Ret (sentBy s res k, s\<lparr>usNames := nm1\<rparr>)" "length nm1 = length (usNames s)"
    "nm1 ! 0 = Some k"
    by (rule udpSendTo_step [where s = ?s and k = k and res = res, OF pre]) (use Suc.prems(2) in simp)
  have up: "[k..<n] = k # [Suc k..<n]" using Suc.prems(1) by (rule upt_conv_Cons)
  show ?case
  proof (cases "Suc k < n")
    case True
    have "x = n - Suc k" "nm1 ! 0 \<noteq> Some (Suc k)" using Suc.hyps(2) S(3) by simp_all
    then obtain nm' where
      "udpSendAll res [Suc k..<n] (s\<lparr>usNames := nm1\<rparr>) = Ret (concat (map (sentBy s res) [Suc k..<n]), s\<lparr>usNames := nm'\<rparr>)"
      "length nm' = length (usNames s)" "nm' ! 0 = Some (n - 1)"
      using Suc.hyps(1) True S(2) by blast
    then show ?thesis using S(1) by (intro exI [of _ nm']) (simp add: up)
  next
    case False
    then have "[Suc k..<n] = []" "n - 1 = k" using Suc.prems(1) by simp_all
    then show ?thesis using S by (intro exI [of _ nm1]) (simp add: up)
  qed
qed simp

lemma udpSendAll_step:
  assumes "namesOk s" "usPkts s \<noteq> []" "length (usPkts s) \<le> unat (usMaxSendBatch s)"
    "\<forall>k < length (usDests s). res k \<noteq> Unreachable" "usDests s \<noteq> []"
  obtains nm where "udpSendAll res [0..<length (usDests s)] s =
      Ret (concat (map (sentBy s res) [0..<length (usDests s)]), s\<lparr>usNames := nm\<rparr>)" "namesOk (s\<lparr>usNames := nm\<rparr>)"
proof -
  let ?n = "length (usDests s)"
  have len: "length (usNames s) = unat (usMaxSendBatch s)" "length (usPkts s) \<le> length (usNames s)"
    using assms(1,3) by (simp_all add: namesOk_def)
  have s: "s\<lparr>usNames := usNames s\<rparr> = s" by simp
  have n: "0 < ?n" using assms(5) by simp
  show ?thesis
  proof (cases "usNames s ! 0 = Some 0")
    case False
    then have two: "2 \<le> ?n" using assms(1-3) by (cases "unat (usMaxSendBatch s)") (auto simp: namesOk_def)
    from udpSendAll_from [OF assms(2,4) len(2) n refl False, unfolded s] obtain nm where
      "udpSendAll res [0..<?n] s = Ret (concat (map (sentBy s res) [0..<?n]), s\<lparr>usNames := nm\<rparr>)"
      "length nm = length (usNames s)" "nm ! 0 = Some (?n - 1)" by blast
    then show ?thesis by (intro that [of nm]) (use two len in \<open>simp_all add: namesOk_def\<close>)
  next
    case True
    then have all: "\<forall>j < length (usPkts s). usNames s ! j = Some 0" "usNames s = replicate (unat (usMaxSendBatch s)) (Some 0)"
      using assms(1,3) by (auto simp: namesOk_def)
    obtain nm where S: "udpSendTo (res 0) 0 s = Ret (sentBy s res 0, s\<lparr>usNames := nm\<rparr>)" "nm = usNames s"
      by (rule udpSendTo_step [of s 0 res]) (use all(1) assms len True in auto)
    have up: "[0..<?n] = 0 # [Suc 0..<?n]" using n by (simp add: upt_conv_Cons)
    show ?thesis
    proof (cases "Suc 0 < ?n")
      case False
      then have "?n = Suc 0" using n by linarith
      then show ?thesis by (intro that [of "usNames s"]) (use S assms(1) in simp_all)
    next
      case more: True
      have "usNames s ! 0 \<noteq> Some (Suc 0)" using True by simp
      from udpSendAll_from [OF assms(2,4) len(2) more refl this, unfolded s] obtain nm' where
        "udpSendAll res [Suc 0..<?n] s = Ret (concat (map (sentBy s res) [Suc 0..<?n]), s\<lparr>usNames := nm'\<rparr>)"
        "length nm' = length (usNames s)" "nm' ! 0 = Some (?n - 1)" by blast
      then show ?thesis by (intro that [of nm']) (use S more len up in \<open>simp_all add: namesOk_def\<close>)
    qed
  qed
qed


section \<open>A turn\<close>

text \<open>The packets of a turn: messages grouped, in order, no group empty or above the limit.\<close>

definition grouped :: "nat \<Rightarrow> bytes list \<Rightarrow> bytes list list \<Rightarrow> bool" where
  "grouped mtu ms gs \<longleftrightarrow> concat gs = ms \<and> (\<forall>g \<in> set gs. g \<noteq> [] \<and> length (concat g) \<le> mtu)"

lemma grouped_append: "grouped mtu ms gs \<Longrightarrow> grouped mtu ms' gs' \<Longrightarrow> grouped mtu (ms @ ms') (gs @ gs')"
  by (auto simp: grouped_def)

lemma grouped_length: "grouped mtu ms gs \<Longrightarrow> length gs \<le> length ms"
proof (induction gs arbitrary: ms)
  case (Cons g gs)
  then have "length gs \<le> length (concat gs)" "g \<noteq> []" by (simp_all add: grouped_def)
  moreover have "length ms = length g + length (concat gs)" using Cons.prems by (auto simp: grouped_def)
  ultimately show ?case by (cases g) simp_all
qed simp

definition sentInTurn :: "nat list \<Rightarrow> (nat \<Rightarrow> MmsgResult) \<Rightarrow> bytes list list \<Rightarrow> (nat \<times> bytes) list" where
  "sentInTurn dests res gs =
     concat (map (\<lambda>k. map (Pair (dests ! k)) (take (taken (res k)) (map concat gs))) [0..<length dests])"

lemma udpRest_step:
  assumes "udpInv r hist lo lo hi s" "unladen s" "rdy \<or> lo = hi" "\<forall>k < length (usDests s). res k \<noteq> Unreachable" "usDests s \<noteq> []"
  obtains gs s' where "udpRest rdy clock res s = Ret (lo < hi, sentInTurn (usDests s) res gs, s')" "udpInv r hist lo hi hi s'"
    "unladen s'" "sameEnd s s'" "grouped (unat (usMtu s)) (map ((!) hist) [lo..<hi]) gs"
proof -
  obtain s1 where M: "udpMake clock s = Ret (True, s1)" "udpInv r hist lo hi hi s1" "sameEnd s s1"
    "usMsgs s1 = map (slotVec r hist) [lo..<hi]" "tiles (unat (usMtu s)) hist lo 0 (hi - lo) (usPkts s1)"
    "usBuffer s1 = usBuffer s" "usNames s1 = usNames s" "usHead s1 = hi - lo"
    by (rule udpMake_step [OF assms(1,2)])
  note I = udpInvD [OF M(2)]
  have same: "usDests s1 = usDests s" "usMtu s1 = usMtu s" using M(3) by (simp_all add: sameEnd_def)
  define gs where "gs = map (packetItems hist lo) (usPkts s1)"
  note T = tiles_items [OF M(5)]
  have hl: "lo + (hi - lo) = hi" using I(5,6) by simp
  have gs: "grouped (unat (usMtu s)) (map ((!) hist) [lo..<hi]) gs"
    using T by (auto simp: grouped_def gs_def hl)
  show ?thesis
  proof (cases "lo < hi")
    case False
    then have "usPkts s1 = []" "lo = hi" "usMsgs s1 = []" "usHead s1 = 0" using tiles_length [OF M(5)] M(4,8) I(5,6) by simp_all
    then show ?thesis
      using M gs by (intro that [of gs s1]) (auto simp: udpRest_def gs_def sentInTurn_def unladen_def)
  next
    case True
    then have rdy: rdy using assms(3) by simp
    have ne: "usPkts s1 \<noteq> []" using M(5) True by (cases "usPkts s1") simp_all
    have len: "length (usPkts s1) \<le> unat (usMaxSendBatch s1)" using tiles_length [OF M(5)] I(7) by simp
    obtain nm where A: "udpSendAll res [0..<length (usDests s1)] s1 =
        Ret (concat (map (sentBy s1 res) [0..<length (usDests s1)]), s1\<lparr>usNames := nm\<rparr>)" "namesOk (s1\<lparr>usNames := nm\<rparr>)"
      by (rule udpSendAll_step [OF I(15) ne len, of res]) (use assms(4,5) same in simp_all)
    have holds: "holdsFrom (usBuffer s1) hist lo hi" using I(11,20) by (auto simp: holdsFrom_def)
    have "map (datagram s1) (usPkts s1) = map concat gs"
      using T datagram_items [OF queue_invD(1) [OF I(1)] holds M(4)] by (auto simp: gs_def)
    then have out: "concat (map (sentBy s1 res) [0..<length (usDests s1)]) = sentInTurn (usDests s) res gs"
      unfolding sentInTurn_def same(1) by (intro arg_cong [of _ _ concat] map_cong refl) (simp add: sentBy_def same(1))
    let ?s = "s1\<lparr>usNames := nm, usPkts := [], usMsgs := [], usHead := 0\<rparr>"
    have inv: "udpInv r hist lo hi hi ?s" using M(2) A(2) by (simp add: udpInv_def namesOk_def)
    show ?thesis
    proof (rule that [of gs ?s])
      show "udpRest rdy clock res s = Ret (lo < hi, sentInTurn (usDests s) res gs, ?s)"
        using A(1) M(1) ne rdy True out same by (simp add: udpRest_def)
    qed (use inv gs M(3) in \<open>simp_all add: unladen_def sameEnd_def\<close>)
  qed
qed

lemma datagramsTo_append [simp]: "datagramsTo d (xs @ ys) = datagramsTo d xs @ datagramsTo d ys"
  by (simp add: datagramsTo_def)

lemma datagramsTo_turn:
  assumes "distinct dests" "k < length dests"
  shows "datagramsTo (dests ! k) (sentInTurn dests res gs) = take (taken (res k)) (map concat gs)"
proof -
  have one: "datagramsTo (dests ! k) (map (Pair (dests ! j)) xs) = (if j = k then xs else [])" if "j < length dests" for j xs
    using nth_eq_iff_index_eq [OF assms(1) that assms(2)] by (simp add: datagramsTo_def comp_def)
  have "datagramsTo (dests ! k) (concat (map (\<lambda>j. map (Pair (dests ! j)) (f j)) [0..<n])) = (if k < n then f k else [])"
    if "n \<le> length dests" for n and f :: "nat \<Rightarrow> bytes list"
    using that
  proof (induction n)
    case 0
    then show ?case by (simp add: datagramsTo_def)
  next
    case (Suc n)
    then show ?case using one [of n "f n"] by (simp add: less_Suc_eq)
  qed
  then show ?thesis using assms(2) by (simp add: sentInTurn_def)
qed

end
