(* ===== verification/UdpRecv.thy ===== *)
theory UdpRecv
  imports UdpSend
begin

text \<open>
  \<^verbatim>\<open>hmbdc/tips/udpcast/RecvTransportEngine.hpp\<close>: the receiving end of the UDP transport. A datagram
  is read into a buffer of the size of the MTU and taken apart into messages; what is not complete
  at its end is dropped. The buffer is not cleared, so what an earlier datagram left in it is still
  there. The socket is the environment, and so is what the output buffer does with an item.
\<close>

record UdpRecv =
  urSubs :: TypeTagSet
  urMaxItem :: nat
  urBuf :: bytes
  urOut :: "bytes list"

text \<open>\<open>memory\<close> is what the buffer is made of; its length is the MTU.\<close>

definition newUdpRecv :: "TypeTagSet \<Rightarrow> nat \<Rightarrow> bytes \<Rightarrow> UdpRecv" where
  "newUdpRecv subs maxItem memory = \<lparr>urSubs = subs, urMaxItem = maxItem, urBuf = memory, urOut = []\<rparr>"

text \<open>A message: the length and, when all of it is there, the tag are read where they should be.\<close>

definition udpDeliver :: "nat \<Rightarrow> nat \<Rightarrow> UdpRecv \<Rightarrow> UdpRecv outcome" where
  "udpDeliver pos w s =
     (if length (urBuf s) < pos + 9 then Undefined
      else if tagCheck (urSubs s) (udpTypeTag (drop pos (urBuf s))) = 0 then Ret s
      else Ret (s\<lparr>urOut := urOut s @ [take (min (urMaxItem s) (w - 1)) (drop (pos + 1) (urBuf s))]\<rparr>))"

text \<open>The loop over a datagram: \<open>pos\<close> is where \<^verbatim>\<open>bufCur_\<close> is, \<open>n\<close> is \<^verbatim>\<open>bytesRecved_\<close>.\<close>

function udpParse :: "nat \<Rightarrow> nat \<Rightarrow> UdpRecv \<Rightarrow> UdpRecv outcome" where
  "udpParse pos n s =
     (if n = 0 then Ret s
      else if length (urBuf s) < pos + 3 then Undefined
      else let w = udpWireSize (drop pos (urBuf s))
           in if w \<le> n then obind (udpDeliver pos w s) (\<lambda>s1. udpParse (pos + w) (n - w) s1) else Ret s)"
  by auto
termination by (relation "measure (\<lambda>(pos, n, s). n)") (auto simp: udpWireSize_def)

declare udpParse.simps [simp del]

text \<open>What the socket says: not ready, an error (or nothing there after all), or a datagram.\<close>

datatype UdpArrival = NoneReady | RecvError | Datagram bytes

text \<open>Of a datagram longer than the buffer the rest is lost; an empty one ends the call.\<close>

fun resumeRead :: "UdpArrival list \<Rightarrow> UdpRecv \<Rightarrow> UdpRecv outcome" where
  "resumeRead [] s = Ret s"
| "resumeRead (NoneReady # as) s = Ret s"
| "resumeRead (RecvError # as) s = Ret s"
| "resumeRead (Datagram d # as) s =
     (let l = min (length d) (length (urBuf s))
      in if l = 0 then Ret s
         else obind (udpParse 0 l (s\<lparr>urBuf := take l d @ drop l (urBuf s)\<rparr>)) (resumeRead as))"

section \<open>What a receiver makes of messages\<close>

definition recvUdp :: "TypeTagSet \<Rightarrow> nat \<Rightarrow> bytes list \<Rightarrow> bytes list" where
  "recvUdp subs maxItem ms =
     map (\<lambda>m. take (min maxItem (length m - 1)) (drop 1 m)) (filter (\<lambda>m. tagCheck subs (udpTypeTag m) \<noteq> 0) ms)"

end
