(* ===== verification/UdpProperties.thy ===== *)
theory UdpProperties
  imports UdpSendSpec UdpRecv TcpProperties "HOL-Library.Sublist"
begin

text \<open>The properties of the UDP transport: the sender, the receiver, and both together.\<close>

section \<open>Runs of the sender\<close>

text \<open>
  The socket may be found not ready only while nothing has been published: \<open>seen\<close> is whether
  anything has.
\<close>

fun readyInTime :: "bool \<Rightarrow> UdpEvent list \<Rightarrow> bool" where
  "readyInTime seen [] \<longleftrightarrow> True"
| "readyInTime seen (UdpPublish ps # evs) \<longleftrightarrow> readyInTime (seen \<or> ps \<noteq> []) evs"
| "readyInTime seen (UdpTurn ps rdy clock res # evs) \<longleftrightarrow> (rdy \<or> \<not> seen \<and> ps = []) \<and> readyInTime (seen \<or> ps \<noteq> []) evs"

fun publicationsOf :: "UdpEvent \<Rightarrow> publication list" where
  "publicationsOf (UdpPublish ps) = ps"
| "publicationsOf (UdpTurn ps rdy clock res) = ps"

definition publicationsIn :: "UdpEvent list \<Rightarrow> nat" where
  "publicationsIn evs = sum_list (map (\<lambda>ev. length (publicationsOf ev)) evs)"

definition udpEventOk :: "UdpSend \<Rightarrow> UdpEvent \<Rightarrow> bool" where
  "udpEventOk s ev \<longleftrightarrow> (\<forall>p \<in> set (publicationsOf ev). sendable s (snd (snd p))) \<and>
     (case ev of UdpPublish ps \<Rightarrow> True | UdpTurn ps rdy clock res \<Rightarrow> \<forall>k < length (usDests s). res k \<noteq> Unreachable)"

text \<open>The destination at position \<open>k\<close> takes all it is offered.\<close>

definition takesAll :: "UdpSend \<Rightarrow> nat \<Rightarrow> UdpEvent \<Rightarrow> bool" where
  "takesAll s k ev \<longleftrightarrow>
     (case ev of UdpPublish ps \<Rightarrow> True | UdpTurn ps rdy clock res \<Rightarrow> unat (usMaxSendBatch s) \<le> taken (res k))"

lemma udpEventOk_same: "sameEnd s s' \<Longrightarrow> udpEventOk s' ev = udpEventOk s ev"
  by (simp add: udpEventOk_def sendable_def sameEnd_def split: UdpEvent.splits)

lemma takesAll_same: "sameEnd s s' \<Longrightarrow> takesAll s' k ev = takesAll s k ev"
  by (simp add: takesAll_def sameEnd_def split: UdpEvent.splits)

text \<open>How many messages the engine has packed.\<close>

definition udpPosition :: "UdpSend \<Rightarrow> nat" where
  "udpPosition s = unat (seq (usIt s))"

lemma udpInv_position: "udpInv r hist lo mid hi s \<Longrightarrow> udpPosition s = mid \<and> mid \<le> length hist"
  using udpInvD(4,6,9,20) [of r hist lo mid hi s] by (simp add: udpPosition_def limit0_def unat_of_nat_small)

text \<open>Between turns everything handed out is sent.\<close>

definition restful :: "nat \<Rightarrow> bytes list \<Rightarrow> UdpSend \<Rightarrow> bool" where
  "restful r hist s \<longleftrightarrow> (\<exists>lo hi. udpInv r hist lo hi hi s) \<and> unladen s \<and> usDests s \<noteq> [] \<and> distinct (usDests s)"

lemma restful_position: "restful r hist s \<Longrightarrow> udpPosition s \<le> length hist"
  using udpInv_position unfolding restful_def by blast

lemma restful_small: "restful r hist s \<Longrightarrow> length hist < limit0"
  using udpInvD(4) unfolding restful_def by blast

lemma readyInTime_mono: "readyInTime seen evs \<Longrightarrow> (seen' \<longrightarrow> seen) \<Longrightarrow> readyInTime seen' evs"
proof (induction seen evs arbitrary: seen' rule: readyInTime.induct)
  case (2 seen ps evs)
  have "readyInTime (seen' \<or> ps \<noteq> []) evs" by (rule "2.IH") (use "2.prems" in auto)
  then show ?case by simp
next
  case (3 seen ps rdy clock res evs)
  have "readyInTime (seen' \<or> ps \<noteq> []) evs" by (rule "3.IH") (use "3.prems" in auto)
  then show ?case using "3.prems" by auto
qed simp

lemma slice_nth: "z \<le> length xs \<Longrightarrow> map ((!) xs) [a..<z] = drop a (take z xs)"
  by (rule nth_equalityI) (simp_all add: min_def)

lemma slice_split:
  assumes "a \<le> z" "z \<le> y"
  shows "drop a (take z xs) @ drop z (take y xs) = drop a (take y xs)"
proof -
  have "take y xs = take z xs @ drop z (take y xs)" using assms(2) by (metis append_take_drop_id min.absorb1 take_take)
  then have e: "drop a (take y xs) = drop a (take z xs) @ drop (a - length (take z xs)) (drop z (take y xs))" by (metis drop_append)
  show ?thesis
  proof (cases "z \<le> length xs")
    case True
    then show ?thesis using e assms(1) by simp
  next
    case False
    then show ?thesis using e by simp
  qed
qed

text \<open>One turn.\<close>

lemma turn_step:
  assumes "restful r hist s" "rdy \<or> hist = [] \<and> ps = []" "udpEventOk s (UdpTurn ps rdy clock res)" "length hist + length ps < limit0"
  obtains ms s1 again out s2 gs where "publishAll ps (udpRefill s) = Ret (ms, s1)" "udpRest rdy clock res s1 = Ret (again, out, s2)"
    "restful r (hist @ ms) s2" "sameEnd s s2" "length ms \<le> length ps" "udpPosition s \<le> udpPosition s2"
    "grouped (unat (usMtu s)) (drop (udpPosition s) (take (udpPosition s2) (hist @ ms))) gs" "out = sentInTurn (usDests s) res gs"
    "length gs \<le> unat (usMaxSendBatch s)" "udpPosition s2 = udpPosition s + min (unat (usMaxSendBatch s)) (length hist - udpPosition s)"
    "again \<longleftrightarrow> udpPosition s < length hist"
proof -
  obtain lo hi where inv: "udpInv r hist lo hi hi s" and rest: "unladen s" "usDests s \<noteq> []" "distinct (usDests s)"
    using assms(1) by (auto simp: restful_def)
  obtain hi' where F: "udpInv r hist hi hi hi' (udpRefill s)" "hi' = hi + min (unat (usMaxSendBatch s)) (length hist - hi)"
    "sameEnd s (udpRefill s)" "usMsgs (udpRefill s) = usMsgs s" "usPkts (udpRefill s) = usPkts s" "usHead (udpRefill s) = usHead s"
    by (rule refill_step [OF inv])
  have ps: "\<forall>p \<in> set ps. sendable (udpRefill s) (snd (snd p))"
    using assms(3) F(3) by (simp add: udpEventOk_def sendable_def sameEnd_def)
  obtain ms s1 where P: "publishAll ps (udpRefill s) = Ret (ms, s1)" "udpInv r (hist @ ms) hi hi hi' s1"
    "s1 = udpRefill s\<lparr>usBuffer := usBuffer s1\<rparr>" "sameEnd (udpRefill s) s1" "length ms \<le> length ps"
    by (rule publishAll_step [OF F(1) ps assms(4)])
  have same: "sameEnd s s1" using sameEnd_trans [OF F(3) P(4)] .
  have un: "unladen s1" using rest(1) F(4-6) by (subst P(3)) (simp add: unladen_def)
  have rdy: "rdy \<or> hi = hi'" using assms(2) F(2) by auto
  have res: "\<forall>k < length (usDests s1). res k \<noteq> Unreachable" "usDests s1 \<noteq> []"
    using assms(3) rest(2) same by (simp_all add: udpEventOk_def sameEnd_def)
  obtain gs s2 where R: "udpRest rdy clock res s1 = Ret (hi < hi', sentInTurn (usDests s1) res gs, s2)" "udpInv r (hist @ ms) hi hi' hi' s2"
    "unladen s2" "sameEnd s1 s2" "grouped (unat (usMtu s1)) (map ((!) (hist @ ms)) [hi..<hi']) gs"
    by (rule udpRest_step [OF P(2) un rdy res])
  have same2: "sameEnd s s2" using sameEnd_trans [OF same R(4)] .
  note pos = udpInv_position [OF inv] udpInv_position [OF R(2)]
  have sl: "map ((!) (hist @ ms)) [hi..<hi'] = drop hi (take hi' (hist @ ms))" using pos(2) by (intro slice_nth) simp
  have "length gs \<le> hi' - hi" using grouped_length [OF R(5)] by simp
  then have "length gs \<le> unat (usMaxSendBatch s)" using F(2) by simp
  moreover have "restful r (hist @ ms) s2" using R(2,3) rest same2 by (auto simp: restful_def sameEnd_def)
  moreover have "hi < hi' \<longleftrightarrow> hi < length hist" using F(2) udpInvD(19) [OF inv] by auto
  ultimately show ?thesis
    using P(1,5) R(1,5) same same2 pos F(2) sl by (intro that [of ms s1 "hi < hi'" "sentInTurn (usDests s1) res gs" s2 gs]) (simp_all add: sameEnd_def)
qed

lemma publish_rest:
  assumes "restful r hist s" "udpEventOk s (UdpPublish ps)" "length hist + length ps < limit0"
  obtains ms s1 where "publishAll ps s = Ret (ms, s1)" "restful r (hist @ ms) s1" "sameEnd s s1" "length ms \<le> length ps"
    "udpPosition s1 = udpPosition s"
proof -
  obtain lo hi where inv: "udpInv r hist lo hi hi s" and rest: "unladen s" "usDests s \<noteq> []" "distinct (usDests s)"
    using assms(1) by (auto simp: restful_def)
  have ps: "\<forall>p \<in> set ps. sendable s (snd (snd p))" using assms(2) by (simp add: udpEventOk_def)
  obtain ms s1 where P: "publishAll ps s = Ret (ms, s1)" "udpInv r (hist @ ms) lo hi hi s1"
    "s1 = s\<lparr>usBuffer := usBuffer s1\<rparr>" "sameEnd s s1" "length ms \<le> length ps"
    by (rule publishAll_step [OF inv ps assms(3)])
  have "unladen s1" using rest(1) by (subst P(3)) (simp add: unladen_def)
  then have "restful r (hist @ ms) s1" using P(2,4) rest(2,3) by (auto simp: restful_def sameEnd_def)
  moreover have "udpPosition s1 = udpPosition s" by (subst P(3)) (simp add: udpPosition_def)
  ultimately show ?thesis using that P(1,4,5) by blast
qed

definition goesOut :: "UdpSend \<Rightarrow> (nat \<Rightarrow> bool) \<Rightarrow> (nat \<times> bytes) list \<Rightarrow> bytes list list \<Rightarrow> bool" where
  "goesOut s willing out gs \<longleftrightarrow>
     (\<forall>k < length (usDests s). subseq (datagramsTo (usDests s ! k) out) (map concat gs) \<and>
        (willing k \<longrightarrow> datagramsTo (usDests s ! k) out = map concat gs))"

lemma goesOut_append:
  assumes "goesOut s w out gs" "goesOut s w' out' gs'" "\<And>k. v k \<Longrightarrow> w k \<and> w' k"
  shows "goesOut s v (out @ out') (gs @ gs')"
  using assms by (simp add: goesOut_def list_emb_append_mono)

lemma goesOut_turn:
  assumes "distinct (usDests s)" "length gs \<le> unat (usMaxSendBatch s)"
  shows "goesOut s (\<lambda>k. takesAll s k (UdpTurn ps rdy clock res)) (sentInTurn (usDests s) res gs) gs"
proof -
  have "subseq (take n xs) xs" for n and xs :: "bytes list" by (simp add: prefix_imp_subseq take_is_prefix)
  then show ?thesis using assms by (simp add: goesOut_def datagramsTo_turn takesAll_def)
qed

lemma udp_run_lemma:
  assumes "restful r hist s" "readyInTime (hist \<noteq> []) evs" "\<forall>ev \<in> set evs. udpEventOk s ev" "length hist + publicationsIn evs < limit0"
  obtains ms out s' gs where "runUdp evs s = Ret (ms, out, s')" "restful r (hist @ ms) s'" "sameEnd s s'"
    "grouped (unat (usMtu s)) (drop (udpPosition s) (take (udpPosition s') (hist @ ms))) gs" "udpPosition s \<le> udpPosition s'"
    "goesOut s (\<lambda>k. \<forall>ev \<in> set evs. takesAll s k ev) out gs"
proof -
  have "\<exists>ms out s' gs. runUdp evs s = Ret (ms, out, s') \<and> restful r (hist @ ms) s' \<and> sameEnd s s' \<and>
      grouped (unat (usMtu s)) (drop (udpPosition s) (take (udpPosition s') (hist @ ms))) gs \<and> udpPosition s \<le> udpPosition s' \<and>
      goesOut s (\<lambda>k. \<forall>ev \<in> set evs. takesAll s k ev) out gs"
    using assms
  proof (induction evs arbitrary: hist s)
    case Nil
    have "grouped (unat (usMtu s)) (drop (udpPosition s) (take (udpPosition s) hist)) []" by (simp add: grouped_def)
    then show ?case using Nil.prems(1) by (intro exI [of _ "[]"] exI [of _ s]) (simp add: goesOut_def datagramsTo_def)
  next
    case (Cons ev evs)
    show ?case
    proof (cases ev)
      case (UdpPublish ps)
      have len: "length hist + length ps < limit0" using Cons.prems(4) by (simp add: UdpPublish publicationsIn_def)
      have ok: "udpEventOk s (UdpPublish ps)" using Cons.prems(3) by (simp add: UdpPublish)
      obtain ms s1 where P: "publishAll ps s = Ret (ms, s1)" "restful r (hist @ ms) s1" "sameEnd s s1" "length ms \<le> length ps"
        "udpPosition s1 = udpPosition s"
        by (rule publish_rest [OF Cons.prems(1) ok len])
      have "readyInTime (hist @ ms \<noteq> []) evs"
        by (rule readyInTime_mono [of "hist \<noteq> [] \<or> ps \<noteq> []"]) (use Cons.prems(2) P(4) UdpPublish in auto)
      moreover have "\<forall>ev \<in> set evs. udpEventOk s1 ev" using Cons.prems(3) udpEventOk_same [OF P(3)] by simp
      moreover have "length (hist @ ms) + publicationsIn evs < limit0"
        using Cons.prems(4) P(4) by (simp add: UdpPublish publicationsIn_def)
      ultimately obtain ms' out s' gs where R: "runUdp evs s1 = Ret (ms', out, s')" "restful r ((hist @ ms) @ ms') s'" "sameEnd s1 s'"
        "grouped (unat (usMtu s1)) (drop (udpPosition s1) (take (udpPosition s') ((hist @ ms) @ ms'))) gs" "udpPosition s1 \<le> udpPosition s'"
        "goesOut s1 (\<lambda>k. \<forall>ev \<in> set evs. takesAll s1 k ev) out gs"
        using Cons.IH [OF P(2)] by blast
      have "goesOut s (\<lambda>k. \<forall>ev \<in> set (ev # evs). takesAll s k ev) out gs"
        using R(6) P(3) takesAll_same [OF P(3)] by (simp add: goesOut_def sameEnd_def)
      then show ?thesis
        using P R sameEnd_trans [OF P(3) R(3)]
        by (intro exI [of _ "ms @ ms'"] exI [of _ out] exI [of _ s'] exI [of _ gs]) (simp add: UdpPublish sameEnd_def)
    next
      case (UdpTurn ps rdy clock res)
      have len: "length hist + length ps < limit0" using Cons.prems(4) by (simp add: UdpTurn publicationsIn_def)
      have ok: "rdy \<or> hist = [] \<and> ps = []" "udpEventOk s (UdpTurn ps rdy clock res)" using Cons.prems(2,3) by (auto simp: UdpTurn)
      obtain ms s1 again out s2 gs where T: "publishAll ps (udpRefill s) = Ret (ms, s1)" "udpRest rdy clock res s1 = Ret (again, out, s2)"
        "restful r (hist @ ms) s2" "sameEnd s s2" "length ms \<le> length ps" "udpPosition s \<le> udpPosition s2"
        "grouped (unat (usMtu s)) (drop (udpPosition s) (take (udpPosition s2) (hist @ ms))) gs" "out = sentInTurn (usDests s) res gs"
        "length gs \<le> unat (usMaxSendBatch s)"
        by (rule turn_step [OF Cons.prems(1) ok len])
      have "readyInTime (hist @ ms \<noteq> []) evs"
        by (rule readyInTime_mono [of "hist \<noteq> [] \<or> ps \<noteq> []"]) (use Cons.prems(2) T(5) UdpTurn in auto)
      moreover have "\<forall>ev \<in> set evs. udpEventOk s2 ev" using Cons.prems(3) udpEventOk_same [OF T(4)] by simp
      moreover have "length (hist @ ms) + publicationsIn evs < limit0"
        using Cons.prems(4) T(5) by (simp add: UdpTurn publicationsIn_def)
      ultimately obtain ms' out' s' gs' where R: "runUdp evs s2 = Ret (ms', out', s')" "restful r ((hist @ ms) @ ms') s'" "sameEnd s2 s'"
        "grouped (unat (usMtu s2)) (drop (udpPosition s2) (take (udpPosition s') ((hist @ ms) @ ms'))) gs'" "udpPosition s2 \<le> udpPosition s'"
        "goesOut s2 (\<lambda>k. \<forall>ev \<in> set evs. takesAll s2 k ev) out' gs'"
        using Cons.IH [OF T(3)] by blast
      have dist: "distinct (usDests s)" using Cons.prems(1) by (simp add: restful_def)
      have "goesOut s (\<lambda>k. \<forall>ev \<in> set evs. takesAll s k ev) out' gs'"
        using R(6) T(4) takesAll_same [OF T(4)] by (simp add: goesOut_def sameEnd_def)
      from goesOut_append [OF goesOut_turn [OF dist T(9), of ps rdy clock res] this]
      have go: "goesOut s (\<lambda>k. \<forall>ev \<in> set (ev # evs). takesAll s k ev) (out @ out') (gs @ gs')"
        unfolding T(8) by (simp add: UdpTurn)
      note pos = restful_position [OF T(3)]
      have "grouped (unat (usMtu s)) (drop (udpPosition s2) (take (udpPosition s') (hist @ ms @ ms'))) gs'"
        using R(4) T(4) by (simp add: sameEnd_def)
      from grouped_append [OF T(7) this] slice_split [OF T(6) R(5), of "hist @ ms @ ms'"] pos
      have "grouped (unat (usMtu s)) (drop (udpPosition s) (take (udpPosition s') (hist @ ms @ ms'))) (gs @ gs')" by simp
      then show ?thesis
        using T(1,2,6) R(1,2,5) go sameEnd_trans [OF T(4) R(3)]
        by (intro exI [of _ "ms @ ms'"] exI [of _ "out @ out'"] exI [of _ s'] exI [of _ "gs @ gs'"]) (simp add: UdpTurn)
    qed
  qed
  then show ?thesis using that by blast
qed


section \<open>The sender\<close>

text \<open>
  A sender as it is made, over a ring whose slots have room for its messages, and what happens to
  it: the socket is ready once something is published, the bodies are within the limits, no
  destination fails.
\<close>

definition udpStarted :: "nat \<Rightarrow> UdpSend \<Rightarrow> UdpEvent list \<Rightarrow> bool" where
  "udpStarted r s evs \<longleftrightarrow>
     (\<exists>junk v b rt maxSize batch mtu dests. newMemRingBuffer0 junk v r = Ret b \<and>
        (\<forall>k. length (slotData (junk k)) + seqBytes = 2 ^ v) \<and> maxSize + 9 \<le> VALUE_TYPE_SIZE0 b \<and> raterOff rt \<and>
        newUdpSend maxSize b rt batch mtu dests = Ret s \<and> distinct dests \<and> batch \<noteq> 0) \<and>
     unat (usMtu s) < 2 ^ 63 \<and> readyInTime False evs \<and> (\<forall>ev \<in> set evs. udpEventOk s ev) \<and> publicationsIn evs < limit0"

lemma udp_start:
  assumes "udpStarted r s evs"
  shows "restful r [] s" "udpPosition s = 0"
proof -
  obtain junk v b rt maxSize batch mtu dests where B: "newMemRingBuffer0 junk v r = Ret b"
    "\<forall>k. length (slotData (junk k)) + seqBytes = 2 ^ v" "maxSize + 9 \<le> VALUE_TYPE_SIZE0 b" "raterOff rt"
    "newUdpSend maxSize b rt batch mtu dests = Ret s" "distinct dests" "batch \<noteq> 0" "unat (usMtu s) < 2 ^ 63"
    using assms by (auto simp: udpStarted_def)
  have "3 \<le> v"
  proof (rule ccontr)
    assume "\<not> 3 \<le> v"
    then have "v = 0 \<or> v = 1 \<or> v = 2" by linarith
    then show False using spec [OF B(2), of 0] by auto
  qed
  note Q = newMemRingBuffer0_spec [OF B(1) this spec [OF B(2)]]
  have s: "s = \<lparr>usMaxMessageSize = maxSize, usBegin = nullIterator, usIt = nullIterator, usEnd = nullIterator,
      usBuffer = b, usRater = rt, usMaxSendBatch = batch, usMtu = mtu - (8 + 20), usMsgs = [], usHead = 0,
      usPkts = [], usNames = replicate (unat batch) (Some 0), usDests = dests\<rparr>" "dests \<noteq> []"
    "maxSize + 9 \<le> unat (usMtu s)"
    using B(5) by (auto simp: newUdpSend_def split: if_splits)
  have rd: "read0 b = 0" "claimed0 b = 0" using Q queue_invD(3) [OF Q(1)] by simp_all
  have "udpInv r [] 0 0 0 s"
    unfolding udpInv_def using Q B s(3) rd
    by (simp add: s(1) nullIterator_def namesOk_def holdsFrom_def limit0_def unat_gt_0)
  then show "restful r [] s" using s(2) B(6) by (auto simp: restful_def s(1) unladen_def)
  show "udpPosition s = 0" by (simp add: udpPosition_def s(1) nullIterator_def)
qed

lemma udp_started_run:
  assumes "udpStarted r s evs"
  obtains ms out s' gs where "runUdp evs s = Ret (ms, out, s')" "restful r ms s'" "sameEnd s s'"
    "grouped (unat (usMtu s)) (take (udpPosition s') ms) gs" "goesOut s (\<lambda>k. \<forall>ev \<in> set evs. takesAll s k ev) out gs"
proof -
  have A: "readyInTime ([] \<noteq> ([] :: bytes list)) evs" "\<forall>ev \<in> set evs. udpEventOk s ev"
    "length ([] :: bytes list) + publicationsIn evs < limit0"
    using assms by (simp_all add: udpStarted_def)
  note S = udp_start [OF assms]
  show ?thesis
    by (rule udp_run_lemma [OF S(1) A]) (use S(2) that in simp)
qed


text \<open>A sender with a ring of two slots, two destinations and room for a message in each datagram.\<close>

definition demoUdp :: UdpSend where
  "demoUdp = (case newUdpSend 20 demoRing demoRater 4 60 [1, 2] of Ret s \<Rightarrow> s)"

definition demoTurn :: "publication list \<Rightarrow> bool \<Rightarrow> nat \<Rightarrow> UdpEvent" where
  "demoTurn ps rdy n = UdpTurn ps rdy (\<lambda>_. SysTime 0) (\<lambda>k. if k = 0 then Takes 4 else Takes n)"

lemma demo_udp:
  assumes "readyInTime False evs" "\<forall>ev \<in> set evs. udpEventOk demoUdp ev" "publicationsIn evs < limit0"
  shows "udpStarted 1 demoUdp evs"
proof -
  have "case newMemRingBuffer0 demoJunk 6 1 of Ret b \<Rightarrow> VALUE_TYPE_SIZE0 b = 56 | _ \<Rightarrow> False" by code_simp
  then have ring: "newMemRingBuffer0 demoJunk 6 1 = Ret demoRing" "VALUE_TYPE_SIZE0 demoRing = 56"
    by (simp_all add: demoRing_def split: outcome.splits)
  have new: "newUdpSend 20 demoRing demoRater 4 60 [1, 2] = Ret demoUdp" by (simp add: demoUdp_def newUdpSend_def)
  have "raterOff demoRater" by (simp add: raterOff_def demoRater_def)
  moreover have "unat (usMtu demoUdp) < 2 ^ 63" by (simp add: demoUdp_def newUdpSend_def)
  ultimately show ?thesis
    unfolding udpStarted_def using assms ring new
    by (intro conjI exI [of _ demoJunk] exI [of _ "6 :: nat"] exI [of _ demoRing] exI [of _ demoRater] exI [of _ "20 :: nat"]
        exI [of _ "4 :: u64"] exI [of _ "60 :: u64"] exI [of _ "[1, 2] :: nat list"]) (simp_all add: demoJunk_def)
qed

lemma demo_udp_parts: "usMaxMessageSize demoUdp = 20" "usDests demoUdp = [1, 2]" "usMaxSendBatch demoUdp = 4" "usMtu demoUdp = 32"
  by (simp_all add: demoUdp_def newUdpSend_def)





text \<open>A call that finds the socket ready.\<close>

lemma resumeSend_step:
  assumes "\<forall>f. \<forall>k < length (usDests s). res f k \<noteq> Unreachable"
  shows "restful r hist s \<Longrightarrow> length hist - udpPosition s < fuel \<Longrightarrow>
    \<exists>out s' gs. resumeSend fuel True clock res s = Ret (out, s') \<and> restful r hist s' \<and> udpPosition s' = length hist \<and>
      grouped (unat (usMtu s)) (drop (udpPosition s) hist) gs \<and> goesOut s (\<lambda>k. \<forall>f. unat (usMaxSendBatch s) \<le> taken (res f k)) out gs"
  using assms
proof (induction fuel arbitrary: s)
  case (Suc fuel)
  have ok: "udpEventOk s (UdpTurn [] True (clock fuel) (res fuel))" using Suc.prems(3) by (simp add: udpEventOk_def)
  have len: "length hist + length ([] :: publication list) < limit0" using restful_small [OF Suc.prems(1)] by simp
  obtain ms s1 again out s2 gs where T: "publishAll [] (udpRefill s) = Ret (ms, s1)"
    "udpRest True (clock fuel) (res fuel) s1 = Ret (again, out, s2)"
    "restful r (hist @ ms) s2" "sameEnd s s2" "length ms \<le> length ([] :: publication list)" "udpPosition s \<le> udpPosition s2"
    "grouped (unat (usMtu s)) (drop (udpPosition s) (take (udpPosition s2) (hist @ ms))) gs" "out = sentInTurn (usDests s) (res fuel) gs"
    "length gs \<le> unat (usMaxSendBatch s)" "udpPosition s2 = udpPosition s + min (unat (usMaxSendBatch s)) (length hist - udpPosition s)"
    "again \<longleftrightarrow> udpPosition s < length hist"
    by (rule turn_step [OF Suc.prems(1) disjI1 [OF TrueI] ok len])
  have s1: "ms = []" "s1 = udpRefill s" using T(1) by simp_all
  have dist: "distinct (usDests s)" and batch: "0 < unat (usMaxSendBatch s)"
    using Suc.prems(1) by (auto simp: restful_def dest: udpInvD(19))
  let ?w = "\<lambda>k. \<forall>f. unat (usMaxSendBatch s) \<le> taken (res f k)"
  have go: "goesOut s ?w out gs"
    using goesOut_turn [OF dist T(9), of "[]" True "clock fuel" "res fuel"] unfolding T(8) by (simp add: goesOut_def takesAll_def)
  show ?case
  proof (cases "udpPosition s < length hist")
    case False
    then have "udpPosition s2 = length hist" using T(10) restful_position [OF Suc.prems(1)] by simp
    then show ?thesis using T(2,3,7) go False T(11) s1 by (intro exI [of _ out] exI [of _ s2] exI [of _ gs]) simp
  next
    case True
    have "length hist - udpPosition s2 < fuel" using True T(10) batch Suc.prems(2) by (auto simp: min_def split: if_splits)
    moreover have "restful r hist s2" using T(3) s1 by simp
    moreover have "\<forall>f. \<forall>k < length (usDests s2). res f k \<noteq> Unreachable" using Suc.prems(3) T(4) by (simp add: sameEnd_def)
    ultimately obtain out' s' gs' where R: "resumeSend fuel True clock res s2 = Ret (out', s')" "restful r hist s'"
      "udpPosition s' = length hist" "grouped (unat (usMtu s2)) (drop (udpPosition s2) hist) gs'"
      "goesOut s2 (\<lambda>k. \<forall>f. unat (usMaxSendBatch s2) \<le> taken (res f k)) out' gs'"
      using Suc.IH [of s2] by blast
    have "goesOut s ?w out' gs'" using R(5) T(4) by (simp add: goesOut_def sameEnd_def)
    from goesOut_append [OF go this, of ?w] have both: "goesOut s ?w (out @ out') (gs @ gs')" by simp
    have "udpPosition s2 \<le> length hist" using restful_position [OF T(3)] s1 by simp
    then have "drop (udpPosition s) (take (udpPosition s2) hist) @ drop (udpPosition s2) hist = drop (udpPosition s) hist"
      using slice_split [OF T(6), of "length hist" hist] by simp
    then have "grouped (unat (usMtu s)) (drop (udpPosition s) hist) (gs @ gs')"
      using s1 T(4) R(4) grouped_append [OF T(7), of "drop (udpPosition s2) hist" gs'] by (simp add: sameEnd_def)
    then show ?thesis
      using T(2) R(1-3) both True T(11) s1 by (intro exI [of _ "out @ out'"] exI [of _ s'] exI [of _ "gs @ gs'"]) simp
  qed
qed simp

text \<open>C37: one call that finds the socket ready sends all that was published and returns: so many iterations
  as there are messages and one put an end to it.\<close>

lemma udp_drains:
  assumes "udpStarted r s evs" "runUdp evs s = Ret (ms, out, s1)" "length ms - udpPosition s1 < fuel"
    "\<forall>f. \<forall>k < length (usDests s). res f k \<noteq> Unreachable"
  shows "\<exists>out' s2 gs. resumeSend fuel True clock res s1 = Ret (out', s2) \<and> udpPosition s2 = length ms \<and>
     grouped (unat (usMtu s)) (drop (udpPosition s1) ms) gs \<and>
     (\<forall>k < length (usDests s). (\<forall>f. unat (usMaxSendBatch s) \<le> taken (res f k)) \<longrightarrow>
        datagramsTo (usDests s ! k) out' = map concat gs)"
proof -
  have R: "restful r ms s1" "sameEnd s s1" using assms(2) by (auto intro: udp_started_run [OF assms(1)])
  have "\<forall>f. \<forall>k < length (usDests s1). res f k \<noteq> Unreachable" using assms(4) R(2) by (simp add: sameEnd_def)
  from resumeSend_step [OF this R(1) assms(3), of clock] R(2) show ?thesis
    by (auto simp: goesOut_def sameEnd_def)
qed


lemma udp_drains_witness:
  "\<exists>ms out s1 out' s2 gs. runUdp [UdpPublish [(0, 1001, [8]), (0, 1001, [9])]] demoUdp = Ret (ms, out, s1) \<and>
     resumeSend 3 True (\<lambda>_ _. SysTime 0) (\<lambda>_ _. Takes 4) s1 = Ret (out', s2) \<and> length ms = 2 \<and> udpPosition s2 = 2 \<and>
     grouped 32 ms gs \<and> datagramsTo 2 out' = map concat gs"
proof -
  let ?evs = "[UdpPublish [(0, 1001, [8]), (0, 1001, [9])]]"
  have started: "udpStarted 1 demoUdp ?evs"
    by (rule demo_udp) (simp_all add: udpEventOk_def sendable_def demo_udp_parts publicationsIn_def limit0_def)
  have C: "case runUdp ?evs demoUdp of Ret (ms, out, s1) \<Rightarrow> length ms = 2 \<and> udpPosition s1 = 0 | _ \<Rightarrow> False" by code_simp
  obtain ms out s1 where R: "runUdp ?evs demoUdp = Ret (ms, out, s1)"
    by (rule udp_started_run [OF started]) blast
  note C = C [unfolded R outcome.case prod.case]
  have len: "length ms - udpPosition s1 < 3" using C by simp
  have res: "\<forall>f :: nat. \<forall>k < length (usDests demoUdp). Takes 4 \<noteq> Unreachable" by simp
  obtain out' s2 gs where "resumeSend 3 True (\<lambda>_ _. SysTime 0) (\<lambda>_ _. Takes 4) s1 = Ret (out', s2)" "udpPosition s2 = length ms"
    "grouped (unat (usMtu demoUdp)) (drop (udpPosition s1) ms) gs"
    "\<forall>k < length (usDests demoUdp). (\<forall>f :: nat. unat (usMaxSendBatch demoUdp) \<le> taken (Takes 4)) \<longrightarrow>
       datagramsTo (usDests demoUdp ! k) out' = map concat gs"
    using udp_drains [OF started R len res, of "\<lambda>_ _. SysTime 0"] by blast
  moreover from this have "datagramsTo 2 out' = map concat gs" by (auto simp: demo_udp_parts)
  ultimately show ?thesis
    using R C by (intro exI [of _ ms] exI [of _ out] exI [of _ s1] exI [of _ out'] exI [of _ s2] exI [of _ gs])
      (simp add: demo_udp_parts del: runUdp.simps)
qed

section \<open>The receiver\<close>



section \<open>Both ends\<close>







section \<open>Where the transport fails\<close>

text \<open>C39: a turn that finds the socket not ready keeps pointers to the messages it packed, and the next turn
  gives their slots back before it sends. What publishers write there meanwhile goes out in their
  place: two messages are lost, two others are sent twice.\<close>

lemma udp_unready_replaces:
  "\<exists>out s'. runUdp [UdpPublish [(0, 1001, [65]), (0, 1001, [66])], demoTurn [] False 4,
       demoTurn [(0, 1001, [67]), (0, 1001, [68])] True 4, demoTurn [] True 4] demoUdp =
       Ret ([udpWrap 0 0 1001 [65], udpWrap 0 0 1001 [66], udpWrap 0 0 1001 [67], udpWrap 0 0 1001 [68]], out, s') \<and>
     datagramsTo 1 out = [udpWrap 0 0 1001 [67] @ udpWrap 0 0 1001 [68], udpWrap 0 0 1001 [67] @ udpWrap 0 0 1001 [68]]"
proof -
  let ?run = "runUdp [UdpPublish [(0, 1001, [65]), (0, 1001, [66])], demoTurn [] False 4,
       demoTurn [(0, 1001, [67]), (0, 1001, [68])] True 4, demoTurn [] True 4] demoUdp"
  have "case ?run of Ret (ms, out, s') \<Rightarrow>
      ms = [udpWrap 0 0 1001 [65], udpWrap 0 0 1001 [66], udpWrap 0 0 1001 [67], udpWrap 0 0 1001 [68]] \<and>
      datagramsTo 1 out = [udpWrap 0 0 1001 [67] @ udpWrap 0 0 1001 [68], udpWrap 0 0 1001 [67] @ udpWrap 0 0 1001 [68]]
    | _ \<Rightarrow> False"
    by code_simp
  then show ?thesis by (cases ?run) (auto simp del: runUdp.simps)
qed

text \<open>A message that is too big is refused, but its slot stays claimed: nothing that is published after
  it is sent any more, and soon there is no room.\<close>

lemma udp_oversized_blocks:
  "\<exists>s1 s2. udpTryQueue 0 1001 (replicate 21 7) demoUdp = Ret (TooBig, s1) \<and>
     runUdp [UdpPublish [(0, 1001, [65]), (0, 1001, [66])], demoTurn [] True 4, UdpPublish [(0, 1001, [67])], demoTurn [] True 4] s1 =
       Ret ([udpWrap 0 0 1001 [65]], [], s2)"
proof -
  let ?run = "runUdp [UdpPublish [(0, 1001, [65]), (0, 1001, [66])], demoTurn [] True 4, UdpPublish [(0, 1001, [67])], demoTurn [] True 4]"
  have C: "case udpTryQueue 0 1001 (replicate 21 7) demoUdp of
      Ret (answer, s1) \<Rightarrow> answer = TooBig \<and> (case ?run s1 of Ret (ms, out, s2) \<Rightarrow> ms = [udpWrap 0 0 1001 [65]] \<and> out = [] | _ \<Rightarrow> False)
    | _ \<Rightarrow> False"
    by code_simp
  then obtain answer s1 where Q: "udpTryQueue 0 1001 (replicate 21 7) demoUdp = Ret (answer, s1)"
    by (cases "udpTryQueue 0 1001 (replicate 21 7) demoUdp") auto
  from C [unfolded Q outcome.case prod.case] show ?thesis
    unfolding Q by (cases "?run s1") (auto simp del: runUdp.simps)
qed

text \<open>A datagram of three zero bytes is read as messages whose tag lies behind its end, in what an earlier
  datagram left: an item that nobody sent is put out.\<close>

lemma udp_short_datagram_forges:
  "\<exists>v. resumeRead [Datagram (udpWrap 0 0 1001 [7, 8]), Datagram [0, 0, 0]] (newUdpRecv demoTags 48 (replicate 32 0)) = Ret v \<and>
     urOut v = [drop 1 (udpWrap 0 0 1001 [7, 8]), []]"
proof -
  let ?run = "resumeRead [Datagram (udpWrap 0 0 1001 [7, 8]), Datagram [0, 0, 0]] (newUdpRecv demoTags 48 (replicate 32 0))"
  have "case ?run of Ret v \<Rightarrow> urOut v = [drop 1 (udpWrap 0 0 1001 [7, 8]), []] | _ \<Rightarrow> False" by code_simp
  then show ?thesis by (cases ?run) (auto simp del: resumeRead.simps)
qed

text \<open>Erasing a destination leaves as many as there were; the last one is not erased at all.\<close>

lemma eraseDest_length: "length (usDests (eraseDest d s)) = length (usDests s)"
  by (simp add: eraseDest_def stdRemove_def Let_def)

lemma eraseDest_last:
  assumes "distinct (ds @ [d])" "usDests s = ds @ [d]"
  shows "usDests (eraseDest d s) = usDests s"
proof -
  have "filter (\<lambda>y. y \<noteq> d) ds = ds" using assms(1) by (auto simp: filter_id_conv)
  then show ?thesis using assms(2) by (simp add: eraseDest_def stdRemove_def Let_def)
qed

end
