(* ===== verification/McastSend.thy ===== *)
theory McastSend
  imports BackupSendSession MemRingBuffer AttachmentTrain Rater
begin

text \<open>
  The sending end of the reliable multicast: \<^verbatim>\<open>hmbdc/tips/rmcast/SendTransportEngine.hpp\<close>, the ring
  and the publishers, \<^verbatim>\<open>rmcast/McSendTransport.hpp\<close>, which multicasts what is in the ring, and
  \<^verbatim>\<open>reliable/BackupSendServerT.hpp\<close>, which keeps the sessions that send messages again. Reader 0 of
  the ring is the multicast, reader 1 stands at the oldest message a session may ask for. Sockets and
  clock are the environment.
\<close>

section \<open>Objects in the ring\<close>

text \<open>
  What a slot holds: the message as it goes out (the body of a segment is what its pointer points to)
  and the members of a train's head the sender itself looks at.
\<close>

record SlotMessage =
  smWire :: WireMessage
  smSegCount :: u64
  smCleanup :: bool

definition plainObject :: "u64 \<Rightarrow> u16 \<Rightarrow> bytes \<Rightarrow> SlotMessage" where
  "plainObject sq tag body =
     \<lparr>smWire = \<lparr>wFlag = 0, wSeq = take_bit 48 sq, wTag = tag, wBody = body, wInband = 0\<rparr>, smSegCount = 0, smCleanup = False\<rparr>"

text \<open>
  A message of a train in its slot. \<open>raw\<close> gives the bytes of an object in memory, pointers included.
\<close>

definition objectOf :: "(Payload \<Rightarrow> nat \<Rightarrow> u8) \<Rightarrow> TransportMessage \<Rightarrow> SlotMessage" where
  "objectOf raw h =
     (let w = \<lparr>wFlag = thFlag h, wSeq = seqField h, wTag = typeTag h,
               wBody = map (raw (thPayload h)) [0..<unat (messagePayloadLen h) - 8], wInband = 0\<rparr>
      in case thPayload h of
           MemorySeg seg l tag \<Rightarrow> \<lparr>smWire = w\<lparr>wBody := take (unat l) seg, wInband := tag\<rparr>, smSegCount = 0, smCleanup = False\<rparr>
         | StartMemorySegTrain tag att n \<Rightarrow> \<lparr>smWire = w\<lparr>wInband := tag\<rparr>, smSegCount = n, smCleanup = attCleanup att\<rparr>
         | _ \<Rightarrow> \<lparr>smWire = w, smSegCount = 0, smCleanup = False\<rparr>)"

text \<open>\<^verbatim>\<open>sizeof(TransportMessageHeader) + messagePayloadLen\<close>, the latter of 16 bits.\<close>

definition wmSize :: "WireMessage \<Rightarrow> nat" where
  "wmSize m = 3 + (8 + length (wBody m)) mod 2 ^ 16"

section \<open>State\<close>

text \<open>
  Where an entry of \<^verbatim>\<open>toSendMsgs_\<close> points: into the advertisements (those of a generation: \<^verbatim>\<open>setAds\<close>
  frees the buffers of the one before), to the sequence alert, to a slot, or into an attachment.
\<close>

datatype McPiece = AdAt nat nat | AlertBuf | MsgAt u64 nat | SegHeadAt u64 | SegBytes bytes

text \<open>
  \<open>mcBuffer\<close> has the positions of the ring, \<open>mcObjects\<close> the object in each of its slots. An entry of
  \<open>mcCleanup\<close> is the sequence number of a message with an attachment, the slot it is in, and whether
  there is a function to call.
\<close>

record McSend =
  mcBuffer :: MemRingBuffer
  mcObjects :: "u64 \<Rightarrow> SlotMessage"
  mcRater :: Rater
  mcMaxMessageSize :: nat
  mcMtu :: u64
  mcMaxSendBatch :: u64
  mcAdBufs :: "bytes list"
  mcAdGeneration :: nat
  mcAdPending :: bool
  mcAlertPending :: bool
  mcAlertFlag :: u8
  mcExpectSeq :: u64
  mcStartSending :: bool
  mcToSend :: "McPiece list"
  mcWaste :: u64
  mcCleanup :: "(u64 \<times> u64 \<times> bool) list"

text \<open>An advertisement, \<^verbatim>\<open>TypeTagBackupSource\<close>.\<close>

record Advert =
  adIp :: string
  adPort :: u16
  adTags :: "u16 list"
  adDelay :: Duration
  adTime :: SysTime
  adLoopback :: bool
  adPid :: u32

text \<open>
  The engine: the transport, the server (\<open>me\<close> fields up to \<open>meAds\<close>) and its own members. \<^verbatim>\<open>sessions_\<close>
  is an unordered set; the list is the order in which it is walked. \<open>meAdBase\<close> is an advertisement
  without tags.
\<close>

record McEngine = McSend +
  meSessions :: "BackupSendSession list"
  meLeast :: u64
  meReplay :: u64
  meOut :: TypeTagSet
  meAdBase :: Advert
  meAds :: "Advert list"
  meMinRecv :: u64
  meLastBackup :: u64
  meWaitForSlow :: bool
  meMaxSeg :: u16
  meTags :: TypeTagSetST
  meAdsDirty :: bool

text \<open>The constructors; \<open>mtu\<close> is the configured one, less 28 bytes for the headers.\<close>

definition newMcEngine ::
    "MemRingBuffer \<Rightarrow> (u64 \<Rightarrow> SlotMessage) \<Rightarrow> Rater \<Rightarrow> nat \<Rightarrow> u64 \<Rightarrow> u64 \<Rightarrow> nat \<Rightarrow> u64 \<Rightarrow> u64 \<Rightarrow> bool \<Rightarrow> Advert \<Rightarrow> u8 \<times> u64 \<Rightarrow> McEngine outcome" where
  "newMcEngine b objs rt maxSize mtu batch burst replay minRecv waits base junk =
     (if unat (mtu - (8 + 20)) < maxSize + (8 + 3) then Throw OutOfRange
      else if unat (mtu - (8 + 20)) < maxSize then Throw OutOfRange
      else if 1023 < maxSize then Throw OutOfRange
      else if burst \<noteq> 0 \<and> burst < maxSize + 3 then Throw OutOfRange
      else Ret \<lparr>mcBuffer = b, mcObjects = objs, mcRater = rt, mcMaxMessageSize = maxSize, mcMtu = mtu - (8 + 20),
                mcMaxSendBatch = batch, mcAdBufs = [], mcAdGeneration = 0, mcAdPending = False, mcAlertPending = False,
                mcAlertFlag = fst junk, mcExpectSeq = snd junk, mcStartSending = False, mcToSend = [], mcWaste = 0,
                mcCleanup = [], meSessions = [], meLeast = noSeq, meReplay = replay, meOut = newTypeTagSet, meAdBase = base,
                meAds = [], meMinRecv = minRecv, meLastBackup = noSeq, meWaitForSlow = waits,
                meMaxSeg = ucast (min (mtu - (8 + 20) - 3 - 8) (1023 - 8)), meTags = newTypeTagSetST, meAdsDirty = False\<rparr>)"

section \<open>Publishers\<close>

text \<open>\<^verbatim>\<open>*it\<close>, and objects constructed in consecutive slots.\<close>

definition objectAt :: "'a McSend_scheme \<Rightarrow> u64 \<Rightarrow> SlotMessage" where
  "objectAt e sq = mcObjects e (sq AND MASK (mcBuffer e))"

fun constructAll :: "u64 \<Rightarrow> SlotMessage list \<Rightarrow> 'a McSend_scheme \<Rightarrow> 'a McSend_scheme" where
  "constructAll sq [] e = e"
| "constructAll sq (m # ms) e =
     constructAll (sq + 1) ms (e\<lparr>mcObjects := (mcObjects e)(sq AND MASK (mcBuffer e) := m)\<rparr>)"

definition writeAndCommit :: "lf_iterator \<Rightarrow> SlotMessage list \<Rightarrow> 'a McSend_scheme \<Rightarrow> 'a McSend_scheme" where
  "writeAndCommit it ms e =
     (let e1 = constructAll (seq it) ms e in e1\<lparr>mcBuffer := commitN (mcBuffer e1) it (length ms)\<rparr>)"

datatype McAnswer = McUnwanted | McQueued | McFull

text \<open>
  A message without attachment. The size is looked at after the slot was claimed; the exception
  leaves the slot claimed, which the second component shows.
\<close>

definition mcPlace :: "u16 \<Rightarrow> bytes \<Rightarrow> lf_iterator \<Rightarrow> McEngine \<Rightarrow> (McAnswer + exn) \<times> McEngine" where
  "mcPlace tag body it e =
     (if length body \<le> mcMaxMessageSize e
      then (Inl McQueued, writeAndCommit it [plainObject (seq it) tag body] e)
      else (Inr OutOfRange, e))"

definition mcQueue :: "u16 \<Rightarrow> bytes \<Rightarrow> McEngine \<Rightarrow> ((McAnswer + exn) \<times> McEngine) outcome" where
  "mcQueue tag body e =
     (if tagCheck (meOut e) tag = 0 then Ret (Inl McUnwanted, e)
      else obind (claimN (mcBuffer e) 1) (\<lambda>(it, b). Ret (mcPlace tag body it (e\<lparr>mcBuffer := b\<rparr>))))"

definition mcTryQueue :: "u16 \<Rightarrow> bytes \<Rightarrow> McEngine \<Rightarrow> (McAnswer + exn) \<times> McEngine" where
  "mcTryQueue tag body e =
     (if tagCheck (meOut e) tag = 0 then (Inl McUnwanted, e)
      else case tryClaimN (mcBuffer e) 1 of (it, b) \<Rightarrow>
        if start it then mcPlace tag body it (e\<lparr>mcBuffer := b\<rparr>) else (Inl McFull, e\<lparr>mcBuffer := b\<rparr>))"

definition mcQueueBytes :: "u16 \<Rightarrow> bytes \<Rightarrow> McEngine \<Rightarrow> ((McAnswer + exn) \<times> McEngine) outcome" where
  "mcQueueBytes tag body e =
     (if tagCheck (meOut e) tag = 0 then Ret (Inl McUnwanted, e)
      else obind (claim (mcBuffer e)) (\<lambda>(it, b). Ret (mcPlace tag body it (e\<lparr>mcBuffer := b\<rparr>))))"

text \<open>
  A message with an attachment. \<open>szMsg\<close> is the size of the wrapped message; a wrapped train head has
  64 bytes, the members of a \<^verbatim>\<open>MemorySeg\<close> 12.
\<close>

definition trainSlots :: "u16 \<Rightarrow> u16 \<Rightarrow> MemoryAttachment \<Rightarrow> bytes \<Rightarrow> McEngine \<Rightarrow> Queued outcome" where
  "trainSlots szMsg tag att rest e =
     queueAttachment (tagCheck (meOut e) tag \<noteq> 0)
       (mcMaxMessageSize e < unat szMsg - 8 \<or> mcMaxMessageSize e < 12 \<or> mcMaxMessageSize e < 56)
       (CAPACITY (mcBuffer e)) (meMaxSeg e) 64 szMsg (toBeClaimedSeq (mcBuffer e)) tag att rest"

definition mcQueueTrain ::
    "(Payload \<Rightarrow> nat \<Rightarrow> u8) \<Rightarrow> u16 \<Rightarrow> u16 \<Rightarrow> MemoryAttachment \<Rightarrow> bytes \<Rightarrow> McEngine \<Rightarrow> (McAnswer \<times> McEngine) outcome" where
  "mcQueueTrain raw szMsg tag att rest e =
     obind (trainSlots szMsg tag att rest e) (\<lambda>q. case q of
       NotWanted a \<Rightarrow> Ret (McUnwanted, e)
     | Slots ms \<Rightarrow> obind (claimN (mcBuffer e) (trainLength (meMaxSeg e) (attLen att))) (\<lambda>(it, b).
         Ret (McQueued, writeAndCommit it (map (objectOf raw) ms) (e\<lparr>mcBuffer := b\<rparr>))))"

definition mcTryQueueTrain ::
    "(Payload \<Rightarrow> nat \<Rightarrow> u8) \<Rightarrow> u16 \<Rightarrow> u16 \<Rightarrow> MemoryAttachment \<Rightarrow> bytes \<Rightarrow> McEngine \<Rightarrow> (McAnswer \<times> McEngine) outcome" where
  "mcTryQueueTrain raw szMsg tag att rest e =
     obind (trainSlots szMsg tag att rest e) (\<lambda>q. case q of
       NotWanted a \<Rightarrow> Ret (McUnwanted, e)
     | Slots ms \<Rightarrow> (case tryClaimN (mcBuffer e) (trainLength (meMaxSeg e) (attLen att)) of (it, b) \<Rightarrow>
         if start it then Ret (McQueued, writeAndCommit it (map (objectOf raw) ms) (e\<lparr>mcBuffer := b\<rparr>))
         else Ret (McFull, e\<lparr>mcBuffer := b\<rparr>)))"

definition mcBufferedMessageCount :: "McEngine \<Rightarrow> u64" where
  "mcBufferedMessageCount e = remainingSize (mcBuffer e)"

end
