(* ===== verification/McastEngine.thy ===== *)
theory McastEngine
  imports McastSend
begin

text \<open>
  What the engine does with the ring: the transport multicasts the messages, the server runs the
  sessions that send them again and moves reader 1 up, and the engine drives both.
\<close>

section \<open>The multicast transport\<close>

definition startSend :: "'a McSend_scheme \<Rightarrow> 'a McSend_scheme" where
  "startSend e = e\<lparr>mcStartSending := True\<rparr>"

definition setAdPending :: "'a McSend_scheme \<Rightarrow> 'a McSend_scheme" where
  "setAdPending e = e\<lparr>mcAdPending := True\<rparr>"

definition setSeqAlertPending :: "'a McSend_scheme \<Rightarrow> 'a McSend_scheme" where
  "setSeqAlertPending e = e\<lparr>mcAlertPending := True\<rparr>"

text \<open>An advertisement on the wire; \<open>raw\<close> gives the bytes of the object.\<close>

definition adWire :: "(Advert \<Rightarrow> bytes) \<Rightarrow> Advert \<Rightarrow> bytes" where
  "adWire raw a = wireBytes \<lparr>wFlag = 0, wSeq = 0xffffffffffff, wTag = 453, wBody = raw a, wInband = 0\<rparr>"

definition setAds :: "(Advert \<Rightarrow> bytes) \<Rightarrow> Advert list \<Rightarrow> 'a McSend_scheme \<Rightarrow> 'a McSend_scheme" where
  "setAds raw ads e = e\<lparr>mcAdBufs := map (adWire raw) ads, mcAdGeneration := Suc (mcAdGeneration e)\<rparr>"

definition alertBytes :: "'a McSend_scheme \<Rightarrow> bytes" where
  "alertBytes e = wireBytes \<lparr>wFlag = mcAlertFlag e, wSeq = 0xffffffffffff, wTag = 456,
     wBody = leBytes 8 (unat (mcExpectSeq e)), wInband = 0\<rparr>"

text \<open>What \<^verbatim>\<open>sendmsg\<close> reads through an entry.\<close>

definition mcReadPiece :: "'a McSend_scheme \<Rightarrow> McPiece \<Rightarrow> bytes outcome" where
  "mcReadPiece e p = (case p of
     AdAt g i \<Rightarrow> if g = mcAdGeneration e \<and> i < length (mcAdBufs e) then Ret (mcAdBufs e ! i) else Undefined
   | AlertBuf \<Rightarrow> Ret (alertBytes e)
   | MsgAt i n \<Rightarrow> Ret (take n (wireBytes (smWire (mcObjects e i))))
   | SegHeadAt i \<Rightarrow> Ret (wireHeader (smWire (mcObjects e i)))
   | SegBytes b \<Rightarrow> Ret b)"

fun mcReadPieces :: "'a McSend_scheme \<Rightarrow> McPiece list \<Rightarrow> bytes outcome" where
  "mcReadPieces e [] = Ret []"
| "mcReadPieces e (p # ps) = obind (mcReadPiece e p) (\<lambda>a. obind (mcReadPieces e ps) (\<lambda>b. Ret (a @ b)))"

text \<open>
  The first part of the loop. \<open>ok\<close>: the socket is ready and \<^verbatim>\<open>sendmsg\<close> takes the datagram. The
  answer is whether to go on, and the datagram.
\<close>

definition mcSendmsg :: "bool \<Rightarrow> 'a McSend_scheme \<Rightarrow> (bool \<times> bytes option \<times> 'a McSend_scheme) outcome" where
  "mcSendmsg ok e =
     (if mcToSend e = [] then Ret (True, None, e)
      else if \<not> ok then Ret (False, None, e)
      else obind (mcReadPieces e (mcToSend e)) (\<lambda>d.
             obind (wasteAfterPeek (mcBuffer e) 0 (mcWaste e)) (\<lambda>b.
               Ret (True, Some d, e\<lparr>mcBuffer := b, mcToSend := [], mcWaste := 0\<rparr>))))"

definition mcPushAds :: "'a McSend_scheme \<Rightarrow> 'a McSend_scheme" where
  "mcPushAds e =
     (if mcAdPending e
      then e\<lparr>mcToSend := mcToSend e @ map (AdAt (mcAdGeneration e)) [0..<length (mcAdBufs e)], mcAdPending := False\<rparr> else e)"

text \<open>A message is put into the batch; the head of a train leaves a note for the clean-up.\<close>

definition mcPushItem :: "u64 \<Rightarrow> 'a McSend_scheme \<Rightarrow> 'a McSend_scheme" where
  "mcPushItem sq e =
     (let i = sq AND MASK (mcBuffer e); m = objectAt e sq; w = smWire m
      in if wTag w = 6 then e\<lparr>mcToSend := mcToSend e @ [SegHeadAt i, SegBytes (wBody w)]\<rparr>
         else if wTag w = 5
         then (let a = sq + (smSegCount m + 1)
               in e\<lparr>mcCleanup := pushCircular (unat (CAPACITY (mcBuffer e)) + 10) (mcCleanup e)
                                   (a, a AND MASK (mcBuffer e), smCleanup m),
                    mcToSend := mcToSend e @ [MsgAt i (wmSize w)]\<rparr>)
         else e\<lparr>mcToSend := mcToSend e @ [MsgAt i (wmSize w)]\<rparr>)"

text \<open>The loop over the messages peeked at, from \<open>it\<close> to \<open>en\<close>; it returns where it stopped.\<close>

function mcFill :: "(nat \<Rightarrow> SysTime) \<Rightarrow> u64 \<Rightarrow> u64 \<Rightarrow> u64 \<Rightarrow> 'a McSend_scheme \<Rightarrow> (u64 \<times> 'a McSend_scheme) outcome" where
  "mcFill clock it en batchBytes e =
     (if it = en then Ret (it, e)
      else let w = wmSize (smWire (objectAt e it)); bytes' = batchBytes + of_nat w
           in obind (checkRater (clock (unat (en - it))) w (mcRater e)) (\<lambda>(ok, rt).
                if \<not> ok \<or> mcMtu e < bytes' then Ret (it, e\<lparr>mcRater := rt\<rparr>)
                else obind (commitRater rt) (\<lambda>rt'.
                       mcFill clock (it + 1) en bytes' (mcPushItem it (e\<lparr>mcRater := rt', mcExpectSeq := it + 1\<rparr>)))))"
  by auto
termination
proof (relation "measure (\<lambda>(clock, it, en, n, e). unat (en - it))")
  fix it en n m :: u64 and e e' :: "'a McSend_scheme" and clock :: "nat \<Rightarrow> SysTime"
  assume "it \<noteq> en"
  then have "unat (en - (it + 1)) < unat (en - it)"
    using unat_minus_one [of "en - it"] by (simp add: diff_diff_eq unat_gt_0)
  then show "((clock, it + 1, en, m, e'), clock, it, en, n, e) \<in> measure (\<lambda>(clock, it, en, n, e). unat (en - it))" by simp
qed simp

declare mcFill.simps [simp del]

text \<open>Without a session what is in the ring is dropped.\<close>

definition mcBatch :: "nat \<Rightarrow> (nat \<Rightarrow> SysTime) \<Rightarrow> 'a McSend_scheme \<Rightarrow> 'a McSend_scheme outcome" where
  "mcBatch sessionCount clock e =
     (if mcStartSending e \<and> mcToSend e = []
      then obind (peek (mcBuffer e) 0 (mcMaxSendBatch e)) (\<lambda>(b, en, n).
             obind (if sessionCount = 0 then wasteAfterPeek (mcBuffer e) 0 (iterMinus en b) else Ret (mcBuffer e)) (\<lambda>buf.
               let it = (if sessionCount = 0 then seq en else seq b)
               in obind (mcFill clock it (seq en) 0 (e\<lparr>mcBuffer := buf\<rparr>)) (\<lambda>(it', e1). Ret (e1\<lparr>mcWaste := it' - it\<rparr>))))
      else Ret e)"

definition mcPushAlert :: "'a McSend_scheme \<Rightarrow> 'a McSend_scheme" where
  "mcPushAlert e =
     (if mcAlertPending e
      then e\<lparr>mcToSend := mcToSend e @ (if mcWaste e = 0 then [AlertBuf] else []), mcAlertPending := False\<rparr> else e)"

text \<open>One round of the loop in \<^verbatim>\<open>resumeSend\<close>; the answer is whether there is another.\<close>

definition mcTurn ::
    "bool \<Rightarrow> (nat \<Rightarrow> SysTime) \<Rightarrow> nat \<Rightarrow> 'a McSend_scheme \<Rightarrow> (bool \<times> bytes option \<times> 'a McSend_scheme) outcome" where
  "mcTurn ok clock sessionCount e =
     obind (mcSendmsg ok e) (\<lambda>(go, d, e1).
       if \<not> go then Ret (False, d, e1)
       else obind (mcBatch sessionCount clock (mcPushAds e1)) (\<lambda>e2.
              let e3 = mcPushAlert e2 in Ret (mcToSend e3 \<noteq> [], d, e3)))"

text \<open>The loop: \<open>oks\<close> says what \<^verbatim>\<open>sendmsg\<close> does in each round, and bounds their number.\<close>

fun mcResume ::
    "bool list \<Rightarrow> (nat \<Rightarrow> nat \<Rightarrow> SysTime) \<Rightarrow> nat \<Rightarrow> 'a McSend_scheme \<Rightarrow> (bytes list \<times> 'a McSend_scheme) outcome" where
  "mcResume [] clock n e = Spins"
| "mcResume (ok # oks) clock n e =
     obind (mcTurn ok (clock (length oks)) n e) (\<lambda>(again, d, e1).
       let out = (case d of None \<Rightarrow> [] | Some b \<Rightarrow> [b])
       in if again then obind (mcResume oks clock n e1) (\<lambda>(out', e2). Ret (out @ out', e2)) else Ret (out, e1))"

section \<open>Advertisements\<close>

definition addTypeTag :: "u16 \<Rightarrow> Advert \<Rightarrow> Advert option" where
  "addTypeTag tag a = (if length (adTags a) < 64 then Some (a\<lparr>adTags := adTags a @ [tag]\<rparr>) else None)"

text \<open>A new advertisement is begun when there is none or the last one is full.\<close>

definition advertiseTag :: "(nat \<Rightarrow> SysTime) \<Rightarrow> Advert \<Rightarrow> u16 \<Rightarrow> Advert list \<Rightarrow> Advert list" where
  "advertiseTag now base tag ads =
     (case (if ads = [] then None else addTypeTag tag (last ads)) of
        Some a \<Rightarrow> butlast ads @ [a]
      | None \<Rightarrow> ads @ [base\<lparr>adIp := take 15 (adIp base), adTags := [tag], adTime := now (length ads)\<rparr>])"

definition advertisingMessages :: "(nat \<Rightarrow> SysTime) \<Rightarrow> TypeTagSetST \<Rightarrow> McEngine \<Rightarrow> McEngine" where
  "advertisingMessages now tts e =
     e\<lparr>meAds := fold (\<lambda>(tag, c). advertiseTag now (meAdBase e) tag) (exportST tts) []\<rparr>"

section \<open>The server of the sessions\<close>

datatype McAccept = NoConnection | AcceptFails | Connected bool

text \<open>
  A new session starts at reader 1 and tells its peer so. When that fails (the flag) the exception
  is caught and the session forgotten.
\<close>

definition mcAccept :: "McAccept \<Rightarrow> u8 \<Rightarrow> McEngine \<Rightarrow> (bytes \<times> McEngine) outcome" where
  "mcAccept a junk e =
     (case a of
        Connected started \<Rightarrow>
          (case peek (mcBuffer e) 1 0 of
             Ret (it, en, n) \<Rightarrow>
               if started
               then Ret (leBytes 8 (unat (seq it)),
                         e\<lparr>meSessions := meSessions e @
                              [newBackupSendSession (seq it) (mcMaxSendBatch e) (unat (CAPACITY (mcBuffer e))) junk]\<rparr>)
               else Ret ([], e)
           | Throw x \<Rightarrow> Ret ([], e)
           | Spins \<Rightarrow> Spins
           | Undefined \<Rightarrow> Undefined)
      | _ \<Rightarrow> Ret ([], e))"

text \<open>What the socket of a session says in a run.\<close>

record PeerInput =
  siRead :: "string RecvResult"
  siWritable :: bool
  siWrites :: "SendResult list"

text \<open>
  The sessions in turn; \<open>least\<close> becomes the smallest position of those that stay. The input of a
  session is found by the number of sessions from it on.
\<close>

fun mcRunSessions ::
    "(u64 \<Rightarrow> WireMessage) \<Rightarrow> u64 \<Rightarrow> u64 \<Rightarrow> (nat \<Rightarrow> PeerInput) \<Rightarrow> BackupSendSession list \<Rightarrow> u64 \<Rightarrow> TypeTagSet
       \<Rightarrow> (bytes list \<times> BackupSendSession list \<times> u64 \<times> TypeTagSet) outcome" where
  "mcRunSessions ring cap readSeq0 inp [] least out = Ret ([], [], least, out)"
| "mcRunSessions ring cap readSeq0 inp (s # ss) least out =
     (let i = inp (length (s # ss)) in
      obind (sendSessionRunOnce ring cap readSeq0 (siRead i) (siWritable i) (siWrites i) s out) (\<lambda>(ok, bs, s1, out1).
        if ok
        then obind (mcRunSessions ring cap readSeq0 inp ss (if bufItNext s1 < least then bufItNext s1 else least) out1)
               (\<lambda>(bss, ss1, least1, out2). Ret (bs # bss, s1 # ss1, least1, out2))
        else obind (mcRunSessions ring cap readSeq0 inp ss least (retireSession s1 out1))
               (\<lambda>(bss, ss1, least1, out2). Ret (bs # bss, ss1, least1, out2))))"

text \<open>The attachments before \<open>newSeq\<close> are given back: the slots the functions are called with.\<close>

fun cleanUpTo :: "u64 \<Rightarrow> (u64 \<times> u64 \<times> bool) list \<Rightarrow> (u64 \<times> u64) list \<times> (u64 \<times> u64 \<times> bool) list" where
  "cleanUpTo newSeq [] = ([], [])"
| "cleanUpTo newSeq ((sq, i, f) # q) =
     (if sq < newSeq
      then case cleanUpTo newSeq q of (called, q') \<Rightarrow> ((if f then [(sq, i)] else []) @ called, q')
      else ([], (sq, i, f) # q))"

text \<open>What the sessions may still ask for begins \<open>meReplay\<close> messages before the slowest of them.\<close>

definition keepFrom :: "u64 \<Rightarrow> McEngine \<Rightarrow> u64" where
  "keepFrom least e = (if meReplay e < least then least - meReplay e else 0)"

definition moveUp :: "u64 \<Rightarrow> McEngine \<Rightarrow> ((u64 \<times> u64) list \<times> McEngine) outcome" where
  "moveUp newSeq e =
     (if meLeast e \<noteq> newSeq
      then case cleanUpTo newSeq (mcCleanup e) of (called, q) \<Rightarrow>
             obind (catchUpTo (mcBuffer e) 1 newSeq) (\<lambda>b. Ret (called, e\<lparr>mcCleanup := q, mcBuffer := b, meLeast := newSeq\<rparr>))
      else Ret ([], e))"

text \<open>\<^verbatim>\<open>runOnce\<close>: the bytes for a new peer, for each session, and the slots cleaned up.\<close>

definition mcServerRunOnce ::
    "McAccept \<Rightarrow> u8 \<Rightarrow> (nat \<Rightarrow> PeerInput) \<Rightarrow> McEngine \<Rightarrow> (bytes \<times> bytes list \<times> (u64 \<times> u64) list \<times> McEngine) outcome" where
  "mcServerRunOnce a junk inp e =
     obind (mcAccept a junk e) (\<lambda>(hello, e1).
       obind (mcRunSessions (\<lambda>sq. smWire (objectAt e1 sq)) (CAPACITY (mcBuffer e1)) (readSeqs (mcBuffer e1) ! 0) inp
                (meSessions e1) (readSeqs (mcBuffer e1) ! 0) (meOut e1)) (\<lambda>(bss, ss, least, out).
         obind (moveUp (keepFrom least e1) (e1\<lparr>meSessions := ss, meOut := out\<rparr>)) (\<lambda>(called, e2).
           Ret (hello, bss, called, e2))))"

definition serverStop :: "McEngine \<Rightarrow> (u64 \<times> u64) list \<times> McEngine" where
  "serverStop e = (map (\<lambda>(sq, i, f). (sq, i)) (filter (\<lambda>(sq, i, f). f) (mcCleanup e)), e\<lparr>mcCleanup := []\<rparr>)"

definition sessionCount :: "McEngine \<Rightarrow> nat" where
  "sessionCount e = length (meSessions e)"

definition mcReadyCount :: "McEngine \<Rightarrow> nat" where
  "mcReadyCount e = length (filter ready (meSessions e))"

text \<open>The first session with the smallest position is stopped and forgotten.\<close>

fun slowest :: "BackupSendSession list \<Rightarrow> nat" where
  "slowest [] = 0"
| "slowest [s] = 0"
| "slowest (s # t # ss) =
     (let j = slowest (t # ss) in if bufItNext ((t # ss) ! j) < bufItNext s then Suc j else 0)"

definition mcKillSlowest :: "McEngine \<Rightarrow> McEngine" where
  "mcKillSlowest e =
     (if meSessions e = [] then e
      else let j = slowest (meSessions e)
           in e\<lparr>meSessions := take j (meSessions e) @ drop (Suc j) (meSessions e),
                meOut := retireSession (meSessions e ! j) (meOut e)\<rparr>)"

section \<open>The engine\<close>

definition advertiseFor :: "(nat \<Rightarrow> SysTime) \<Rightarrow> TypeTagSetST \<Rightarrow> McEngine \<Rightarrow> McEngine" where
  "advertiseFor now marked e = (advertisingMessages now marked (e\<lparr>meTags := marked\<rparr>))\<lparr>meAdsDirty := True\<rparr>"

text \<open>\<^verbatim>\<open>size_t\<close>'s largest value means that the sending has begun.\<close>

definition startWhenReady :: "McEngine \<Rightarrow> McEngine" where
  "startWhenReady e =
     (if meMinRecv e \<noteq> noSeq \<and> meMinRecv e \<le> of_nat (mcReadyCount e)
      then startSend (e\<lparr>meMinRecv := noSeq\<rparr>) else e)"

text \<open>\<open>locked\<close>: nobody else holds the lock of the advertised tags.\<close>

definition refreshAds :: "(Advert \<Rightarrow> bytes) \<Rightarrow> bool \<Rightarrow> McEngine \<Rightarrow> McEngine" where
  "refreshAds raw locked e =
     (if meAdsDirty e \<and> locked then (setAds raw (meAds e) e)\<lparr>meAdsDirty := False\<rparr> else e)"

definition mcEngineRunOnce ::
    "(Advert \<Rightarrow> bytes) \<Rightarrow> bool \<Rightarrow> McAccept \<Rightarrow> u8 \<Rightarrow> (nat \<Rightarrow> PeerInput) \<Rightarrow> bool list \<Rightarrow> (nat \<Rightarrow> nat \<Rightarrow> SysTime) \<Rightarrow> McEngine
       \<Rightarrow> (bytes \<times> bytes list \<times> (u64 \<times> u64) list \<times> bytes list \<times> McEngine) outcome" where
  "mcEngineRunOnce raw locked a junk inp oks clock e =
     obind (mcServerRunOnce a junk inp (startWhenReady e)) (\<lambda>(hello, bss, called, e1).
       obind (mcResume oks clock (sessionCount e1) (refreshAds raw locked e1)) (\<lambda>(out, e2).
         Ret (hello, bss, called, out, e2)))"

text \<open>A full ring whose reader 1 has not moved since the timer fired before costs a session.\<close>

definition mcCullSlow :: "McEngine \<Rightarrow> McEngine" where
  "mcCullSlow e =
     (if meMinRecv e = noSeq
      then let sq = readSeqs (mcBuffer e) ! 1;
               e1 = (if sq = meLastBackup e \<and> isFull (mcBuffer e) then mcKillSlowest e else e)
           in e1\<lparr>meLastBackup := sq\<rparr>
      else e)"

definition adTimerFires :: "McEngine \<Rightarrow> McEngine" where
  "adTimerFires e = (let e1 = setAdPending e in if meWaitForSlow e then e1 else mcCullSlow e1)"

definition flushTimerFires :: "McEngine \<Rightarrow> McEngine" where
  "flushTimerFires e = setSeqAlertPending e"

definition mcEngineStop :: "McEngine \<Rightarrow> ((u64 \<times> u64) list \<times> McEngine) outcome" where
  "mcEngineStop e = (case serverStop e of (called, e1) \<Rightarrow>
     obind (resetConsumer (mcBuffer e1) 0) (\<lambda>b. obind (resetConsumer b 1) (\<lambda>b'. Ret (called, e1\<lparr>mcBuffer := b'\<rparr>))))"

end
