(* ===== verification/RingBlocks.thy ===== *)
theory RingBlocks
  imports RingOperations
begin

text \<open>
  \<^verbatim>\<open>MemRingBuffer.hpp\<close> as the multicast engine uses it: blocks of slots claimed, written in place and
  committed together, and readers that are moved on or caught up.
\<close>

section \<open>Committing a block\<close>

lemma shape_commit:
  "ring_shape r b \<Longrightarrow> readSeqs (commit b (iteratorAt s)) = readSeqs b \<and>
     toBeClaimedSeq (commit b (iteratorAt s)) = toBeClaimedSeq b \<and> MASK (commit b (iteratorAt s)) = MASK b \<and>
     CAPACITY (commit b (iteratorAt s)) = CAPACITY b \<and> READ_SEQ_MAX (commit b (iteratorAt s)) = READ_SEQ_MAX b"
  by (simp add: commit_eq_publish publish_def)

lemma live_readSeqs: "readSeqs b' = readSeqs b \<Longrightarrow> READ_SEQ_MAX b' = READ_SEQ_MAX b \<Longrightarrow> live b' i = live b i"
  by (simp add: live_def consumers_def)

lemma iterInc_At [simp]: "iterInc (iteratorAt s) = iteratorAt (s + 1)"
  by (simp add: iterInc_def iteratorAt_def)

lemma commitN_spec:
  assumes "ring_inv r {unat s..<unat s + n} H b" "\<forall>k < unat s + n. hasRoom r b k" "unat s + n < 2 ^ 64"
  shows "\<exists>H'. ring_inv r {} H' (commitN b (iteratorAt s) n)"
    "readSeqs (commitN b (iteratorAt s) n) = readSeqs b" "toBeClaimedSeq (commitN b (iteratorAt s) n) = toBeClaimedSeq b"
    "MASK (commitN b (iteratorAt s) n) = MASK b" "CAPACITY (commitN b (iteratorAt s) n) = CAPACITY b"
    "READ_SEQ_MAX (commitN b (iteratorAt s) n) = READ_SEQ_MAX b"
proof -
  have "(\<exists>H'. ring_inv r {} H' (commitN b (iteratorAt s) n)) \<and>
    readSeqs (commitN b (iteratorAt s) n) = readSeqs b \<and> toBeClaimedSeq (commitN b (iteratorAt s) n) = toBeClaimedSeq b \<and>
    MASK (commitN b (iteratorAt s) n) = MASK b \<and> CAPACITY (commitN b (iteratorAt s) n) = CAPACITY b \<and>
    READ_SEQ_MAX (commitN b (iteratorAt s) n) = READ_SEQ_MAX b"
    using assms
  proof (induction n arbitrary: s b H)
    case 0
    then have "ring_inv r {} H b" by simp
    then show ?case by (simp only: commitN.simps) blast
  next
    case (Suc n)
    note sh = ring_invD(1) [OF Suc.prems(1)]
    let ?b = "commit b (iteratorAt s)"
    note C = shape_commit [OF sh, of s]
    have l: "live ?b i = live b i" "readN ?b i = readN b i" for i
      using C by (simp_all add: live_def consumers_def readN_def)
    obtain H1 where "ring_inv r ({unat s..<unat s + Suc n} - {unat s}) H1 ?b"
      using ring_inv_publish [OF Suc.prems(1), of s] Suc.prems(2) by (auto simp: commit_eq_publish [OF sh])
    moreover have "{unat s..<unat s + Suc n} - {unat s} = {Suc (unat s)..<Suc (unat s) + n}" by fastforce
    moreover have u: "unat (s + 1) = Suc (unat s)" using Suc.prems(3) by (intro unat_inc) simp
    ultimately have i1: "ring_inv r {unat (s + 1)..<unat (s + 1) + n} H1 ?b" by simp
    have room: "\<forall>k < unat (s + 1) + n. hasRoom r ?b k" and lt: "unat (s + 1) + n < 2 ^ 64"
      using Suc.prems(2,3) u by (simp_all add: hasRoom_def l)
    have step: "commitN b (iteratorAt s) (Suc n) = commitN ?b (iteratorAt (s + 1)) n" by simp
    show ?case unfolding step using Suc.IH [OF i1 room lt] C by simp
  qed
  then show "\<exists>H'. ring_inv r {} H' (commitN b (iteratorAt s) n)"
    "readSeqs (commitN b (iteratorAt s) n) = readSeqs b" "toBeClaimedSeq (commitN b (iteratorAt s) n) = toBeClaimedSeq b"
    "MASK (commitN b (iteratorAt s) n) = MASK b" "CAPACITY (commitN b (iteratorAt s) n) = CAPACITY b"
    "READ_SEQ_MAX (commitN b (iteratorAt s) n) = READ_SEQ_MAX b" by simp_all
qed

text \<open>The ring after a block of \<open>n\<close> slots was claimed and committed.\<close>

definition blockState :: "MemRingBuffer \<Rightarrow> u64 \<Rightarrow> MemRingBuffer" where
  "blockState b n = commitN (b\<lparr>toBeClaimedSeq := toBeClaimedSeq b + n\<rparr>) (iteratorAt (toBeClaimedSeq b)) (unat n)"

definition blockFits :: "nat \<Rightarrow> MemRingBuffer \<Rightarrow> nat \<Rightarrow> bool" where
  "blockFits r b n \<longleftrightarrow> (\<forall>i. live b i \<longrightarrow> claimedN b + n \<le> 2 ^ r + readN b i)"

lemma blockFits_iff:
  assumes "seq_inv r b" "n \<noteq> 0" "claimedN b + unat n < maxN r"
  shows "toBeClaimedSeq b + n - 1 < CAPACITY b + readSeqLow b \<longleftrightarrow> blockFits r b (unat n)"
    "noRoomN b (toBeClaimedSeq b) n \<longleftrightarrow> \<not> blockFits r b (unat n)"
proof -
  obtain H where inv: "ring_inv r {} H b" using assms(1) by (auto simp: seq_inv_def)
  note D = ring_invD [OF inv]
  have n: "0 < unat n" using assms(2) by (simp add: unat_gt_0)
  have s: "unat (toBeClaimedSeq b + n) = claimedN b + unat n"
    using assms(3) maxN_small [OF D(1)] unat_add_small [of "toBeClaimedSeq b" n] by (simp add: claimedN_def)
  then have s1: "unat (toBeClaimedSeq b + n - 1) = claimedN b + unat n - 1"
    using n by (metis add_gr_0 less_not_refl unat_0 unat_minus_one)
  show fits: "toBeClaimedSeq b + n - 1 < CAPACITY b + readSeqLow b \<longleftrightarrow> blockFits r b (unat n)"
  proof -
    have "claimedN b + unat n - 1 < 2 ^ r + k \<longleftrightarrow> claimedN b + unat n \<le> 2 ^ r + k" for k using n by linarith
    then show ?thesis
      using room_iff [OF inv, of "toBeClaimedSeq b + n - 1"] assms(3) by (simp add: s1 blockFits_def)
  qed
  have "toBeClaimedSeq b + n > CAPACITY b + readSeqLow b \<longleftrightarrow> \<not> toBeClaimedSeq b + n - 1 < CAPACITY b + readSeqLow b"
    unfolding word_less_nat_alt s s1 using n by linarith
  then show "noRoomN b (toBeClaimedSeq b) n \<longleftrightarrow> \<not> blockFits r b (unat n)" by (simp add: noRoomN_def fits)
qed

text \<open>\<^verbatim>\<open>claim(n)\<close> and \<^verbatim>\<open>tryClaim(n)\<close> hand out the same slots when there is room.\<close>

lemma claims_agree:
  assumes "seq_inv r b" "n \<noteq> 0" "claimedN b + unat n < maxN r"
  shows "tryClaimN b n = (if blockFits r b (unat n)
      then (iteratorAt (toBeClaimedSeq b), b\<lparr>toBeClaimedSeq := toBeClaimedSeq b + n\<rparr>) else (nullIterator, b))"
    "claimN b n = (if blockFits r b (unat n)
      then Ret (iteratorAt (toBeClaimedSeq b), b\<lparr>toBeClaimedSeq := toBeClaimedSeq b + n\<rparr>) else Spins)"
proof -
  show "tryClaimN b n = (if blockFits r b (unat n)
      then (iteratorAt (toBeClaimedSeq b), b\<lparr>toBeClaimedSeq := toBeClaimedSeq b + n\<rparr>) else (nullIterator, b))"
    using blockFits_iff [OF assms] by (simp add: tryClaimN_def Let_def)
  have "noRoomN (b\<lparr>toBeClaimedSeq := x\<rparr>) s n = noRoomN b s n" for x s by (simp add: noRoomN_def readSeqLow_def)
  then show "claimN b n = (if blockFits r b (unat n)
      then Ret (iteratorAt (toBeClaimedSeq b), b\<lparr>toBeClaimedSeq := toBeClaimedSeq b + n\<rparr>) else Spins)"
    using blockFits_iff [OF assms] by (simp add: claimN_def fetchAddClaim_def)
qed

lemma blockState_spec:
  assumes "seq_inv r b" "n \<noteq> 0" "claimedN b + unat n < maxN r" "blockFits r b (unat n)"
  shows "seq_inv r (blockState b n)" "claimedN (blockState b n) = claimedN b + unat n"
    "readSeqs (blockState b n) = readSeqs b" "MASK (blockState b n) = MASK b" "CAPACITY (blockState b n) = CAPACITY b"
    "live (blockState b n) i = live b i" "readN (blockState b n) i = readN b i" "consumers (blockState b n) = consumers b"
proof -
  obtain H where inv: "ring_inv r {} H b" using assms(1) by (auto simp: seq_inv_def)
  let ?b = "b\<lparr>toBeClaimedSeq := toBeClaimedSeq b + n\<rparr>"
  have c: "ring_inv r {claimedN b..<claimedN b + unat n} H ?b" "claimedN ?b = claimedN b + unat n"
    using ring_inv_claim [OF inv, of "unat n"] assms(3) by simp_all
  have room: "\<forall>k < claimedN b + unat n. hasRoom r ?b k"
    using assms(4) unfolding blockFits_def hasRoom_def by (auto intro: less_le_trans)
  have lt: "claimedN b + unat n < 2 ^ 64" using c(2) unat_u64_lt [of "toBeClaimedSeq ?b"] by (simp add: claimedN_def)
  note C = commitN_spec [of r "toBeClaimedSeq b" "unat n" H ?b, folded claimedN_def, OF c(1) room lt, folded blockState_def]
  have C': "readSeqs (blockState b n) = readSeqs b" "toBeClaimedSeq (blockState b n) = toBeClaimedSeq ?b"
    "MASK (blockState b n) = MASK b" "CAPACITY (blockState b n) = CAPACITY b" "READ_SEQ_MAX (blockState b n) = READ_SEQ_MAX b"
    using C(2-6) by simp_all
  show "seq_inv r (blockState b n)" using C(1) by (simp add: seq_inv_def)
  show "claimedN (blockState b n) = claimedN b + unat n" using c(2) C'(2) by (simp add: claimedN_def)
  show "readSeqs (blockState b n) = readSeqs b" "MASK (blockState b n) = MASK b" "CAPACITY (blockState b n) = CAPACITY b"
    by (rule C')+
  show "live (blockState b n) i = live b i" by (rule live_readSeqs [OF C'(1,5)])
  show "readN (blockState b n) i = readN b i" "consumers (blockState b n) = consumers b"
    using C'(1) by (simp_all add: readN_def consumers_def)
qed

section \<open>Moving readers\<close>

lemma advance_reader:
  assumes "seq_inv r b" "live b i" "readN b i + unat k \<le> claimedN b" "claimedN b < maxN r"
  shows "seq_inv r (advance b i k)" "live (advance b i k) j \<longleftrightarrow> live b j"
    "readN (advance b i k) j = (if j = i then readN b i + unat k else readN b j)"
    "claimedN (advance b i k) = claimedN b" "MASK (advance b i k) = MASK b" "CAPACITY (advance b i k) = CAPACITY b"
    "consumers (advance b i k) = consumers b" "toBeClaimedSeq (advance b i k) = toBeClaimedSeq b"
proof -
  obtain H where inv: "ring_inv r {} H b" using assms(1) by (auto simp: seq_inv_def)
  have p: "unat k \<le> length (pendingFor b i)" using assms(3) by (simp add: pendingFor_def)
  show "seq_inv r (advance b i k)" "live (advance b i k) j \<longleftrightarrow> live b j" "claimedN (advance b i k) = claimedN b"
    using seq_inv_advance [OF assms(1,2) p assms(4)] by simp_all
  show "readN (advance b i k) j = (if j = i then readN b i + unat k else readN b j)"
    using advance_views(1) [OF inv assms(2)] assms(3,4) by simp
  show "MASK (advance b i k) = MASK b" "CAPACITY (advance b i k) = CAPACITY b" "consumers (advance b i k) = consumers b"
    "toBeClaimedSeq (advance b i k) = toBeClaimedSeq b" by (simp_all add: advance_def consumers_def)
qed

lemma wasteAfterPeek_advance: "live b i \<Longrightarrow> wasteAfterPeek b i n = Ret (advance b i n)"
  by (auto simp: wasteAfterPeek_def live_def consumers_def advance_def)

lemma catchUpTo_advance:
  assumes "live b i"
  shows "catchUpTo b i n = Ret (if readSeqs b ! i \<le> n then advance b i (n - readSeqs b ! i) else b)"
  using assms by (simp add: catchUpTo_def live_def consumers_def advance_def)

text \<open>Catching up to a number that is claimed: a reader never goes back.\<close>

lemma catchUpTo_spec:
  assumes "seq_inv r b" "live b i" "unat n \<le> claimedN b" "claimedN b < maxN r"
  obtains b' where "catchUpTo b i n = Ret b'" "seq_inv r b'" "\<And>j. live b' j \<longleftrightarrow> live b j"
    "\<And>j. readN b' j = (if j = i then max (readN b i) (unat n) else readN b j)"
    "claimedN b' = claimedN b" "MASK b' = MASK b" "CAPACITY b' = CAPACITY b" "consumers b' = consumers b"
    "toBeClaimedSeq b' = toBeClaimedSeq b"
proof (cases "readSeqs b ! i \<le> n")
  case True
  then have k: "unat (n - readSeqs b ! i) = unat n - readN b i" "readN b i \<le> unat n"
    by (simp_all add: unat_sub readN_def word_le_nat_alt)
  note A = advance_reader [OF assms(1,2), of "n - readSeqs b ! i"]
  show ?thesis
    by (rule that [of "advance b i (n - readSeqs b ! i)"])
       (use A k assms True in \<open>simp_all add: catchUpTo_advance max_def\<close>)
next
  case False
  then have "\<not> readN b i \<le> unat n" by (simp add: readN_def word_le_nat_alt)
  then show ?thesis
    by (intro that [of b]) (use assms False in \<open>simp_all add: catchUpTo_advance max_def\<close>)
qed

lemma maxN_large: "ring_shape r b \<Longrightarrow> n < 2 ^ 63 \<Longrightarrow> n < maxN r"
  using ring_shapeD(4) [of r b] by (simp add: maxN_def)

text \<open>Peeking at up to \<open>m\<close> messages.\<close>

lemma peek_range:
  assumes "seq_inv r b" "live b i" "claimedN b < maxN r"
  obtains en n where "peek b i m = Ret (iteratorAt (readSeqs b ! i), iteratorAt en, n)"
    "unat en = readN b i + min (unat m) (claimedN b - readN b i)"
proof -
  obtain p e cnt where P: "peek b i m = Ret (p, e, cnt)" "unat cnt = min (unat m) (length (pendingFor b i))"
      "unat (seq e) = readN b i + unat cnt"
    using peek_spec [OF assms] by blast
  moreover have "p = iteratorAt (readSeqs b ! i)" "e = iteratorAt (seq e)"
    using P(1) assms(2) by (auto simp: peek_def Let_def)
  ultimately show ?thesis by (metis that length_map length_upt pendingFor_def)
qed

lemma slot_of_number:
  assumes "ring_shape r b" "n < 2 ^ 63"
  shows "unat (of_nat n AND MASK b) = n mod 2 ^ r"
  using chunk_index(1) [OF ring_shapeD(1) [OF assms(1)], of "of_nat n"] ring_shapeD(1,5) [OF assms(1)]
    unat_of_nat_small [OF assms(2)]
  by (simp add: chunk_wf_def)

end
