(* ===== verification/SessionRange.thy ===== *)
theory SessionRange
  imports BackupSendSpec
begin

text \<open>
  Which messages of the ring a \<^verbatim>\<open>BackupSendSessionT\<close> looks at: those from its position on that were
  multicast already, provided that the requests of its peer do not run past the end of the
  numbers. So it cannot tell the ring from one that holds more.
\<close>

section \<open>Positions\<close>

definition requestsOk :: "BackupSendSession \<Rightarrow> bool" where
  "requestsOk s \<longleftrightarrow> (\<forall>(sq, len) \<in> set (toSendQueue s). unat sq + unat len < 2 ^ 64)"

text \<open>The position is between \<open>lo\<close> and \<open>hi\<close>, and so is the end of what is under way.\<close>

definition posOk :: "nat \<Rightarrow> nat \<Rightarrow> BackupSendSession \<Rightarrow> bool" where
  "posOk lo hi s \<longleftrightarrow> requestsOk s \<and> lo \<le> unat (bufItNext s) \<and> unat (bufItNext s) \<le> hi \<and>
     (relicSize s \<noteq> 0 \<longrightarrow> bufItNext s \<le> bufIt s \<and> unat (bufIt s) \<le> hi)"

lemma posOkD:
  assumes "posOk lo hi s"
  shows "requestsOk s" "lo \<le> unat (bufItNext s)" "unat (bufItNext s) \<le> hi"
    "relicSize s \<noteq> 0 \<Longrightarrow> bufItNext s \<le> bufIt s" "relicSize s \<noteq> 0 \<Longrightarrow> unat (bufIt s) \<le> hi"
  using assms by (auto simp: posOk_def)

lemma posOk_mono: "posOk lo hi s \<Longrightarrow> lo' \<le> unat (bufItNext s) \<Longrightarrow> hi \<le> hi' \<Longrightarrow> posOk lo' hi' s"
  by (auto simp: posOk_def)

lemma fillToSend_cong:
  assumes "unat sq + n < 2 ^ 64" "\<forall>q. unat sq \<le> unat q \<and> unat q < unat sq + n \<longrightarrow> ring q = ring' q"
  shows "fillToSend ring s sq n acc = fillToSend ring' s sq n acc"
  using assms
proof (induction n arbitrary: sq acc)
  case (Suc n)
  then have u: "unat (sq + 1) = Suc (unat sq)" by (intro unat_inc) simp
  have "ring sq = ring' sq" using Suc.prems(2) by simp
  then show ?case using Suc.IH [of "sq + 1"] Suc.prems u by simp
qed simp

text \<open>What an accepted request takes: no number is past the multicast's.\<close>

lemma request_range:
  assumes "posOk lo hi s" "toSendQueue s = (sq, len) # q" "\<not> (sq < bufItNext s \<or> readSeq0 < sq + len)" "hi = unat readSeq0"
    "k + left = unat len"
  shows "lo \<le> unat sq" "unat sq + unat len \<le> hi" "unat sq + unat len < 2 ^ 64" "bufItNext s \<le> sq"
    "unat (sq + of_nat k) = unat sq + k" "unat (of_nat left :: u64) = left" "unat (sq + (len - of_nat left)) = unat sq + k"
    "requestsOk (s\<lparr>toSendQueue := q\<rparr>)"
proof -
  note P = posOkD [OF assms(1)]
  show lt: "unat sq + unat len < 2 ^ 64" using P(1) assms(2) by (simp add: requestsOk_def)
  show rq: "requestsOk (s\<lparr>toSendQueue := q\<rparr>)" using P(1) assms(2) by (simp add: requestsOk_def)
  show le: "bufItNext s \<le> sq" using assms(3) by (simp add: not_less)
  then show "lo \<le> unat sq" using P(2) by (simp add: word_le_nat_alt)
  have "unat (sq + len) = unat sq + unat len" using lt by (rule unat_add_small)
  then show "unat sq + unat len \<le> hi" using assms(3,4) by (simp add: word_less_nat_alt)
  have small: "k < 2 ^ 64" "left < 2 ^ 64" using assms(5) unat_u64_lt [of len] by simp_all
  then have uk: "unat (of_nat k :: u64) = k" by (simp add: unsigned_of_nat take_bit_nat_eq_self)
  show "unat (of_nat left :: u64) = left" using small by (simp add: unsigned_of_nat take_bit_nat_eq_self)
  show add: "unat (sq + of_nat k) = unat sq + k" using uk lt assms(5) by (subst unat_add_small) simp_all
  have "of_nat (k + left) = (of_nat (unat len) :: u64)" by (simp only: assms(5))
  then have "len - of_nat left = of_nat k" by (simp add: algebra_simps)
  then show "unat (sq + (len - of_nat left)) = unat sq + k" using add by simp
qed

section \<open>A run\<close>

definition sameFrom :: "nat \<Rightarrow> nat \<Rightarrow> (u64 \<Rightarrow> WireMessage) \<Rightarrow> (u64 \<Rightarrow> WireMessage) \<Rightarrow> bool" where
  "sameFrom lo hi ring ring' \<longleftrightarrow> (\<forall>q. lo \<le> unat q \<and> unat q < hi \<longrightarrow> ring q = ring' q)"

lemma sendQueue_range:
  assumes "sameFrom lo (unat rd) ring ring'"
  shows "posOk lo (unat rd) s \<Longrightarrow> sendQueue ring cap rd rs s = sendQueue ring' cap rd rs s \<and>
     (\<forall>ok bs s'. sendQueue ring cap rd rs s = Ret (ok, bs, s') \<longrightarrow> posOk lo (unat rd) s' \<and> bufItNext s \<le> bufItNext s')"
proof (induction "length rs + length (toSendQueue s)" arbitrary: rs s rule: less_induct)
  case less
  note inv = less.prems and P = posOkD [OF less.prems]
  let ?Q = "\<lambda>ring. sendQueue ring cap rd rs s"
  show ?case
  proof (cases "relicSize s \<noteq> 0 \<or> toSendQueue s = []")
    case True
    then have "?Q ring = Ret (True, [], s)" for ring by (subst sendQueue.simps) simp
    then show ?thesis using inv by simp
  next
    case False
    then obtain sq len q where q: "toSendQueue s = (sq, len) # q" and r0: "relicSize s = 0"
      by (cases "toSendQueue s") auto
    show ?thesis
    proof (cases "sq < bufItNext s \<or> cap < len \<or> rd < sq + len")
      case True
      then have "?Q ring = Ret (False, [], s)" for ring using r0 q by (subst sendQueue.simps) simp
      then show ?thesis using inv by simp
    next
      case ok: False
      note R = request_range [OF inv q _ refl]
      show ?thesis
      proof (cases "len = 0")
        case True
        let ?s = "s\<lparr>bufItNext := sq, toSendQueue := q\<rparr>"
        have step: "?Q ring = sendQueue ring cap rd rs ?s" for ring using r0 q ok True by (subst sendQueue.simps) simp
        have "posOk lo (unat rd) ?s"
          using R [of 0 0] ok r0 True by (simp add: posOk_def requestsOk_def)
        from less.hyps [OF _ this, of rs] show ?thesis
          unfolding step using q R(4) [of 0 0] ok True by (auto intro: order_trans)
      next
        case ln: False
        obtain pieces sq' left where fill: "fillToSend ring s sq (unat len) [] = (pieces, sq', left)"
          by (metis prod_cases3)
        obtain k where k: "k + left = unat len" "sq' = sq + of_nat k" using fillToSend_spec [OF fill] by auto
        note R = request_range [OF inv q _ refl k(1)]
        have R': "lo \<le> unat sq" "unat sq + unat len \<le> unat rd" "unat sq + unat len < 2 ^ 64" "bufItNext s \<le> sq"
            "unat sq' = unat sq + k" "unat (of_nat left :: u64) = left" "unat (sq + (len - of_nat left)) = unat sq + k"
            "requestsOk (s\<lparr>toSendQueue := q\<rparr>)"
          using R ok k(2) by auto
        have fill': "fillToSend ring' s sq (unat len) [] = (pieces, sq', left)"
          using fillToSend_cong [of sq "unat len" ring ring' s "[]"] R'(1-3) assms fill by (auto simp: sameFrom_def)
        have nx: "bufItNext s \<le> sq'" "unat sq' \<le> unat rd"
          using R'(2,4,5) k(1) by (auto simp: word_le_nat_alt)
        define s1 where "s1 = s\<lparr>bufIt := sq', sendBackupMessageCount := sendBackupMessageCount s + of_nat (length pieces)\<rparr>"
        have p1: "posOk lo (unat rd) s1" using inv r0 by (simp add: posOk_def s1_def requestsOk_def)
        define q' where "q' = (if left = 0 then q else (sq + (len - of_nat left), of_nat left) # q)"
        have rq: "requestsOk (t\<lparr>toSendQueue := q'\<rparr>)" for t
          using R'(3,6,7,8) k(1) by (auto simp: q'_def requestsOk_def)
        consider (stop) b where "?Q ring = Ret (b, [], s1)" "?Q ring' = Ret (b, [], s1)" | (room) room rs' where "rs = Room room # rs'"
        proof -
          have st: "rs = [] \<Longrightarrow> ?Q g = Ret (True, [], s1)" "rs = TryAgain # rs' \<Longrightarrow> ?Q g = Ret (True, [], s1)"
            "rs = SendError # rs' \<Longrightarrow> ?Q g = Ret (False, [], s1)"
            if "fillToSend g s sq (unat len) [] = (pieces, sq', left)" for g rs'
            using r0 q ok ln that by (subst sendQueue.simps, simp add: Let_def s1_def)+
          show thesis
          proof (cases rs)
            case Nil
            then show ?thesis using st(1) [OF fill] st(1) [OF fill'] by (intro stop [of True])
          next
            case (Cons r rs')
            then show ?thesis
              by (cases r) (use room st(2,3) [OF fill] st(2,3) [OF fill'] stop in blast)+
          qed
        qed
        then show ?thesis
        proof cases
          case stop
          then show ?thesis using p1 by (simp add: s1_def)
        next
          case room
          let ?l = "min room (length (concat pieces))"
          define s2 where "s2 = s\<lparr>bufIt := sq', sendBackupMessageCount := sendBackupMessageCount s + of_nat (length pieces),
            relicSize := of_nat (length (concat pieces)) - of_nat ?l, toSendQueue := q'\<rparr>"
          have step: "?Q g = (if relicSize s2 \<noteq> 0
              then obind (extractRelicTo pieces ?l) (\<lambda>r. Ret (True, take ?l (concat pieces), s2\<lparr>relic := r\<rparr>))
              else obind (sendQueue g cap rd rs' (s2\<lparr>bufItNext := bufIt s2\<rparr>))
                     (\<lambda>(ok, bs, s3). Ret (ok, take ?l (concat pieces) @ bs, s3)))"
            if "fillToSend g s sq (unat len) [] = (pieces, sq', left)" for g
            using r0 q ok ln that room by (subst sendQueue.simps) (simp add: Let_def s2_def q'_def)
          show ?thesis
          proof (cases "relicSize s2 = 0")
            case True
            let ?s = "s2\<lparr>bufItNext := bufIt s2\<rparr>"
            have "posOk lo (unat rd) ?s"
              using True rq [of s2] nx R'(1,5) by (simp add: posOk_def s2_def requestsOk_def)
            moreover have "length rs' + length (toSendQueue ?s) < length rs + length (toSendQueue s)"
              by (simp add: room q s2_def q'_def)
            ultimately have IH: "sendQueue ring cap rd rs' ?s = sendQueue ring' cap rd rs' ?s"
              "\<And>ok bs s'. sendQueue ring cap rd rs' ?s = Ret (ok, bs, s') \<Longrightarrow> posOk lo (unat rd) s' \<and> bufItNext ?s \<le> bufItNext s'"
              using less.hyps by blast+
            have "bufItNext ?s = sq'" by (simp add: s2_def)
            then show ?thesis
              using True IH nx(1) by (auto simp: step [OF fill] step [OF fill'] obind_Ret_iff dest: order_trans)
          next
            case False
            have "posOk lo (unat rd) (s2\<lparr>relic := r\<rparr>)" for r
              using rq [of s2] nx P(2,3) by (simp add: posOk_def s2_def requestsOk_def)
            then show ?thesis using False by (auto simp: step [OF fill] step [OF fill'] obind_Ret_iff s2_def)
          qed
        qed
      qed
    qed
  qed
qed

text \<open>What is left of an earlier write.\<close>

lemma sendRelic_range:
  assumes "sendRelic rs s = Ret (ok, bs, rs', s', go)" "posOk lo hi s" "relicSize s \<noteq> 0"
  shows "posOk lo hi s'" "bufItNext s \<le> bufItNext s'"
proof -
  note P = posOkD [OF assms(2)]
  have "posOk lo hi s' \<and> bufItNext s \<le> bufItNext s'"
  proof (cases rs)
    case Nil
    then show ?thesis using assms by (simp add: sendRelic_def)
  next
    case (Cons r rs1)
    show ?thesis
    proof (cases r)
      case (Room room)
      let ?l = "min room (length (concat (relic s)))"
      consider r' where "s' = s\<lparr>relicSize := relicSize s - of_nat ?l, relic := r'\<rparr>"
        | "s' = s\<lparr>relicSize := relicSize s - of_nat ?l, bufItNext := bufIt s, relic := []\<rparr>" "relicSize s' = 0"
        using assms(1) by (auto simp: sendRelic_def Cons Room Let_def obind_Ret_iff split: if_splits)
      then show ?thesis
        using P assms(3) order_trans [of lo "unat (bufItNext s)" "unat (bufIt s)"]
        by cases (auto simp: posOk_def requestsOk_def word_le_nat_alt)
    qed (use assms Cons in \<open>auto simp: sendRelic_def\<close>)
  qed
  then show "posOk lo hi s'" "bufItNext s \<le> bufItNext s'" by auto
qed

section \<open>Commands\<close>

text \<open>Reading commands leaves the sending alone and does not look at the other sessions.\<close>

definition sameSending :: "BackupSendSession \<Rightarrow> BackupSendSession \<Rightarrow> bool" where
  "sameSending s s' \<longleftrightarrow> relic s' = relic s \<and> relicSize s' = relicSize s \<and> bufIt s' = bufIt s \<and> bufItNext s' = bufItNext s \<and>
     flushBytes s' = flushBytes s \<and> batchMax s' = batchMax s"

lemma handleCommand_frame:
  assumes "handleCommand line rest s out = Ret (ok, s1, out1)"
  shows "sameSending s s1" "\<exists>out1'. handleCommand line rest s out' = Ret (ok, s1, out1')"
proof -
  have "sameSending s s1 \<and> (\<exists>out1'. handleCommand line rest s out' = Ret (ok, s1, out1'))"
  proof (cases line)
    case Nil
    then show ?thesis using assms by (auto simp: handleCommand_def sameSending_def split: list.splits)
  next
    case (Cons c cs)
    let ?t = "takeWhile (\<lambda>x. x \<noteq> NUL) cs"
    consider "?t \<noteq> []" "c = CHR ''+''" | "?t \<noteq> []" "c = CHR ''-''" | "?t = [] \<or> c \<noteq> CHR ''+'' \<and> c \<noteq> CHR ''-''" by blast
    then show ?thesis
    proof cases
      case 1
      then obtain v where v: "stoi ?t = Ret v" using assms by (auto simp: handleCommand_def Cons obind_Ret_iff)
      obtain new subs where t: "tagSet (clientSubscriptions s) (word_of_int v) = (new, subs)" by force
      show ?thesis using assms 1 v t by (auto simp: handleCommand_def Cons sameSending_def)
    next
      case 2
      then obtain v where v: "stoi ?t = Ret v" using assms by (auto simp: handleCommand_def Cons obind_Ret_iff)
      obtain old subs where t: "tagUnset (clientSubscriptions s) (word_of_int v) = (old, subs)" by force
      show ?thesis using assms 2 v t by (auto simp: handleCommand_def Cons sameSending_def)
    next
      case 3
      then show ?thesis
        using assms by (auto simp: handleCommand_def Cons sameSending_def Let_def split: if_splits option.splits)
    qed
  qed
  then show "sameSending s s1" "\<exists>out1'. handleCommand line rest s out' = Ret (ok, s1, out1')" by auto
qed

lemma sameSending_trans: "sameSending s s1 \<Longrightarrow> sameSending s1 s2 \<Longrightarrow> sameSending s s2"
  by (simp add: sameSending_def)

lemma readCommands_frame:
  "readCommands buf s out = Ret (ok, s1, out1) \<Longrightarrow>
     sameSending s s1 \<and> (\<exists>out1'. readCommands buf s out' = Ret (ok, s1, out1'))"
proof (induction buf s out arbitrary: out' rule: readCommands.induct)
  case (1 buf s out)
  show ?case
  proof (cases "TAB \<in> set buf")
    case False
    then have "readCommands buf s out = Ret (True, s\<lparr>readBuf := buf\<rparr>, out)" for out by (subst readCommands.simps) simp
    then show ?thesis using "1.prems" by (auto simp: sameSending_def)
  next
    case True
    let ?line = "takeWhile (\<lambda>c. c \<noteq> TAB) buf" and ?rest = "tl (dropWhile (\<lambda>c. c \<noteq> TAB) buf)"
    have step: "readCommands buf s out = obind (handleCommand ?line ?rest s out) (\<lambda>(ok, s1, out1).
        if ok then readCommands ?rest s1 out1 else Ret (False, s1\<lparr>readBuf := buf\<rparr>, out1))" for out
      using True by (subst readCommands.simps) (simp add: Let_def)
    obtain ok' s' out2 where h: "handleCommand ?line ?rest s out = Ret (ok', s', out2)"
      using "1.prems" by (auto simp: step obind_Ret_iff)
    note F = handleCommand_frame [OF h]
    obtain out2' where h': "handleCommand ?line ?rest s out' = Ret (ok', s', out2')" using F(2) by blast
    show ?thesis
    proof (cases ok')
      case ok: True
      then have "readCommands ?rest s' out2 = Ret (ok, s1, out1)" using "1.prems" by (simp add: step h)
      from "1.IH" [OF True refl refl ok this, of out2'] show ?thesis
        using F(1) ok by (auto simp: step [of out'] h' intro: sameSending_trans)
    next
      case False
      then show ?thesis using "1.prems" F(1) by (auto simp: step h h' sameSending_def)
    qed
  qed
qed

lemma doRead_frame:
  assumes "sendSessionDoRead r s out = Ret (ok, s1, out1)"
  shows "sameSending s s1" "\<exists>out1'. sendSessionDoRead r s out' = Ret (ok, s1, out1')"
proof -
  have "sameSending s s1 \<and> (\<exists>out1'. sendSessionDoRead r s out' = Ret (ok, s1, out1'))"
    using assms readCommands_frame [of _ s out ok s1 out1 out']
    by (cases r) (auto simp: sendSessionDoRead_def sameSending_def)
  then show "sameSending s s1" "\<exists>out1'. sendSessionDoRead r s out' = Ret (ok, s1, out1')" by auto
qed

section \<open>The whole run\<close>

definition sessionOk :: "nat \<Rightarrow> nat \<Rightarrow> BackupSendSession \<Rightarrow> bool" where
  "sessionOk lo hi s \<longleftrightarrow> sendInv s \<and> posOk lo hi s"

text \<open>The peer's commands are numbers where numbers belong, and no request runs past the end of them.\<close>

definition readOk :: "string RecvResult \<Rightarrow> BackupSendSession \<Rightarrow> bool" where
  "readOk r s = (case sendSessionDoRead r s newTypeTagSet of Ret (ok, s1, out1) \<Rightarrow> requestsOk s1 | _ \<Rightarrow> False)"

lemma sessionRunOnce_range:
  assumes "sessionOk lo (unat rd) s" "readOk r s" "sameFrom lo (unat rd) ring ring'"
    "unat cap \<le> 2 ^ 40" "\<forall>q. length (wBody (ring q)) < 2 ^ 16"
  shows "\<exists>ok bs s' out'. sendSessionRunOnce ring cap rd r writable rs s out = Ret (ok, bs, s', out') \<and>
     sendSessionRunOnce ring' cap rd r writable rs s out = Ret (ok, bs, s', out') \<and>
     sessionOk lo (unat rd) s' \<and> bufItNext s \<le> bufItNext s'"
proof -
  obtain ok s1 out0 where "sendSessionDoRead r s newTypeTagSet = Ret (ok, s1, out0)" "requestsOk s1"
    using assms(2) by (auto simp: readOk_def split: outcome.splits)
  then obtain out1 where d: "sendSessionDoRead r s out = Ret (ok, s1, out1)" and rq: "requestsOk s1"
    using doRead_frame(2) by blast
  have same: "sameSending s s1" by (rule doRead_frame(1) [OF d])
  have s1: "sendInv s1" "posOk lo (unat rd) s1" "bufItNext s1 = bufItNext s"
    using assms(1) same rq by (auto simp: sessionOk_def sendInv_def posOk_def sameSending_def)
  have queue: "\<exists>ok bs s'. sendQueue ring cap rd rs s2 = Ret (ok, bs, s') \<and> sendQueue ring' cap rd rs s2 = Ret (ok, bs, s') \<and>
      sessionOk lo (unat rd) s' \<and> bufItNext s2 \<le> bufItNext s'" if i2: "sendInv s2" and p2: "posOk lo (unat rd) s2" for s2 rs
  proof -
    obtain ok bs s' where q: "sendQueue ring cap rd rs s2 = Ret (ok, bs, s')" "sendInv s'"
      using sendQueue_conserves [OF assms(4,5) i2] by blast
    then show ?thesis using sendQueue_range [OF assms(3) p2, of cap rs] by (auto simp: sessionOk_def)
  qed
  show ?thesis
  proof (cases "ok \<and> writable \<and> relicSize s1 \<noteq> 0")
    case True
    then obtain b bs rs' s2 go where r: "sendRelic rs s1 = Ret (b, bs, rs', s2, go)" "sendInv s2"
      using sendRelic_conserves [OF s1(1), of rs] by metis
    note R = sendRelic_range [OF r(1) s1(2)]
    show ?thesis
    proof (cases "b \<and> go")
      case bm: True
      show ?thesis
        using queue [OF r(2), of rs'] R d r(1) True s1(3) bm by (auto simp: sendSessionRunOnce_def intro: order_trans)
    next
      case False
      then show ?thesis using R d r True s1(3) by (auto simp: sendSessionRunOnce_def sessionOk_def)
    qed
  next
    case False
    then show ?thesis
      using queue [OF s1(1,2), of rs] d s1 by (cases ok) (auto simp: sendSessionRunOnce_def sessionOk_def)
  qed
qed

end
