(* ===== verification/McastSpec.thy ===== *)
theory McastSpec
  imports McastEngine RingBlocks SessionRange AttachmentTrainSpec
begin

text \<open>
  The invariant of the multicast engine, over the history of everything published: the ring holds its
  last part, the batch under way is a range of it, the notes for the clean-up are its trains in order,
  and the sessions stand where the ring still holds what they may ask for.
\<close>

section \<open>History\<close>

definition tagAt :: "SlotMessage list \<Rightarrow> nat \<Rightarrow> u16" where "tagAt hist k = wTag (smWire (hist ! k))"

text \<open>The message a train ends with.\<close>

definition trainEnd :: "SlotMessage list \<Rightarrow> nat \<Rightarrow> nat" where
  "trainEnd hist h = h + unat (smSegCount (hist ! h)) + 1"

definition trainsOk :: "SlotMessage list \<Rightarrow> bool" where
  "trainsOk hist \<longleftrightarrow> (\<forall>h < length hist. tagAt hist h = 5 \<longrightarrow> trainEnd hist h < length hist \<and>
     (\<forall>k. h < k \<and> k \<le> trainEnd hist h \<longrightarrow> tagAt hist k \<noteq> 5))"

definition histOk :: "nat \<Rightarrow> SlotMessage list \<Rightarrow> bool" where
  "histOk mtu hist \<longleftrightarrow> trainsOk hist \<and> (\<forall>k < length hist. wSeq (smWire (hist ! k)) = take_bit 48 (of_nat k) \<and>
     length (wBody (smWire (hist ! k))) + 11 \<le> mtu \<and> length (wBody (smWire (hist ! k))) + 8 < 2 ^ 16)"

lemma histOkD:
  assumes "histOk mtu hist"
  shows "trainsOk hist" "k < length hist \<Longrightarrow> length (wBody (smWire (hist ! k))) + 11 \<le> mtu"
    "k < length hist \<Longrightarrow> wmSize (smWire (hist ! k)) = 11 + length (wBody (smWire (hist ! k)))"
    "k < length hist \<Longrightarrow> wSeq (smWire (hist ! k)) = take_bit 48 (of_nat k)"
    "k < length hist \<Longrightarrow> length (wBody (smWire (hist ! k))) + 8 < 2 ^ 16"
  using assms by (auto simp: histOk_def wmSize_def)

lemma trainsOkD:
  assumes "trainsOk hist" "h < length hist" "tagAt hist h = 5"
  shows "trainEnd hist h < length hist" "h < k \<Longrightarrow> k \<le> trainEnd hist h \<Longrightarrow> tagAt hist k \<noteq> 5"
  using assms unfolding trainsOk_def by blast+

text \<open>Later trains end later.\<close>

lemma trainEnd_mono:
  assumes "trainsOk hist" "tagAt hist h = 5" "tagAt hist h' = 5" "h < h'" "h' < length hist"
  shows "trainEnd hist h < trainEnd hist h'"
proof -
  have "\<not> h' \<le> trainEnd hist h" using trainsOkD(2) [OF assms(1) _ assms(2), of h'] assms(3-5) by auto
  then show ?thesis by (simp add: trainEnd_def)
qed

section \<open>The ring\<close>

abbreviation pos0 :: "'a McSend_scheme \<Rightarrow> nat" where "pos0 e \<equiv> readN (mcBuffer e) 0"
abbreviation pos1 :: "'a McSend_scheme \<Rightarrow> nat" where "pos1 e \<equiv> readN (mcBuffer e) 1"

definition ringPart :: "nat \<Rightarrow> SlotMessage list \<Rightarrow> 'a McSend_scheme \<Rightarrow> bool" where
  "ringPart r hist e \<longleftrightarrow>
     seq_inv r (mcBuffer e) \<and> consumers (mcBuffer e) = 2 \<and> live (mcBuffer e) 0 \<and> live (mcBuffer e) 1 \<and> pos1 e \<le> pos0 e \<and>
     claimedN (mcBuffer e) = length hist \<and> length hist < 2 ^ 63 \<and>
     (\<forall>k. pos1 e \<le> k \<and> k < length hist \<longrightarrow> objectAt e (of_nat k) = hist ! k) \<and>
     (\<forall>i. length (wBody (smWire (mcObjects e i))) < 2 ^ 16)"

lemma ringPartD:
  assumes "ringPart r hist e"
  shows "seq_inv r (mcBuffer e)" "consumers (mcBuffer e) = 2" "live (mcBuffer e) 0" "live (mcBuffer e) 1" "pos1 e \<le> pos0 e"
    "claimedN (mcBuffer e) = length hist" "length hist < 2 ^ 63"
    "\<And>k. pos1 e \<le> k \<Longrightarrow> k < length hist \<Longrightarrow> objectAt e (of_nat k) = hist ! k"
    "\<And>i. length (wBody (smWire (mcObjects e i))) < 2 ^ 16"
    "ring_shape r (mcBuffer e)" "claimedN (mcBuffer e) < maxN r" "pos0 e \<le> length hist" "length hist \<le> pos1 e + 2 ^ r"
    "unat (CAPACITY (mcBuffer e)) = 2 ^ r" "r \<le> 32"
proof -
  show I: "seq_inv r (mcBuffer e)" "consumers (mcBuffer e) = 2" "live (mcBuffer e) 0" "live (mcBuffer e) 1" "pos1 e \<le> pos0 e"
    "claimedN (mcBuffer e) = length hist" "length hist < 2 ^ 63"
    "\<And>k. pos1 e \<le> k \<Longrightarrow> k < length hist \<Longrightarrow> objectAt e (of_nat k) = hist ! k"
    "\<And>i. length (wBody (smWire (mcObjects e i))) < 2 ^ 16"
    using assms by (simp_all add: ringPart_def)
  show sh: "ring_shape r (mcBuffer e)" by (rule seq_invD(1) [OF I(1)])
  show "claimedN (mcBuffer e) < maxN r" using maxN_large [OF sh I(7)] I(6) by simp
  show "pos0 e \<le> length hist" using seq_invD(2) [OF I(1,3)] I(6) by simp
  show "length hist \<le> pos1 e + 2 ^ r"
    using pendingFor_bound [OF I(1,4)] seq_invD(2) [OF I(1,4)] I(6) by (simp add: pendingFor_def)
  show "unat (CAPACITY (mcBuffer e)) = 2 ^ r" "r \<le> 32" using ring_shapeD(2,3) [OF sh] by simp_all
qed

text \<open>The rest of the engine may change under the ring.\<close>

lemma ringPart_cong:
  "ringPart r hist e \<Longrightarrow> mcBuffer e' = mcBuffer e \<Longrightarrow> mcObjects e' = mcObjects e \<Longrightarrow> ringPart r hist e'"
  by (simp add: ringPart_def objectAt_def)

section \<open>The batch\<close>

definition piecesOf :: "MemRingBuffer \<Rightarrow> u64 \<Rightarrow> SlotMessage \<Rightarrow> McPiece list" where
  "piecesOf b sq m =
     (if wTag (smWire m) = 6 then [SegHeadAt (sq AND MASK b), SegBytes (wBody (smWire m))]
      else [MsgAt (sq AND MASK b) (wmSize (smWire m))])"

definition batchOf :: "MemRingBuffer \<Rightarrow> SlotMessage list \<Rightarrow> nat \<Rightarrow> nat \<Rightarrow> McPiece list" where
  "batchOf b hist lo hi = concat (map (\<lambda>k. piecesOf b (of_nat k) (hist ! k)) [lo..<hi])"

definition bytesOf :: "SlotMessage list \<Rightarrow> nat \<Rightarrow> nat \<Rightarrow> bytes" where
  "bytesOf hist lo hi = concat (map (\<lambda>k. wireBytes (smWire (hist ! k))) [lo..<hi])"

lemma wireBytes_length: "length (wireBytes m) = 11 + length (wBody m)"
  by (simp add: wireBytes_def wireHeader_def del: leBytes.simps)

lemma range_snoc [simp]:
  "lo \<le> hi \<Longrightarrow> batchOf b hist lo (Suc hi) = batchOf b hist lo hi @ piecesOf b (of_nat hi) (hist ! hi)"
  "lo \<le> hi \<Longrightarrow> bytesOf hist lo (Suc hi) = bytesOf hist lo hi @ wireBytes (smWire (hist ! hi))"
  "batchOf b hist lo lo = []" "bytesOf hist lo lo = []"
  by (simp_all add: batchOf_def bytesOf_def)

lemma batchOf_empty: "batchOf b hist lo hi = [] \<longleftrightarrow> hi \<le> lo"
proof
  show "hi \<le> lo \<Longrightarrow> batchOf b hist lo hi = []" by (simp add: batchOf_def)
  show "batchOf b hist lo hi = [] \<Longrightarrow> hi \<le> lo"
    by (rule ccontr) (auto simp: batchOf_def piecesOf_def upt_conv_Cons split: if_splits)
qed

lemma readPieces_append:
  "mcReadPieces e ps = Ret a \<Longrightarrow> mcReadPieces e qs = Ret c \<Longrightarrow> mcReadPieces e (ps @ qs) = Ret (a @ c)"
  by (induction ps arbitrary: a) (auto simp: obind_Ret_iff)

text \<open>The batch reads as the messages of its range while the ring holds them.\<close>

lemma readPieces_batch:
  assumes "ringPart r hist e" "histOk mtu hist" "pos1 e \<le> lo" "lo \<le> hi" "hi \<le> length hist"
  shows "mcReadPieces e (batchOf (mcBuffer e) hist lo hi) = Ret (bytesOf hist lo hi)"
  using assms(4,5)
proof (induction hi rule: dec_induct)
  case (step k)
  let ?w = "smWire (hist ! k)"
  have o: "mcObjects e (of_nat k AND MASK (mcBuffer e)) = hist ! k"
    using ringPartD(8) [OF assms(1), of k] step assms(3) by (simp add: objectAt_def)
  have "mcReadPieces e (piecesOf (mcBuffer e) (of_nat k) (hist ! k)) = Ret (wireBytes ?w)"
    using histOkD(3) [OF assms(2), of k] step wireBytes_length [of ?w] o
    by (simp add: piecesOf_def mcReadPiece_def wireBytes_def [of ?w])
  then show ?case using step by (simp add: readPieces_append)
qed simp

text \<open>A piece that is not in the ring: an advertisement that is still there, or the alert.\<close>

definition idlePiece :: "'a McSend_scheme \<Rightarrow> McPiece \<Rightarrow> bool" where
  "idlePiece e p = (case p of AdAt g i \<Rightarrow> g = mcAdGeneration e \<and> i < length (mcAdBufs e) | AlertBuf \<Rightarrow> True | _ \<Rightarrow> False)"

lemma readPieces_idle: "\<forall>p \<in> set ps. idlePiece e p \<Longrightarrow> \<exists>d. mcReadPieces e ps = Ret d"
proof (induction ps)
  case (Cons p ps)
  then obtain d where "mcReadPieces e ps = Ret d" by auto
  then show ?case using Cons.prems by (auto simp: idlePiece_def mcReadPiece_def split: McPiece.splits)
qed simp

definition front :: "'a McSend_scheme \<Rightarrow> nat" where "front e = pos0 e + unat (mcWaste e)"

definition batchPart :: "SlotMessage list \<Rightarrow> 'a McSend_scheme \<Rightarrow> bool" where
  "batchPart hist e \<longleftrightarrow> front e \<le> length hist \<and>
     (if mcWaste e = 0 then \<forall>p \<in> set (mcToSend e). idlePiece e p
      else mcToSend e = batchOf (mcBuffer e) hist (pos0 e) (front e) \<and> length (bytesOf hist (pos0 e) (front e)) \<le> unat (mcMtu e))"

section \<open>Notes for the clean-up\<close>

definition cleanPart :: "nat \<Rightarrow> SlotMessage list \<Rightarrow> nat \<Rightarrow> MemRingBuffer \<Rightarrow> (u64 \<times> u64 \<times> bool) list \<Rightarrow> bool" where
  "cleanPart lo hist fr b q \<longleftrightarrow> sorted_wrt (\<lambda>x y. fst x < fst y) q \<and>
     (\<forall>(sq, i, f) \<in> set q. lo \<le> unat sq \<and> i = sq AND MASK b \<and>
        (\<exists>h < fr. tagAt hist h = 5 \<and> trainEnd hist h = unat sq \<and> f = smCleanup (hist ! h)))"

lemma cleanPart_iff:
  "cleanPart lo hist fr b q \<longleftrightarrow> sorted_wrt (\<lambda>x y. fst x < fst y) q \<and>
     (\<forall>sq i f. (sq, i, f) \<in> set q \<longrightarrow> lo \<le> unat sq \<and> i = sq AND MASK b \<and>
        (\<exists>h < fr. tagAt hist h = 5 \<and> trainEnd hist h = unat sq \<and> f = smCleanup (hist ! h)))"
  unfolding cleanPart_def by fast

lemma cleanPartE:
  assumes "cleanPart lo hist fr b q" "(sq, i, f) \<in> set q"
  obtains h where "lo \<le> unat sq" "i = sq AND MASK b" "h < fr" "tagAt hist h = 5" "trainEnd hist h = unat sq"
    "f = smCleanup (hist ! h)"
  using assms unfolding cleanPart_iff by blast

lemma cleanPart_mono: "cleanPart lo hist fr b q \<Longrightarrow> fr \<le> fr' \<Longrightarrow> cleanPart lo hist fr' b q"
  unfolding cleanPart_iff by (meson less_le_trans)

text \<open>There are never more notes than slots.\<close>

lemma cleanPart_length:
  assumes "cleanPart lo hist fr b q" "trainsOk hist" "fr \<le> length hist" "length hist \<le> lo + n"
  shows "length q \<le> n"
proof -
  have s: "sorted_wrt (<) (map (\<lambda>x. unat (fst x)) q)"
    using assms(1) by (simp add: cleanPart_def sorted_wrt_map word_less_nat_alt)
  then have "distinct (map (\<lambda>x. unat (fst x)) q)" by (simp add: strict_sorted_iff)
  then have "length q = card ((\<lambda>x. unat (fst x)) ` set q)" using distinct_card [of "map (\<lambda>x. unat (fst x)) q"] by simp
  also have "(\<lambda>x. unat (fst x)) ` set q \<subseteq> {lo..<length hist}"
  proof clarify
    fix sq i f assume "(sq, i, f) \<in> set q"
    then obtain h where h: "lo \<le> unat sq" "h < fr" "tagAt hist h = 5" "trainEnd hist h = unat sq"
      using cleanPartE [OF assms(1)] by metis
    then have "trainEnd hist h < length hist" using trainsOkD(1) [OF assms(2), of h] assms(3) by simp
    then show "unat (fst (sq, i, f)) \<in> {lo..<length hist}" using h by simp
  qed
  then have "card ((\<lambda>x. unat (fst x)) ` set q) \<le> card {lo..<length hist}" by (intro card_mono) auto
  also have "\<dots> \<le> n" using assms(4) by simp
  finally show ?thesis .
qed

section \<open>Filling a batch\<close>

text \<open>A message is put into the batch; the notes stay in order and within their buffer.\<close>

lemma mcPushItem_spec:
  assumes "ringPart r hist e" "histOk mtu hist" "cleanPart (pos1 e) hist k (mcBuffer e) (mcCleanup e)"
    "pos1 e \<le> k" "k < length hist" "unat sq = k"
  obtains q where "mcPushItem sq e = e\<lparr>mcToSend := mcToSend e @ piecesOf (mcBuffer e) sq (hist ! k), mcCleanup := q\<rparr>"
    "cleanPart (pos1 e) hist (Suc k) (mcBuffer e) q"
proof -
  note R = ringPartD [OF assms(1)] and H = histOkD [OF assms(2)]
  have sq: "sq = of_nat k" by (simp add: assms(6) [symmetric])
  have o: "objectAt e sq = hist ! k" using R(8) assms(4,5) by (simp add: sq)
  note C = cleanPart_mono [OF assms(3), of "Suc k"]
  show ?thesis
  proof (cases "wTag (smWire (hist ! k)) = 5")
    case False
    then show ?thesis using C o
      by (intro that [of "mcCleanup e"]) (simp_all add: mcPushItem_def piecesOf_def Let_def)
  next
    case True
    let ?a = "sq + (smSegCount (hist ! k) + 1)" and ?q = "mcCleanup e"
    let ?x = "(?a, ?a AND MASK (mcBuffer e), smCleanup (hist ! k))"
    have t: "tagAt hist k = 5" using True by (simp add: tagAt_def)
    have le: "trainEnd hist k < length hist" by (rule trainsOkD(1) [OF H(1) assms(5) t])
    have "unat (smSegCount (hist ! k) + 1) = unat (smSegCount (hist ! k)) + 1"
      using le R(7) by (subst unat_add_small) (simp_all add: trainEnd_def)
    then have a: "unat ?a = trainEnd hist k"
      using le R(7) by (subst unat_add_small) (simp_all add: trainEnd_def assms(6))
    have len: "length ?q < unat (CAPACITY (mcBuffer e)) + 10"
      using cleanPart_length [OF assms(3) H(1), of "2 ^ r"] assms(5) R(13,14) by simp
    then have push: "pushCircular (unat (CAPACITY (mcBuffer e)) + 10) ?q ?x = ?q @ [?x]" by (simp add: pushCircular_def)
    have "sorted_wrt (\<lambda>x y. fst x < fst y) (?q @ [?x])"
    proof -
      have "fst y < ?a" if "y \<in> set ?q" for y
      proof -
        obtain s i f where y: "y = (s, i, f)" by (metis prod_cases3)
        with that obtain h where h: "h < k" "tagAt hist h = 5" "trainEnd hist h = unat s"
          using cleanPartE [OF assms(3)] by metis
        then show ?thesis using trainEnd_mono [OF H(1) h(2) t h(1) assms(5)] a y by (simp add: word_less_nat_alt)
      qed
      then show ?thesis using assms(3) by (simp add: cleanPart_def sorted_wrt_append)
    qed
    moreover have "pos1 e \<le> unat ?a" using a assms(4) by (simp add: trainEnd_def)
    ultimately have "cleanPart (pos1 e) hist (Suc k) (mcBuffer e) (?q @ [?x])"
      using C a t unfolding cleanPart_iff by auto
    then show ?thesis
      using True o push by (intro that [of "?q @ [?x]"]) (simp_all add: mcPushItem_def piecesOf_def Let_def)
  qed
qed

lemma mcFill_spec:
  assumes "ringPart r hist e" "histOk (unat (mcMtu e)) hist" "raterOff (mcRater e)" "unat (mcMtu e) < 2 ^ 62"
    "pos1 e \<le> base" "base \<le> unat it" "unat it \<le> unat en" "unat en \<le> length hist"
    "cleanPart (pos1 e) hist (unat it) (mcBuffer e) (mcCleanup e)"
    "mcToSend e = batchOf (mcBuffer e) hist base (unat it)" "unat n = length (bytesOf hist base (unat it))"
    "length (bytesOf hist base (unat it)) \<le> unat (mcMtu e)"
  shows "\<exists>it' x ps q. mcFill clock it en n e = Ret (it', e\<lparr>mcExpectSeq := x, mcToSend := ps, mcCleanup := q\<rparr>) \<and>
     unat it \<le> unat it' \<and> unat it' \<le> unat en \<and> ps = batchOf (mcBuffer e) hist base (unat it') \<and>
     length (bytesOf hist base (unat it')) \<le> unat (mcMtu e) \<and> cleanPart (pos1 e) hist (unat it') (mcBuffer e) q \<and>
     (it \<noteq> en \<and> n = 0 \<longrightarrow> unat it < unat it')"
  using assms
proof (induction clock it en n e rule: mcFill.induct)
  case (1 clock it en n e)
  note R = ringPartD [OF "1.prems"(1)] and H = histOkD [OF "1.prems"(2)] and off = raterOff_steps [OF "1.prems"(3)]
  show ?case
  proof (cases "it = en")
    case True
    have "e = e\<lparr>mcExpectSeq := mcExpectSeq e, mcToSend := mcToSend e, mcCleanup := mcCleanup e\<rparr>" by simp
    then have "mcFill clock it en n e = Ret (it, e\<lparr>mcExpectSeq := mcExpectSeq e, mcToSend := mcToSend e, mcCleanup := mcCleanup e\<rparr>)"
      using True by (subst mcFill.simps) simp
    then show ?thesis using "1.prems" True by blast
  next
    case False
    let ?k = "unat it"
    have lt: "?k < length hist" using "1.prems"(7,8) False by (metis le_neq_implies_less less_le_trans word_unat_eq_iff)
    have kl: "?k < unat en" using "1.prems"(7) False by (metis le_neq_implies_less word_unat_eq_iff)
    have o: "objectAt e it = hist ! ?k" using R(8) [of ?k] lt "1.prems"(5,6) by simp
    let ?w = "wmSize (smWire (hist ! ?k))"
    have w: "?w = length (wireBytes (smWire (hist ! ?k)))" "?w \<le> unat (mcMtu e)"
      using H(2,3) [OF lt] by (simp_all add: wireBytes_length)
    have un: "unat (n + of_nat ?w) = unat n + ?w"
      using w(2) "1.prems"(4,11,12) unat_of_nat_small [of ?w] by (subst unat_add_small) simp_all
    have suc: "unat (it + 1) = Suc ?k" using lt R(7) by (intro unat_inc) simp
    have snoc: "length (bytesOf hist base (Suc ?k)) = unat n + ?w" using "1.prems"(6,11) w(1) by simp
    show ?thesis
    proof (cases "mcMtu e < n + of_nat ?w")
      case True
      have "e\<lparr>mcRater := mcRater e\<rparr> = e\<lparr>mcExpectSeq := mcExpectSeq e, mcToSend := mcToSend e, mcCleanup := mcCleanup e\<rparr>" by simp
      then have "mcFill clock it en n e = Ret (it, e\<lparr>mcExpectSeq := mcExpectSeq e, mcToSend := mcToSend e, mcCleanup := mcCleanup e\<rparr>)"
        using False True o off by (subst mcFill.simps) (simp add: Let_def)
      moreover have "n \<noteq> 0" using True un w(2) by (auto simp: word_less_nat_alt)
      ultimately show ?thesis using "1.prems" by blast
    next
      case fits: False
      define e1 where "e1 = e\<lparr>mcRater := mcRater e, mcExpectSeq := it + 1\<rparr>"
      have f1: "mcBuffer e1 = mcBuffer e" "mcObjects e1 = mcObjects e" "mcMtu e1 = mcMtu e" "mcRater e1 = mcRater e"
        "mcCleanup e1 = mcCleanup e" "mcToSend e1 = mcToSend e" by (simp_all add: e1_def)
      have p: "ringPart r hist e1" using "1.prems"(1) f1(1,2) by (rule ringPart_cong)
      obtain q where q: "mcPushItem it e1 = e1\<lparr>mcToSend := mcToSend e1 @ piecesOf (mcBuffer e1) it (hist ! ?k), mcCleanup := q\<rparr>"
          "cleanPart (pos1 e1) hist (Suc ?k) (mcBuffer e1) q"
        by (rule mcPushItem_spec [OF p "1.prems"(2), of ?k it]) (use "1.prems" lt f1 in simp_all)
      let ?e2 = "mcPushItem it e1"
      have same: "mcBuffer ?e2 = mcBuffer e" "mcObjects ?e2 = mcObjects e" "mcMtu ?e2 = mcMtu e" "mcRater ?e2 = mcRater e"
        "mcCleanup ?e2 = q"
        by (simp_all add: q(1) f1)
      have ts: "mcToSend ?e2 = batchOf (mcBuffer ?e2) hist base (unat (it + 1))"
        using "1.prems"(6,10) by (simp add: q(1) suc f1)
      have step: "mcFill clock it en n e = mcFill clock (it + 1) en (n + of_nat ?w) ?e2"
        using False fits o off by (subst mcFill.simps) (simp add: Let_def e1_def)
      note IH = "1.IH" [OF False refl refl, of True "mcRater e", unfolded o, folded e1_def]
      have p2: "ringPart r hist ?e2" using "1.prems"(1) same(1,2) by (rule ringPart_cong)
      have "\<exists>it' x ps q'. mcFill clock (it + 1) en (n + of_nat ?w) ?e2 = Ret (it', ?e2\<lparr>mcExpectSeq := x, mcToSend := ps, mcCleanup := q'\<rparr>) \<and>
         unat (it + 1) \<le> unat it' \<and> unat it' \<le> unat en \<and> ps = batchOf (mcBuffer ?e2) hist base (unat it') \<and>
         length (bytesOf hist base (unat it')) \<le> unat (mcMtu ?e2) \<and> cleanPart (pos1 ?e2) hist (unat it') (mcBuffer ?e2) q' \<and>
         (it + 1 \<noteq> en \<and> n + of_nat ?w = 0 \<longrightarrow> unat (it + 1) < unat it')"
      proof (rule IH)
        show "\<not> (\<not> True \<or> mcMtu e < n + of_nat ?w)" using fits by simp
        show "ringPart r hist ?e2" by (rule p2)
        show "unat (n + of_nat ?w) = length (bytesOf hist base (unat (it + 1)))" by (simp add: un suc snoc)
        show "length (bytesOf hist base (unat (it + 1))) \<le> unat (mcMtu ?e2)"
          using fits by (simp add: suc snoc same word_less_nat_alt un)
        show "cleanPart (pos1 ?e2) hist (unat (it + 1)) (mcBuffer ?e2) (mcCleanup ?e2)" using q(2) by (simp add: same suc f1)
        show "mcToSend ?e2 = batchOf (mcBuffer ?e2) hist base (unat (it + 1))" by (rule ts)
      qed (use "1.prems" kl suc same in simp_all)
      then obtain it' x ps q' where r: "mcFill clock it en n e = Ret (it', ?e2\<lparr>mcExpectSeq := x, mcToSend := ps, mcCleanup := q'\<rparr>)"
          "unat (it + 1) \<le> unat it'" "unat it' \<le> unat en" "ps = batchOf (mcBuffer e) hist base (unat it')"
          "length (bytesOf hist base (unat it')) \<le> unat (mcMtu e)" "cleanPart (pos1 e) hist (unat it') (mcBuffer e) q'"
        unfolding step same by blast
      have "?e2\<lparr>mcExpectSeq := x, mcToSend := ps, mcCleanup := q'\<rparr> = e\<lparr>mcExpectSeq := x, mcToSend := ps, mcCleanup := q'\<rparr>"
        by (simp add: q(1)) (simp add: e1_def)
      then show ?thesis using r suc by (intro exI [of _ it'] exI [of _ x] exI [of _ ps] exI [of _ q']) simp
    qed
  qed
qed

section \<open>A turn of the transport\<close>

definition mcInv :: "nat \<Rightarrow> SlotMessage list \<Rightarrow> 'a McSend_scheme \<Rightarrow> bool" where
  "mcInv r hist e \<longleftrightarrow> ringPart r hist e \<and> histOk (unat (mcMtu e)) hist \<and> batchPart hist e \<and>
     cleanPart (pos1 e) hist (front e) (mcBuffer e) (mcCleanup e) \<and> raterOff (mcRater e) \<and> unat (mcMtu e) < 2 ^ 62"

lemma mcInvD:
  assumes "mcInv r hist e"
  shows "ringPart r hist e" "histOk (unat (mcMtu e)) hist" "batchPart hist e"
    "cleanPart (pos1 e) hist (front e) (mcBuffer e) (mcCleanup e)" "raterOff (mcRater e)" "unat (mcMtu e) < 2 ^ 62"
    "front e \<le> length hist"
  using assms by (auto simp: mcInv_def batchPart_def)

text \<open>What a turn may change.\<close>

definition moved :: "'a McSend_scheme \<Rightarrow> 'a McSend_scheme \<Rightarrow> bool" where
  "moved e e' \<longleftrightarrow> (\<exists>b ps w x q ap lp. e' = e\<lparr>mcBuffer := b, mcToSend := ps, mcWaste := w, mcExpectSeq := x, mcCleanup := q,
     mcAdPending := ap, mcAlertPending := lp\<rparr>)"

lemma movedI:
  "e' = e\<lparr>mcBuffer := b, mcToSend := ps, mcWaste := w, mcExpectSeq := x, mcCleanup := q, mcAdPending := ap, mcAlertPending := lp\<rparr> \<Longrightarrow>
     moved e e'"
  unfolding moved_def by blast

lemma moved_refl [simp]: "moved e e"
  by (rule movedI [where b = "mcBuffer e" and ps = "mcToSend e" and w = "mcWaste e" and x = "mcExpectSeq e" and q = "mcCleanup e"
      and ap = "mcAdPending e" and lp = "mcAlertPending e"]) simp

lemma moved_trans: "moved e e1 \<Longrightarrow> moved e1 e2 \<Longrightarrow> moved e e2"
  by (auto simp: moved_def) blast

lemma movedD:
  assumes "moved e e'"
  shows "mcObjects e' = mcObjects e" "mcMtu e' = mcMtu e" "mcRater e' = mcRater e" "mcAdBufs e' = mcAdBufs e"
    "mcAdGeneration e' = mcAdGeneration e" "mcStartSending e' = mcStartSending e" "mcMaxSendBatch e' = mcMaxSendBatch e"
    "mcMaxMessageSize e' = mcMaxMessageSize e"
  using assms by (auto simp: moved_def)

lemma idle_moved: "moved e e' \<Longrightarrow> idlePiece e' p = idlePiece e p"
  by (simp add: idlePiece_def movedD split: McPiece.splits)

text \<open>Reader 0 is moved on.\<close>

lemma ringPart_advance:
  assumes "ringPart r hist e" "pos0 e + unat n \<le> length hist"
  shows "wasteAfterPeek (mcBuffer e) 0 n = Ret (advance (mcBuffer e) 0 n)"
    "ringPart r hist (e\<lparr>mcBuffer := advance (mcBuffer e) 0 n\<rparr>)"
    "readN (advance (mcBuffer e) 0 n) 0 = pos0 e + unat n" "readN (advance (mcBuffer e) 0 n) 1 = pos1 e"
    "MASK (advance (mcBuffer e) 0 n) = MASK (mcBuffer e)" "CAPACITY (advance (mcBuffer e) 0 n) = CAPACITY (mcBuffer e)"
proof -
  note R = ringPartD [OF assms(1)]
  have "pos0 e + unat n \<le> claimedN (mcBuffer e)" using assms(2) R(6) by simp
  note A = advance_reader [OF R(1,3) this R(11)]
  show "wasteAfterPeek (mcBuffer e) 0 n = Ret (advance (mcBuffer e) 0 n)" using R(3) by (rule wasteAfterPeek_advance)
  show pos: "readN (advance (mcBuffer e) 0 n) 0 = pos0 e + unat n" "readN (advance (mcBuffer e) 0 n) 1 = pos1 e"
    using A(3) by simp_all
  show m: "MASK (advance (mcBuffer e) 0 n) = MASK (mcBuffer e)" "CAPACITY (advance (mcBuffer e) 0 n) = CAPACITY (mcBuffer e)"
    using A(5,6) by simp_all
  show "ringPart r hist (e\<lparr>mcBuffer := advance (mcBuffer e) 0 n\<rparr>)"
    using A R pos by (simp add: ringPart_def objectAt_def)
qed

lemma mcSendmsg_spec:
  assumes "mcInv r hist e"
  shows "mcToSend e = [] \<Longrightarrow> mcSendmsg ok e = Ret (True, None, e)" "mcToSend e = [] \<Longrightarrow> front e = pos0 e"
    "mcToSend e \<noteq> [] \<Longrightarrow> mcSendmsg False e = Ret (False, None, e)"
    "mcToSend e \<noteq> [] \<Longrightarrow> \<exists>d e'. mcSendmsg True e = Ret (True, Some d, e') \<and> mcInv r hist e' \<and> moved e e' \<and>
       mcToSend e' = [] \<and> mcWaste e' = 0 \<and> pos0 e' = front e \<and> pos1 e' = pos1 e \<and>
       mcAdPending e' = mcAdPending e \<and> mcAlertPending e' = mcAlertPending e \<and>
       (pos0 e < front e \<longrightarrow> d = bytesOf hist (pos0 e) (front e) \<and> length d \<le> unat (mcMtu e))"
proof -
  note I = mcInvD [OF assms] and R = ringPartD [OF mcInvD(1) [OF assms]]
  show "mcToSend e = [] \<Longrightarrow> mcSendmsg ok e = Ret (True, None, e)" by (simp add: mcSendmsg_def)
  show "mcToSend e \<noteq> [] \<Longrightarrow> mcSendmsg False e = Ret (False, None, e)" by (simp add: mcSendmsg_def)
  show "mcToSend e = [] \<Longrightarrow> front e = pos0 e"
    using I(3) by (auto simp: batchPart_def batchOf_empty front_def split: if_splits)
  assume ne: "mcToSend e \<noteq> []"
  note A = ringPart_advance [OF I(1), of "mcWaste e", folded front_def, OF I(7)]
  let ?b = "advance (mcBuffer e) 0 (mcWaste e)"
  let ?e = "e\<lparr>mcBuffer := ?b, mcToSend := [], mcWaste := 0\<rparr>"
  obtain d where d: "mcReadPieces e (mcToSend e) = Ret d"
      "pos0 e < front e \<longrightarrow> d = bytesOf hist (pos0 e) (front e) \<and> length d \<le> unat (mcMtu e)"
  proof (cases "mcWaste e = 0")
    case True
    then show ?thesis using that readPieces_idle [of "mcToSend e" e] I(3) by (auto simp: batchPart_def front_def)
  next
    case False
    then show ?thesis
      using that readPieces_batch [OF I(1,2) R(5) _ I(7)] I(3) by (auto simp: batchPart_def front_def)
  qed
  have "ringPart r hist ?e" using A(2) by (rule ringPart_cong) simp_all
  moreover have fr: "front ?e = front e" by (simp add: front_def A(3))
  ultimately have "mcInv r hist ?e"
    using I A by (simp add: mcInv_def batchPart_def cleanPart_def)
  moreover have "moved e ?e"
    by (rule movedI [where b = ?b and ps = "[]" and w = 0 and x = "mcExpectSeq e" and q = "mcCleanup e"
      and ap = "mcAdPending e" and lp = "mcAlertPending e"]) simp
  ultimately show "\<exists>d e'. mcSendmsg True e = Ret (True, Some d, e') \<and> mcInv r hist e' \<and> moved e e' \<and>
       mcToSend e' = [] \<and> mcWaste e' = 0 \<and> pos0 e' = front e \<and> pos1 e' = pos1 e \<and>
       mcAdPending e' = mcAdPending e \<and> mcAlertPending e' = mcAlertPending e \<and>
       (pos0 e < front e \<longrightarrow> d = bytesOf hist (pos0 e) (front e) \<and> length d \<le> unat (mcMtu e))"
    using ne d A by (intro exI [of _ d] exI [of _ ?e]) (auto simp: mcSendmsg_def front_def)
qed

text \<open>Collecting a batch; without a session the messages are skipped.\<close>

lemma mcBatch_spec:
  assumes "mcInv r hist e" "mcWaste e = 0"
  shows "\<exists>e'. mcBatch n clock e = Ret e' \<and> mcInv r hist e' \<and> moved e e' \<and> pos1 e' = pos1 e \<and> pos0 e \<le> pos0 e' \<and>
     mcAdPending e' = mcAdPending e \<and> mcAlertPending e' = mcAlertPending e \<and> (n \<noteq> 0 \<longrightarrow> pos0 e' = pos0 e) \<and>
     (mcWaste e' = 0 \<longrightarrow> mcToSend e' = mcToSend e) \<and> (n = 0 \<longrightarrow> mcWaste e' = 0) \<and>
     (mcStartSending e \<and> mcToSend e = [] \<and> mcMaxSendBatch e \<noteq> 0 \<and> pos0 e < length hist \<longrightarrow> pos0 e < front e')"
proof (cases "mcStartSending e \<and> mcToSend e = []")
  case False
  then have "mcBatch n clock e = Ret e" by (auto simp: mcBatch_def)
  then show ?thesis using assms False by auto
next
  case True
  note I = mcInvD [OF assms(1)] and R = ringPartD [OF mcInvD(1) [OF assms(1)]]
  have le: "pos0 e \<le> length hist" by (rule R(12))
  let ?s0 = "readSeqs (mcBuffer e) ! 0"
  obtain en m where pk: "peek (mcBuffer e) 0 (mcMaxSendBatch e) = Ret (iteratorAt ?s0, iteratorAt en, m)"
      and en: "unat en = pos0 e + min (unat (mcMaxSendBatch e)) (length hist - pos0 e)"
    using peek_range [OF R(1,3,11), of "mcMaxSendBatch e"] R(6) by auto
  have u0: "unat ?s0 = pos0 e" by (simp add: readN_def)
  have enle: "unat en \<le> length hist" "pos0 e \<le> unat en" using en le by simp_all
  have d: "unat (it - ?s0) = unat it - pos0 e" if "pos0 e \<le> unat it" for it
    using that by (simp add: unat_sub word_le_nat_alt u0)
  have prog: "pos0 e < unat en" if "mcMaxSendBatch e \<noteq> 0" "pos0 e < length hist" using that en by (simp add: unat_gt_0)
  have fr0: "front e = pos0 e" using assms(2) by (simp add: front_def)
  show ?thesis
  proof (cases "n = 0")
    case n: True
    note A = ringPart_advance [OF I(1), of "en - ?s0", unfolded d [OF enle(2)]]
    let ?b = "advance (mcBuffer e) 0 (en - ?s0)"
    have A': "wasteAfterPeek (mcBuffer e) 0 (en - ?s0) = Ret ?b" "ringPart r hist (e\<lparr>mcBuffer := ?b\<rparr>)"
        "readN ?b 0 = unat en" "readN ?b 1 = pos1 e" "MASK ?b = MASK (mcBuffer e)" "CAPACITY ?b = CAPACITY (mcBuffer e)"
      using A enle by simp_all
    let ?e = "e\<lparr>mcBuffer := ?b, mcWaste := 0\<rparr>"
    have "mcBatch n clock e = Ret ?e"
      using True n pk A' by (simp add: mcBatch_def iterMinus_def mcFill.simps [of _ en en])
    moreover have "ringPart r hist ?e" using A'(2) by (rule ringPart_cong) simp_all
    moreover have fr: "front ?e = unat en" by (simp add: front_def A')
    moreover have "cleanPart (pos1 ?e) hist (front ?e) (mcBuffer ?e) (mcCleanup ?e)"
      using cleanPart_mono [OF I(4), of "unat en"] enle fr0 fr A' by (simp add: cleanPart_def)
    ultimately have "mcBatch n clock e = Ret ?e" "mcInv r hist ?e"
      using I enle True by (simp_all add: mcInv_def batchPart_def)
    moreover have "moved e ?e"
      by (rule movedI [where b = ?b and ps = "mcToSend e" and w = 0 and x = "mcExpectSeq e" and q = "mcCleanup e"
            and ap = "mcAdPending e" and lp = "mcAlertPending e"]) simp
    ultimately show ?thesis using n A' enle prog fr by (intro exI [of _ ?e]) simp
  next
    case n: False
    have "\<exists>it' x ps q. mcFill clock ?s0 en 0 e = Ret (it', e\<lparr>mcExpectSeq := x, mcToSend := ps, mcCleanup := q\<rparr>) \<and>
       unat ?s0 \<le> unat it' \<and> unat it' \<le> unat en \<and> ps = batchOf (mcBuffer e) hist (pos0 e) (unat it') \<and>
       length (bytesOf hist (pos0 e) (unat it')) \<le> unat (mcMtu e) \<and> cleanPart (pos1 e) hist (unat it') (mcBuffer e) q \<and>
       (?s0 \<noteq> en \<and> (0 :: u64) = 0 \<longrightarrow> unat ?s0 < unat it')"
      using I R(5) True enle fr0 u0 by (intro mcFill_spec) simp_all
    then obtain it' x q where f: "mcFill clock ?s0 en 0 e =
          Ret (it', e\<lparr>mcExpectSeq := x, mcToSend := batchOf (mcBuffer e) hist (pos0 e) (unat it'), mcCleanup := q\<rparr>)"
        "pos0 e \<le> unat it'" "unat it' \<le> unat en" "length (bytesOf hist (pos0 e) (unat it')) \<le> unat (mcMtu e)"
        "cleanPart (pos1 e) hist (unat it') (mcBuffer e) q" "?s0 \<noteq> en \<longrightarrow> pos0 e < unat it'"
      unfolding u0 by auto
    let ?ps = "batchOf (mcBuffer e) hist (pos0 e) (unat it')"
    let ?e = "e\<lparr>mcExpectSeq := x, mcToSend := ?ps, mcCleanup := q, mcWaste := it' - ?s0\<rparr>"
    have run: "mcBatch n clock e = Ret ?e" using True n pk f(1) by (simp add: mcBatch_def)
    have fr: "front ?e = unat it'" using f(2) by (simp add: front_def d)
    have w0: "it' - ?s0 = 0 \<longleftrightarrow> unat it' = pos0 e" using word_unat_eq_iff [of it' ?s0] by (simp add: u0)
    have "ringPart r hist ?e" using I(1) by (rule ringPart_cong) simp_all
    then have inv: "mcInv r hist ?e"
      using I f fr enle w0 by (auto simp: mcInv_def batchPart_def)
    have mv: "moved e ?e"
      by (rule movedI [where b = "mcBuffer e" and ps = ?ps and w = "it' - ?s0" and x = x and q = q
            and ap = "mcAdPending e" and lp = "mcAlertPending e"]) simp
    have "?s0 \<noteq> en" if "mcMaxSendBatch e \<noteq> 0" "pos0 e < length hist" using prog [OF that] u0 by auto
    then show ?thesis
      using n True run inv mv f(6) fr w0 by (intro exI [of _ ?e]) auto
  qed
qed

text \<open>The flags are turned into pieces.\<close>

lemma mcInv_push:
  assumes "mcInv r hist e" "moved e e'" "mcBuffer e' = mcBuffer e" "mcCleanup e' = mcCleanup e" "mcWaste e' = mcWaste e"
    "mcToSend e' = mcToSend e @ ps" "ps = [] \<or> mcWaste e = 0" "\<forall>p \<in> set ps. idlePiece e p"
  shows "mcInv r hist e'"
proof -
  note I = mcInvD [OF assms(1)]
  have "ringPart r hist e'" using I(1) assms(3) movedD(1) [OF assms(2)] by (rule ringPart_cong)
  then show ?thesis
    using I assms by (auto simp: mcInv_def batchPart_def front_def movedD [OF assms(2)] idle_moved [OF assms(2)])
qed

lemma mcPushAds_spec:
  assumes "mcInv r hist e" "mcWaste e = 0"
  shows "mcInv r hist (mcPushAds e)" "moved e (mcPushAds e)" "mcBuffer (mcPushAds e) = mcBuffer e" "mcWaste (mcPushAds e) = 0"
    "mcAlertPending (mcPushAds e) = mcAlertPending e" "\<not> mcAdPending (mcPushAds e)"
    "mcToSend (mcPushAds e) \<noteq> mcToSend e \<Longrightarrow> mcAdPending e"
proof -
  show m: "moved e (mcPushAds e)"
  proof (cases "mcAdPending e")
    case True
    then show ?thesis
      by (intro movedI [where b = "mcBuffer e" and w = "mcWaste e" and x = "mcExpectSeq e" and q = "mcCleanup e" and ap = False
            and lp = "mcAlertPending e" and ps = "mcToSend e @ map (AdAt (mcAdGeneration e)) [0..<length (mcAdBufs e)]"])
         (simp add: mcPushAds_def)
  qed (simp add: mcPushAds_def)
  show "mcInv r hist (mcPushAds e)"
    by (rule mcInv_push [OF assms(1) m, where ps = "if mcAdPending e then map (AdAt (mcAdGeneration e)) [0..<length (mcAdBufs e)] else []"])
       (auto simp: mcPushAds_def assms(2) idlePiece_def)
qed (simp_all add: mcPushAds_def assms split: if_splits)

lemma mcPushAlert_spec:
  assumes "mcInv r hist e"
  shows "mcInv r hist (mcPushAlert e)" "moved e (mcPushAlert e)" "mcBuffer (mcPushAlert e) = mcBuffer e"
    "mcWaste (mcPushAlert e) = mcWaste e" "mcAdPending (mcPushAlert e) = mcAdPending e" "\<not> mcAlertPending (mcPushAlert e)"
    "mcToSend (mcPushAlert e) \<noteq> mcToSend e \<Longrightarrow> mcAlertPending e \<and> mcWaste e = 0"
proof -
  show m: "moved e (mcPushAlert e)"
  proof (cases "mcAlertPending e")
    case True
    then show ?thesis
      by (intro movedI [where b = "mcBuffer e" and w = "mcWaste e" and x = "mcExpectSeq e" and q = "mcCleanup e"
            and ap = "mcAdPending e" and lp = False and ps = "mcToSend e @ (if mcWaste e = 0 then [AlertBuf] else [])"])
         (simp add: mcPushAlert_def)
  qed (simp add: mcPushAlert_def)
  show "mcInv r hist (mcPushAlert e)"
    by (rule mcInv_push [OF assms m, where ps = "if mcAlertPending e \<and> mcWaste e = 0 then [AlertBuf] else []"])
       (auto simp: mcPushAlert_def idlePiece_def)
qed (auto simp: mcPushAlert_def split: if_splits)

text \<open>What is left to do, as a number that each further round brings down.\<close>

definition toDo :: "SlotMessage list \<Rightarrow> 'a McSend_scheme \<Rightarrow> nat" where
  "toDo hist e = 2 * (length hist - front e) + (if mcAdPending e then 2 else 0) + (if mcAlertPending e then 2 else 0) +
     (if mcToSend e \<noteq> [] then 1 else 0)"

definition turnResult :: "SlotMessage list \<Rightarrow> nat \<Rightarrow> 'a McSend_scheme \<Rightarrow> bytes option \<Rightarrow> 'a McSend_scheme \<Rightarrow> bool" where
  "turnResult hist n e d e' \<longleftrightarrow> pos1 e' = pos1 e \<and> pos0 e \<le> pos0 e' \<and>
     (case d of None \<Rightarrow> n \<noteq> 0 \<longrightarrow> pos0 e' = pos0 e
      | Some b \<Rightarrow> front e \<le> pos0 e' \<and> (n \<noteq> 0 \<longrightarrow> pos0 e' = front e) \<and>
          (pos0 e < front e \<longrightarrow> b = bytesOf hist (pos0 e) (front e) \<and> length b \<le> unat (mcMtu e)))"

lemma mcTurn_spec:
  assumes "mcInv r hist e"
  shows "\<exists>again d e'. mcTurn ok clock n e = Ret (again, d, e') \<and> mcInv r hist e' \<and> moved e e' \<and> turnResult hist n e d e' \<and>
     (ok \<and> n \<noteq> 0 \<and> mcStartSending e \<and> mcMaxSendBatch e \<noteq> 0 \<longrightarrow>
        (if again then toDo hist e' < toDo hist e else mcToSend e' = [] \<and> pos0 e' = length hist))"
proof (cases "mcToSend e = [] \<or> ok")
  case False
  then show ?thesis
    using assms mcSendmsg_spec(3) [OF assms]
    by (intro exI [of _ False] exI [of _ None] exI [of _ e]) (simp add: mcTurn_def turnResult_def)
next
  case True
  note S = mcSendmsg_spec [OF assms]
  obtain d e1 where s: "mcSendmsg ok e = Ret (True, d, e1)" and I1: "mcInv r hist e1" and m1: "moved e e1"
    and e1: "mcToSend e1 = []" "mcWaste e1 = 0" "pos0 e1 = front e" "pos1 e1 = pos1 e" "front e1 = front e"
      "mcAdPending e1 = mcAdPending e" "mcAlertPending e1 = mcAlertPending e"
    and d: "d = None \<Longrightarrow> mcToSend e = [] \<and> front e = pos0 e"
      "\<And>b. d = Some b \<Longrightarrow> pos0 e < front e \<longrightarrow> b = bytesOf hist (pos0 e) (front e) \<and> length b \<le> unat (mcMtu e)"
      "d \<noteq> None \<Longrightarrow> mcToSend e \<noteq> []"
  proof (cases "mcToSend e = []")
    case nil: True
    show ?thesis
      by (rule that [of None e]) (use S(1,2) nil assms in \<open>auto simp: front_def unsigned_eq_0_iff\<close>)
  next
    case ne: False
    then obtain d e1 where *: "mcSendmsg True e = Ret (True, Some d, e1)" "mcInv r hist e1" "moved e e1"
       "mcToSend e1 = []" "mcWaste e1 = 0" "pos0 e1 = front e" "pos1 e1 = pos1 e"
       "mcAdPending e1 = mcAdPending e" "mcAlertPending e1 = mcAlertPending e"
       "pos0 e < front e \<longrightarrow> d = bytesOf hist (pos0 e) (front e) \<and> length d \<le> unat (mcMtu e)"
      using S(4) by blast
    show ?thesis by (rule that [of "Some d" e1]) (use * ne True in \<open>auto simp: front_def\<close>)
  qed
  let ?e2 = "mcPushAds e1"
  note P = mcPushAds_spec [OF I1 e1(2)]
  obtain e3 where b: "mcBatch n clock ?e2 = Ret e3" and I3: "mcInv r hist e3" and m3: "moved ?e2 e3"
    and e3: "pos1 e3 = pos1 ?e2" "pos0 ?e2 \<le> pos0 e3" "mcAdPending e3 = mcAdPending ?e2" "mcAlertPending e3 = mcAlertPending ?e2"
      "n \<noteq> 0 \<Longrightarrow> pos0 e3 = pos0 ?e2" "mcWaste e3 = 0 \<Longrightarrow> mcToSend e3 = mcToSend ?e2"
      "mcStartSending ?e2 \<Longrightarrow> mcToSend ?e2 = [] \<Longrightarrow> mcMaxSendBatch ?e2 \<noteq> 0 \<Longrightarrow> pos0 ?e2 < length hist \<Longrightarrow> pos0 ?e2 < front e3"
    using mcBatch_spec [OF P(1,4), of n clock] by blast
  let ?e4 = "mcPushAlert e3"
  note Q = mcPushAlert_spec [OF I3]
  have run: "mcTurn ok clock n e = Ret (mcToSend ?e4 \<noteq> [], d, ?e4)" by (simp add: mcTurn_def s b Let_def)
  have mv: "moved e ?e4" using m1 P(2) m3 Q(2) by (blast intro: moved_trans)
  have pos: "pos0 ?e2 = front e" "pos1 ?e2 = pos1 e" "pos0 ?e4 = pos0 e3" "pos1 ?e4 = pos1 e3" "front ?e4 = front e3"
    using e1 P(3) Q(3,4) by (simp_all add: front_def)
  have res: "turnResult hist n e d ?e4"
    using d e3 pos by (auto simp: turnResult_def front_def split: option.splits)
  have "if mcToSend ?e4 \<noteq> [] then toDo hist ?e4 < toDo hist e else mcToSend ?e4 = [] \<and> pos0 ?e4 = length hist"
    if c: "n \<noteq> 0" "mcStartSending e" "mcMaxSendBatch e \<noteq> 0"
  proof -
    have st: "mcStartSending ?e2" "mcMaxSendBatch ?e2 \<noteq> 0" using c movedD(6,7) [OF m1] movedD(6,7) [OF P(2)] by simp_all
    have fr3: "front e \<le> front e3" "front e3 \<le> length hist" "front e \<le> length hist"
      using e3(5) c(1) pos mcInvD(7) [OF I3] mcInvD(7) [OF assms] by (simp_all add: front_def)
    show ?thesis
    proof (cases "mcToSend ?e4 = []")
      case True
      then have "mcWaste e3 = 0" "mcToSend ?e2 = []"
        using mcSendmsg_spec(2) [OF Q(1)] Q(4) e3(6) by (auto simp: front_def mcPushAlert_def unsigned_eq_0_iff split: if_splits)
      then have "\<not> pos0 ?e2 < length hist" using e3(7) [OF st(1) _ st(2)] e3(5) c(1) by (auto simp: front_def)
      then show ?thesis using True fr3 pos e3(5) c(1) by simp
    next
      case False
      have "mcToSend ?e2 \<noteq> [] \<Longrightarrow> mcAdPending e" using P(7) e1 by auto
      moreover have "mcToSend ?e4 \<noteq> mcToSend e3 \<Longrightarrow> mcAlertPending e" using Q(7) e3(4) P(5) e1(7) by auto
      moreover have "mcWaste e3 \<noteq> 0 \<Longrightarrow> front e < front e3" using e3(5) c(1) pos by (simp add: front_def unat_gt_0)
      ultimately have "mcAdPending e \<or> mcAlertPending e \<or> front e < front e3" using False e3(6) by metis
      then show ?thesis
        using False fr3 P(6) Q(5,6) e3(3) pos(5) by (auto simp: toDo_def)
    qed
  qed
  then show ?thesis using run Q(1) mv res by (intro exI [of _ "mcToSend ?e4 \<noteq> []"] exI [of _ d] exI [of _ ?e4]) auto
qed

end
