(* ===== verification/McastServer.thy ===== *)
theory McastServer
  imports McastSpec
begin

text \<open>
  Publishers and the server of the sessions keep the invariant of the multicast engine; what the
  sessions send again and the attachments that are given back.
\<close>

section \<open>The invariant of the engine\<close>

definition engInv :: "nat \<Rightarrow> SlotMessage list \<Rightarrow> McEngine \<Rightarrow> bool" where
  "engInv r hist e \<longleftrightarrow> mcInv r hist e \<and> (\<forall>s \<in> set (meSessions e). sessionOk (pos1 e) (pos0 e) s) \<and>
     (meLeast e = noSeq \<or> unat (meLeast e) \<le> pos1 e) \<and> mcMaxMessageSize e + 11 \<le> unat (mcMtu e) \<and>
     mcMaxMessageSize e \<le> 1023 \<and> unat (meMaxSeg e) + 11 \<le> unat (mcMtu e) \<and> unat (meMaxSeg e) \<le> 1015 \<and>
     min 1015 (mcMaxMessageSize e) \<le> unat (meMaxSeg e)"

lemma engInvD:
  assumes "engInv r hist e"
  shows "mcInv r hist e" "\<And>s. s \<in> set (meSessions e) \<Longrightarrow> sessionOk (pos1 e) (pos0 e) s"
    "meLeast e = noSeq \<or> unat (meLeast e) \<le> pos1 e" "mcMaxMessageSize e + 11 \<le> unat (mcMtu e)"
    "mcMaxMessageSize e \<le> 1023" "unat (meMaxSeg e) + 11 \<le> unat (mcMtu e)" "unat (meMaxSeg e) \<le> 1015"
    "min 1015 (mcMaxMessageSize e) \<le> unat (meMaxSeg e)"
  using assms by (auto simp: engInv_def)

text \<open>The members that are set once.\<close>

definition sameConfig :: "McEngine \<Rightarrow> McEngine \<Rightarrow> bool" where
  "sameConfig e e' \<longleftrightarrow> mcMtu e' = mcMtu e \<and> mcMaxMessageSize e' = mcMaxMessageSize e \<and> meMaxSeg e' = meMaxSeg e \<and>
     mcMaxSendBatch e' = mcMaxSendBatch e"

lemma engInv_moved:
  assumes "engInv r hist e" "mcInv r hist e'" "moved e e'" "pos1 e' = pos1 e" "pos0 e \<le> pos0 e'"
  shows "engInv r hist e'"
proof -
  have "sessionOk (pos1 e) (pos0 e') s" if "s \<in> set (meSessions e)" for s
    using engInvD(2) [OF assms(1) that] posOk_mono [of "pos1 e" "pos0 e" s "pos1 e" "pos0 e'"] assms(5)
    by (auto simp: sessionOk_def posOk_def)
  moreover have "meSessions e' = meSessions e" "meLeast e' = meLeast e" "meMaxSeg e' = meMaxSeg e"
    using assms(3) by (auto simp: moved_def)
  ultimately show ?thesis
    using engInvD [OF assms(1)] assms(2,4) movedD [OF assms(3)] by (simp add: engInv_def)
qed

section \<open>Publishing\<close>

lemma constructAll_buffer [simp]:
  "mcBuffer (constructAll sq ms e) = mcBuffer e"
  by (induction sq ms e rule: constructAll.induct) simp_all

lemma constructAll_update: "\<exists>objs. constructAll sq ms e = e\<lparr>mcObjects := objs\<rparr>"
proof (induction sq ms e rule: constructAll.induct)
  case (1 sq e)
  show ?case by (rule exI [of _ "mcObjects e"]) simp
next
  case (2 sq m ms e)
  then show ?case by auto
qed

lemma constructAll_onto:
  "MASK b = MASK (mcBuffer e) \<Longrightarrow> constructAll sq ms (e\<lparr>mcBuffer := b\<rparr>) = (constructAll sq ms e)\<lparr>mcBuffer := b\<rparr>"
proof (induction ms arbitrary: sq e)
  case (Cons m ms)
  let ?u = "\<lambda>e. e\<lparr>mcObjects := (mcObjects e)(sq AND MASK (mcBuffer e) := m)\<rparr>"
  have "?u (e\<lparr>mcBuffer := b\<rparr>) = (?u e)\<lparr>mcBuffer := b\<rparr>" using Cons.prems by simp
  moreover have "constructAll (sq + 1) ms ((?u e)\<lparr>mcBuffer := b\<rparr>) = (constructAll (sq + 1) ms (?u e))\<lparr>mcBuffer := b\<rparr>"
    using Cons.prems by (intro Cons.IH) simp
  ultimately show ?case by (simp only: constructAll.simps)
qed simp

lemma constructAll_set: "mcObjects (constructAll sq ms e) i \<in> {mcObjects e i} \<union> set ms"
proof (induction sq ms e rule: constructAll.induct)
  case (2 sq m ms e)
  then show ?case by (auto split: if_splits)
qed simp

text \<open>The objects of the window that ends with the block.\<close>

lemma constructAll_at:
  assumes "ring_shape r (mcBuffer e)" "c + length ms < 2 ^ 63" "c + length ms \<le> k + 2 ^ r" "k < c + length ms"
  shows "objectAt (constructAll (of_nat c) ms e) (of_nat k) = (if c \<le> k then ms ! (k - c) else objectAt e (of_nat k))"
  using assms
proof (induction ms arbitrary: c e)
  case Nil
  then show ?case by simp
next
  case (Cons m ms)
  let ?b = "mcBuffer e" and ?c = "of_nat c :: u64"
  let ?e = "e\<lparr>mcObjects := (mcObjects e)(?c AND MASK ?b := m)\<rparr>"
  have step: "constructAll ?c (m # ms) e = constructAll (of_nat (Suc c)) ms ?e" by (simp add: add.commute)
  have at: "objectAt ?e (of_nat k) = (if k mod 2 ^ r = c mod 2 ^ r then m else objectAt e (of_nat k))"
  proof -
    have "of_nat k AND MASK ?b = ?c AND MASK ?b \<longleftrightarrow> k mod 2 ^ r = c mod 2 ^ r"
      using slot_of_number [OF Cons.prems(1), of k] slot_of_number [OF Cons.prems(1), of c] Cons.prems(2,4)
      by (simp add: word_unat_eq_iff)
    then show ?thesis by (simp add: objectAt_def)
  qed
  have mod: "k mod 2 ^ r = c mod 2 ^ r \<longleftrightarrow> k = c" if "k \<le> c"
  proof -
    have "c < k + 2 ^ r" using Cons.prems(3) by simp
    then show ?thesis using window_mod_inj [of k k "2 ^ r" c] that by auto
  qed
  show ?case
  proof (cases "k < Suc c + length ms \<and> length ms \<noteq> 0 \<or> k = c")
    case True
    show ?thesis
    proof (cases "length ms = 0")
      case True2: True
      then show ?thesis using True mod at by (simp add: step)
    next
      case False
      then have "objectAt (constructAll (of_nat (Suc c)) ms ?e) (of_nat k) =
          (if Suc c \<le> k then ms ! (k - Suc c) else objectAt ?e (of_nat k))"
        using Cons.prems True by (intro Cons.IH) simp_all
      then show ?thesis unfolding step at using mod by (auto simp: nth_Cons')
    qed
  next
    case False
    then have "k < c" "ms = []" using Cons.prems(4) by auto
    then show ?thesis using mod at by (simp add: step)
  qed
qed

text \<open>What a history may be continued with.\<close>

definition blockOk :: "nat \<Rightarrow> SlotMessage list \<Rightarrow> SlotMessage list \<Rightarrow> bool" where
  "blockOk mtu hist ms \<longleftrightarrow> ms \<noteq> [] \<and> trainsOk ms \<and>
     (\<forall>j < length ms. wSeq (smWire (ms ! j)) = take_bit 48 (of_nat (length hist + j)) \<and>
        length (wBody (smWire (ms ! j))) + 11 \<le> mtu \<and> length (wBody (smWire (ms ! j))) + 8 < 2 ^ 16)"

lemma append_views:
  assumes "h < length hist"
  shows "tagAt (hist @ ms) h = tagAt hist h" "trainEnd (hist @ ms) h = trainEnd hist h" "(hist @ ms) ! h = hist ! h"
  using assms by (simp_all add: tagAt_def trainEnd_def nth_append)

lemma trainsOk_append:
  assumes "trainsOk hist" "trainsOk ms"
  shows "trainsOk (hist @ ms)"
  unfolding trainsOk_def
proof (intro allI impI conjI)
  fix h assume h: "h < length (hist @ ms)" "tagAt (hist @ ms) h = 5"
  let ?n = "length hist"
  have shift: "tagAt (hist @ ms) k = tagAt ms (k - ?n)" "trainEnd (hist @ ms) k = ?n + trainEnd ms (k - ?n)" if "?n \<le> k" for k
    using that by (simp_all add: tagAt_def trainEnd_def nth_append)
  show "trainEnd (hist @ ms) h < length (hist @ ms)"
  proof (cases "h < ?n")
    case True
    then show ?thesis using trainsOkD(1) [OF assms(1) True] h(2) append_views [OF True] by simp
  next
    case False
    then show ?thesis using trainsOkD(1) [OF assms(2), of "h - ?n"] h shift [of h] by simp
  qed
  fix k assume k: "h < k \<and> k \<le> trainEnd (hist @ ms) h"
  show "tagAt (hist @ ms) k \<noteq> 5"
  proof (cases "h < ?n")
    case True
    then have "k < ?n" using trainsOkD(1) [OF assms(1) True] h(2) append_views [OF True] k by simp
    then show ?thesis using trainsOkD(2) [OF assms(1) True, of k] h(2) append_views [OF True] append_views [of k] k by simp
  next
    case False
    then have "trainEnd (hist @ ms) h = ?n + trainEnd ms (h - ?n)" using shift [of h] by simp
    then have "h - ?n < k - ?n" "k - ?n \<le> trainEnd ms (h - ?n)" using k False by arith+
    moreover have "h - ?n < length ms" using h(1) False by simp
    ultimately show ?thesis using trainsOkD(2) [OF assms(2), of "h - ?n" "k - ?n"] h(2) k False shift [of h] shift [of k] by simp
  qed
qed

lemma histOk_append:
  assumes "histOk mtu hist" "blockOk mtu hist ms"
  shows "histOk mtu (hist @ ms)"
proof -
  have "wSeq (smWire ((hist @ ms) ! k)) = take_bit 48 (of_nat k) \<and> length (wBody (smWire ((hist @ ms) ! k))) + 11 \<le> mtu \<and>
      length (wBody (smWire ((hist @ ms) ! k))) + 8 < 2 ^ 16" if "k < length (hist @ ms)" for k
  proof (cases "k < length hist")
    case True
    then show ?thesis using assms(1) by (simp add: histOk_def nth_append)
  next
    case False
    then have "k - length hist < length ms" using that by simp
    then show ?thesis using assms(2) False by (simp add: blockOk_def nth_append)
  qed
  then show ?thesis using trainsOk_append assms by (simp add: histOk_def blockOk_def)
qed

lemma range_append:
  assumes "hi \<le> length hist" "MASK b' = MASK b"
  shows "batchOf b' (hist @ ms) lo hi = batchOf b hist lo hi" "bytesOf (hist @ ms) lo hi = bytesOf hist lo hi"
proof -
  have "piecesOf b' (of_nat k) ((hist @ ms) ! k) = piecesOf b (of_nat k) (hist ! k)" "(hist @ ms) ! k = hist ! k"
    if "k \<in> set [lo..<hi]" for k using that assms by (simp_all add: piecesOf_def nth_append)
  then show "batchOf b' (hist @ ms) lo hi = batchOf b hist lo hi" "bytesOf (hist @ ms) lo hi = bytesOf hist lo hi"
    unfolding batchOf_def bytesOf_def by (metis (no_types, lifting) map_eq_conv)+
qed

lemma cleanPart_append:
  assumes "cleanPart lo hist fr b q" "fr \<le> length hist" "MASK b' = MASK b"
  shows "cleanPart lo (hist @ ms) fr b' q"
proof -
  have "\<exists>h' < fr. tagAt (hist @ ms) h' = 5 \<and> trainEnd (hist @ ms) h' = n \<and> f = smCleanup ((hist @ ms) ! h')"
    if "h < fr" "tagAt hist h = 5" "trainEnd hist h = n" "f = smCleanup (hist ! h)" for h n f
    using that assms(2) append_views [of h hist ms] by (intro exI [of _ h]) simp
  then show ?thesis using assms unfolding cleanPart_iff by (metis (no_types, lifting))
qed

text \<open>A block claimed, written and committed extends the history.\<close>

lemma publish_block:
  assumes "engInv r hist e" "blockOk (unat (mcMtu e)) hist ms" "length hist + length ms < 2 ^ 63"
    "blockFits r (mcBuffer e) (length ms)" "unat n = length ms"
    "e' = writeAndCommit (iteratorAt (toBeClaimedSeq (mcBuffer e))) ms (e\<lparr>mcBuffer := (mcBuffer e)\<lparr>toBeClaimedSeq := toBeClaimedSeq (mcBuffer e) + n\<rparr>\<rparr>)"
  shows "engInv r (hist @ ms) e'" "sameConfig e e'" "pos0 e' = pos0 e" "pos1 e' = pos1 e" "front e' = front e"
    "meSessions e' = meSessions e"
proof -
  note E = engInvD [OF assms(1)] and I = mcInvD [OF engInvD(1) [OF assms(1)]]
  note R = ringPartD [OF I(1)]
  let ?s = "toBeClaimedSeq (mcBuffer e)" and ?b = "blockState (mcBuffer e) n"
  have sl: "?s = of_nat (length hist)" using R(6) by (simp add: claimedN_def flip: R(6))
  have n0: "n \<noteq> 0" using assms(2,5) by (auto simp: blockOk_def)
  have mx: "claimedN (mcBuffer e) + unat n < maxN r" using maxN_large [OF R(10) assms(3)] R(6) assms(5) by simp
  note B = blockState_spec [OF R(1) n0 mx, unfolded assms(5), OF assms(4)]
  obtain objs where ob: "constructAll ?s ms e = e\<lparr>mcObjects := objs\<rparr>" using constructAll_update by blast
  have e': "e' = e\<lparr>mcObjects := objs, mcBuffer := ?b\<rparr>"
    using assms(5) by (simp add: assms(6) writeAndCommit_def constructAll_onto ob blockState_def Let_def)
  have fit: "length hist + length ms \<le> 2 ^ r + pos1 e" using assms(4) R(4,6) by (simp add: blockFits_def)
  have pos: "pos0 e' = pos0 e" "pos1 e' = pos1 e" using B(7) by (simp_all add: e')
  have obj: "objectAt e' (of_nat k) = (hist @ ms) ! k" if "pos1 e' \<le> k" "k < length (hist @ ms)" for k
  proof -
    have "objectAt e' (of_nat k) = objectAt (constructAll ?s ms e) (of_nat k)" by (simp add: e' ob objectAt_def B(4))
    also have "\<dots> = (if length hist \<le> k then ms ! (k - length hist) else objectAt e (of_nat k))"
      unfolding sl using that fit assms(3) pos(2) by (intro constructAll_at [OF R(10)]) simp_all
    finally show ?thesis using R(8) [of k] that pos(2) by (simp add: nth_append)
  qed
  have small: "length (wBody (smWire (objs i))) < 2 ^ 16" for i
  proof -
    have "objs i \<in> {mcObjects e i} \<union> set ms" using constructAll_set [of ?s ms e i] by (simp add: ob)
    then show ?thesis using R(9) assms(2) by (auto simp: blockOk_def in_set_conv_nth)
  qed
  have ring: "ringPart r (hist @ ms) e'"
    using R B obj small assms(3) pos by (simp add: ringPart_def e')
  have fr: "front e' = front e" by (simp add: front_def pos) (simp add: e')
  have "idlePiece e' p = idlePiece e p" for p by (simp add: idlePiece_def e' split: McPiece.splits)
  then have "batchPart (hist @ ms) e'"
    using I(3) range_append [of "front e" hist ?b "mcBuffer e" ms "pos0 e"] I(7) B(4) pos fr
    by (simp add: batchPart_def) (simp add: e' split: if_splits)
  moreover have "cleanPart (pos1 e') (hist @ ms) (front e') (mcBuffer e') (mcCleanup e')"
    using cleanPart_append [OF I(4,7), of ?b ms] B(4,7) by (simp add: fr) (simp add: e')
  ultimately have "mcInv r (hist @ ms) e'"
    using ring histOk_append [OF I(2) assms(2)] I(5,6) by (simp add: mcInv_def e')
  then show "engInv r (hist @ ms) e'"
    using E pos by (simp add: engInv_def e')
  show "sameConfig e e'" by (simp add: sameConfig_def e')
  show "pos0 e' = pos0 e" "pos1 e' = pos1 e" "front e' = front e" using pos fr by simp_all
  show "meSessions e' = meSessions e" by (simp add: e')
qed

text \<open>A message without attachment.\<close>

lemma sameConfig_refl [simp]: "sameConfig e e" by (simp add: sameConfig_def)

lemma sameConfig_trans: "sameConfig e e1 \<Longrightarrow> sameConfig e1 e2 \<Longrightarrow> sameConfig e e2" by (simp add: sameConfig_def)

lemma claimed_seq:
  assumes "ringPart r hist e"
  shows "toBeClaimedSeq (mcBuffer e) = of_nat (length hist)"
proof -
  have "length hist = unat (toBeClaimedSeq (mcBuffer e))" using ringPartD(6) [OF assms] by (simp add: claimedN_def)
  then show ?thesis by simp
qed

lemma plain_block:
  assumes "tag \<noteq> 5" "length body + 11 \<le> mtu" "length body \<le> 1023"
  shows "blockOk mtu hist [plainObject (of_nat (length hist)) tag body]"
  using assms by (simp add: blockOk_def trainsOk_def tagAt_def plainObject_def)

lemma mcTryQueue_spec:
  assumes "engInv r hist e" "tag \<noteq> 5" "length body \<le> mcMaxMessageSize e" "length hist + 1 < 2 ^ 63"
  shows "\<exists>answer ms e'. mcTryQueue tag body e = (Inl answer, e') \<and> engInv r (hist @ ms) e' \<and> sameConfig e e' \<and>
     pos0 e' = pos0 e \<and> pos1 e' = pos1 e \<and> front e' = front e \<and> meSessions e' = meSessions e \<and>
     ms = (if answer = McQueued then [plainObject (toBeClaimedSeq (mcBuffer e)) tag body] else [])"
proof -
  note E = engInvD [OF assms(1)] and R = ringPartD [OF mcInvD(1) [OF engInvD(1) [OF assms(1)]]]
  let ?m = "plainObject (toBeClaimedSeq (mcBuffer e)) tag body"
  have blk: "blockOk (unat (mcMtu e)) hist [?m]"
    using plain_block [of tag body "unat (mcMtu e)" hist] assms(2,3) E(4,5) claimed_seq [OF mcInvD(1) [OF E(1)]] by simp
  have mx: "claimedN (mcBuffer e) + unat (1 :: u64) < maxN r" using maxN_large [OF R(10) assms(4)] R(6) by simp
  note cl = claims_agree(1) [OF R(1) _ mx]
  consider "tagCheck (meOut e) tag = 0" | "tagCheck (meOut e) tag \<noteq> 0" "\<not> blockFits r (mcBuffer e) 1"
    | "tagCheck (meOut e) tag \<noteq> 0" "blockFits r (mcBuffer e) 1" by blast
  then show ?thesis
  proof cases
    case 1
    then show ?thesis using assms(1)
      by (intro exI [of _ McUnwanted] exI [of _ "[]"] exI [of _ e]) (simp add: mcTryQueue_def)
  next
    case 2
    then show ?thesis using assms(1) cl
      by (intro exI [of _ McFull] exI [of _ "[]"] exI [of _ e]) (simp add: mcTryQueue_def nullIterator_def)
  next
    case 3
    let ?e1 = "e\<lparr>mcBuffer := (mcBuffer e)\<lparr>toBeClaimedSeq := toBeClaimedSeq (mcBuffer e) + 1\<rparr>\<rparr>"
    let ?e' = "writeAndCommit (iteratorAt (toBeClaimedSeq (mcBuffer e))) [?m] ?e1"
    have "mcTryQueue tag body e = (Inl McQueued, ?e')"
      using 3 cl assms(3) by (simp add: mcTryQueue_def mcPlace_def)
    moreover note publish_block [OF assms(1) blk, of 1 ?e']
    ultimately show ?thesis using assms(4) 3
      by (intro exI [of _ McQueued] exI [of _ "[?m]"] exI [of _ ?e']) simp
  qed
qed

text \<open>A train: its head, segments and message, one after the other.\<close>

definition isSegment :: "u16 \<Rightarrow> nat \<Rightarrow> u64 \<Rightarrow> SlotMessage \<Rightarrow> bool" where
  "isSegment tag mx sq m \<longleftrightarrow> wTag (smWire m) = 6 \<and> wSeq (smWire m) = take_bit 48 sq \<and> wInband (smWire m) = tag \<and>
     length (wBody (smWire m)) \<le> mx"

lemma segLoop_objects:
  assumes "maxSeg \<noteq> 0"
  shows "\<forall>j < length (segLoop maxSeg tag base totalLen sq offset).
     isSegment tag (unat maxSeg) (sq + of_nat j) (objectOf raw (segLoop maxSeg tag base totalLen sq offset ! j))"
  using assms
proof (induction maxSeg tag base totalLen sq offset rule: segLoop.induct)
  case (1 maxSeg tag base totalLen sq offset)
  show ?case
  proof (cases "offset < totalLen")
    case True
    define l :: u16 where "l = ucast (min (ucast maxSeg) (totalLen - offset))"
    note step = segLoop_step [OF True "1.prems" l_def, of tag base sq]
    have l: "unat l \<le> unat maxSeg" using segLen_unat [OF True, of maxSeg] by (simp add: l_def)
    have IH: "\<forall>j < length (segLoop maxSeg tag base totalLen (sq + 1) (offset + ucast l)).
       isSegment tag (unat maxSeg) (sq + 1 + of_nat j) (objectOf raw (segLoop maxSeg tag base totalLen (sq + 1) (offset + ucast l) ! j))"
      using "1.IH" [OF _ l_def] True "1.prems" by blast
    let ?h = "setMsgSeq sq \<lparr>thFlag = 0, messagePayloadLen = 8 + l, seqField = 0, thPayload = MemorySeg (drop (unat offset) base) l tag\<rparr>"
    have "isSegment tag (unat maxSeg) sq (objectOf raw ?h)"
      using l by (simp add: isSegment_def objectOf_def setMsgSeq_def typeTag_def Let_def)
    then show ?thesis unfolding step using IH by (auto simp: nth_Cons ac_simps split: nat.splits)
  next
    case False
    then show ?thesis by (simp add: segLoop_done)
  qed
qed

lemma trainSlots_spec:
  assumes "engInv r hist e" "tag \<noteq> 5" "48 \<le> unat szMsg" "unat szMsg \<le> 8 + mcMaxMessageSize e" "56 \<le> mcMaxMessageSize e"
    "attMem att = Some base" "length base = unat (attLen att)" "unat (attLen att) < 2 ^ 62"
    "trainLength (meMaxSeg e) (attLen att) \<le> CAPACITY (mcBuffer e)" "tagCheck (meOut e) tag \<noteq> 0"
    "length hist + unat (trainLength (meMaxSeg e) (attLen att)) < 2 ^ 63"
  obtains ms where "trainSlots szMsg tag att rest e = Ret (Slots ms)"
    "length ms = unat (trainLength (meMaxSeg e) (attLen att))" "blockOk (unat (mcMtu e)) hist (map (objectOf raw) ms)"
proof -
  note E = engInvD [OF assms(1)] and R = ringPartD [OF mcInvD(1) [OF engInvD(1) [OF assms(1)]]]
  let ?sq = "toBeClaimedSeq (mcBuffer e)" and ?mx = "meMaxSeg e" and ?n = "trainLength (meMaxSeg e) (attLen att)"
  let ?segs = "segLoop ?mx tag base (attLen att) (?sq + 1) 0"
  let ?head = "setMsgSeq ?sq \<lparr>thFlag = 0, messagePayloadLen = 64, seqField = 0, thPayload = StartMemorySegTrain tag att (?n - 2)\<rparr>"
  let ?last = "setMsgSeq (?sq + 1 + of_nat (length ?segs))
      \<lparr>thFlag = 1, messagePayloadLen = szMsg, seqField = 0, thPayload = AttMessage tag att rest\<rparr>"
  let ?ms = "?head # ?segs @ [?last]" and ?k = "segsFor (unat ?mx) (unat (attLen att))"
  have mx0: "?mx \<noteq> 0" using E(8) assms(5) by auto
  have len63: "unat (attLen att) < 2 ^ 63" using assms(8) by simp
  have k: "length ?segs = ?k" using length_segLoop [OF mx0, of tag base "attLen att" "?sq + 1" 0] by simp
  note n = trainLength_unat [OF mx0 len63] train_count [OF mx0 len63]
  have q: "trainSlots szMsg tag att rest e = Ret (Slots ?ms)"
    using assms(3-6,9,10) mx0 by (simp add: trainSlots_def queueAttachment_def queueMemorySegTrain_def Let_def not_less)
  have lms: "length ?ms = unat ?n" using k n by simp
  have ks: "?k < 2 ^ 63" using assms(11) n by simp
  have head: "tagAt (map (objectOf raw) ?ms) 0 = 5" "trainEnd (map (objectOf raw) ?ms) 0 = Suc ?k"
    "smSegCount (objectOf raw ?head) = of_nat ?k" "wSeq (smWire (objectOf raw ?head)) = take_bit 48 ?sq"
    "length (wBody (smWire (objectOf raw ?head))) = 56"
    using n(2) unat_of_nat_small [OF ks]
    by (simp_all add: tagAt_def trainEnd_def objectOf_def setMsgSeq_def typeTag_def Let_def)
  have last: "wTag (smWire (objectOf raw ?last)) = tag" "wSeq (smWire (objectOf raw ?last)) = take_bit 48 (?sq + 1 + of_nat ?k)"
    "length (wBody (smWire (objectOf raw ?last))) = unat szMsg - 8"
    using k by (simp_all add: objectOf_def setMsgSeq_def typeTag_def Let_def)
  have segs: "isSegment tag (unat ?mx) (?sq + 1 + of_nat j) (objectOf raw (?segs ! j))" if "j < ?k" for j
    using segLoop_objects [OF mx0, of tag base "attLen att" "?sq + 1" 0 raw] k that by simp
  have at: "map (objectOf raw) ?ms ! Suc j = (if j < ?k then objectOf raw (?segs ! j) else objectOf raw ?last)" if "j \<le> ?k" for j
    using that k by (auto simp: nth_append)
  have sq: "?sq = of_nat (length hist)" by (rule claimed_seq [OF mcInvD(1) [OF E(1)]])
  have others: "tagAt (map (objectOf raw) ?ms) j \<noteq> 5" if "0 < j" "j \<le> Suc ?k" for j
    using that at [of "j - 1"] segs [of "j - 1"] last(1) assms(2) by (auto simp: tagAt_def isSegment_def split: if_splits)
  have len: "length (map (objectOf raw) ?ms) = Suc (Suc ?k)" using k by simp
  have tr: "trainsOk (map (objectOf raw) ?ms)"
    unfolding trainsOk_def
  proof (intro allI impI)
    fix h assume h: "h < length (map (objectOf raw) ?ms)" "tagAt (map (objectOf raw) ?ms) h = 5"
    then have "h = 0" using others [of h] len by (cases "h = 0") auto
    then show "trainEnd (map (objectOf raw) ?ms) h < length (map (objectOf raw) ?ms) \<and>
        (\<forall>k. h < k \<and> k \<le> trainEnd (map (objectOf raw) ?ms) h \<longrightarrow> tagAt (map (objectOf raw) ?ms) k \<noteq> 5)"
      using head(2) len others by simp
  qed
  have parts: "wSeq (smWire (map (objectOf raw) ?ms ! j)) = take_bit 48 (of_nat (length hist + j)) \<and>
      length (wBody (smWire (map (objectOf raw) ?ms ! j))) + 11 \<le> unat (mcMtu e) \<and>
      length (wBody (smWire (map (objectOf raw) ?ms ! j))) + 8 < 2 ^ 16" if "j < length (map (objectOf raw) ?ms)" for j
  proof (cases j)
    case 0
    then show ?thesis using head(4,5) E(4) assms(5) by (simp add: sq)
  next
    case (Suc i)
    have i: "i \<le> ?k" using that Suc len by simp
    have s: "?sq + 1 + of_nat i = of_nat (length hist + j)" by (simp add: sq Suc)
    show ?thesis
    proof (cases "i < ?k")
      case True
      have m: "map (objectOf raw) ?ms ! j = objectOf raw (?segs ! i)" using at [OF i] True by (simp only: Suc if_True)
      show ?thesis unfolding m using segs [OF True, unfolded isSegment_def s] E(6,7) by simp
    next
      case False
      then have ik: "i = ?k" using i by simp
      have m: "map (objectOf raw) ?ms ! j = objectOf raw ?last" using at [OF i] False by (simp only: Suc if_False)
      show ?thesis unfolding m using last(2,3) s ik E(4,5) assms(3,4) by simp
    qed
  qed
  show ?thesis
  proof (rule that [OF q lms])
    show "blockOk (unat (mcMtu e)) hist (map (objectOf raw) ?ms)"
      unfolding blockOk_def using tr parts by blast
  qed
qed

text \<open>What a publisher of a train must see to.\<close>

definition trainFits :: "u16 \<Rightarrow> u16 \<Rightarrow> MemoryAttachment \<Rightarrow> McEngine \<Rightarrow> bool" where
  "trainFits szMsg tag att e \<longleftrightarrow> tag \<noteq> 5 \<and> 48 \<le> unat szMsg \<and> unat szMsg \<le> 8 + mcMaxMessageSize e \<and> 56 \<le> mcMaxMessageSize e \<and>
     (case attMem att of None \<Rightarrow> False | Some base \<Rightarrow> length base = unat (attLen att)) \<and> unat (attLen att) < 2 ^ 62 \<and>
     trainLength (meMaxSeg e) (attLen att) \<le> CAPACITY (mcBuffer e)"

text \<open>The messages of a train that got in.\<close>

definition trainObjects :: "(Payload \<Rightarrow> nat \<Rightarrow> u8) \<Rightarrow> u16 \<Rightarrow> u16 \<Rightarrow> MemoryAttachment \<Rightarrow> bytes \<Rightarrow> McEngine \<Rightarrow> SlotMessage list" where
  "trainObjects raw szMsg tag att rest e =
     (case trainSlots szMsg tag att rest e of Ret (Slots ms) \<Rightarrow> map (objectOf raw) ms | _ \<Rightarrow> [])"

lemma mcTryQueueTrain_spec:
  assumes "engInv r hist e" "trainFits szMsg tag att e"
    "length hist + unat (trainLength (meMaxSeg e) (attLen att)) < 2 ^ 63"
  shows "\<exists>answer ms e'. mcTryQueueTrain raw szMsg tag att rest e = Ret (answer, e') \<and> engInv r (hist @ ms) e' \<and> sameConfig e e' \<and>
     pos0 e' = pos0 e \<and> pos1 e' = pos1 e \<and> front e' = front e \<and> meSessions e' = meSessions e \<and>
     ms = (if answer = McQueued then trainObjects raw szMsg tag att rest e else [])"
proof (cases "tagCheck (meOut e) tag = 0")
  case True
  then have "trainSlots szMsg tag att rest e = Ret (NotWanted (releaseAtt att))"
    by (simp add: trainSlots_def queueAttachment_def)
  then show ?thesis using assms(1)
    by (intro exI [of _ McUnwanted] exI [of _ "[]"] exI [of _ e]) (simp add: mcTryQueueTrain_def)
next
  case False
  note E = engInvD [OF assms(1)] and R = ringPartD [OF mcInvD(1) [OF engInvD(1) [OF assms(1)]]]
  let ?n = "trainLength (meMaxSeg e) (attLen att)"
  obtain base where b: "attMem att = Some base" "length base = unat (attLen att)"
    using assms(2) by (auto simp: trainFits_def split: option.splits)
  obtain ms where ms: "trainSlots szMsg tag att rest e = Ret (Slots ms)" "length ms = unat ?n"
      "blockOk (unat (mcMtu e)) hist (map (objectOf raw) ms)"
    by (rule trainSlots_spec [OF assms(1), where base = base and raw = raw]) (use assms(2,3) b False in \<open>auto simp: trainFits_def\<close>)
  have n0: "?n \<noteq> 0" using ms(2,3) by (auto simp: blockOk_def)
  have "claimedN (mcBuffer e) + unat ?n < maxN r" using maxN_large [OF R(10) assms(3)] R(6) by simp
  note cl = claims_agree(1) [OF R(1) n0 this]
  show ?thesis
  proof (cases "blockFits r (mcBuffer e) (unat ?n)")
    case no: False
    then show ?thesis using assms(1) cl ms
      by (intro exI [of _ McFull] exI [of _ "[]"] exI [of _ e]) (simp add: mcTryQueueTrain_def nullIterator_def)
  next
    case True
    let ?e1 = "e\<lparr>mcBuffer := (mcBuffer e)\<lparr>toBeClaimedSeq := toBeClaimedSeq (mcBuffer e) + ?n\<rparr>\<rparr>"
    let ?e' = "writeAndCommit (iteratorAt (toBeClaimedSeq (mcBuffer e))) (map (objectOf raw) ms) ?e1"
    have run: "mcTryQueueTrain raw szMsg tag att rest e = Ret (McQueued, ?e')"
      using True cl ms(1) by (simp add: mcTryQueueTrain_def)
    have p: "length hist + length (map (objectOf raw) ms) < 2 ^ 63" "blockFits r (mcBuffer e) (length (map (objectOf raw) ms))"
        "unat ?n = length (map (objectOf raw) ms)"
      using assms(3) ms(2) True by simp_all
    show ?thesis using run publish_block [OF assms(1) ms(3) p refl]
      by (intro exI [of _ McQueued] exI [of _ "map (objectOf raw) ms"] exI [of _ ?e'] conjI) (simp_all only: trainObjects_def ms(1) outcome.case Queued.case if_True refl)
  qed
qed

text \<open>The publishers that wait do the same once there is room.\<close>

lemma waiting_publishers:
  assumes "engInv r hist e" "length hist + 1 < 2 ^ 63"
  shows "fst (mcTryQueue tag body e) \<noteq> Inl McFull \<Longrightarrow> mcQueue tag body e = Ret (mcTryQueue tag body e)"
proof -
  note R = ringPartD [OF mcInvD(1) [OF engInvD(1) [OF assms(1)]]]
  have mx: "claimedN (mcBuffer e) + unat (1 :: u64) < maxN r" using maxN_large [OF R(10) assms(2)] R(6) by simp
  note cl = claims_agree [OF R(1) _ mx]
  show "fst (mcTryQueue tag body e) \<noteq> Inl McFull \<Longrightarrow> mcQueue tag body e = Ret (mcTryQueue tag body e)"
    using cl by (simp add: mcTryQueue_def mcQueue_def nullIterator_def split: if_splits)
qed

section \<open>Cleaning up\<close>

text \<open>What stays is what is not behind \<open>newSeq\<close>; the others are called, in order.\<close>

lemma cleanUpTo_spec:
  "sorted_wrt (\<lambda>x y. fst x < fst y) q \<Longrightarrow> cleanUpTo newSeq q =
     (map (\<lambda>(sq, i, f). (sq, i)) (filter (\<lambda>(sq, i, f). f \<and> sq < newSeq) q), filter (\<lambda>x. \<not> fst x < newSeq) q)"
proof (induction newSeq q rule: cleanUpTo.induct)
  case (2 newSeq sq i f q)
  show ?case
  proof (cases "sq < newSeq")
    case True
    then show ?thesis using 2 by simp
  next
    case False
    then have "\<not> fst x < newSeq" if "x \<in> set q" for x using "2.prems" that by fastforce
    moreover from this have "filter (\<lambda>(sq, i, f). f \<and> sq < newSeq) q = []" by (auto simp: filter_empty_conv)
    ultimately show ?thesis using False by (simp add: filter_id_conv)
  qed
qed simp

definition calledOk :: "SlotMessage list \<Rightarrow> nat \<Rightarrow> nat \<Rightarrow> McEngine \<Rightarrow> (u64 \<times> u64) list \<Rightarrow> bool" where
  "calledOk hist lo hi e called \<longleftrightarrow> sorted_wrt (<) (map (unat \<circ> fst) called) \<and>
     (\<forall>(sq, i) \<in> set called. lo \<le> unat sq \<and> unat sq < hi \<and> mcObjects e i = hist ! unat sq \<and>
        (\<exists>h < length hist. tagAt hist h = 5 \<and> trainEnd hist h = unat sq \<and> smCleanup (hist ! h)))"

lemma moveUp_spec:
  assumes "engInv r hist e" "unat newSeq \<le> pos0 e" "\<And>s. s \<in> set (meSessions e) \<Longrightarrow> newSeq \<le> bufItNext s"
  obtains called e' where "moveUp newSeq e = Ret (called, e')" "engInv r hist e'" "sameConfig e e'" "pos0 e' = pos0 e"
    "pos1 e' = max (pos1 e) (unat newSeq)" "front e' = front e" "meSessions e' = meSessions e" "mcObjects e' = mcObjects e"
    "calledOk hist (pos1 e) (pos1 e') e called"
proof (cases "meLeast e = newSeq")
  case True
  have "newSeq \<noteq> noSeq" using assms(2) ringPartD(7,12) [OF mcInvD(1) [OF engInvD(1) [OF assms(1)]]]
    by (auto simp: noSeq_def unsigned_minus_1_eq_mask mask_eq_exp_minus_1)
  then have "unat newSeq \<le> pos1 e" using engInvD(3) [OF assms(1)] True by auto
  then show ?thesis
    using assms(1) True by (intro that [of "[]" e]) (simp_all add: moveUp_def calledOk_def)
next
  case False
  note E = engInvD [OF assms(1)] and I = mcInvD [OF engInvD(1) [OF assms(1)]]
  note R = ringPartD [OF I(1)]
  let ?q = "mcCleanup e"
  let ?called = "map (\<lambda>(sq, i, f). (sq, i)) (filter (\<lambda>(sq, i, f). f \<and> sq < newSeq) ?q)" and ?q' = "filter (\<lambda>x. \<not> fst x < newSeq) ?q"
  have srt: "sorted_wrt (\<lambda>x y. fst x < fst y) ?q" using I(4) by (simp add: cleanPart_def)
  have "unat newSeq \<le> claimedN (mcBuffer e)" using assms(2) R(6,12) by simp
  then obtain b where b: "catchUpTo (mcBuffer e) 1 newSeq = Ret b" "seq_inv r b" "\<And>j. live b j \<longleftrightarrow> live (mcBuffer e) j"
      "\<And>j. readN b j = (if j = 1 then max (pos1 e) (unat newSeq) else readN (mcBuffer e) j)"
      "claimedN b = claimedN (mcBuffer e)" "MASK b = MASK (mcBuffer e)" "CAPACITY b = CAPACITY (mcBuffer e)"
      "consumers b = consumers (mcBuffer e)"
    using catchUpTo_spec [OF R(1,4) _ R(11)] by metis
  let ?e = "e\<lparr>mcCleanup := ?q', mcBuffer := b, meLeast := newSeq\<rparr>"
  have run: "moveUp newSeq e = Ret (?called, ?e)"
    using False by (simp add: moveUp_def cleanUpTo_spec [OF srt] b(1) [unfolded One_nat_def])
  have pos: "pos0 ?e = pos0 e" "pos1 ?e = max (pos1 e) (unat newSeq)" by (simp_all add: b(4))
  have fr: "front ?e = front e" by (simp add: front_def pos b(4))
  have ring: "ringPart r hist ?e"
    using R b assms(2) by (simp add: ringPart_def objectAt_def)
  have "batchPart hist ?e"
    using I(3) range_append(1) [of "front e" hist b "mcBuffer e" "[]" "pos0 e"] I(7) b(6) fr pos
    by (auto simp: batchPart_def idlePiece_def split: if_splits McPiece.splits)
  moreover have "cleanPart (pos1 ?e) hist (front ?e) (mcBuffer ?e) (mcCleanup ?e)"
    using I(4) unfolding cleanPart_iff fr pos(2)
    by (auto simp: b(6) sorted_wrt_filter word_less_nat_alt)
  ultimately have inv: "mcInv r hist ?e" using ring I(2,5,6) by (simp add: mcInv_def)
  have "sessionOk (pos1 ?e) (pos0 ?e) s" if "s \<in> set (meSessions e)" for s
  proof -
    have "posOk (pos1 e) (pos0 e) s" "sendInv s" using E(2) [OF that] by (simp_all add: sessionOk_def)
    moreover have "max (pos1 e) (unat newSeq) \<le> unat (bufItNext s)"
      using assms(3) [OF that] calculation(1) by (simp add: posOk_def word_le_nat_alt)
    ultimately show ?thesis unfolding pos by (simp add: sessionOk_def posOk_mono)
  qed
  then have eng: "engInv r hist ?e" using inv E pos by (simp add: engInv_def)
  have called: "calledOk hist (pos1 e) (pos1 ?e) e ?called"
  proof -
    have "sorted_wrt (<) (map (unat \<circ> fst) ?called)"
    proof -
      have "sorted_wrt (\<lambda>x y. fst x < fst y) (filter (\<lambda>(sq, i, f). f \<and> sq < newSeq) ?q)" using srt by (rule sorted_wrt_filter)
      then show ?thesis
        unfolding sorted_wrt_map by (rule sorted_wrt_mono_rel [rotated]) (auto simp: word_less_nat_alt)
    qed
    moreover have "pos1 e \<le> unat sq \<and> unat sq < pos1 ?e \<and> mcObjects e i = hist ! unat sq \<and>
        (\<exists>h < length hist. tagAt hist h = 5 \<and> trainEnd hist h = unat sq \<and> smCleanup (hist ! h))"
      if c: "(sq, i) \<in> set ?called" for sq i
    proof -
      obtain f where f: "(sq, i, f) \<in> set ?q" "f" "sq < newSeq" using c by auto
      obtain h where h: "pos1 e \<le> unat sq" "i = sq AND MASK (mcBuffer e)" "h < front e" "tagAt hist h = 5"
          "trainEnd hist h = unat sq" "f = smCleanup (hist ! h)"
        by (rule cleanPartE [OF I(4) f(1)])
      have hl: "h < length hist" using h(3) I(7) by simp
      have "trainEnd hist h < length hist" by (rule trainsOkD(1) [OF histOkD(1) [OF I(2)] hl h(4)])
      then have "mcObjects e i = hist ! unat sq" using R(8) [OF h(1)] h(2,5) by (simp add: objectAt_def)
      then show ?thesis using f h hl pos(2) by (auto simp: word_less_nat_alt)
    qed
    ultimately show ?thesis unfolding calledOk_def by blast
  qed
  show ?thesis
    by (rule that [OF run eng]) (use pos fr called in \<open>simp_all add: sameConfig_def\<close>)
qed

section \<open>The sessions\<close>

fun readsOk :: "(nat \<Rightarrow> PeerInput) \<Rightarrow> BackupSendSession list \<Rightarrow> bool" where
  "readsOk inp [] = True"
| "readsOk inp (s # ss) = (readOk (siRead (inp (length (s # ss)))) s \<and> readsOk inp ss)"

lemma backupRun_spec:
  assumes "sameFrom lo (unat rd) ring ring'" "unat cap \<le> 2 ^ 40" "\<forall>q. length (wBody (ring q)) < 2 ^ 16"
  shows "\<forall>s \<in> set ss. sessionOk lo (unat rd) s \<Longrightarrow> readsOk inp ss \<Longrightarrow>
     \<exists>bss ss' least' out'. mcRunSessions ring cap rd inp ss least out = Ret (bss, ss', least', out') \<and>
       mcRunSessions ring' cap rd inp ss least out = Ret (bss, ss', least', out') \<and>
       (\<forall>s \<in> set ss'. sessionOk lo (unat rd) s \<and> least' \<le> bufItNext s) \<and> least' \<le> least"
proof (induction ss arbitrary: least out)
  case (Cons s ss)
  let ?i = "inp (length (s # ss))"
  have ok: "sessionOk lo (unat rd) s" "readOk (siRead ?i) s" using Cons.prems by simp_all
  obtain b bs s1 out1 where run: "sendSessionRunOnce ring cap rd (siRead ?i) (siWritable ?i) (siWrites ?i) s out = Ret (b, bs, s1, out1)"
      "sendSessionRunOnce ring' cap rd (siRead ?i) (siWritable ?i) (siWrites ?i) s out = Ret (b, bs, s1, out1)"
      "sessionOk lo (unat rd) s1"
    using sessionRunOnce_range [OF ok assms] by blast
  let ?least = "if b then (if bufItNext s1 < least then bufItNext s1 else least) else least"
  let ?out = "if b then out1 else retireSession s1 out1"
  obtain bss ss' least' out' where IH: "mcRunSessions ring cap rd inp ss ?least ?out = Ret (bss, ss', least', out')"
      "mcRunSessions ring' cap rd inp ss ?least ?out = Ret (bss, ss', least', out')"
      "\<forall>s \<in> set ss'. sessionOk lo (unat rd) s \<and> least' \<le> bufItNext s" "least' \<le> ?least"
    using Cons.IH [of ?least ?out] Cons.prems by auto
  show ?case
  proof (cases b)
    case True
    then show ?thesis
      using run IH by (intro exI [of _ "bs # bss"] exI [of _ "s1 # ss'"] exI [of _ least'] exI [of _ out'])
        (auto simp: Let_def split: if_splits)
  next
    case False
    then show ?thesis
      using run IH by (intro exI [of _ "bs # bss"] exI [of _ ss'] exI [of _ least'] exI [of _ out']) (auto simp: Let_def)
  qed
qed simp

lemma mcAccept_spec:
  assumes "engInv r hist e"
  obtains hello ss where "mcAccept a junk e = Ret (hello, e\<lparr>meSessions := ss\<rparr>)" "engInv r hist (e\<lparr>meSessions := ss\<rparr>)"
    "hello \<noteq> [] \<longrightarrow> hello = leBytes 8 (pos1 e)"
proof -
  note E = engInvD [OF assms] and R = ringPartD [OF mcInvD(1) [OF engInvD(1) [OF assms]]]
  have same: "e\<lparr>meSessions := meSessions e\<rparr> = e" by simp
  show ?thesis
  proof (cases "a = Connected True")
    case True
    let ?it = "readSeqs (mcBuffer e) ! 1"
    let ?s = "newBackupSendSession ?it (mcMaxSendBatch e) (unat (CAPACITY (mcBuffer e))) junk"
    let ?e = "e\<lparr>meSessions := meSessions e @ [?s]\<rparr>"
    have "peek (mcBuffer e) 1 0 = Ret (iteratorAt ?it, iteratorAt ?it, 0)"
      using R(4) by (simp add: peek_def peekLoop.simps Let_def)
    then have run: "mcAccept a junk e = Ret (leBytes 8 (unat ?it), ?e)" by (simp add: mcAccept_def True)
    have u: "unat ?it = pos1 e" by (simp add: readN_def)
    have "sessionOk (pos1 e) (pos0 e) ?s"
      using R(5) u by (simp add: sessionOk_def sendInv_def posOk_def requestsOk_def newBackupSendSession_def)
    moreover have "mcInv r hist ?e"
      using mcInvD [OF E(1)] by (auto simp: mcInv_def ringPart_def objectAt_def batchPart_def front_def idlePiece_def split: if_splits McPiece.splits)
    ultimately have "engInv r hist ?e" using E by (auto simp: engInv_def)
    then show ?thesis using run u by (intro that [of "leBytes 8 (unat ?it)" "meSessions e @ [?s]"]) (simp_all del: leBytes.simps)
  next
    case False
    have "mcAccept a junk e = Ret ([], e)"
    proof (cases a)
      case (Connected b)
      then have "\<not> b" using False by simp
      then show ?thesis using R(4) Connected by (simp add: mcAccept_def peek_def Let_def)
    qed (simp_all add: mcAccept_def)
    then show ?thesis using assms same by (intro that [of "[]" "meSessions e"]) simp_all
  qed
qed

definition serveOk :: "McAccept \<Rightarrow> u8 \<Rightarrow> (nat \<Rightarrow> PeerInput) \<Rightarrow> McEngine \<Rightarrow> bool" where
  "serveOk a junk inp e = (case mcAccept a junk e of Ret (hello, e1) \<Rightarrow> readsOk inp (meSessions e1) | _ \<Rightarrow> False)"

text \<open>The sessions of a run, over a given memory.\<close>

definition sessionsOver :: "(u64 \<Rightarrow> WireMessage) \<Rightarrow> (nat \<Rightarrow> PeerInput) \<Rightarrow> McEngine \<Rightarrow> (bytes list \<times> BackupSendSession list \<times> u64 \<times> TypeTagSet) outcome" where
  "sessionsOver ring inp e = mcRunSessions ring (CAPACITY (mcBuffer e)) (readSeqs (mcBuffer e) ! 0) inp (meSessions e)
     (readSeqs (mcBuffer e) ! 0) (meOut e)"

text \<open>The ring, and everything that was ever published.\<close>

definition ringMemory :: "McEngine \<Rightarrow> u64 \<Rightarrow> WireMessage" where "ringMemory e sq = smWire (objectAt e sq)"
definition historyMemory :: "SlotMessage list \<Rightarrow> u64 \<Rightarrow> WireMessage" where "historyMemory hist sq = smWire (hist ! unat sq)"

lemma memories_agree:
  assumes "engInv r hist e"
  shows "sameFrom (pos1 e) (pos0 e) (ringMemory e) (historyMemory hist)"
proof -
  note R = ringPartD [OF mcInvD(1) [OF engInvD(1) [OF assms]]]
  have "objectAt e q = hist ! unat q" if "pos1 e \<le> unat q" "unat q < pos0 e" for q
    using R(8) [of "unat q"] R(12) that by simp
  then show ?thesis by (simp add: sameFrom_def ringMemory_def historyMemory_def)
qed

lemma sessions_spec:
  assumes "engInv r hist e" "readsOk inp (meSessions e)"
  obtains bss ss least out where "sessionsOver (ringMemory e) inp e = Ret (bss, ss, least, out)"
    "sessionsOver (historyMemory hist) inp e = Ret (bss, ss, least, out)"
    "\<And>s. s \<in> set ss \<Longrightarrow> sessionOk (pos1 e) (pos0 e) s \<and> least \<le> bufItNext s" "unat least \<le> pos0 e"
proof -
  note E = engInvD [OF assms(1)] and R = ringPartD [OF mcInvD(1) [OF engInvD(1) [OF assms(1)]]]
  let ?rd = "readSeqs (mcBuffer e) ! 0"
  have rd: "unat ?rd = pos0 e" by (simp add: readN_def)
  have "(2::nat) ^ r \<le> 2 ^ 40" using R(15) by (intro power_increasing) simp_all
  then have cap: "unat (CAPACITY (mcBuffer e)) \<le> 2 ^ 40" by (simp add: R(14))
  have body: "\<forall>q. length (wBody (ringMemory e q)) < 2 ^ 16" using R(9) by (simp add: ringMemory_def objectAt_def)
  obtain bss ss least out where "sessionsOver (ringMemory e) inp e = Ret (bss, ss, least, out)"
      "sessionsOver (historyMemory hist) inp e = Ret (bss, ss, least, out)"
      "\<forall>s \<in> set ss. sessionOk (pos1 e) (pos0 e) s \<and> least \<le> bufItNext s" "least \<le> ?rd"
    using backupRun_spec [OF memories_agree [OF assms(1), folded rd] cap body, of "meSessions e" inp ?rd "meOut e"] E(2) assms(2)
    unfolding sessionsOver_def rd by blast
  then show ?thesis using that rd by (metis word_le_nat_alt)
qed

lemma mcServerRunOnce_spec:
  assumes "engInv r hist e" "serveOk a junk inp e"
  obtains hello bss called e1 ss least out e' where "mcServerRunOnce a junk inp e = Ret (hello, bss, called, e')"
    "mcAccept a junk e = Ret (hello, e1)" "sessionsOver (historyMemory hist) inp e1 = Ret (bss, ss, least, out)"
    "engInv r hist e'" "sameConfig e e'" "pos0 e' = pos0 e" "pos1 e \<le> pos1 e'" "front e' = front e" "meSessions e' = ss"
    "calledOk hist (pos1 e) (pos1 e') e called" "mcObjects e' = mcObjects e"
proof -
  obtain hello ss0 where a: "mcAccept a junk e = Ret (hello, e\<lparr>meSessions := ss0\<rparr>)" "engInv r hist (e\<lparr>meSessions := ss0\<rparr>)"
    by (rule mcAccept_spec [OF assms(1)])
  let ?e1 = "e\<lparr>meSessions := ss0\<rparr>"
  have reads: "readsOk inp (meSessions ?e1)" using assms(2) by (simp add: serveOk_def a(1))
  obtain bss ss least out where s: "sessionsOver (ringMemory ?e1) inp ?e1 = Ret (bss, ss, least, out)"
      "sessionsOver (historyMemory hist) inp ?e1 = Ret (bss, ss, least, out)"
      "\<And>s. s \<in> set ss \<Longrightarrow> sessionOk (pos1 ?e1) (pos0 ?e1) s \<and> least \<le> bufItNext s" "unat least \<le> pos0 ?e1"
    by (rule sessions_spec [OF a(2) reads]) blast
  let ?e2 = "?e1\<lparr>meSessions := ss, meOut := out\<rparr>" and ?new = "keepFrom least ?e1"
  have "mcInv r hist ?e2"
    using mcInvD [OF engInvD(1) [OF assms(1)]]
    by (auto simp: mcInv_def ringPart_def objectAt_def batchPart_def front_def idlePiece_def split: if_splits McPiece.splits)
  then have e2: "engInv r hist ?e2" using engInvD [OF assms(1)] s(3) by (simp add: engInv_def)
  have new: "?new \<le> least"
  proof (cases "meReplay e < least")
    case True
    then have "unat (least - meReplay e) = unat least - unat (meReplay e)" by (simp add: unat_sub)
    then show ?thesis using True by (simp add: keepFrom_def word_le_nat_alt)
  qed (simp add: keepFrom_def)
  have le: "unat ?new \<le> pos0 ?e2" "\<And>s. s \<in> set (meSessions ?e2) \<Longrightarrow> ?new \<le> bufItNext s"
    using new s(3,4) by (auto simp: word_le_nat_alt intro: order_trans)
  obtain called e' where m: "moveUp ?new ?e2 = Ret (called, e')" "engInv r hist e'" "sameConfig ?e2 e'" "pos0 e' = pos0 ?e2"
      "pos1 e' = max (pos1 ?e2) (unat ?new)" "front e' = front ?e2" "meSessions e' = meSessions ?e2" "mcObjects e' = mcObjects ?e2"
      "calledOk hist (pos1 ?e2) (pos1 e') ?e2 called"
    using moveUp_spec [OF e2 le] by blast
  have "mcServerRunOnce a junk inp e = Ret (hello, bss, called, e')"
    using s(1) m(1) by (simp add: mcServerRunOnce_def a(1) sessionsOver_def ringMemory_def [abs_def])
  then show ?thesis
    using a(1) s(2) m by (intro that [of hello bss called e' ?e1 ss least out])
      (simp_all add: sameConfig_def front_def calledOk_def)
qed

end
