(* ===== verification/McastRuns.thy ===== *)
theory McastRuns
  imports McastServer
begin

text \<open>
  Runs of the multicast engine: publishers, rounds of the transport, runs of the server and timers in
  any order, what the world sees of them, and that all keep the invariant.
\<close>

section \<open>Events\<close>

datatype McEvent =
    PublishPlain u16 bytes
  | PublishTrain u16 u16 MemoryAttachment bytes
  | Turn bool "nat \<Rightarrow> SysTime"
  | Serve McAccept u8 "nat \<Rightarrow> PeerInput"
  | AdTimer
  | FlushTimer
  | StartCheck
  | RefreshAds bool

text \<open>
  What is seen: the messages a publisher gets into the ring, the datagrams (\<open>Batch lo hi\<close> with the
  messages of these numbers), messages skipped while there are \<open>n\<close> sessions, the bytes for each
  session, and the messages whose attachments are given back.
\<close>

datatype McLog =
    Published "SlotMessage list"
  | Batch nat nat bytes
  | Aside bytes
  | Skipped nat nat nat
  | Resent "bytes list"
  | GivenBack u64 SlotMessage

definition turnLog :: "nat \<Rightarrow> McEngine \<Rightarrow> bytes option \<Rightarrow> McEngine \<Rightarrow> McLog list" where
  "turnLog n e d e' =
     (case d of None \<Rightarrow> [] | Some b \<Rightarrow> if mcWaste e = 0 then [Aside b] else [Batch (pos0 e) (front e) b]) @
     (let from = (if d = None then pos0 e else front e) in if from < pos0 e' then [Skipped n from (pos0 e')] else [])"

text \<open>\<open>raw\<close> and \<open>rawAd\<close> give the bytes of objects in memory.\<close>

fun mcEvent :: "(Payload \<Rightarrow> nat \<Rightarrow> u8) \<Rightarrow> (Advert \<Rightarrow> bytes) \<Rightarrow> McEvent \<Rightarrow> McEngine \<Rightarrow> (McLog list \<times> McEngine) outcome" where
  "mcEvent raw rawAd (PublishPlain tag body) e =
     (case mcTryQueue tag body e of
        (Inl McQueued, e') \<Rightarrow> Ret ([Published [plainObject (toBeClaimedSeq (mcBuffer e)) tag body]], e')
      | (Inl a, e') \<Rightarrow> Ret ([], e')
      | (Inr x, e') \<Rightarrow> Throw x)"
| "mcEvent raw rawAd (PublishTrain szMsg tag att rest) e =
     obind (mcTryQueueTrain raw szMsg tag att rest e) (\<lambda>(a, e').
       Ret (if a = McQueued then [Published (trainObjects raw szMsg tag att rest e)] else [], e'))"
| "mcEvent raw rawAd (Turn ok clock) e =
     obind (mcTurn ok clock (sessionCount e) e) (\<lambda>(again, d, e'). Ret (turnLog (sessionCount e) e d e', e'))"
| "mcEvent raw rawAd (Serve a junk inp) e =
     obind (mcServerRunOnce a junk inp e) (\<lambda>(hello, bss, called, e').
       Ret (Resent bss # map (\<lambda>(sq, i). GivenBack sq (mcObjects e i)) called, e'))"
| "mcEvent raw rawAd AdTimer e = Ret ([], adTimerFires e)"
| "mcEvent raw rawAd FlushTimer e = Ret ([], flushTimerFires e)"
| "mcEvent raw rawAd StartCheck e = Ret ([], startWhenReady e)"
| "mcEvent raw rawAd (RefreshAds locked) e = Ret ([], refreshAds rawAd locked e)"

fun runMc :: "(Payload \<Rightarrow> nat \<Rightarrow> u8) \<Rightarrow> (Advert \<Rightarrow> bytes) \<Rightarrow> McEvent list \<Rightarrow> McEngine \<Rightarrow> (McLog list \<times> McEngine) outcome" where
  "runMc raw rawAd [] e = Ret ([], e)"
| "runMc raw rawAd (ev # evs) e =
     obind (mcEvent raw rawAd ev e) (\<lambda>(l, e1). obind (runMc raw rawAd evs e1) (\<lambda>(l', e2). Ret (l @ l', e2)))"

text \<open>
  What an event needs: messages that fit and are not heads of trains, fewer than \<open>2 ^ 63\<close> of
  them, requests that do not run past the end of the numbers, and no advertisement waiting when
  they are built anew.
\<close>

definition published :: "McEngine \<Rightarrow> nat" where "published e = claimedN (mcBuffer e)"

definition eventOkMc :: "McEngine \<Rightarrow> McEvent \<Rightarrow> bool" where
  "eventOkMc e ev = (case ev of
     PublishPlain tag body \<Rightarrow> tag \<noteq> 5 \<and> length body \<le> mcMaxMessageSize e \<and> published e + 1 < 2 ^ 63
   | PublishTrain szMsg tag att rest \<Rightarrow> trainFits szMsg tag att e \<and> published e + unat (trainLength (meMaxSeg e) (attLen att)) < 2 ^ 63
   | Serve a junk inp \<Rightarrow> serveOk a junk inp e
   | RefreshAds locked \<Rightarrow> list_all (\<lambda>p. case p of AdAt g i \<Rightarrow> False | _ \<Rightarrow> True) (mcToSend e)
   | _ \<Rightarrow> True)"

fun admissible :: "(Payload \<Rightarrow> nat \<Rightarrow> u8) \<Rightarrow> (Advert \<Rightarrow> bytes) \<Rightarrow> McEvent list \<Rightarrow> McEngine \<Rightarrow> bool" where
  "admissible raw rawAd [] e = True"
| "admissible raw rawAd (ev # evs) e =
     (eventOkMc e ev \<and> (case mcEvent raw rawAd ev e of Ret (l, e1) \<Rightarrow> admissible raw rawAd evs e1 | _ \<Rightarrow> False))"

section \<open>Timers and flags\<close>

lemma engInv_cong:
  assumes "engInv r hist e" "mcBuffer e' = mcBuffer e" "mcObjects e' = mcObjects e" "mcRater e' = mcRater e" "mcMtu e' = mcMtu e"
    "mcToSend e' = mcToSend e" "mcWaste e' = mcWaste e" "mcCleanup e' = mcCleanup e" "set (meSessions e') \<subseteq> set (meSessions e)"
    "meLeast e' = meLeast e" "mcMaxMessageSize e' = mcMaxMessageSize e" "meMaxSeg e' = meMaxSeg e"
    "mcAdGeneration e' = mcAdGeneration e \<and> mcAdBufs e' = mcAdBufs e \<or> (\<forall>g i. AdAt g i \<notin> set (mcToSend e))"
  shows "engInv r hist e'"
proof -
  note E = engInvD [OF assms(1)]
  have idle: "idlePiece e' p" if "p \<in> set (mcToSend e)" "idlePiece e p" for p
    using that assms(13) by (auto simp: idlePiece_def split: McPiece.splits)
  have "ringPart r hist e'" using mcInvD(1) [OF E(1)] assms(2,3) by (rule ringPart_cong)
  moreover have "front e' = front e" by (simp add: front_def assms(2,7))
  ultimately have "mcInv r hist e'"
    using mcInvD [OF E(1)] assms(2-8) idle by (auto simp: mcInv_def batchPart_def)
  then show ?thesis using E assms(2-12) by (auto simp: engInv_def)
qed

lemma slowest_less: "ss \<noteq> [] \<Longrightarrow> slowest ss < length ss"
  by (induction ss rule: slowest.induct) (simp_all add: Let_def)

lemma mcKillSlowest_inv:
  assumes "engInv r hist e"
  shows "engInv r hist (mcKillSlowest e)" "sameConfig e (mcKillSlowest e)" "mcBuffer (mcKillSlowest e) = mcBuffer e"
    "mcWaste (mcKillSlowest e) = mcWaste e"
proof -
  show "engInv r hist (mcKillSlowest e)"
    by (rule engInv_cong [OF assms]) (auto simp: mcKillSlowest_def Let_def dest: in_set_takeD in_set_dropD)
qed (simp_all add: mcKillSlowest_def sameConfig_def Let_def)

text \<open>The session that goes is one of the slowest.\<close>

lemma slowest_least: "j < length ss \<Longrightarrow> bufItNext (ss ! slowest ss) \<le> bufItNext (ss ! j)"
proof (induction ss arbitrary: j rule: slowest.induct)
  case (3 s t ss)
  let ?k = "slowest (t # ss)"
  show ?case
  proof (cases j)
    case 0
    then show ?thesis by (simp add: Let_def order.strict_implies_order)
  next
    case (Suc i)
    then have "bufItNext ((t # ss) ! ?k) \<le> bufItNext ((t # ss) ! i)" using 3 by simp
    then show ?thesis using Suc by (auto simp: Let_def not_less intro: order_trans)
  qed
qed simp_all

lemma timers_inv:
  assumes "engInv r hist e" "ev \<in> {AdTimer, FlushTimer, StartCheck} \<or> (\<exists>l. ev = RefreshAds l \<and> eventOkMc e ev)"
  obtains e' where "mcEvent raw rawAd ev e = Ret ([], e')" "engInv r hist e'" "sameConfig e e'" "mcBuffer e' = mcBuffer e"
    "mcWaste e' = mcWaste e" "mcToSend e' = mcToSend e" "set (meSessions e') \<subseteq> set (meSessions e)"
proof -
  have cull: "mcBuffer (mcCullSlow x) = mcBuffer x \<and> mcObjects (mcCullSlow x) = mcObjects x \<and> mcRater (mcCullSlow x) = mcRater x \<and>
      mcMtu (mcCullSlow x) = mcMtu x \<and> mcToSend (mcCullSlow x) = mcToSend x \<and> mcWaste (mcCullSlow x) = mcWaste x \<and>
      mcCleanup (mcCullSlow x) = mcCleanup x \<and> set (meSessions (mcCullSlow x)) \<subseteq> set (meSessions x) \<and> meLeast (mcCullSlow x) = meLeast x \<and>
      mcMaxMessageSize (mcCullSlow x) = mcMaxMessageSize x \<and> meMaxSeg (mcCullSlow x) = meMaxSeg x \<and>
      mcMaxSendBatch (mcCullSlow x) = mcMaxSendBatch x \<and> mcAdGeneration (mcCullSlow x) = mcAdGeneration x \<and> mcAdBufs (mcCullSlow x) = mcAdBufs x" for x
    by (auto simp: mcCullSlow_def mcKillSlowest_def Let_def dest: in_set_takeD in_set_dropD)
  consider "ev = AdTimer" | "ev = FlushTimer" | "ev = StartCheck" | l where "ev = RefreshAds l" "eventOkMc e ev"
    using assms(2) by blast
  then show ?thesis
  proof cases
    case 1
    note c = cull [of "setAdPending e"]
    have "engInv r hist (adTimerFires e)"
      by (rule engInv_cong [OF assms(1)]) (use c in \<open>auto simp: adTimerFires_def Let_def setAdPending_def\<close>)
    then show ?thesis using 1 c by (intro that [of "adTimerFires e"]) (auto simp: adTimerFires_def Let_def setAdPending_def sameConfig_def)
  next
    case 2
    have "engInv r hist (flushTimerFires e)"
      by (rule engInv_cong [OF assms(1)]) (auto simp: flushTimerFires_def setSeqAlertPending_def)
    then show ?thesis using 2 by (intro that [of "flushTimerFires e"]) (auto simp: flushTimerFires_def setSeqAlertPending_def sameConfig_def)
  next
    case 3
    have "engInv r hist (startWhenReady e)"
      by (rule engInv_cong [OF assms(1)]) (auto simp: startWhenReady_def startSend_def)
    then show ?thesis using 3 by (intro that [of "startWhenReady e"]) (auto simp: startWhenReady_def startSend_def sameConfig_def)
  next
    case (4 l)
    have none: "AdAt g i \<notin> set (mcToSend e)" for g i
      using 4 by (auto simp: eventOkMc_def list_all_iff)
    have "engInv r hist (refreshAds rawAd l e)"
      by (rule engInv_cong [OF assms(1)]) (use none in \<open>auto simp: refreshAds_def setAds_def\<close>)
    then show ?thesis using 4 by (intro that [of "refreshAds rawAd l e"]) (auto simp: refreshAds_def setAds_def sameConfig_def)
  qed
qed

section \<open>What a log tells\<close>

definition publishedIn :: "McLog list \<Rightarrow> SlotMessage list" where
  "publishedIn l = concat (map (\<lambda>x. case x of Published ms \<Rightarrow> ms | _ \<Rightarrow> []) l)"

definition spansOf :: "McLog list \<Rightarrow> (nat \<times> nat) list" where
  "spansOf l = concat (map (\<lambda>x. case x of Batch lo hi b \<Rightarrow> [(lo, hi)] | Skipped n lo hi \<Rightarrow> [(lo, hi)] | _ \<Rightarrow> []) l)"

definition givenBack :: "McLog list \<Rightarrow> nat list" where
  "givenBack l = concat (map (\<lambda>x. case x of GivenBack sq m \<Rightarrow> [unat sq] | _ \<Rightarrow> []) l)"

text \<open>Intervals without a gap, one after the other, none of them empty.\<close>

fun mcTiles :: "nat \<Rightarrow> (nat \<times> nat) list \<Rightarrow> nat \<Rightarrow> bool" where
  "mcTiles lo [] hi = (lo = hi)"
| "mcTiles lo ((a, b) # xs) hi = (a = lo \<and> a < b \<and> mcTiles b xs hi)"

text \<open>The message ends a train whose head says that there is something to give back.\<close>

definition endsTrain :: "SlotMessage list \<Rightarrow> nat \<Rightarrow> bool" where
  "endsTrain hist k \<longleftrightarrow> (\<exists>h < length hist. tagAt hist h = 5 \<and> trainEnd hist h = k \<and> smCleanup (hist ! h))"

definition entryOk :: "nat \<Rightarrow> SlotMessage list \<Rightarrow> McLog \<Rightarrow> bool" where
  "entryOk mtu hist x = (case x of
     Batch lo hi b \<Rightarrow> hi \<le> length hist \<and> b = bytesOf hist lo hi \<and> length b \<le> mtu
   | Skipped n lo hi \<Rightarrow> n = 0
   | GivenBack sq m \<Rightarrow> unat sq < length hist \<and> m = hist ! unat sq \<and> endsTrain hist (unat sq)
   | _ \<Rightarrow> True)"

lemma log_simps [simp]:
  "publishedIn [] = []" "publishedIn (l @ l') = publishedIn l @ publishedIn l'"
  "spansOf [] = []" "spansOf (l @ l') = spansOf l @ spansOf l'"
  "givenBack [] = []" "givenBack (l @ l') = givenBack l @ givenBack l'"
  by (simp_all add: publishedIn_def spansOf_def givenBack_def)

lemma log_Cons [simp]:
  "publishedIn (Published ms # l) = ms @ publishedIn l" "publishedIn (Batch lo hi b # l) = publishedIn l"
  "publishedIn (Aside b # l) = publishedIn l" "publishedIn (Skipped n lo hi # l) = publishedIn l"
  "publishedIn (Resent bss # l) = publishedIn l" "publishedIn (GivenBack sq m # l) = publishedIn l"
  "spansOf (Published ms # l) = spansOf l" "spansOf (Batch lo hi b # l) = (lo, hi) # spansOf l"
  "spansOf (Aside b # l) = spansOf l" "spansOf (Skipped n lo hi # l) = (lo, hi) # spansOf l"
  "spansOf (Resent bss # l) = spansOf l" "spansOf (GivenBack sq m # l) = spansOf l"
  "givenBack (Published ms # l) = givenBack l" "givenBack (Batch lo hi b # l) = givenBack l"
  "givenBack (Aside b # l) = givenBack l" "givenBack (Skipped n lo hi # l) = givenBack l"
  "givenBack (Resent bss # l) = givenBack l" "givenBack (GivenBack sq m # l) = unat sq # givenBack l"
  by (simp_all add: publishedIn_def spansOf_def givenBack_def)

lemma mcTiles_append: "mcTiles a xs b \<Longrightarrow> mcTiles b ys c \<Longrightarrow> mcTiles a (xs @ ys) c"
  by (induction a xs b rule: mcTiles.induct) auto

lemma endsTrain_append: "endsTrain hist k \<Longrightarrow> endsTrain (hist @ ms) k"
  unfolding endsTrain_def by (metis append_views length_append trans_less_add1)

lemma entryOk_append: "entryOk mtu hist x \<Longrightarrow> entryOk mtu (hist @ ms) x"
  using range_append(2) [where hist = hist and ms = ms] endsTrain_append [of hist _ ms]
  by (auto simp: entryOk_def nth_append split: McLog.splits)

lemma givenBack_called:
  "publishedIn (map (\<lambda>(sq, i). GivenBack sq (f i)) called) = []" "spansOf (map (\<lambda>(sq, i). GivenBack sq (f i)) called) = []"
  "givenBack (map (\<lambda>(sq, i). GivenBack sq (f i)) called) = map (unat \<circ> fst) called"
  by (induction called) (auto simp del: comp_apply, simp_all)

section \<open>One event\<close>

definition stepOk :: "SlotMessage list \<Rightarrow> McEngine \<Rightarrow> McLog list \<Rightarrow> McEngine \<Rightarrow> bool" where
  "stepOk hist e l e' \<longleftrightarrow> sameConfig e e' \<and> mcTiles (pos0 e) (spansOf l) (pos0 e') \<and> pos1 e \<le> pos1 e' \<and>
     (\<forall>x \<in> set l. entryOk (unat (mcMtu e)) (hist @ publishedIn l) x) \<and>
     sorted_wrt (<) (givenBack l) \<and> (\<forall>k \<in> set (givenBack l). pos1 e \<le> k \<and> k < pos1 e')"

lemma stepOk_quiet: "sameConfig e e' \<Longrightarrow> pos0 e' = pos0 e \<Longrightarrow> pos1 e' = pos1 e \<Longrightarrow> stepOk hist e [] e'"
  by (simp add: stepOk_def)

lemma moved_engine: "moved e e' \<Longrightarrow> sameConfig e e'" for e :: McEngine
  by (auto simp: moved_def sameConfig_def)

lemma mcTurn_step:
  assumes "engInv r hist e"
  obtains l e' where "mcEvent raw rawAd (Turn ok clock) e = Ret (l, e')" "engInv r hist e'" "stepOk hist e l e'" "publishedIn l = []"
    "meSessions e' = meSessions e"
proof -
  let ?n = "sessionCount e"
  obtain again d e' where t: "mcTurn ok clock ?n e = Ret (again, d, e')" "mcInv r hist e'" "moved e e'" "turnResult hist ?n e d e'"
    using mcTurn_spec [OF engInvD(1) [OF assms], of ok clock ?n] by blast
  have p: "pos1 e' = pos1 e" "pos0 e \<le> pos0 e'" using t(4) by (simp_all add: turnResult_def)
  have fr: "front e \<le> length hist" "mcWaste e \<noteq> 0 \<longleftrightarrow> pos0 e < front e"
    using mcInvD(7) [OF engInvD(1) [OF assms]] by (simp_all add: front_def unat_gt_0)
  have "engInv r hist e'" by (rule engInv_moved [OF assms t(2,3) p])
  moreover have "stepOk hist e (turnLog ?n e d e') e'"
    using t(4) p fr moved_engine [OF t(3)]
    by (auto simp: stepOk_def turnLog_def turnResult_def entryOk_def Let_def front_def split: option.splits)
  moreover have "publishedIn (turnLog ?n e d e') = []" by (simp add: turnLog_def Let_def split: option.splits)
  moreover have "meSessions e' = meSessions e" using t(3) by (auto simp: moved_def)
  ultimately show ?thesis using t(1) by (intro that [of "turnLog ?n e d e'" e']) simp_all
qed

lemma serve_step:
  assumes "engInv r hist e" "serveOk a junk inp e"
  obtains l e' where "mcEvent raw rawAd (Serve a junk inp) e = Ret (l, e')" "engInv r hist e'" "stepOk hist e l e'" "publishedIn l = []"
proof -
  obtain hello bss called e' where s: "mcServerRunOnce a junk inp e = Ret (hello, bss, called, e')" "engInv r hist e'" "sameConfig e e'"
      "pos0 e' = pos0 e" "pos1 e \<le> pos1 e'" "calledOk hist (pos1 e) (pos1 e') e called" "mcObjects e' = mcObjects e"
    by (rule mcServerRunOnce_spec [OF assms]) blast
  have le: "pos1 e' \<le> length hist"
    using ringPartD(5,12) [OF mcInvD(1) [OF engInvD(1) [OF s(2)]]] by simp
  let ?l = "Resent bss # map (\<lambda>(sq, i). GivenBack sq (mcObjects e i)) called"
  note g = givenBack_called [of "mcObjects e" called]
  have "\<forall>x \<in> set ?l. entryOk (unat (mcMtu e)) hist x"
  proof
    fix x assume "x \<in> set ?l"
    then consider "x = Resent bss" | sq i where "x = GivenBack sq (mcObjects e i)" "(sq, i) \<in> set called" by auto
    then show "entryOk (unat (mcMtu e)) hist x"
    proof cases
      case 2
      then have "unat sq < pos1 e'" "mcObjects e i = hist ! unat sq" "endsTrain hist (unat sq)"
        using s(6) by (auto simp: calledOk_def endsTrain_def)
      then show ?thesis using 2(1) le by (simp add: entryOk_def)
    qed (simp add: entryOk_def)
  qed
  moreover have "\<forall>k \<in> set (map (unat \<circ> fst) called). pos1 e \<le> k \<and> k < pos1 e'"
    using s(6) by (auto simp: calledOk_def)
  ultimately have "stepOk hist e ?l e'"
    using s g by (simp add: stepOk_def calledOk_def)
  then show ?thesis using s(1,2,7) g by (intro that [of ?l e']) simp_all
qed

lemma published_length: "engInv r hist e \<Longrightarrow> published e = length hist"
  using ringPartD(6) [OF mcInvD(1) [OF engInvD(1)]] by (simp add: published_def)

lemma publish_stepOk:
  "sameConfig e e' \<Longrightarrow> pos0 e' = pos0 e \<Longrightarrow> pos1 e' = pos1 e \<Longrightarrow> stepOk hist e (if c then [Published ms] else []) e'"
  by (simp add: stepOk_def entryOk_def)

lemma event_step:
  assumes "engInv r hist e" "eventOkMc e ev"
  obtains l e' where "mcEvent raw rawAd ev e = Ret (l, e')" "engInv r (hist @ publishedIn l) e'" "stepOk hist e l e'"
proof (cases ev)
  case (PublishPlain tag body)
  then have "tag \<noteq> 5" "length body \<le> mcMaxMessageSize e" "length hist + 1 < 2 ^ 63"
    using assms(2) published_length [OF assms(1)] by (simp_all add: eventOkMc_def)
  from mcTryQueue_spec [OF assms(1) this] obtain answer ms e' where q: "mcTryQueue tag body e = (Inl answer, e')"
      "engInv r (hist @ ms) e'" "sameConfig e e'" "pos0 e' = pos0 e" "pos1 e' = pos1 e"
      "ms = (if answer = McQueued then [plainObject (toBeClaimedSeq (mcBuffer e)) tag body] else [])" by blast
  have "mcEvent raw rawAd ev e = Ret (if answer = McQueued then [Published ms] else [], e')"
    using q(1,6) by (cases answer) (simp_all add: PublishPlain)
  then show ?thesis
    by (rule that) (use q publish_stepOk [OF q(3-5)] in \<open>auto split: if_splits\<close>)
next
  case (PublishTrain szMsg tag att rest)
  then have "trainFits szMsg tag att e" "length hist + unat (trainLength (meMaxSeg e) (attLen att)) < 2 ^ 63"
    using assms(2) published_length [OF assms(1)] by (simp_all add: eventOkMc_def)
  from mcTryQueueTrain_spec [OF assms(1) this, of raw rest] obtain answer ms e' where
      q: "mcTryQueueTrain raw szMsg tag att rest e = Ret (answer, e')" "engInv r (hist @ ms) e'" "sameConfig e e'" "pos0 e' = pos0 e"
      "pos1 e' = pos1 e" "ms = (if answer = McQueued then trainObjects raw szMsg tag att rest e else [])" by blast
  have "mcEvent raw rawAd ev e = Ret (if answer = McQueued then [Published ms] else [], e')"
    using q(1,6) by (simp add: PublishTrain)
  then show ?thesis
    by (rule that) (use q publish_stepOk [OF q(3-5)] in \<open>auto split: if_splits\<close>)
next
  case (Turn ok clock)
  obtain l e' where "mcEvent raw rawAd ev e = Ret (l, e')" "engInv r hist e'" "stepOk hist e l e'" "publishedIn l = []"
    unfolding Turn by (rule mcTurn_step [OF assms(1)])
  then show ?thesis by (intro that) simp_all
next
  case (Serve a junk inp)
  have "serveOk a junk inp e" using assms(2) by (simp add: eventOkMc_def Serve)
  then obtain l e' where "mcEvent raw rawAd ev e = Ret (l, e')" "engInv r hist e'" "stepOk hist e l e'" "publishedIn l = []"
    unfolding Serve by (rule serve_step [OF assms(1)])
  then show ?thesis by (intro that) simp_all
qed (rule timers_inv [OF assms(1), of ev raw rawAd], use assms(2) in simp, use that stepOk_quiet in simp)+

section \<open>Runs\<close>

lemma run_steps:
  assumes "engInv r hist e" "admissible raw rawAd evs e"
  shows "\<exists>l e'. runMc raw rawAd evs e = Ret (l, e') \<and> engInv r (hist @ publishedIn l) e' \<and> stepOk hist e l e'"
  using assms
proof (induction evs arbitrary: hist e)
  case Nil
  then show ?case by (simp add: stepOk_quiet)
next
  case (Cons ev evs)
  have ok: "eventOkMc e ev" using Cons.prems(2) by simp
  obtain l e1 where s: "mcEvent raw rawAd ev e = Ret (l, e1)" "engInv r (hist @ publishedIn l) e1" "stepOk hist e l e1"
    by (rule event_step [OF Cons.prems(1) ok])
  have "admissible raw rawAd evs e1" using Cons.prems(2) s(1) by simp
  from Cons.IH [OF s(2) this] obtain l' e2 where t: "runMc raw rawAd evs e1 = Ret (l', e2)"
      "engInv r ((hist @ publishedIn l) @ publishedIn l') e2" "stepOk (hist @ publishedIn l) e1 l' e2" by blast
  have mtu: "mcMtu e1 = mcMtu e" using s(3) by (simp add: stepOk_def sameConfig_def)
  have entries: "\<forall>x \<in> set (l @ l'). entryOk (unat (mcMtu e)) (hist @ publishedIn (l @ l')) x"
    using s(3) t(3) entryOk_append [of "unat (mcMtu e)" "hist @ publishedIn l" _ "publishedIn l'"]
    by (auto simp: stepOk_def mtu)
  have "sorted_wrt (<) (givenBack (l @ l')) \<and> (\<forall>k \<in> set (givenBack (l @ l')). pos1 e \<le> k \<and> k < pos1 e2)"
    using s(3) t(3) by (fastforce simp: stepOk_def sorted_wrt_append)
  then have "stepOk hist e (l @ l') e2"
    using s(3) t(3) entries sameConfig_trans mcTiles_append by (auto simp: stepOk_def)
  then show ?case using s(1) t(1,2) by simp
qed

text \<open>A new engine over an empty ring of two readers.\<close>

lemma newMcEngine_inv:
  assumes "newMcEngine b objs rt maxSize mtu batch burst replay minRecv waits base junk = Ret e"
    "newMemRingBuffer slots 2 v r = Ret b" "3 \<le> v" "\<And>i. length (slotData (slots i)) + seqBytes = 2 ^ v"
    "raterOff rt" "\<And>i. length (wBody (smWire (objs i))) < 2 ^ 16" "28 \<le> unat mtu" "unat mtu < 2 ^ 62"
  shows "engInv r [] e" "pos0 e = 0" "pos1 e = 0" "mcMaxSendBatch e = batch" "unat (mcMtu e) = unat mtu - 28"
proof -
  note B = newMemRingBuffer_spec [OF assms(2) zero_less_numeral assms(3,4)]
  have mtu: "unat (mtu - (8 + 20)) = unat mtu - 28" using assms(7) by (simp add: unat_sub word_le_nat_alt)
  have sz: "maxSize + 11 \<le> unat mtu - 28" "maxSize \<le> 1023"
    using assms(1) mtu by (auto simp: newMcEngine_def split: if_splits)
  have e: "mcBuffer e = b" "mcObjects e = objs" "mcRater e = rt" "mcMaxMessageSize e = maxSize" "mcMtu e = mtu - (8 + 20)"
    "mcMaxSendBatch e = batch" "mcToSend e = []" "mcWaste e = 0" "mcCleanup e = []" "meSessions e = []" "meLeast e = noSeq"
    "meMaxSeg e = ucast (min (mtu - (8 + 20) - 3 - 8) (1023 - 8))"
    using assms(1) by (auto simp: newMcEngine_def split: if_splits)
  have l: "live b 0" "live b 1" using B(3) by simp_all
  have z: "readN b j = 0" if "live b j" for j using seq_invD(2) [OF B(1) that] B(5) by simp
  have pos: "readN b 0 = 0" "readN b 1 = 0" using z l by simp_all
  have ring: "ringPart r [] e" using B l pos assms(6) e by (simp add: ringPart_def)
  have sub: "unat (mtu - (8 + 20) - 3 - 8) = unat mtu - 39"
    using sz(1) mtu by (simp add: unat_sub word_le_nat_alt)
  have "unat (min (mtu - (8 + 20) - 3 - 8) (1023 - 8)) = min (unat mtu - 39) 1015"
    using sub by (simp add: min_def word_le_nat_alt)
  then have seg: "unat (meMaxSeg e) = min (unat mtu - 39) 1015"
    by (simp only: e(12)) (simp add: unsigned_ucast_eq take_bit_nat_eq_self)
  have "mcInv r [] e"
    using ring e assms(5,8) pos mtu by (simp add: mcInv_def batchPart_def cleanPart_def front_def histOk_def trainsOk_def)
  then show "engInv r [] e" using e seg sz mtu by (simp add: engInv_def) linarith
  show "pos0 e = 0" "pos1 e = 0" "mcMaxSendBatch e = batch" "unat (mcMtu e) = unat mtu - 28" using pos e mtu by simp_all
qed

end
