(* ===== verification/McastProperties.thy ===== *)
theory McastProperties
  imports McastRuns "HOL-Library.Code_Target_Nat" "HOL-Library.Sublist"
begin

text \<open>
  The properties of the sending end of the reliable multicast, over runs of its events from a new
  engine, and the runs in which it fails.
\<close>

text \<open>Small numbers need no \<open>mod\<close> when an example is evaluated.\<close>

lemma take_bit_small [code]:
  "take_bit n (k :: int) = (if 0 \<le> k \<and> k < 65536 \<and> (n = 64 \<or> n = 16 \<or> n = 48) then k
     else if n = 64 then k mod 18446744073709551616 else k mod 2 ^ n)"
  by (auto simp: take_bit_eq_mod)

section \<open>Runs from the start\<close>




section \<open>Examples\<close>

definition demoMcRing :: MemRingBuffer where
  "demoMcRing = (case newMemRingBuffer (\<lambda>_. \<lparr>slotSeq = 0, slotData = replicate 8 0\<rparr>) 2 4 2 of Ret b \<Rightarrow> b)"

definition demoSlot :: SlotMessage where
  "demoSlot = \<lparr>smWire = \<lparr>wFlag = 0, wSeq = 0, wTag = 0, wBody = [], wInband = 0\<rparr>, smSegCount = 0, smCleanup = False\<rparr>"

definition demoAd :: Advert where
  "demoAd = \<lparr>adIp = ''10.0.0.1'', adPort = 4321, adTags = [], adDelay = Duration 0, adTime = SysTime 0, adLoopback = False, adPid = 1\<rparr>"

definition demoMcRater :: Rater where
  "demoMcRater = \<lparr>drop_ns = Duration 0, bucket = Duration 0, currentLevel = Duration 0, previousCheck = SysTime 0,
     enabled = False, lastN = 0\<rparr>"

definition demoMc :: McEngine where
  "demoMc = (case newMcEngine demoMcRing (\<lambda>_. demoSlot) demoMcRater 60 228 4 0 0 0 False demoAd (0, 0) of Ret e \<Rightarrow> e)"


definition demoRaw :: "Payload \<Rightarrow> nat \<Rightarrow> u8" where "demoRaw p k = 0"
definition demoRawAd :: "Advert \<Rightarrow> bytes" where "demoRawAd a = [1, 2]"

text \<open>A peer that says something and takes up to 200 bytes in a write.\<close>

definition says :: "string \<Rightarrow> nat \<Rightarrow> PeerInput" where
  "says t k = \<lparr>siRead = Received t, siWritable = True, siWrites = [Room 200]\<rparr>"

definition demoAtt :: MemoryAttachment where "demoAtt = \<lparr>attMem = Some [5, 6], attLen = 2, attCleanup = True\<rparr>"

text \<open>A peer subscribes to tag 1001 and a message with an attachment is published.\<close>

definition demoOpen :: "McEvent list" where
  "demoOpen = [Serve (Connected True) 0 (says (''+5'' @ [TAB] @ ''+6'' @ [TAB] @ ''+1001'' @ [TAB] @ ''+'' @ [TAB])), StartCheck,
     PublishTrain 48 1001 demoAtt []]"

text \<open>It is multicast; the peer reports that it has all of it.\<close>

definition demoMcRun :: "McEvent list" where
  "demoMcRun = demoOpen @ [Turn True (\<lambda>_. SysTime 0), Turn True (\<lambda>_. SysTime 0),
     Serve NoConnection 0 (says (''=3,0'' @ [TAB]))]"

text \<open>From an evaluated run to what it showed.\<close>

lemma returned:
  "(case x of Ret (l, e) \<Rightarrow> P l e | _ \<Rightarrow> False) \<Longrightarrow> \<exists>l e. x = Ret (l, e) \<and> P l e"
  by (auto split: outcome.splits)

fun thenMc :: "(Payload \<Rightarrow> nat \<Rightarrow> u8) \<Rightarrow> (Advert \<Rightarrow> bytes) \<Rightarrow> (McLog list \<times> McEngine) outcome \<Rightarrow> McEvent \<Rightarrow>
    (McLog list \<times> McEngine) outcome" where
  "thenMc raw rawAd (Ret (l, e)) ev = obind (mcEvent raw rawAd ev e) (\<lambda>(l', e'). Ret (l @ l', e'))"
| "thenMc raw rawAd r ev = r"

lemma thenMc_stuck: "(\<forall>x. r \<noteq> Ret x) \<Longrightarrow> foldl (thenMc raw rawAd) r evs = r"
  by (induction evs) (cases r; simp)+

lemma thenMc_run: "foldl (thenMc raw rawAd) (Ret (l, e)) evs = obind (runMc raw rawAd evs e) (\<lambda>(l', e'). Ret (l @ l', e'))"
proof (induction evs arbitrary: l e)
  case (Cons ev evs)
  then show ?case by (cases "mcEvent raw rawAd ev e") (auto simp: thenMc_stuck obind_assoc split_def)
qed simp

lemma runMc_code [code]: "runMc raw rawAd evs e = foldl (thenMc raw rawAd) (Ret ([], e)) evs"
  unfolding thenMc_run by (cases "runMc raw rawAd evs e") auto





section \<open>Delivery\<close>



section \<open>Sessions\<close>



section \<open>Attachments\<close>



section \<open>Draining\<close>




section \<open>Where the engine fails\<close>

text \<open>C40: A request whose end is past the last number passes the check and sets a session back to 0:
  it then gets a train again whose attachment was given back.\<close>

lemma mcast_wrapped_request:
  "\<exists>l e'. runMc demoRaw demoRawAd
       (demoMcRun @ [Serve NoConnection 0 (says (''=18446744073709551615,1'' @ [TAB])), Serve NoConnection 0 (says (''=0,3'' @ [TAB]))])
       demoMc = Ret (l, e') \<and>
     givenBack l = [2] \<and> last l = Resent [bytesOf (publishedIn l) 0 3] \<and> readN (mcBuffer e') 1 = 3"
proof -
  have "case runMc demoRaw demoRawAd
       (demoMcRun @ [Serve NoConnection 0 (says (''=18446744073709551615,1'' @ [TAB])), Serve NoConnection 0 (says (''=0,3'' @ [TAB]))])
       demoMc of
     Ret (l, e') \<Rightarrow> givenBack l = [2] \<and> last l = Resent [bytesOf (publishedIn l) 0 3] \<and> readN (mcBuffer e') 1 = 3 | _ \<Rightarrow> False"
    by code_simp
  then show ?thesis by (rule returned)
qed

end
