(* ===== verification/Spec2Isabelle.thy ===== *)
theory Spec2Isabelle
  imports RingProperties QueueProperties BlockingProperties SeqArbThreads BlockingBufferRt MemRingBufferRt
    AttachmentTrainSpec BackupProtocol PoolSpec TimersSpec Rater TcpRecvProperties UdpProperties McastProperties
begin

text \<open>
  A verification development of \<^verbatim>\<open>hmbdc\<close>, a header-only C++ library for messages between the
  threads, processes and hosts of one application. Paths are relative to \<^verbatim>\<open>src/\<close>.

  \<^bold>\<open>The program.\<close> A message goes from a node through a buffer to the threads that run the other
  nodes of the process, and through a transport to other hosts. The buffers
  (\<^verbatim>\<open>hmbdc/pattern\<close>) are rings: one in which every consumer sees every message, one in which the
  consumers share the messages, and two that block or overwrite. A pool (\<^verbatim>\<open>PoolT.ipp\<close>,
  \<^verbatim>\<open>PoolMinusImpl.hpp\<close>) is a group of threads that offer what they read to consumers
  (\<^verbatim>\<open>PoolConsumer.hpp\<close>), and an arbitrator (\<^verbatim>\<open>SeqArb.hpp\<close>) lets the first of several copies of a
  message through. The TCP transport (\<^verbatim>\<open>hmbdc/tips/tcpcast\<close>) takes messages from a ring, groups
  neighbours of one tag into batches and writes each to the connections that subscribe to the tag;
  the other end parses the stream back into messages and downloads their attachments. The UDP
  transport (\<^verbatim>\<open>hmbdc/tips/udpcast\<close>) packs messages into datagrams that may get lost. The reliable multicast transport (\<^verbatim>\<open>hmbdc/tips/rmcast\<close>,
  \<^verbatim>\<open>hmbdc/tips/reliable\<close>) keeps what it has multicast in a ring and sends it again over TCP when a
  receiver reports a gap. Timers and rate limits (\<^verbatim>\<open>hmbdc/time\<close>) serve them all.

  \<^bold>\<open>Conventions.\<close> \<open>size_t\<close>, \<^verbatim>\<open>uint64_t\<close> and sequence numbers are \<open>64 word\<close>, tags are
  \<open>16 word\<close>, bytes are \<open>8 word\<close>; signed times are \<open>int\<close> with every overflow \<open>Undefined\<close>. An
  operation has the type \<open>'a outcome\<close> (\<open>Prelude\<close>): it returns, throws, spins (run alone, it would
  wait for ever) or is undefined in C++. Objects are records, passed and returned. Memory order is
  sequentially consistent: fences, yields and cache alignment are not modelled. Where threads matter,
  a step relation has one step for each access that others can see.

  \<^bold>\<open>Theories and what they model.\<close>

  \<^item> \<open>Prelude\<close>: outcomes, \<^verbatim>\<open>memcpy\<close>, sequence arithmetic. \<open>BitMath\<close>:
    \<^verbatim>\<open>numeric/BitMath.hpp\<close> and the slot sizes. \<open>LockFreeBufferMisc\<close>:
    \<^verbatim>\<open>pattern/LockFreeBufferMisc.hpp\<close>, a chunk of slots and the iterator over it.
  \<^item> \<open>MemRingBuffer\<close>: \<^verbatim>\<open>pattern/MemRingBuffer.hpp\<close>, the ring in which each consumer reads every
    message. \<open>MemRingBufferSpec\<close> has the invariant of the ring and what is unread for each consumer;
    \<open>RingOperations\<close> the effect of each operation on it; \<open>RingConcurrency\<close> the interleaved steps of
    producers, consumers and kills, and their invariant; \<open>RingProperties\<close> the contract.
  \<^item> \<open>MemRingBuffer0\<close>: \<^verbatim>\<open>pattern/MemRingBuffer2.hpp\<close>, the ring whose consumers share the
    messages, with \<open>MemRingBuffer0Spec\<close>, \<open>QueueOperations\<close> and \<open>QueueProperties\<close> in the same roles.
    \<open>Fifo\<close> is the contract of a bounded queue, a locale; \<open>MemRingBuffer0\<close> and \<open>BlockingBuffer\<close> are
    its interpretations.
  \<^item> \<open>BlockingBuffer\<close>: \<^verbatim>\<open>pattern/BlockingBuffer.hpp\<close>; \<open>BlockingBufferSpec\<close> refines it to a list;
    \<open>BlockingThreads\<close> has the threads that sleep and are notified; \<open>BlockingProperties\<close> the contract.
    \<open>BlockingBufferRt\<close> and \<open>MemRingBufferRt\<close>: the buffers of the same names that push out or
    overwrite the oldest messages.
  \<^item> \<open>SeqArb\<close> and \<open>SeqArbThreads\<close>: \<^verbatim>\<open>pattern/SeqArb.hpp\<close>, the call and its interleavings.
  \<^item> \<open>PoolConsumer\<close>: \<^verbatim>\<open>pattern/PoolConsumer.hpp\<close>, the sequential \<^verbatim>\<open>handleRange\<close> and the atomic
    steps of several threads in it; \<open>PoolConsumerSpec\<close> their invariant. \<open>Pool\<close>:
    \<^verbatim>\<open>pattern/PoolMinusImpl.hpp\<close> and \<^verbatim>\<open>pattern/PoolT.ipp\<close>; \<open>PoolSpec\<close> the books of a pool.
  \<^item> \<open>TypeTagSet\<close>: \<^verbatim>\<open>tips/TypeTagSet.hpp\<close>, the tags a process publishes and subscribes to; the
    locale \<open>tag_set\<close> is what the walks over the message types need of a set of tags, interpreted on
    both classes.
  \<^item> \<open>AttachmentTrain\<close>: \<^verbatim>\<open>queue\<close> of \<^verbatim>\<open>tips/rmcast/SendTransportEngine.hpp\<close>, which cuts an
    attachment into messages, and \<^verbatim>\<open>tips/reliable/AttBufferAdaptor.hpp\<close>, which puts it together
    again; \<open>AttachmentTrainSpec\<close> composes them.
  \<^item> \<open>SessionText\<close>: the decimal numbers and partial writes the sessions use. \<open>BackupSendSession\<close> and
    \<open>BackupRecvSession\<close>: \<^verbatim>\<open>tips/reliable/BackupSendSessionT.hpp\<close> and
    \<^verbatim>\<open>BackupRecvSessionT.hpp\<close>, the two ends of the TCP connection. \<open>BackupSendSpec\<close> says what a
    sender owes, \<open>BackupText\<close> that each command of the receiver is read as it was meant,
    \<open>BackupStream\<close> that the receiver takes the stream apart into the messages the sender put into it,
    and \<open>BackupProtocol\<close> that both together deliver over a multicast that loses, repeats and reorders.
  \<^item> \<open>TcpSend\<close>: \<^verbatim>\<open>tips/tcpcast/SendSession.hpp\<close> and \<^verbatim>\<open>SendServer.hpp\<close>, the sessions of a
    sender and the server whose queue of batches they share; \<open>TcpSendSpec\<close>: what went out on a
    connection with what is still owed to it are the bytes of the batches. \<open>TcpEngine\<close>:
    \<^verbatim>\<open>tips/tcpcast/SendTransportEngine.hpp\<close> over the ring of \<open>MemRingBuffer0\<close>, batches being
    pointers into its slots; \<open>TcpEngineSpec\<close> has the parts of a round, \<open>TcpDelivery\<close> the
    invariant of the engine through rounds, \<open>TcpRuns\<close> publications and rounds in any order,
    \<open>TcpProperties\<close> the contract. \<open>TcpRecv\<close>: \<^verbatim>\<open>tips/tcpcast/RecvSession.hpp\<close>;
    \<open>TcpRecvSpec\<close>: every call takes its state one step along the messages of the stream, however
    the bytes come in pieces; \<open>TcpRecvProperties\<close>: the receiver's contract and both ends together.
  \<^item> \<open>UdpSend\<close> and \<open>UdpRecv\<close>: \<^verbatim>\<open>tips/udpcast/SendTransportEngine.hpp\<close>, \<^verbatim>\<open>Messages.hpp\<close> and
    \<^verbatim>\<open>RecvTransportEngine.hpp\<close>; \<open>UdpSendSpec\<close> has the invariant of the sender and what one turn of it
    puts into datagrams, \<open>UdpProperties\<close> runs of turns and publications, the receiver, both ends over a
    network that loses, repeats and reorders, and the ways the transport fails.
  \<^item> \<open>TimeTypes\<close>, \<open>Rater\<close>, \<open>Timers\<close>, \<open>TimersSpec\<close>: \<^verbatim>\<open>time/Time.hpp\<close>, \<^verbatim>\<open>time/Rater.hpp\<close>
    and \<^verbatim>\<open>time/Timers.hpp\<close>.

  \<^bold>\<open>What the lemmas show.\<close> For each buffer: an invariant that every operation keeps, a refinement to
  a list (or to one list for each consumer), and the result of every operation on every branch. For
  the interleaved models: an invariant by rule induction, from which delivery in order and without
  loss, absence of lost wake-ups, and mutual exclusion follow. For the transport: encodings that are
  read back as they were written, bytes that are conserved by partial writes, and delivery end to end.
  For pools and timers: who is told what and when, and that the loops end. Where the code fails its
  purpose, a theorem exhibits the run.

  \<^bold>\<open>Bounds.\<close> Sequence numbers are finite. The ring theorems hold while fewer than \<open>2 ^ 63\<close> sequence
  numbers have been claimed (\<open>maxN\<close>, \<open>limit0\<close>, \<open>bb_limit\<close>, \<open>limitR\<close>), at a billion messages a
  second nearly three centuries; capacities are powers of two below \<open>2 ^ 40\<close>; an arbitrator's
  numbers stay off the lock value (\<open>arbValid\<close>); the wire format has 48 bits for a sequence number, so
  the protocol's stay below \<open>2 ^ 48 - 1\<close>. Loops that wait for other threads are partial functions
  or run on fuel: 64 rounds in \<open>peekSome\<close>; the timers' loops end when there is one unit of fuel more
  than timers are due, the clean-up of a pool with one more than consumers wait, and the theorems say
  so. The TCP theorems are for messages of one tag with the rate limit off, for the reason
  \<open>tcp_tag_change_loses\<close> shows, in slots of 64 bytes or more, with attachments below \<open>2 ^ 30\<close> bytes and fewer
  publications than \<open>limit0\<close>; the receivers send heartbeats once they have subscribed. The theorems on a receiver
  need an allocator that delivers (\<open>tcp_recv_alloc_desync\<close> has one that does not), messages that
  fit its buffer, and items of 48 bytes or more. The UDP theorems are for a socket that is ready by
  the first message (\<open>udp_unready_replaces\<close> shows why), the rate limit off, and destinations that never
  fail; \<open>resumeSend\<close> runs on fuel, for which \<open>udp_drains\<close> has a bound. \<open>IGNORE\<close> and \<open>STOP\<close> of a pool consumer are the two numbers below the largest; ranges end
  below them.

  \<^bold>\<open>Parameters.\<close> The results of \<^verbatim>\<open>send\<close>, \<^verbatim>\<open>sendmsg\<close> and \<^verbatim>\<open>recv\<close>, the clock, the calendar of the
  C library, the user's callbacks and allocators are arguments; user callbacks may do anything the
  interface allows, throwing included, and a theorem that needs more says so in a hypothesis.

  \<^bold>\<open>Not modelled.\<close> The contexts (\<^verbatim>\<open>app/Context.hpp\<close>, \<^verbatim>\<open>app/BlockingContext.hpp\<close> and its
  \<^verbatim>\<open>Rt\<close> version), domains and nodes (\<^verbatim>\<open>tips/Domain.hpp\<close>, \<^verbatim>\<open>tips/Node.hpp\<close>) wire the parts above
  together by templates over the user's message types. The advertisements of the TCP
  transport and the engine that turns them into sessions, the backup server
  around the send sessions and the recorder (\<^verbatim>\<open>tips/Bag.hpp\<close>) are next. Configuration, logging, the
  consoles and the wrappers of the operating system have no logic of their own that a model without
  files and sockets would show. In the modelled files, what is left out is named in the theory's
  opening text: allocation, log output, socket options, the conversions to floating point.

  \<^bold>\<open>Plan.\<close> In this order: the backup server and the
  rest of the multicast send engine, the advertisements, the dispatch loops of the blocking contexts, the record and play of bags,
  the pump of a domain over the modelled buffers.
\<close>

end
